(* ===== verification/Prelude.thy ===== *)
theory Prelude
  imports Main "HOL-Library.Word" "HOL-Library.Multiset"
begin

unbundle bit_operations_syntax

text \<open>
  Shared vocabulary of the development: the C integer types, the fatal outcomes of a C function,
  the error monad that sequences C statements, and the generic lemmas on lists, options and
  words that the component theories use.
\<close>

section \<open>Machine types\<close>

type_synonym u8 = "8 word"
type_synonym u32 = "32 word"
type_synonym u64 = "64 word"

section \<open>Fatal outcomes and the error monad\<close>

text \<open>
  A C function either returns or ends in one of the outcomes below: a failed \<open>assert\<close>, the
  dereference of a null pointer, an access outside the object a pointer points into, a division
  by zero, an access to freed or never written memory, an overflow of signed arithmetic, \<open>exit\<close> with a status, a kernel
  \<open>panic\<close> with its message, or (for loops modelled with fuel) not ending within the given
  number of iterations.
\<close>

datatype c_error =
    Assert_Failed
  | Null_Deref
  | Out_Of_Bounds
  | Div_By_Zero
  | Bad_Memory
  | Int_Overflow
  | Exit int
  | Panic string
  | Out_Of_Fuel

type_synonym 'a res = "c_error + 'a"

definition bindR :: "'a res \<Rightarrow> ('a \<Rightarrow> 'b res) \<Rightarrow> 'b res" where
  "bindR m f = (case m of Inl e \<Rightarrow> Inl e | Inr x \<Rightarrow> f x)"

definition assertR :: "bool \<Rightarrow> unit res" where
  "assertR b = (if b then Inr () else Inl Assert_Failed)"

definition guardR :: "c_error \<Rightarrow> bool \<Rightarrow> unit res" where
  "guardR e b = (if b then Inr () else Inl e)"

named_theorems res_simps \<open>evaluation of the error monad\<close>

lemma bindR_Inl [simp, res_simps]: "bindR (Inl e) f = Inl e"
  by (simp add: bindR_def)

lemma bindR_Inr [simp, res_simps]: "bindR (Inr x) f = f x"
  by (simp add: bindR_def)

lemma assertR_True [simp, res_simps]: "assertR True = Inr ()"
  by (simp add: assertR_def)

lemma assertR_False [simp, res_simps]: "assertR False = Inl Assert_Failed"
  by (simp add: assertR_def)

lemma assertR_eq_Inr [simp]: "assertR b = Inr u \<longleftrightarrow> b"
  by (simp add: assertR_def)

lemma guardR_True [simp, res_simps]: "guardR e True = Inr ()"
  by (simp add: guardR_def)

lemma guardR_False [simp, res_simps]: "guardR e False = Inl e"
  by (simp add: guardR_def)

lemma guardR_eq_Inr [simp]: "guardR e b = Inr u \<longleftrightarrow> b"
  by (simp add: guardR_def)

lemma bindR_eq_Inr: "bindR m f = Inr y \<longleftrightarrow> (\<exists>x. m = Inr x \<and> f x = Inr y)"
  by (simp add: bindR_def split: sum.splits)

lemma bindR_eq_InrE [elim]:
  assumes "bindR m f = Inr y"
  obtains x where "m = Inr x" and "f x = Inr y"
  using assms by (auto simp: bindR_eq_Inr)

lemma bindR_cong [fundef_cong]:
  assumes "m = m'" and "\<And>x. m' = Inr x \<Longrightarrow> f x = f' x"
  shows "bindR m f = bindR m' f'"
  using assms by (auto simp: bindR_def split: sum.splits)

lemma bindR_assoc: "bindR (bindR m f) g = bindR m (\<lambda>x. bindR (f x) g)"
  by (simp add: bindR_def split: sum.splits)

text \<open>Addition of signed 32-bit integers, whose overflow is undefined.\<close>

definition int_add :: "int \<Rightarrow> int \<Rightarrow> int res" where
  "int_add a b = (if a + b < - (2 ^ 31) \<or> a + b \<ge> 2 ^ 31 then Inl Int_Overflow else Inr (a + b))"

section \<open>Checked array access\<close>

text \<open>A C array as a list: reading or writing outside it is an error of the model.\<close>

definition arr_get :: "'a list \<Rightarrow> nat \<Rightarrow> 'a res" where
  "arr_get xs i = (if i < length xs then Inr (xs ! i) else Inl Out_Of_Bounds)"

definition arr_set :: "'a list \<Rightarrow> nat \<Rightarrow> 'a \<Rightarrow> 'a list res" where
  "arr_set xs i x = (if i < length xs then Inr (xs[i := x]) else Inl Out_Of_Bounds)"

lemma arr_get_ok [simp]: "i < length xs \<Longrightarrow> arr_get xs i = Inr (xs ! i)"
  by (simp add: arr_get_def)

lemma arr_set_ok [simp]: "i < length xs \<Longrightarrow> arr_set xs i x = Inr (xs[i := x])"
  by (simp add: arr_set_def)

lemma arr_get_eq_Inr: "arr_get xs i = Inr x \<longleftrightarrow> i < length xs \<and> x = xs ! i"
  by (auto simp: arr_get_def)

lemma arr_set_eq_Inr: "arr_set xs i x = Inr ys \<longleftrightarrow> i < length xs \<and> ys = xs[i := x]"
  by (auto simp: arr_set_def)

text \<open>\<open>memcpy\<close> and \<open>memmove\<close> of \<open>n\<close> elements between two different arrays.\<close>

definition arr_blit :: "'a list \<Rightarrow> nat \<Rightarrow> 'a list \<Rightarrow> nat \<Rightarrow> nat \<Rightarrow> 'a list res" where
  "arr_blit dst i src j n =
     (if i + n \<le> length dst \<and> j + n \<le> length src
      then Inr (take i dst @ take n (drop j src) @ drop (i + n) dst)
      else Inl Out_Of_Bounds)"

lemma arr_blit_ok [simp]:
  "i + n \<le> length dst \<Longrightarrow> j + n \<le> length src \<Longrightarrow>
   arr_blit dst i src j n = Inr (take i dst @ take n (drop j src) @ drop (i + n) dst)"
  by (simp add: arr_blit_def)

text \<open>The elements of an array from one index up to, but not including, another.\<close>

definition seg :: "nat \<Rightarrow> nat \<Rightarrow> 'a list \<Rightarrow> 'a list" where
  "seg a b xs = take (b - a) (drop a xs)"

lemma length_seg [simp]: "b \<le> length xs \<Longrightarrow> length (seg a b xs) = b - a"
  by (simp add: seg_def)

lemma seg_empty [simp]: "b \<le> a \<Longrightarrow> seg a b xs = []"
  by (simp add: seg_def)

lemma seg_Cons: "a < b \<Longrightarrow> b \<le> length xs \<Longrightarrow> seg a b xs = xs ! a # seg (Suc a) b xs"
  by (simp add: seg_def Cons_nth_drop_Suc [symmetric] take_Cons')

lemma seg_nth: "b \<le> length xs \<Longrightarrow> i < b - a \<Longrightarrow> seg a b xs ! i = xs ! (a + i)"
  by (simp add: seg_def)

lemma seg_split: "a \<le> b \<Longrightarrow> b \<le> c \<Longrightarrow> seg a c xs = seg a b xs @ seg b c xs"
  using take_add [of "b - a" "c - b" "drop a xs"] by (simp add: seg_def)

lemma seg_all [simp]: "seg 0 (length xs) xs = xs"
  by (simp add: seg_def)

lemma seg_eq_iff:
  assumes "b \<le> length xs" and "b \<le> length ys"
  shows "seg a b xs = seg a b ys \<longleftrightarrow> (\<forall>i. a \<le> i \<longrightarrow> i < b \<longrightarrow> xs ! i = ys ! i)"
proof -
  have "seg a b xs = seg a b ys \<longleftrightarrow> (\<forall>i < b - a. xs ! (a + i) = ys ! (a + i))"
    using assms by (simp add: list_eq_iff_nth_eq seg_nth)
  also have "\<dots> \<longleftrightarrow> (\<forall>i. a \<le> i \<longrightarrow> i < b \<longrightarrow> xs ! i = ys ! i)"
  proof safe
    fix i assume "\<forall>i < b - a. xs ! (a + i) = ys ! (a + i)" "a \<le> i" "i < b"
    then show "xs ! i = ys ! i" by (auto dest: spec [of _ "i - a"])
  qed simp
  finally show ?thesis .
qed

text \<open>Concrete arrays evaluate.\<close>

lemma replicate_numeral [simp]:
  "replicate (numeral k) x = x # replicate (pred_numeral k) x"
  by (simp add: numeral_eq_Suc)

section \<open>Words\<close>

lemma unat_Suc_no_wrap: "unat (w :: u32) < 2 ^ 32 - 1 \<Longrightarrow> unat (w + 1) = Suc (unat w)"
  by (simp add: unat_word_ariths)

lemma unat_less_Suc: "(v :: 'a::len word) < w \<Longrightarrow> unat (v + 1) = Suc (unat v)"
  proof -
  assume "v < w"
  then have "unat v < unat w" by (simp add: word_less_nat_alt)
  moreover have "unat w < 2 ^ LENGTH('a)" by simp
  ultimately have "Suc (unat v) < 2 ^ LENGTH('a)" by linarith
  then show ?thesis by (simp add: unat_word_ariths)
qed

lemma unat_pred: "0 < (w :: 'a::len word) \<Longrightarrow> unat (w - 1) = unat w - 1"
  by (simp add: unat_minus_one)

lemma signed_take_bit_small: "(n :: nat) < 2 ^ 63 \<Longrightarrow> signed_take_bit 63 (int n) = int n"
  by (intro signed_take_bit_int_eq_self) simp_all

lemma sint_u64_small:
  assumes "unat (w :: u64) < 2 ^ 63"
  shows "sint w = int (unat w)"
proof -
  have "sint w = signed_take_bit (LENGTH(64) - Suc 0) (uint w)" by (rule sint_uint)
  also have "uint w = int (unat w)" by (rule uint_nat)
  also have "signed_take_bit (LENGTH(64) - Suc 0) (int (unat w)) = int (unat w)"
    using signed_take_bit_small [OF assms] by simp
  finally show ?thesis .
qed

end
