(* ===== verification/Fifo.thy ===== *)
theory Fifo
  imports Prelude
begin

text \<open>
  The contract of a bounded first-in first-out buffer, as a locale over its operations, and the
  lemmas a client of such a buffer relies on. Two components provide it: the circular queue of
  \<open>Data Structures C/queue/queue.c\<close> and the pipe buffer of \<open>xv6/pipe.c\<close>.
\<close>

section \<open>The contract\<close>

locale bounded_fifo =
  fixes inv :: "'q \<Rightarrow> bool"
    and items :: "'q \<Rightarrow> 'a list"
    and bound :: "'q \<Rightarrow> nat"
    and enq :: "'q \<Rightarrow> 'a \<Rightarrow> 'q option"
    and deq :: "'q \<Rightarrow> ('a \<times> 'q) option"
  assumes items_bound: "inv q \<Longrightarrow> length (items q) \<le> bound q"
    and enq_full: "inv q \<Longrightarrow> length (items q) = bound q \<Longrightarrow> enq q x = None"
    and enq_room: "inv q \<Longrightarrow> length (items q) < bound q \<Longrightarrow>
      \<exists>q'. enq q x = Some q' \<and> inv q' \<and> items q' = items q @ [x] \<and> bound q' = bound q"
    and deq_empty: "inv q \<Longrightarrow> items q = [] \<Longrightarrow> deq q = None"
    and deq_item: "inv q \<Longrightarrow> items q \<noteq> [] \<Longrightarrow>
      \<exists>q'. deq q = Some (hd (items q), q') \<and> inv q' \<and> items q' = tl (items q) \<and> bound q' = bound q"

section \<open>Clients of the contract\<close>

text \<open>
  A client drives the buffer by a sequence of commands. A command the buffer refuses (an insertion
  into a full buffer, a removal from an empty one) leaves it as it was; the run records what was
  accepted and what came out.
\<close>

datatype 'a fifo_cmd = Put 'a | Get

fun fifo_run ::
  "('q \<Rightarrow> 'a \<Rightarrow> 'q option) \<Rightarrow> ('q \<Rightarrow> ('a \<times> 'q) option) \<Rightarrow> 'q \<Rightarrow> 'a fifo_cmd list \<Rightarrow> 'a list \<times> 'a list \<times> 'q"
where
  "fifo_run en de q [] = ([], [], q)"
| "fifo_run en de q (Put x # cs) =
     (case en q x of
        None \<Rightarrow> fifo_run en de q cs
      | Some q' \<Rightarrow> (let (ins, outs, r) = fifo_run en de q' cs in (x # ins, outs, r)))"
| "fifo_run en de q (Get # cs) =
     (case de q of
        None \<Rightarrow> fifo_run en de q cs
      | Some (y, q') \<Rightarrow> (let (ins, outs, r) = fifo_run en de q' cs in (ins, y # outs, r)))"

context bounded_fifo
begin

lemma enq_cases:
  assumes "inv q"
  obtains (full) "enq q x = None" "length (items q) = bound q"
  | (room) q' where "enq q x = Some q'" "inv q'" "items q' = items q @ [x]" "bound q' = bound q"
  using assms items_bound [OF assms] enq_full enq_room by (metis le_neq_implies_less)

lemma deq_cases:
  assumes "inv q"
  obtains (empty) "deq q = None" "items q = []"
  | (item) y q' where "deq q = Some (y, q')" "inv q'" "items q = y # items q'" "bound q' = bound q"
  using assms deq_empty deq_item by (metis list.exhaust_sel)

text \<open>
  Whatever the interleaving of insertions and removals, what was in the buffer followed by what
  was accepted is what came out followed by what is left: nothing is lost, duplicated or
  reordered, and the invariant and the bound are kept.
\<close>

lemma run_conserves:
  assumes "inv q" and "fifo_run enq deq q cs = (ins, outs, r)"
  shows "inv r \<and> bound r = bound q \<and> items q @ ins = outs @ items r"
  using assms
proof (induction cs arbitrary: q ins outs r)
  case Nil
  then show ?case by simp
next
  case (Cons c cs)
  show ?case
  proof (cases c)
    case (Put x)
    from \<open>inv q\<close> show ?thesis
    proof (cases rule: enq_cases [of q x])
      case full
      with Put Cons show ?thesis by simp
    next
      case (room q')
      with Put Cons show ?thesis by (fastforce split: prod.splits)
    qed
  next
    case Get
    from \<open>inv q\<close> show ?thesis
    proof (cases rule: deq_cases [of q])
      case empty
      with Get Cons show ?thesis by fastforce
    next
      case (item y q')
      with Get Cons show ?thesis by (fastforce split: prod.splits)
    qed
  qed
qed

text \<open>Filling up to the bound and draining again returns the very same sequence.\<close>

lemma run_puts:
  assumes "inv q" and "length (items q) + length xs \<le> bound q"
  shows "\<exists>q'. fifo_run enq deq q (map Put xs) = (xs, [], q') \<and> inv q' \<and>
    items q' = items q @ xs \<and> bound q' = bound q"
  using assms
proof (induction xs arbitrary: q)
  case Nil
  then show ?case by simp
next
  case (Cons x xs)
  then have "length (items q) < bound q" by simp
  with enq_room [OF \<open>inv q\<close>, of x] obtain q' where
    q': "enq q x = Some q'" "inv q'" "items q' = items q @ [x]" "bound q' = bound q" by auto
  with Cons.prems(2) have "length (items q') + length xs \<le> bound q'" by simp
  with Cons.IH [OF \<open>inv q'\<close>] q' show ?case by auto
qed

lemma run_gets:
  assumes "inv q" and "length xs \<le> length (items q)" and "length ys = length xs"
  shows "\<exists>q'. fifo_run enq deq q (map (\<lambda>_. Get) ys) = ([], take (length xs) (items q), q') \<and>
    inv q' \<and> items q' = drop (length xs) (items q) \<and> bound q' = bound q"
  using assms
proof (induction xs arbitrary: q ys)
  case Nil
  then show ?case by simp
next
  case (Cons x xs)
  then obtain y ys' where ys: "ys = y # ys'" "length ys' = length xs" by (cases ys) auto
  from Cons.prems(2) have "items q \<noteq> []" by auto
  with deq_item [OF \<open>inv q\<close>] obtain q' where
    q': "deq q = Some (hd (items q), q')" "inv q'" "items q' = tl (items q)" "bound q' = bound q"
    by auto
  with Cons.prems(2) have "length xs \<le> length (items q')" by simp
  from Cons.IH [OF \<open>inv q'\<close> this ys(2)] q' \<open>items q \<noteq> []\<close> show ?case
    by (auto simp: ys(1) take_Suc drop_Suc)
qed

end

end
