(* ===== verification/CQueue.thy ===== *)
theory CQueue
  imports Fifo
begin

text \<open>
  The circular queue of \<open>Data Structures C/queue/queue.c\<close>: its struct, its seven functions with
  their asserts, the representation invariant, and the proof that it is a bounded FIFO buffer.
  The heap is seen through the number of live allocations, so that leaks are visible.
\<close>

section \<open>State and operations\<close>

record queue_t =
  q_back :: u32
  q_front :: u32
  q_size :: u32
  q_capacity :: u32
  q_data :: "u64 list"

text \<open>
  \<open>q_ok\<close> says whether the first \<open>malloc\<close> succeeds, \<open>data_alloc\<close> what the second one returns:
  the (indeterminate) contents of an array of the requested length, or null.
\<close>

definition queue_new ::
  "bool \<Rightarrow> (nat \<Rightarrow> u64 list option) \<Rightarrow> u32 \<Rightarrow> int \<Rightarrow> queue_t option \<times> int" where
  "queue_new q_ok data_alloc capacity live =
     (if capacity = 0 then (None, live)
      else if \<not> q_ok then (None, live)
      else let live = live + 1 in
        case data_alloc (unat capacity) of
          None \<Rightarrow> (None, live - 1)
        | Some d \<Rightarrow>
            (Some \<lparr>q_back = 0, q_front = 0, q_size = 0, q_capacity = capacity, q_data = d\<rparr>,
             live + 1))"

definition queue_empty :: "queue_t option \<Rightarrow> int res" where
  "queue_empty qp =
     (case qp of None \<Rightarrow> Inl Assert_Failed
      | Some q \<Rightarrow> if q_size q = 0 then Inr 1 else Inr 0)"

definition queue_full :: "queue_t option \<Rightarrow> int res" where
  "queue_full qp =
     (case qp of None \<Rightarrow> Inl Assert_Failed
      | Some q \<Rightarrow> if q_capacity q = q_size q then Inr 1 else Inr 0)"

definition queue_enqueue :: "queue_t option \<Rightarrow> u64 \<Rightarrow> queue_t res" where
  "queue_enqueue qp item =
     (case qp of None \<Rightarrow> Inl Assert_Failed
      | Some q \<Rightarrow>
          bindR (assertR (q_size q < q_capacity q)) (\<lambda>_.
          bindR (queue_full qp) (\<lambda>full.
          if full \<noteq> 0 then Inr q
          else
            bindR (arr_set (q_data q) (unat (q_back q)) item) (\<lambda>d.
            bindR (guardR Div_By_Zero (q_capacity q \<noteq> 0)) (\<lambda>_.
            Inr (q\<lparr>q_data := d,
                   q_back := (q_back q + 1) mod q_capacity q,
                   q_size := q_size q + 1\<rparr>))))))"

definition queue_dequeue :: "queue_t option \<Rightarrow> (u64 \<times> queue_t) res" where
  "queue_dequeue qp =
     (case qp of None \<Rightarrow> Inl Assert_Failed
      | Some q \<Rightarrow>
          bindR (assertR (q_size q > 0)) (\<lambda>_.
          bindR (arr_get (q_data q) (unat (q_front q))) (\<lambda>item.
          bindR (guardR Div_By_Zero (q_capacity q \<noteq> 0)) (\<lambda>_.
          Inr (item, q\<lparr>q_front := (q_front q + 1) mod q_capacity q,
                       q_size := q_size q - 1\<rparr>)))))"

definition queue_size :: "queue_t option \<Rightarrow> u32 res" where
  "queue_size qp = (case qp of None \<Rightarrow> Inl Assert_Failed | Some q \<Rightarrow> Inr (q_size q))"

definition queue_delete :: "queue_t option \<Rightarrow> int \<Rightarrow> int res" where
  "queue_delete qp live =
     (case qp of None \<Rightarrow> Inl Assert_Failed
      | Some q \<Rightarrow> let live = live - 1 in Inr (live - 1))"

section \<open>Invariant and abstraction\<close>

definition queue_inv :: "queue_t \<Rightarrow> bool" where
  "queue_inv q \<longleftrightarrow>
     q_capacity q \<noteq> 0 \<and> length (q_data q) = unat (q_capacity q) \<and>
     q_front q < q_capacity q \<and> q_size q \<le> q_capacity q \<and>
     unat (q_back q) = (unat (q_front q) + unat (q_size q)) mod unat (q_capacity q)"

definition queue_items :: "queue_t \<Rightarrow> u64 list" where
  "queue_items q =
     map (\<lambda>i. q_data q ! ((unat (q_front q) + i) mod unat (q_capacity q))) [0..<unat (q_size q)]"

definition queue_bound :: "queue_t \<Rightarrow> nat" where
  "queue_bound q = unat (q_capacity q)"

definition enq_opt :: "queue_t \<Rightarrow> u64 \<Rightarrow> queue_t option" where
  "enq_opt q x = (case queue_enqueue (Some q) x of Inl e \<Rightarrow> None | Inr q' \<Rightarrow> Some q')"

definition deq_opt :: "queue_t \<Rightarrow> (u64 \<times> queue_t) option" where
  "deq_opt q = (case queue_dequeue (Some q) of Inl e \<Rightarrow> None | Inr r \<Rightarrow> Some r)"

lemma length_queue_items [simp]: "length (queue_items q) = unat (q_size q)"
  by (simp add: queue_items_def)

lemma queue_capacity_pos: "queue_inv q \<Longrightarrow> 0 < unat (q_capacity q)"
  by (simp add: queue_inv_def unat_gt_0)

text \<open>Advancing an index modulo the capacity never wraps at the word width.\<close>

lemma unat_advance:
  assumes "(i :: u32) < c"
  shows "unat ((i + 1) mod c) = Suc (unat i) mod unat c"
  using unat_less_Suc [OF assms] by (simp add: unat_mod)

lemma mod_slot_distinct:
  assumes "i < n" and "n < (c :: nat)"
  shows "(f + i) mod c \<noteq> (f + n) mod c"
proof
  assume "(f + i) mod c = (f + n) mod c"
  with assms(1) have "c dvd (f + n) - (f + i)"
    by (metis add_le_cancel_left less_imp_le mod_eq_dvd_iff_nat)
  with assms show False by (auto dest: dvd_imp_le)
qed

section \<open>The queue operations on every branch\<close>

lemma queue_enqueue_room:
  assumes inv: "queue_inv q" and room: "q_size q < q_capacity q"
  shows "\<exists>q'. queue_enqueue (Some q) x = Inr q' \<and> queue_inv q' \<and>
    queue_items q' = queue_items q @ [x] \<and> q_capacity q' = q_capacity q"
proof -
  define q' where "q' = q\<lparr>q_data := (q_data q)[unat (q_back q) := x],
    q_back := (q_back q + 1) mod q_capacity q, q_size := q_size q + 1\<rparr>"
  let ?c = "unat (q_capacity q)" and ?f = "unat (q_front q)" and ?n = "unat (q_size q)"
  have c: "0 < ?c" using inv by (rule queue_capacity_pos)
  have bk: "unat (q_back q) = (?f + ?n) mod ?c" and
    len: "length (q_data q) = ?c"
    using inv by (auto simp: queue_inv_def)
  then have b_lt: "unat (q_back q) < ?c" using c by simp
  have n_lt: "?n < ?c" using room by (simp add: word_less_nat_alt)
  have size': "unat (q_size q + 1) = Suc ?n" using room by (rule unat_less_Suc)
  have bk': "unat ((q_back q + 1) mod q_capacity q) = (?f + Suc ?n) mod ?c"
    using b_lt bk by (simp add: unat_advance word_less_nat_alt mod_Suc_eq)
  have "queue_enqueue (Some q) x = Inr q'"
    using inv room b_lt by (auto simp: queue_enqueue_def queue_full_def queue_inv_def q'_def)
  moreover have "queue_inv q'"
    using inv n_lt size' bk' by (simp add: queue_inv_def q'_def word_le_nat_alt)
  moreover have "queue_items q' = queue_items q @ [x]"
  proof -
    have "(q_data q)[unat (q_back q) := x] ! ((?f + i) mod ?c) = q_data q ! ((?f + i) mod ?c)"
      if "i < ?n" for i
      using mod_slot_distinct [OF that n_lt, of ?f] bk by simp
    moreover have "(q_data q)[unat (q_back q) := x] ! ((?f + ?n) mod ?c) = x"
      using b_lt len bk by simp
    ultimately show ?thesis by (simp add: queue_items_def q'_def size')
  qed
  ultimately show ?thesis by (auto simp: q'_def)
qed

lemma queue_enqueue_full:
  "q_size q = q_capacity q \<Longrightarrow> queue_enqueue (Some q) x = Inl Assert_Failed"
  by (simp add: queue_enqueue_def)

lemma queue_dequeue_item:
  assumes inv: "queue_inv q" and ne: "q_size q \<noteq> 0"
  shows "\<exists>q'. queue_dequeue (Some q) = Inr (hd (queue_items q), q') \<and> queue_inv q' \<and>
    queue_items q' = tl (queue_items q) \<and> q_capacity q' = q_capacity q"
proof -
  define q' where "q' = q\<lparr>q_front := (q_front q + 1) mod q_capacity q, q_size := q_size q - 1\<rparr>"
  let ?c = "unat (q_capacity q)" and ?f = "unat (q_front q)" and ?n = "unat (q_size q)"
  have c: "0 < ?c" using inv by (rule queue_capacity_pos)
  have n: "0 < ?n" using ne by (simp add: unat_gt_0)
  have pos: "0 < q_size q" using ne by (simp add: word_neq_0_conv)
  have f_lt: "?f < ?c" and le: "?n \<le> ?c" and len: "length (q_data q) = ?c"
    using inv by (auto simp: queue_inv_def word_less_nat_alt word_le_nat_alt)
  have size': "unat (q_size q - 1) = ?n - 1" using pos by (rule unat_pred)
  have front': "unat ((q_front q + 1) mod q_capacity q) = Suc ?f mod ?c"
    using inv by (simp add: unat_advance queue_inv_def)
  have items: "queue_items q = q_data q ! ?f # map (\<lambda>i. q_data q ! ((?f + Suc i) mod ?c)) [0..<?n - 1]"
  proof (rule nth_equalityI)
    fix i assume "i < length (queue_items q)"
    then show "queue_items q ! i =
        (q_data q ! ?f # map (\<lambda>i. q_data q ! ((?f + Suc i) mod ?c)) [0..<?n - 1]) ! i"
      using f_lt by (cases i) (auto simp: queue_items_def)
  qed (use n in simp)
  have "queue_dequeue (Some q) = Inr (hd (queue_items q), q')"
    using inv pos f_lt len items by (simp add: queue_dequeue_def q'_def queue_inv_def)
  moreover have "queue_inv q'"
  proof -
    have "(Suc ?f mod ?c + (?n - 1)) mod ?c = (Suc ?f + (?n - 1)) mod ?c"
      by (rule mod_add_left_eq)
    then have "(?f + ?n) mod ?c = (Suc ?f mod ?c + (?n - 1)) mod ?c"
      using n by simp
    then show ?thesis
      using inv le size' front' c by (simp add: queue_inv_def q'_def word_less_nat_alt word_le_nat_alt)
  qed
  moreover have "queue_items q' = tl (queue_items q)"
    unfolding items by (simp add: queue_items_def q'_def size' front' mod_add_left_eq)
  ultimately show ?thesis by (auto simp: q'_def)
qed

lemma queue_dequeue_empty: "q_size q = 0 \<Longrightarrow> queue_dequeue (Some q) = Inl Assert_Failed"
  by (simp add: queue_dequeue_def)

lemma queue_new_inv:
  assumes "queue_new ok alloc c live = (Some q, live')"
    and "\<And>n d. alloc n = Some d \<Longrightarrow> length d = n"
  shows "queue_inv q \<and> queue_items q = [] \<and> queue_bound q = unat c"
  using assms
  by (auto simp: queue_new_def queue_inv_def queue_items_def queue_bound_def Let_def
      word_neq_0_conv split: if_splits option.splits)

section \<open>The queue is a bounded FIFO buffer\<close>

interpretation cq: bounded_fifo queue_inv queue_items queue_bound enq_opt deq_opt
proof (unfold_locales, goal_cases)
  case (1 q)
  then show ?case by (simp add: queue_inv_def queue_bound_def word_le_nat_alt)
next
  case (2 q x)
  then have "q_size q = q_capacity q" by (simp add: queue_bound_def word_unat_eq_iff)
  then show ?case by (simp add: enq_opt_def queue_enqueue_full)
next
  case (3 q x)
  then have "q_size q < q_capacity q" by (simp add: queue_bound_def word_less_nat_alt)
  from queue_enqueue_room [OF 3(1) this, of x] show ?case
    by (auto simp: enq_opt_def queue_bound_def)
next
  case (4 q)
  then have "unat (q_size q) = 0" by (metis length_queue_items list.size(3))
  then show ?case by (simp add: deq_opt_def queue_dequeue_empty unat_eq_zero)
next
  case (5 q)
  then have "q_size q \<noteq> 0" by (auto simp: queue_items_def)
  from queue_dequeue_item [OF 5(1) this] show ?case
    by (auto simp: deq_opt_def queue_bound_def)
qed

section \<open>Properties\<close>

text \<open>C8: Whatever the order in which items are enqueued and dequeued on a freshly made queue, the
  items come out in the order in which they went in, none lost or duplicated; the queue never
  holds more than its capacity and its representation invariant is kept. A call that would
  overfill or underflow is stopped by its assert and changes nothing.\<close>

theorem queue_fifo:
  assumes "queue_new ok alloc c live = (Some q, live')"
    and "\<And>n d. alloc n = Some d \<Longrightarrow> length d = n"
    and "fifo_run enq_opt deq_opt q cs = (ins, outs, r)"
  shows "ins = outs @ queue_items r \<and> queue_inv r \<and> length (queue_items r) \<le> unat c"
proof -
  from queue_new_inv [OF assms(1,2)]
  have q: "queue_inv q" "queue_items q = []" "queue_bound q = unat c" by auto
  with cq.run_conserves [OF q(1) assms(3)] cq.items_bound [of r] show ?thesis by auto
qed

theorem queue_fifo_witness:
  "\<exists>q r. queue_new True (\<lambda>n. Some (replicate n 0)) 2 0 = (Some q, 2) \<and>
     fifo_run enq_opt deq_opt q [Put 5, Put 6, Put 7, Get, Put 8, Get] = ([5, 6, 8], [5, 6], r) \<and>
     [5, 6, 8] = [5, 6] @ queue_items r \<and> queue_inv r \<and> length (queue_items r) \<le> 2"
proof -
  let ?q = "\<lparr>q_back = 0, q_front = 0, q_size = 0, q_capacity = 2, q_data = [0, 0]\<rparr>"
  let ?r = "\<lparr>q_back = 1, q_front = 0, q_size = 1, q_capacity = 2, q_data = [8, 6]\<rparr>"
  have n: "queue_new True (\<lambda>n. Some (replicate n 0)) 2 0 = (Some ?q, 2)"
    by (simp add: queue_new_def)
  have r: "fifo_run enq_opt deq_opt ?q [Put 5, Put 6, Put 7, Get, Put 8, Get] = ([5, 6, 8], [5, 6], ?r)"
    by (simp add: enq_opt_def deq_opt_def queue_enqueue_def queue_dequeue_def queue_full_def
        arr_set_def arr_get_def)
  have "[5, 6, 8] = [5, 6] @ queue_items ?r \<and> queue_inv ?r \<and> length (queue_items ?r) \<le> unat (2 :: u32)"
    by (rule queue_fifo [OF n _ r]) simp
  with n r show ?thesis by (intro exI [of _ ?q] exI [of _ ?r] conjI) simp_all
qed

text \<open>On a well-formed queue every call has exactly the outcome its interface promises:
  \<open>queue_empty\<close>, \<open>queue_full\<close> and \<open>queue_size\<close> report the number of items, \<open>queue_enqueue\<close> fails
  its assert exactly when the queue is full and otherwise appends, \<open>queue_dequeue\<close> fails its assert
  exactly when it is empty and otherwise removes and returns the oldest item.\<close>

theorem queue_calls:
  assumes "queue_inv q"
  shows "queue_empty (Some q) = Inr (if queue_items q = [] then 1 else 0) \<and>
    queue_full (Some q) = Inr (if length (queue_items q) = queue_bound q then 1 else 0) \<and>
    queue_size (Some q) = Inr (word_of_nat (length (queue_items q))) \<and>
    (if length (queue_items q) = queue_bound q then queue_enqueue (Some q) x = Inl Assert_Failed
     else (\<exists>q1. queue_enqueue (Some q) x = Inr q1 \<and> queue_inv q1 \<and>
       queue_items q1 = queue_items q @ [x] \<and> queue_bound q1 = queue_bound q)) \<and>
    (if queue_items q = [] then queue_dequeue (Some q) = Inl Assert_Failed
     else (\<exists>y q2. queue_dequeue (Some q) = Inr (y, q2) \<and> queue_inv q2 \<and>
       queue_items q = y # queue_items q2 \<and> queue_bound q2 = queue_bound q))"
proof -
  have empty: "queue_items q = [] \<longleftrightarrow> q_size q = 0"
    by (simp add: unat_eq_zero flip: length_0_conv)
  have full: "length (queue_items q) = queue_bound q \<longleftrightarrow> q_size q = q_capacity q"
    by (simp add: queue_bound_def word_unat_eq_iff)
  have room: "q_size q \<noteq> q_capacity q \<Longrightarrow> q_size q < q_capacity q"
    using assms by (simp add: queue_inv_def word_le_less_eq)
  have "queue_empty (Some q) = Inr (if queue_items q = [] then 1 else 0)"
    by (simp add: queue_empty_def empty)
  moreover have "queue_full (Some q) = Inr (if length (queue_items q) = queue_bound q then 1 else 0)"
    unfolding full by (auto simp: queue_full_def)
  moreover have "queue_size (Some q) = Inr (word_of_nat (length (queue_items q)))"
    by (simp add: queue_size_def)
  moreover have "if length (queue_items q) = queue_bound q then queue_enqueue (Some q) x = Inl Assert_Failed
     else (\<exists>q1. queue_enqueue (Some q) x = Inr q1 \<and> queue_inv q1 \<and>
       queue_items q1 = queue_items q @ [x] \<and> queue_bound q1 = queue_bound q)"
    unfolding full using queue_enqueue_room [OF assms room, of x] queue_enqueue_full [of q x]
    by (auto simp: queue_bound_def)
  moreover have "if queue_items q = [] then queue_dequeue (Some q) = Inl Assert_Failed
     else (\<exists>y q2. queue_dequeue (Some q) = Inr (y, q2) \<and> queue_inv q2 \<and>
       queue_items q = y # queue_items q2 \<and> queue_bound q2 = queue_bound q)"
    using queue_dequeue_item [OF assms] queue_dequeue_empty [of q] empty
    by (auto simp: queue_bound_def)
  ultimately show ?thesis by blast
qed

theorem queue_calls_witness:
  "let q = \<lparr>q_back = 1, q_front = 0, q_size = 1, q_capacity = 2, q_data = [8, 6]\<rparr> in
   queue_inv q \<and> queue_empty (Some q) = Inr 0 \<and> queue_full (Some q) = Inr 0 \<and>
   queue_size (Some q) = Inr 1 \<and>
   (\<exists>q1. queue_enqueue (Some q) 3 = Inr q1 \<and> queue_items q1 = [8, 3]) \<and>
   (\<exists>q2. queue_dequeue (Some q) = Inr (8, q2) \<and> queue_items q2 = [])"
proof -
  let ?q = "\<lparr>q_back = 1, q_front = 0, q_size = 1, q_capacity = 2, q_data = [8, 6]\<rparr> :: queue_t"
  have inv: "queue_inv ?q" by (simp add: queue_inv_def)
  have items: "queue_items ?q = [8]" and bound: "queue_bound ?q = 2"
    by (simp_all add: queue_items_def queue_bound_def)
  show ?thesis
    using inv queue_calls [OF inv, of 3] by (auto simp: items bound)
qed

text \<open>Making a queue and deleting it leaves no allocation behind, also when an allocation fails.\<close>

lemma queue_no_leak:
  "queue_new ok alloc c live = (None, live') \<Longrightarrow> live' = live"
  "queue_new ok alloc c live = (Some q, live') \<Longrightarrow> queue_delete (Some q) live' = Inr live"
  by (auto simp: queue_new_def queue_delete_def Let_def split: if_splits option.splits)

end
