(* ===== verification/Growable.thy ===== *)
theory Growable
  imports Prelude
begin

text \<open>
  The contract of an array that grows at its end, in two steps: a store one can append to, and
  a store whose elements can also be read, replaced and removed from the end. The vector of
  \<open>Data Structures C/vector/vect.c\<close> provides the whole contract, the token array of
  \<open>Shell/tokens.c\<close> the first step.
\<close>

section \<open>Appending\<close>

fun add_all :: "('v \<Rightarrow> 'a \<Rightarrow> 'v res) \<Rightarrow> 'v \<Rightarrow> 'a list \<Rightarrow> 'v res" where
  "add_all ad v [] = Inr v"
| "add_all ad v (x # xs) = bindR (ad v x) (\<lambda>v'. add_all ad v' xs)"

locale appendable =
  fixes inv :: "'v \<Rightarrow> bool"
    and items :: "'v \<Rightarrow> 'a list"
    and add :: "'v \<Rightarrow> 'a \<Rightarrow> 'v res"
    and limit :: nat
  assumes add_room: "inv v \<Longrightarrow> length (items v) < limit \<Longrightarrow>
    \<exists>v'. add v x = Inr v' \<and> inv v' \<and> items v' = items v @ [x]"
begin

lemma add_all_items:
  assumes "inv v" and "length (items v) + length xs \<le> limit"
  shows "\<exists>v'. add_all add v xs = Inr v' \<and> inv v' \<and> items v' = items v @ xs"
  using assms
proof (induction xs arbitrary: v)
  case Nil
  then show ?case by simp
next
  case (Cons x xs)
  then have "length (items v) < limit" by simp
  with add_room [OF \<open>inv v\<close>, of x] obtain v' where
    v': "add v x = Inr v'" "inv v'" "items v' = items v @ [x]" by auto
  with Cons.prems(2) have "length (items v') + length xs \<le> limit" by simp
  with Cons.IH [OF \<open>inv v'\<close>] v' show ?case by auto
qed

end

section \<open>Reading, replacing and removing\<close>

locale growable = appendable +
  fixes get :: "'v \<Rightarrow> nat \<Rightarrow> 'a res"
    and put :: "'v \<Rightarrow> nat \<Rightarrow> 'a \<Rightarrow> 'v res"
    and remove_last :: "'v \<Rightarrow> 'v res"
  assumes get_item: "inv v \<Longrightarrow> i < length (items v) \<Longrightarrow> get v i = Inr (items v ! i)"
    and put_item: "inv v \<Longrightarrow> i < length (items v) \<Longrightarrow>
      \<exists>v'. put v i x = Inr v' \<and> inv v' \<and> items v' = (items v)[i := x]"
    and remove_item: "inv v \<Longrightarrow>
      \<exists>v'. remove_last v = Inr v' \<and> inv v' \<and> items v' = butlast (items v)"
begin

lemma get_after_put:
  assumes "inv v" and "i < length (items v)" and "j < length (items v)"
  shows "bindR (put v i x) (\<lambda>v'. get v' j) = Inr (if i = j then x else items v ! j)"
proof -
  from put_item [OF assms(1,2), of x] obtain v' where
    "put v i x = Inr v'" "inv v'" "items v' = (items v)[i := x]" by auto
  with assms get_item [of v' j] show ?thesis by (auto simp: nth_list_update)
qed

lemma get_after_add_all:
  assumes "inv v" and "items v = []" and "length xs \<le> limit" and "i < length xs"
  shows "bindR (add_all add v xs) (\<lambda>v'. get v' i) = Inr (xs ! i)"
proof -
  from add_all_items [OF assms(1), of xs] assms obtain v' where
    "add_all add v xs = Inr v'" "inv v'" "items v' = xs" by auto
  with assms get_item [of v' i] show ?thesis by simp
qed

lemma remove_after_add:
  assumes "inv v" and "length (items v) < limit"
  shows "\<exists>v'. bindR (add v x) remove_last = Inr v' \<and> inv v' \<and> items v' = items v"
proof -
  from add_room [OF assms, of x] obtain w where
    w: "add v x = Inr w" "inv w" "items w = items v @ [x]" by auto
  with remove_item [OF \<open>inv w\<close>] show ?thesis by auto
qed

end

end
