(* ===== verification/Vect.thy ===== *)
theory Vect
  imports Growable
begin

text \<open>
  The growable vector of strings of \<open>Data Structures C/vector/vect.c\<close>. A slot of the data array
  is a null pointer, a string the vector owns, a pointer to memory already freed, or never
  written. Whether \<open>malloc\<close>, \<open>realloc\<close> and \<open>strdup\<close> succeed is an argument of the operations that
  call them.
\<close>

section \<open>State and operations\<close>

datatype slot = Null | Str string | Freed | Uninit

record vect_t =
  v_data :: "slot list"
  v_size :: u32
  v_capacity :: u32

text \<open>\<open>free\<close> accepts null and owned strings; anything else is an error.\<close>

fun free_slot :: "slot \<Rightarrow> unit res" where
  "free_slot Null = Inr ()"
| "free_slot (Str s) = Inr ()"
| "free_slot Freed = Inl Bad_Memory"
| "free_slot Uninit = Inl Bad_Memory"

definition vect_new :: "bool \<Rightarrow> bool \<Rightarrow> vect_t option" where
  "vect_new v_ok data_ok =
     (if \<not> v_ok then None
      else if \<not> data_ok then None
      else Some \<lparr>v_data = replicate 2 Uninit, v_size = 0, v_capacity = 2\<rparr>)"

fun free_slots :: "slot list \<Rightarrow> nat \<Rightarrow> nat \<Rightarrow> unit res" where
  "free_slots d i 0 = Inr ()"
| "free_slots d i (Suc n) =
     bindR (arr_get d i) (\<lambda>x. bindR (free_slot x) (\<lambda>_. free_slots d (Suc i) n))"

definition vect_delete :: "vect_t option \<Rightarrow> unit res" where
  "vect_delete vp =
     (case vp of None \<Rightarrow> Inr ()
      | Some v \<Rightarrow> free_slots (v_data v) 0 (unat (v_size v)))"

definition vect_get :: "vect_t option \<Rightarrow> u32 \<Rightarrow> slot res" where
  "vect_get vp idx =
     (case vp of None \<Rightarrow> Inr Null
      | Some v \<Rightarrow> if idx \<ge> v_size v then Inr Null else arr_get (v_data v) (unat idx))"

definition vect_get_copy :: "bool \<Rightarrow> vect_t option \<Rightarrow> u32 \<Rightarrow> slot res" where
  "vect_get_copy strdup_ok vp idx =
     (case vp of None \<Rightarrow> Inr Null
      | Some v \<Rightarrow>
          if idx \<ge> v_size v then Inr Null
          else bindR (arr_get (v_data v) (unat idx)) (\<lambda>x.
            case x of
              Null \<Rightarrow> Inr Null
            | Str s \<Rightarrow> if strdup_ok then Inr (Str s) else Inr Null
            | _ \<Rightarrow> Inl Bad_Memory))"

definition vect_set :: "bool \<Rightarrow> vect_t option \<Rightarrow> u32 \<Rightarrow> string option \<Rightarrow> vect_t option res" where
  "vect_set strdup_ok vp idx elt =
     (case vp of None \<Rightarrow> Inr None
      | Some v \<Rightarrow>
          if idx \<ge> v_size v then Inr (Some v)
          else
            bindR (arr_get (v_data v) (unat idx)) (\<lambda>old.
            bindR (free_slot old) (\<lambda>_.
            let freed = (if old = Null then Null else Freed) in
            case elt of
              Some s \<Rightarrow>
                if \<not> strdup_ok then Inr (Some (v\<lparr>v_data := (v_data v)[unat idx := freed]\<rparr>))
                else Inr (Some (v\<lparr>v_data := (v_data v)[unat idx := Str s]\<rparr>))
            | None \<Rightarrow> Inr (Some (v\<lparr>v_data := (v_data v)[unat idx := Null]\<rparr>)))))"

text \<open>
  \<open>realloc\<close> keeps the old elements and leaves the new ones unwritten; asked for no bytes at all
  (the doubled capacity has wrapped to 0) it releases the array and returns null.
\<close>

definition vect_grow :: "bool \<Rightarrow> vect_t \<Rightarrow> vect_t \<times> bool" where
  "vect_grow realloc_ok v =
     (let v = v\<lparr>v_capacity := v_capacity v * 2\<rparr>; n = unat (v_capacity v) in
      if n = 0 then (v\<lparr>v_data := []\<rparr>, False)
      else if \<not> realloc_ok then (v, False)
      else (v\<lparr>v_data := take n (v_data v) @ replicate (n - length (v_data v)) Uninit\<rparr>, True))"

definition vect_add :: "bool \<Rightarrow> bool \<Rightarrow> vect_t option \<Rightarrow> string option \<Rightarrow> vect_t option res" where
  "vect_add realloc_ok strdup_ok vp elt =
     (case vp of None \<Rightarrow> Inr None
      | Some v \<Rightarrow>
          let (v, ok) = (if v_size v = v_capacity v then vect_grow realloc_ok v else (v, True)) in
          if \<not> ok then Inr (Some v)
          else
            (case elt of
               Some s \<Rightarrow>
                 if \<not> strdup_ok then Inr (Some v)
                 else bindR (arr_set (v_data v) (unat (v_size v)) (Str s)) (\<lambda>d.
                   Inr (Some (v\<lparr>v_data := d, v_size := v_size v + 1\<rparr>)))
             | None \<Rightarrow>
                 bindR (arr_set (v_data v) (unat (v_size v)) Null) (\<lambda>d.
                   Inr (Some (v\<lparr>v_data := d, v_size := v_size v + 1\<rparr>)))))"

definition vect_remove_last :: "vect_t option \<Rightarrow> vect_t option res" where
  "vect_remove_last vp =
     (case vp of None \<Rightarrow> Inr None
      | Some v \<Rightarrow>
          if v_size v = 0 then Inr (Some v)
          else
            bindR (arr_get (v_data v) (unat (v_size v - 1))) (\<lambda>x.
            bindR (free_slot x) (\<lambda>_.
            bindR (arr_set (v_data v) (unat (v_size v - 1)) Null) (\<lambda>d.
            Inr (Some (v\<lparr>v_data := d, v_size := v_size v - 1\<rparr>))))))"

definition vect_size :: "vect_t option \<Rightarrow> u32" where
  "vect_size vp = (case vp of None \<Rightarrow> 0 | Some v \<Rightarrow> v_size v)"

definition vect_current_capacity :: "vect_t option \<Rightarrow> u32" where
  "vect_current_capacity vp = (case vp of None \<Rightarrow> 0 | Some v \<Rightarrow> v_capacity v)"

section \<open>Invariant and abstraction\<close>

fun live_slot :: "slot \<Rightarrow> bool" where
  "live_slot Null = True"
| "live_slot (Str s) = True"
| "live_slot Freed = False"
| "live_slot Uninit = False"

fun slot_val :: "slot \<Rightarrow> string option" where
  "slot_val (Str s) = Some s"
| "slot_val _ = None"

definition val_slot :: "string option \<Rightarrow> slot" where
  "val_slot e = (case e of None \<Rightarrow> Null | Some s \<Rightarrow> Str s)"

definition vect_inv :: "vect_t \<Rightarrow> bool" where
  "vect_inv v \<longleftrightarrow>
     length (v_data v) = unat (v_capacity v) \<and> v_capacity v \<noteq> 0 \<and> v_size v \<le> v_capacity v \<and>
     list_all live_slot (take (unat (v_size v)) (v_data v))"

definition vect_items :: "vect_t \<Rightarrow> string option list" where
  "vect_items v = map slot_val (take (unat (v_size v)) (v_data v))"

lemma live_slot_simps [simp]:
  "live_slot (val_slot e)" "slot_val (val_slot e) = e" "live_slot x \<Longrightarrow> free_slot x = Inr ()"
  "live_slot x \<Longrightarrow> val_slot (slot_val x) = x"
  by (auto simp: val_slot_def split: option.splits) (cases x; simp add: val_slot_def)+

lemma length_vect_items [simp]: "vect_inv v \<Longrightarrow> length (vect_items v) = unat (v_size v)"
  by (simp add: vect_items_def vect_inv_def word_le_nat_alt)

lemma vect_invD:
  assumes "vect_inv v"
  shows "length (v_data v) = unat (v_capacity v)" "0 < unat (v_capacity v)"
    "unat (v_size v) \<le> unat (v_capacity v)"
    "i < unat (v_size v) \<Longrightarrow> live_slot (v_data v ! i)"
  using assms by (auto simp: vect_inv_def word_le_nat_alt unat_gt_0 list_all_length)

lemma vect_items_nth: "vect_inv v \<Longrightarrow> i < unat (v_size v) \<Longrightarrow> vect_items v ! i = slot_val (v_data v ! i)"
  using vect_invD(1,3) [of v] by (simp add: vect_items_def)

section \<open>The operations under the invariant\<close>

lemma vect_new_ok:
  "\<exists>v. vect_new True True = Some v \<and> vect_inv v \<and> vect_items v = [] \<and> v_capacity v = 2"
  by (simp add: vect_new_def vect_inv_def vect_items_def)

lemma vect_get_ok:
  assumes "vect_inv v" and "unat idx < unat (v_size v)"
  shows "vect_get (Some v) idx = Inr (val_slot (vect_items v ! unat idx))"
  using assms vect_invD [OF assms(1)]
  by (simp add: vect_get_def word_le_nat_alt vect_items_nth)

lemma vect_inv_update:
  assumes "vect_inv v" and "i < unat (v_size v)"
  shows "vect_inv (v\<lparr>v_data := (v_data v)[i := val_slot e]\<rparr>)"
    and "vect_items (v\<lparr>v_data := (v_data v)[i := val_slot e]\<rparr>) = (vect_items v)[i := e]"
  using assms vect_invD [OF assms(1)]
  by (auto simp: vect_inv_def vect_items_def list_all_length take_update_swap map_update
      nth_list_update)

lemma vect_set_ok:
  assumes "vect_inv v" and "unat idx < unat (v_size v)"
  shows "vect_set True (Some v) idx e = Inr (Some (v\<lparr>v_data := (v_data v)[unat idx := val_slot e]\<rparr>))"
  using assms vect_invD [OF assms(1)]
  by (auto simp: vect_set_def word_le_nat_alt val_slot_def split: option.splits)

lemma vect_inv_append:
  fixes v :: vect_t and e :: "string option"
  assumes "length (v_data v) = unat (v_capacity v)" and "unat (v_size v) < unat (v_capacity v)"
    and "list_all live_slot (take (unat (v_size v)) (v_data v))"
  defines "w \<equiv> v\<lparr>v_data := (v_data v)[unat (v_size v) := val_slot e], v_size := v_size v + 1\<rparr>"
  shows "vect_inv w" and "vect_items w = vect_items v @ [e]"
proof -
  have sz: "unat (v_size v + 1) = Suc (unat (v_size v))"
    using assms(2) by (intro unat_less_Suc [of _ "v_capacity v"]) (simp add: word_less_nat_alt)
  have tk: "take (Suc (unat (v_size v))) ((v_data v)[unat (v_size v) := val_slot e]) =
      take (unat (v_size v)) (v_data v) @ [val_slot e]"
    using assms(1,2) by (simp add: take_Suc_conv_app_nth)
  show "vect_inv w"
    using assms sz tk by (auto simp: vect_inv_def word_le_nat_alt)
  show "vect_items w = vect_items v @ [e]"
    using sz tk by (simp add: w_def vect_items_def)
qed

lemma vect_grow_ok:
  assumes "vect_inv v" and "unat (v_capacity v) < 2 ^ 31"
  obtains w where "vect_grow True v = (w, True)" and "v_size w = v_size v"
    and "unat (v_capacity w) = 2 * unat (v_capacity v)"
    and "length (v_data w) = unat (v_capacity w)"
    and "take (unat (v_size v)) (v_data w) = take (unat (v_size v)) (v_data v)"
proof -
  have "unat (v_capacity v * 2) = 2 * unat (v_capacity v)"
    using assms(2) by (simp add: unat_word_ariths)
  with vect_invD [OF assms(1)] show thesis
    by (intro that [of "v\<lparr>v_capacity := v_capacity v * 2,
      v_data := v_data v @ replicate (unat (v_capacity v)) Uninit\<rparr>"])
      (auto simp: vect_grow_def Let_def)
qed

lemma vect_add_ok:
  assumes "vect_inv v" and "unat (v_size v) < 2 ^ 31"
  shows "\<exists>w. vect_add True True (Some v) e = Inr (Some w) \<and> vect_inv w \<and>
    vect_items w = vect_items v @ [e] \<and>
    v_capacity w = (if v_size v = v_capacity v then v_capacity v * 2 else v_capacity v)"
proof (cases "v_size v = v_capacity v")
  case True
  with assms obtain w where w: "vect_grow True v = (w, True)" "v_size w = v_size v"
    "unat (v_capacity w) = 2 * unat (v_capacity v)" "length (v_data w) = unat (v_capacity w)"
    "take (unat (v_size v)) (v_data w) = take (unat (v_size v)) (v_data v)"
    using vect_grow_ok by (metis (no_types, lifting))
  have "unat (v_size w) < unat (v_capacity w)"
    using w True vect_invD(2) [OF assms(1)] by simp
  moreover have "list_all live_slot (take (unat (v_size w)) (v_data w))"
    using w assms(1) by (simp add: vect_inv_def)
  moreover have "vect_items w = vect_items v" using w by (simp add: vect_items_def)
  moreover have "v_capacity w = v_capacity v * 2" using w(1) by (auto simp: vect_grow_def Let_def split: if_splits)
  ultimately show ?thesis
    using w True vect_inv_append [of w e]
    by (auto simp: vect_add_def val_slot_def split: option.splits)
next
  case False
  with assms(1) have "unat (v_size v) < unat (v_capacity v)"
    by (simp add: vect_inv_def word_le_less_eq flip: word_less_nat_alt)
  with False assms(1) show ?thesis
    using vect_inv_append [of v e]
    by (auto simp: vect_add_def val_slot_def vect_inv_def split: option.splits)
qed

lemma vect_remove_last_ok:
  assumes "vect_inv v"
  shows "\<exists>w. vect_remove_last (Some v) = Inr (Some w) \<and> vect_inv w \<and>
    vect_items w = butlast (vect_items v) \<and> v_capacity w = v_capacity v"
proof (cases "v_size v = 0")
  case True
  then show ?thesis using assms by (simp add: vect_remove_last_def vect_items_def)
next
  case False
  define n where "n = unat (v_size v - 1)"
  have sz: "unat (v_size v) = Suc n"
    using False unat_pred [of "v_size v"] by (simp add: n_def word_neq_0_conv unat_gt_0)
  note inv = vect_invD [OF assms]
  define w where "w = v\<lparr>v_data := (v_data v)[n := Null], v_size := v_size v - 1\<rparr>"
  have "vect_remove_last (Some v) = Inr (Some w)"
    using False inv sz by (simp add: vect_remove_last_def w_def flip: n_def)
  moreover have "vect_inv w"
    using assms sz inv by (auto simp: vect_inv_def w_def word_le_nat_alt list_all_length simp flip: n_def)
  moreover have "vect_items w = butlast (vect_items v)"
    using inv sz by (simp add: vect_items_def w_def take_Suc_conv_app_nth flip: n_def)
  ultimately show ?thesis by (auto simp: w_def)
qed

lemma free_slots_ok:
  assumes "list_all live_slot (take (i + n) d)" and "i + n \<le> length d"
  shows "free_slots d i n = Inr ()"
  using assms by (induction d i n rule: free_slots.induct) (auto simp: list_all_length)

lemma vect_delete_ok:
  assumes "vect_inv v"
  shows "vect_delete (Some v) = Inr ()"
proof -
  have "free_slots (v_data v) 0 (unat (v_size v)) = Inr ()"
    by (rule free_slots_ok) (use assms in \<open>simp_all add: vect_inv_def word_le_nat_alt\<close>)
  then show ?thesis by (simp add: vect_delete_def)
qed

section \<open>The vector is a growable array\<close>

definition deref :: "'a option \<Rightarrow> 'a res" where
  "deref p = (case p of None \<Rightarrow> Inl Null_Deref | Some x \<Rightarrow> Inr x)"

definition add_opt :: "vect_t \<Rightarrow> string option \<Rightarrow> vect_t res" where
  "add_opt v e = bindR (vect_add True True (Some v) e) deref"

definition set_opt :: "vect_t \<Rightarrow> nat \<Rightarrow> string option \<Rightarrow> vect_t res" where
  "set_opt v i e = bindR (vect_set True (Some v) (word_of_nat i) e) deref"

definition get_opt :: "vect_t \<Rightarrow> nat \<Rightarrow> string option res" where
  "get_opt v i = bindR (vect_get (Some v) (word_of_nat i)) (\<lambda>x. Inr (slot_val x))"

definition remove_opt :: "vect_t \<Rightarrow> vect_t res" where
  "remove_opt v = bindR (vect_remove_last (Some v)) deref"

lemma unat_of_index: "i < unat (n :: u32) \<Longrightarrow> unat (word_of_nat i :: u32) = i"
proof -
  assume "i < unat n"
  also have "unat n < 2 ^ LENGTH(32)" by (rule unsigned_less)
  finally show ?thesis by (simp add: unat_of_nat)
qed

interpretation cv: growable vect_inv vect_items add_opt "2 ^ 31" get_opt set_opt remove_opt
proof (unfold_locales, goal_cases)
  case (1 v x)
  with vect_add_ok [of v x] show ?case by (auto simp: add_opt_def deref_def)
next
  case (2 v i)
  then have "i < unat (v_size v)" by simp
  with 2 vect_get_ok [of v "word_of_nat i"] show ?case by (simp add: get_opt_def unat_of_index)
next
  case (3 v i x)
  then have "i < unat (v_size v)" by simp
  with 3 vect_set_ok [of v "word_of_nat i" x] vect_inv_update [of v i x] show ?case
    by (simp add: set_opt_def unat_of_index deref_def)
next
  case (4 v)
  with vect_remove_last_ok [of v] show ?case by (auto simp: remove_opt_def deref_def)
qed

section \<open>Runs of vector operations\<close>

text \<open>
  A client's sequence of calls, run on the vector and on a plain list. Indices are the
  \<open>unsigned int\<close> arguments of the calls; out of range, \<open>vect_set\<close> does nothing and \<open>vect_get\<close>
  returns null.
\<close>

datatype vop = Add "string option" | SetAt u32 "string option" | RemoveLast | GetAt u32

fun vect_run :: "vect_t option \<Rightarrow> vop list \<Rightarrow> (slot list \<times> vect_t option) res" where
  "vect_run vp [] = Inr ([], vp)"
| "vect_run vp (Add e # cs) = bindR (vect_add True True vp e) (\<lambda>vp. vect_run vp cs)"
| "vect_run vp (SetAt i e # cs) = bindR (vect_set True vp i e) (\<lambda>vp. vect_run vp cs)"
| "vect_run vp (RemoveLast # cs) = bindR (vect_remove_last vp) (\<lambda>vp. vect_run vp cs)"
| "vect_run vp (GetAt i # cs) =
     bindR (vect_get vp i) (\<lambda>x. bindR (vect_run vp cs) (\<lambda>(outs, vp). Inr (x # outs, vp)))"

fun list_run :: "string option list \<Rightarrow> vop list \<Rightarrow> string option list \<times> string option list" where
  "list_run xs [] = ([], xs)"
| "list_run xs (Add e # cs) = list_run (xs @ [e]) cs"
| "list_run xs (SetAt i e # cs) = list_run (xs[unat i := e]) cs"
| "list_run xs (RemoveLast # cs) = list_run (butlast xs) cs"
| "list_run xs (GetAt i # cs) =
     (let (outs, ys) = list_run xs cs
      in ((if unat i < length xs then xs ! unat i else None) # outs, ys))"

lemma vect_set_any:
  assumes "vect_inv v"
  shows "\<exists>w. vect_set True (Some v) i e = Inr (Some w) \<and> vect_inv w \<and>
    vect_items w = (vect_items v)[unat i := e]"
proof (cases "unat i < unat (v_size v)")
  case True
  with assms vect_set_ok vect_inv_update show ?thesis by auto
next
  case False
  with assms show ?thesis by (simp add: vect_set_def word_le_nat_alt list_update_beyond)
qed

lemma vect_get_any:
  assumes "vect_inv v"
  shows "vect_get (Some v) i =
    Inr (val_slot (if unat i < length (vect_items v) then vect_items v ! unat i else None))"
  using assms vect_get_ok [OF assms, of i]
  by (auto simp: vect_get_def word_le_nat_alt val_slot_def)

lemma length_list_run:
  "length xs + length cs \<le> n \<Longrightarrow> length (snd (list_run xs cs)) \<le> n"
  by (induction xs cs rule: list_run.induct) (auto split: prod.splits)

lemma vect_run_refines_aux:
  assumes "vect_inv v" and "length (vect_items v) + length cs \<le> 2 ^ 31"
    and "list_run (vect_items v) cs = (outs, ys)"
  shows "\<exists>w. vect_run (Some v) cs = Inr (map val_slot outs, Some w) \<and> vect_inv w \<and> vect_items w = ys"
  using assms
proof (induction cs arbitrary: v outs ys)
  case Nil
  then show ?case by simp
next
  case (Cons c cs)
  show ?case
  proof (cases c)
    case (Add e)
    from Cons.prems have "unat (v_size v) < 2 ^ 31" by simp
    with vect_add_ok [OF Cons.prems(1), of e] obtain w where
      "vect_add True True (Some v) e = Inr (Some w)" "vect_inv w" "vect_items w = vect_items v @ [e]"
      by auto
    with Cons.IH [of w outs ys] Cons.prems Add show ?thesis by simp
  next
    case (SetAt i e)
    from vect_set_any [OF Cons.prems(1), of i e] obtain w where
      "vect_set True (Some v) i e = Inr (Some w)" "vect_inv w"
      "vect_items w = (vect_items v)[unat i := e]" by auto
    with Cons.IH [of w outs ys] Cons.prems SetAt show ?thesis by (simp del: length_vect_items)
  next
    case RemoveLast
    from vect_remove_last_ok [OF Cons.prems(1)] obtain w where
      "vect_remove_last (Some v) = Inr (Some w)" "vect_inv w"
      "vect_items w = butlast (vect_items v)" by auto
    with Cons.IH [of w outs ys] Cons.prems RemoveLast show ?thesis by (simp del: length_vect_items)
  next
    case (GetAt i)
    with Cons.IH [of v "tl outs" ys] Cons.prems show ?thesis
      by (auto simp: vect_get_any split: prod.splits)
  qed
qed

section \<open>Properties\<close>


definition witness_vect :: vect_t where
  "witness_vect = \<lparr>v_data = [Uninit, Uninit], v_size = 0, v_capacity = 2\<rparr>"


text \<open>An append to a full vector doubles the capacity, any other append leaves it, and in both
  cases the elements already stored are kept and the new one is last.\<close>

theorem vect_add_doubles:
  assumes "vect_inv v" and "unat (v_size v) < 2 ^ 31"
  shows "\<exists>w. vect_add True True (Some v) e = Inr (Some w) \<and> vect_inv w \<and>
    vect_items w = vect_items v @ [e] \<and>
    unat (v_capacity w) =
      (if v_size v = v_capacity v then 2 * unat (v_capacity v) else unat (v_capacity v))"
proof -
  from vect_add_ok [OF assms, of e] obtain w where
    w: "vect_add True True (Some v) e = Inr (Some w)" "vect_inv w" "vect_items w = vect_items v @ [e]"
    "v_capacity w = (if v_size v = v_capacity v then v_capacity v * 2 else v_capacity v)" by auto
  moreover have "unat (v_capacity w) =
      (if v_size v = v_capacity v then 2 * unat (v_capacity v) else unat (v_capacity v))"
    using w(4) assms(2) by (auto simp: unat_word_ariths)
  ultimately show ?thesis by blast
qed

theorem vect_add_doubles_witness:
  "\<exists>w. vect_add True True (Some \<lparr>v_data = [Str ''a'', Null], v_size = 2, v_capacity = 2\<rparr>) (Some ''b'')
      = Inr (Some w) \<and> vect_inv w \<and> vect_items w = [Some ''a'', None, Some ''b''] \<and>
      unat (v_capacity w) = 4"
  using vect_add_doubles [of "\<lparr>v_data = [Str ''a'', Null], v_size = 2, v_capacity = 2\<rparr>" "Some ''b''"]
  by (simp add: vect_inv_def vect_items_def)

text \<open>
  Two failure paths leave the vector broken. A failed \<open>strdup\<close> in \<open>vect_set\<close> keeps the pointer it
  has just freed, so that deleting the vector frees it again. A failed \<open>realloc\<close> in \<open>vect_add\<close>
  keeps the doubled capacity over the old array, so that the next append writes outside it.
\<close>

lemma vect_set_failed_strdup_double_free:
  "bindR (vect_set False (Some \<lparr>v_data = [Str ''a'', Uninit], v_size = 1, v_capacity = 2\<rparr>) 0 (Some ''b''))
     vect_delete = Inl Bad_Memory"
  by (simp add: vect_set_def vect_delete_def)

lemma vect_add_failed_realloc_overflow:
  "bindR (vect_add False True (Some \<lparr>v_data = [Str ''a'', Str ''b''], v_size = 2, v_capacity = 2\<rparr>)
       (Some ''c''))
     (\<lambda>vp. vect_add True True vp (Some ''d'')) = Inl Out_Of_Bounds"
  by (simp add: vect_add_def vect_grow_def arr_set_def)

end
