(* ===== verification/Msort.thy ===== *)
theory Msort
  imports Prelude
begin

text \<open>
  The single-threaded merge sort of \<open>Concurrent Sorting/msort.c\<close>: \<open>merge\<close>, \<open>merge_sort_aux\<close> with its
  two arrays that swap roles at every level, and \<open>merge_sort\<close>. Arrays are lists with checked
  accesses; an element is the value of a C \<open>long\<close>, which the code only compares and copies.
\<close>

section \<open>The program\<close>

function merge_loop ::
  "int list \<Rightarrow> nat \<Rightarrow> nat \<Rightarrow> int list \<Rightarrow> nat \<Rightarrow> nat \<Rightarrow> nat \<Rightarrow> (int list \<times> nat \<times> nat \<times> nat) res"
where
  "merge_loop nums mid to target left right i =
     (if i < to \<and> left < mid \<and> right < to then
        bindR (arr_get nums left) (\<lambda>l.
        bindR (arr_get nums right) (\<lambda>r.
        if l \<le> r then
          bindR (arr_set target i l) (\<lambda>target.
          merge_loop nums mid to target (left + 1) right (i + 1))
        else
          bindR (arr_set target i r) (\<lambda>target.
          merge_loop nums mid to target left (right + 1) (i + 1))))
      else Inr (target, left, right, i))"
  by pat_completeness auto
termination
  by (relation "measure (\<lambda>(nums, mid, to, target, left, right, i). to - i)") auto

declare merge_loop.simps [simp del]

definition merge :: "int list \<Rightarrow> nat \<Rightarrow> nat \<Rightarrow> nat \<Rightarrow> int list \<Rightarrow> int list res" where
  "merge nums from mid to target =
     bindR (merge_loop nums mid to target from mid from) (\<lambda>(target, left, right, i).
     if left < mid then arr_blit target i nums left (mid - left)
     else if right < to then arr_blit target i nums right (to - right)
     else Inr target)"

text \<open>
  \<open>merge_sort_aux nums from to target\<close> returns both arrays. The sum \<open>from + to\<close> is an \<open>int\<close>
  addition, undefined when it overflows.
\<close>

function merge_sort_aux :: "int list \<Rightarrow> nat \<Rightarrow> nat \<Rightarrow> int list \<Rightarrow> (int list \<times> int list) res" where
  "merge_sort_aux nums from to target =
     (if to \<le> from + 1 then Inr (nums, target)
      else
        bindR (guardR Int_Overflow (from + to < 2 ^ 31)) (\<lambda>_.
        let mid = (from + to) div 2 in
        bindR (merge_sort_aux target from mid nums) (\<lambda>(target, nums).
        bindR (merge_sort_aux target mid to nums) (\<lambda>(target, nums).
        bindR (merge nums from mid to target) (\<lambda>target.
        Inr (nums, target))))))"
  by pat_completeness auto
termination
  by (relation "measure (\<lambda>(nums, from, to, target). to - from)") auto

declare merge_sort_aux.simps [simp del]

text \<open>
  \<open>calloc\<close> returns zeroed memory or null; the result array and the overwritten input are returned.
\<close>

definition merge_sort :: "bool \<Rightarrow> int list \<Rightarrow> nat \<Rightarrow> (int list \<times> int list) res" where
  "merge_sort calloc_ok nums cnt =
     bindR (assertR calloc_ok) (\<lambda>_.
     bindR (arr_blit (replicate cnt 0) 0 nums 0 cnt) (\<lambda>result.
     bindR (merge_sort_aux nums 0 cnt result) (\<lambda>(nums, result).
     Inr (result, nums))))"

text \<open>
  Reading the input: \<open>inputs\<close> lists what the successive calls of \<open>scanf\<close> convert, \<open>None\<close> for a matching
  failure (which leaves \<open>element\<close> as it was, at first indeterminate), and its end is the end of
  file. A negative \<open>count\<close> makes \<open>calloc\<close> fail.
\<close>

fun load_loop :: "nat \<Rightarrow> nat \<Rightarrow> int option \<Rightarrow> int option list \<Rightarrow> int list \<Rightarrow> int list res" where
  "load_loop i cnt element [] array = Inr array"
| "load_loop i cnt element (x # inputs) array =
     (if i < cnt then
        (case (case x of None \<Rightarrow> element | Some v \<Rightarrow> Some v) of
           None \<Rightarrow> Inl Bad_Memory
         | Some v \<Rightarrow>
             bindR (arr_set array i v) (\<lambda>array. load_loop (i + 1) cnt (Some v) inputs array))
      else Inr array)"

definition allocate_load_array :: "bool \<Rightarrow> int \<Rightarrow> int option list \<Rightarrow> (int \<times> int list) res" where
  "allocate_load_array calloc_ok cnt inputs =
     bindR (assertR (calloc_ok \<and> 0 \<le> cnt)) (\<lambda>_.
     bindR (load_loop 0 (nat cnt) None inputs (replicate (nat cnt) 0)) (\<lambda>array.
     Inr (cnt, array)))"

text \<open>The exit status and the numbers printed; \<open>cnt\<close> is \<open>atoi(argv[1])\<close>.\<close>

definition msort_main :: "nat \<Rightarrow> int \<Rightarrow> bool \<Rightarrow> bool \<Rightarrow> int option list \<Rightarrow> (int \<times> int list) res" where
  "msort_main argc cnt calloc1_ok calloc2_ok inputs =
     (if argc \<noteq> 2 then Inr (1, [])
      else
        bindR (allocate_load_array calloc1_ok cnt inputs) (\<lambda>(cnt, array).
        bindR (merge_sort calloc2_ok array (nat cnt)) (\<lambda>(result, array).
        Inr (0, take (nat cnt) result))))"

section \<open>Merging is the functional merge\<close>

fun merge_list :: "int list \<Rightarrow> int list \<Rightarrow> int list" where
  "merge_list [] ys = ys"
| "merge_list xs [] = xs"
| "merge_list (x # xs) (y # ys) =
     (if x \<le> y then x # merge_list xs (y # ys) else y # merge_list (x # xs) ys)"

lemma merge_list_Nil2 [simp]: "merge_list xs [] = xs"
  by (cases xs) simp_all

lemma mset_merge_list: "mset (merge_list xs ys) = mset xs + mset ys"
  by (induction xs ys rule: merge_list.induct) auto

lemma set_merge_list: "set (merge_list xs ys) = set xs \<union> set ys"
  by (metis mset_merge_list set_mset_mset set_mset_union)

lemma length_merge_list [simp]: "length (merge_list xs ys) = length xs + length ys"
  by (induction xs ys rule: merge_list.induct) auto

lemma sorted_merge_list: "sorted xs \<Longrightarrow> sorted ys \<Longrightarrow> sorted (merge_list xs ys)"
  by (induction xs ys rule: merge_list.induct) (auto simp: set_merge_list)

lemma merge_list_sort: "merge_list (sort xs) (sort ys) = sort (xs @ ys)"
  by (rule properties_for_sort [symmetric]) (simp_all add: mset_merge_list sorted_merge_list)

text \<open>
  What the loop and the final \<open>memmove\<close> do together, from any point of the loop at which the write
  index agrees with the two read indices.
\<close>

definition merge_rest ::
  "int list \<Rightarrow> nat \<Rightarrow> nat \<Rightarrow> int list \<Rightarrow> nat \<Rightarrow> nat \<Rightarrow> nat \<Rightarrow> int list res" where
  "merge_rest nums mid to target left right i =
     bindR (merge_loop nums mid to target left right i) (\<lambda>(target, left, right, i).
     if left < mid then arr_blit target i nums left (mid - left)
     else if right < to then arr_blit target i nums right (to - right)
     else Inr target)"

lemma merge_rest_correct:
  assumes "left \<le> mid" and "right \<le> to" and "mid \<le> right" and "to \<le> length nums"
    and "to \<le> length target" and "i + (mid - left) + (to - right) = to"
  shows "merge_rest nums mid to target left right i =
    Inr (take i target @ merge_list (seg left mid nums) (seg right to nums) @ drop to target)"
  using assms
proof (induction nums mid to target left right i rule: merge_loop.induct)
  case (1 nums mid to target left right i)
  show ?case
  proof (cases "left < mid \<and> right < to")
    case True
    with "1.prems" have i: "i < to" and m: "mid \<le> length nums" by linarith+
    have sl: "seg left mid nums = nums ! left # seg (Suc left) mid nums"
      and sr: "seg right to nums = nums ! right # seg (Suc right) to nums"
      using True "1.prems" m by (simp_all add: seg_Cons)
    have tk: "take (Suc i) (target[i := x]) @ zs = take i target @ x # zs" for x zs
      using i "1.prems" by (simp add: take_Suc_conv_app_nth)
    show ?thesis
    proof (cases "nums ! left \<le> nums ! right")
      case le: True
      have "merge_rest nums mid to target left right i =
          merge_rest nums mid to (target[i := nums ! left]) (left + 1) right (i + 1)"
        using True i le "1.prems" m by (simp add: merge_rest_def merge_loop.simps [of nums mid to target])
      also have "\<dots> = Inr (take (i + 1) (target[i := nums ! left]) @
          merge_list (seg (left + 1) mid nums) (seg right to nums) @
          drop to (target[i := nums ! left]))"
        using True i le "1.prems" m by (intro "1.IH") auto
      finally show ?thesis using i le tk by (simp add: sl sr)
    next
      case gt: False
      have "merge_rest nums mid to target left right i =
          merge_rest nums mid to (target[i := nums ! right]) left (right + 1) (i + 1)"
        using True i gt "1.prems" m by (simp add: merge_rest_def merge_loop.simps [of nums mid to target])
      also have "\<dots> = Inr (take (i + 1) (target[i := nums ! right]) @
          merge_list (seg left mid nums) (seg (right + 1) to nums) @
          drop to (target[i := nums ! right]))"
        using True i gt "1.prems" m by (intro "1.IH") auto
      finally show ?thesis using i gt tk by (simp add: sl sr)
    qed
  next
    case False
    have "merge_loop nums mid to target left right i = Inr (target, left, right, i)"
      using False by (subst merge_loop.simps) auto
    with False "1.prems" show ?thesis
      by (auto simp: merge_rest_def seg_def)
  qed
qed

lemma merge_correct:
  assumes "from \<le> mid" and "mid \<le> to" and "to \<le> length nums" and "to \<le> length target"
  shows "merge nums from mid to target =
    Inr (take from target @ merge_list (seg from mid nums) (seg mid to nums) @ drop to target)"
  using merge_rest_correct [of "from" mid mid to nums target "from"] assms
  by (simp add: merge_def merge_rest_def)

section \<open>Sorting\<close>

lemma aux_halves:
  fixes "from" to :: nat
  assumes "\<not> to \<le> from + 1"
  defines "mid \<equiv> (from + to) div 2"
  shows "from < mid" "mid < to"
  using assms by auto

text \<open>
  The frame of a call: it returns two arrays of the same length, equal to the arguments outside
  the part it works on.
\<close>

definition same_outside :: "nat \<Rightarrow> nat \<Rightarrow> 'a list \<Rightarrow> 'a list \<Rightarrow> bool" where
  "same_outside a b xs ys \<longleftrightarrow>
     length ys = length xs \<and> (\<forall>i < length xs. i < a \<or> b \<le> i \<longrightarrow> ys ! i = xs ! i)"

lemma same_outside_refl [simp]: "same_outside a b xs xs"
  by (simp add: same_outside_def)

lemma same_outside_trans:
  "same_outside a b xs ys \<Longrightarrow> same_outside c d ys zs \<Longrightarrow> l \<le> a \<Longrightarrow> l \<le> c \<Longrightarrow> b \<le> h \<Longrightarrow> d \<le> h \<Longrightarrow>
   same_outside l h xs zs"
  by (auto simp: same_outside_def)

lemma same_outside_seg:
  assumes "same_outside a b xs ys" and "d \<le> a \<or> b \<le> c" and "d \<le> length xs"
  shows "seg c d ys = seg c d xs"
  using assms by (subst seg_eq_iff) (auto simp: same_outside_def)

lemma same_outside_splice:
  assumes "a \<le> b" and "b \<le> length xs" and "length zs = b - a"
  shows "same_outside a b xs (take a xs @ zs @ drop b xs)"
    and "seg a b (take a xs @ zs @ drop b xs) = zs"
  using assms by (auto simp: same_outside_def nth_append seg_def min_def)

lemma merge_sort_aux_correct:
  assumes "from \<le> to" and "to \<le> length nums" and "to \<le> length target"
    and "seg from to target = seg from to nums" and "to \<le> 2 ^ 30"
  shows "\<exists>nums' target'. merge_sort_aux nums from to target = Inr (nums', target') \<and>
    same_outside from to nums nums' \<and> same_outside from to target target' \<and>
    seg from to target' = sort (seg from to nums)"
  using assms
proof (induction nums "from" to target rule: merge_sort_aux.induct)
  case (1 nums "from" to target)
  show ?case
  proof (cases "to \<le> from + 1")
    case True
    then have "length (seg from to nums) \<le> 1" using "1.prems" by simp
    then have "sort (seg from to nums) = seg from to nums"
      by (cases "seg from to nums") auto
    with True "1.prems" show ?thesis by (simp add: merge_sort_aux.simps [of nums])
  next
    case False
    define mid where "mid = (from + to) div 2"
    have mid: "from < mid" "mid < to" using aux_halves [OF False] by (simp_all add: mid_def)
    have small: "from + to < 2 ^ 31" using "1.prems" mid by simp
    have eq1: "seg from mid nums = seg from mid target"
      and eq2: "seg mid to nums = seg mid to target"
      using "1.prems" mid by (simp_all add: seg_eq_iff)
    from "1.IH"(1) [OF False _ mid_def] "1.prems" mid small eq1 obtain t1 n1 where
      1: "merge_sort_aux target from mid nums = Inr (t1, n1)"
      "same_outside from mid target t1" "same_outside from mid nums n1"
      "seg from mid n1 = sort (seg from mid target)"
      by (auto simp: guardR_def)
    have len1: "length t1 = length target" "length n1 = length nums"
      using 1 "1.prems" by (auto simp: same_outside_def)
    have fr1: "seg mid to n1 = seg mid to nums" "seg mid to t1 = seg mid to target"
      using 1 "1.prems" by (auto intro: same_outside_seg)
    from "1.IH"(2) [OF False _ mid_def 1(1)] "1.prems" mid small len1 fr1 eq2 obtain t2 n2 where
      2: "merge_sort_aux t1 mid to n1 = Inr (t2, n2)"
      "same_outside mid to t1 t2" "same_outside mid to n1 n2"
      "seg mid to n2 = sort (seg mid to t1)"
      by (auto simp: guardR_def)
    have len2: "length t2 = length target" "length n2 = length nums"
      using 2 len1 by (auto simp: same_outside_def)
    have fr2: "seg from mid n2 = seg from mid n1"
      using 2 len1 mid "1.prems" by (auto intro: same_outside_seg)
    let ?m = "merge_list (seg from mid n2) (seg mid to n2)"
    have m: "?m = sort (seg from to nums)"
      using 1 2 fr1 fr2 eq1 eq2 seg_split [of "from" mid to nums] mid by (simp add: merge_list_sort)
    have "merge_sort_aux nums from to target = Inr (n2, take from t2 @ ?m @ drop to t2)"
      using False small 1(1) 2(1) mid len2 "1.prems"
      by (simp add: merge_sort_aux.simps [of nums] merge_correct flip: mid_def)
    moreover have "same_outside from to nums n2"
      using 1(3) 2(3) mid by (auto intro: same_outside_trans)
    moreover have "same_outside from to target t2"
      using 1(2) 2(2) mid by (auto intro: same_outside_trans)
    moreover have "same_outside from to t2 (take from t2 @ ?m @ drop to t2)"
      and "seg from to (take from t2 @ ?m @ drop to t2) = ?m"
      using len2 mid "1.prems" by (auto intro!: same_outside_splice)
    ultimately show ?thesis using m by (auto intro: same_outside_trans)
  qed
qed

lemma merge_sort_correct:
  assumes "cnt \<le> length nums" and "cnt \<le> 2 ^ 30"
  shows "\<exists>nums'. merge_sort True nums cnt = Inr (sort (take cnt nums), nums') \<and>
    same_outside 0 cnt nums nums'"
proof -
  have "arr_blit (replicate cnt 0) 0 nums 0 cnt = Inr (take cnt nums)"
    using assms(1) by simp
  moreover obtain nums' target' where
    aux: "merge_sort_aux nums 0 cnt (take cnt nums) = Inr (nums', target')"
      "same_outside 0 cnt nums nums'" "same_outside 0 cnt (take cnt nums) target'"
      "seg 0 cnt target' = sort (seg 0 cnt nums)"
    using merge_sort_aux_correct [of 0 cnt nums "take cnt nums"] assms by (auto simp: seg_def)
  moreover have "target' = sort (take cnt nums)"
    using aux(3,4) assms(1) by (simp add: seg_def same_outside_def)
  ultimately show ?thesis by (simp add: merge_sort_def)
qed

text \<open>Loading stores the converted numbers in order and leaves the rest of the array zero.\<close>

lemma load_loop_correct:
  assumes "length array = cnt" and "i + length xs \<le> cnt"
  shows "load_loop i cnt e (map Some xs) array = Inr (take i array @ xs @ drop (i + length xs) array)"
  using assms
proof (induction xs arbitrary: i e array)
  case Nil
  then show ?case by simp
next
  case (Cons x xs)
  then show ?case by (simp add: take_Suc_conv_app_nth drop_update_swap)
qed

lemma allocate_load_array_correct:
  assumes "length xs \<le> n"
  shows "allocate_load_array True (int n) (map Some xs) = Inr (int n, xs @ replicate (n - length xs) 0)"
  using assms load_loop_correct [of "replicate n 0" n 0 xs None] by (simp add: allocate_load_array_def)

section \<open>Properties\<close>

text \<open>C10: \<open>merge_sort\<close> returns the sorted permutation of the first \<open>count\<close> elements of its argument, with
  every array access in bounds and no arithmetic overflow for up to \<open>2 ^ 30\<close> elements; it
  overwrites nothing of the argument beyond those elements.\<close>

theorem merge_sort_sorts:
  assumes "cnt \<le> length nums" and "cnt \<le> 2 ^ 30"
  shows "\<exists>result nums'. merge_sort True nums cnt = Inr (result, nums') \<and>
    sorted result \<and> mset result = mset (take cnt nums) \<and> same_outside 0 cnt nums nums'"
  using merge_sort_correct [OF assms] by auto

theorem merge_sort_sorts_witness:
  "\<exists>result nums'. merge_sort True [3, 1, 2, 9] 3 = Inr (result, nums') \<and>
    sorted result \<and> mset result = {#1, 2, 3#} \<and> same_outside 0 3 [3, 1, 2, 9] nums'"
  using merge_sort_sorts [of 3 "[3, 1, 2, 9]"] by (simp add: add_mset_commute)

text \<open>Run on \<open>n\<close> input numbers, the program exits with status 0 and prints those numbers in ascending
  order.\<close>

theorem msort_main_prints_sorted:
  assumes "length xs \<le> 2 ^ 30"
  shows "msort_main 2 (int (length xs)) True True (map Some xs) = Inr (0, sort xs)"
proof -
  have "allocate_load_array True (int (length xs)) (map Some xs) = Inr (int (length xs), xs)"
    using allocate_load_array_correct [of xs "length xs"] by simp
  with merge_sort_correct [of "length xs" xs] assms show ?thesis
    by (auto simp: msort_main_def)
qed

theorem msort_main_prints_sorted_witness:
  "msort_main 2 3 True True [Some 9, Some (-4), Some 7] = Inr (0, [-4, 7, 9])"
  using msort_main_prints_sorted [of "[9, -4, 7]"] by simp

text \<open>Merging two adjacent parts of one array into another writes exactly the functional merge of the
  two parts, between the untouched rest of the target: equal elements come from the left part
  first, and the result is sorted when both parts are.\<close>

theorem merge_is_merge:
  assumes "from \<le> mid" and "mid \<le> to" and "to \<le> length nums" and "to \<le> length target"
  shows "merge nums from mid to target =
      Inr (take from target @ merge_list (seg from mid nums) (seg mid to nums) @ drop to target) \<and>
    (sorted (seg from mid nums) \<longrightarrow> sorted (seg mid to nums) \<longrightarrow>
      sorted (merge_list (seg from mid nums) (seg mid to nums)))"
  using merge_correct [OF assms] by (simp add: sorted_merge_list)

theorem merge_is_merge_witness:
  "merge [1, 4, 2, 3, 7] 0 2 4 [0, 0, 0, 0, 5] = Inr [1, 2, 3, 4, 5] \<and>
   sorted (merge_list [1, 4] [2, 3])"
  using merge_is_merge [of 0 2 4 "[1, 4, 2, 3, 7]" "[0, 0, 0, 0, 5]"]
  by (simp add: seg_def numeral_eq_Suc)

end
