(* ===== verification/Conc.thy ===== *)
theory Conc
  imports Prelude
begin

text \<open>
  Fork-join programs over a shared store, with every interleaving of their reads and writes: the
  semantics used for \<open>Concurrent Sorting/tmsort.c\<close>. A program is the tree of the atomic accesses a
  thread makes; \<open>Par a b c\<close> is \<open>pthread_create\<close> of \<open>a\<close>, the caller's own work \<open>b\<close>, \<open>pthread_join\<close>,
  and then \<open>c\<close>; \<open>Fail e\<close> is a thread that does something undefined, from which the program does not
  return. The main result: if no thread fails and threads that run side by side touch disjoint
  locations, every schedule ends, and ends in the store of the sequential run.
\<close>

section \<open>Programs and their interleavings\<close>

datatype ('l, 'v) act =
    Ret
  | Fail c_error
  | Rd 'l "'v \<Rightarrow> ('l, 'v) act"
  | Wr 'l 'v "('l, 'v) act"
  | Par "('l, 'v) act" "('l, 'v) act" "('l, 'v) act"

primrec act_seq :: "('l, 'v) act \<Rightarrow> ('l, 'v) act \<Rightarrow> ('l, 'v) act" where
  "act_seq Ret d = d"
| "act_seq (Fail e) d = Fail e"
| "act_seq (Rd l k) d = Rd l (\<lambda>v. act_seq (k v) d)"
| "act_seq (Wr l v a) d = Wr l v (act_seq a d)"
| "act_seq (Par a b c) d = Par a b (act_seq c d)"

text \<open>One atomic access of some thread, or a join. A thread that failed makes no step, and cannot be joined.\<close>

inductive step :: "('l \<Rightarrow> 'v) \<times> ('l, 'v) act \<Rightarrow> ('l \<Rightarrow> 'v) \<times> ('l, 'v) act \<Rightarrow> bool" where
  rd: "step (s, Rd l k) (s, k (s l))"
| wr: "step (s, Wr l v a) (s(l := v), a)"
| left: "step (s, a) (s', a') \<Longrightarrow> step (s, Par a b c) (s', Par a' b c)"
| right: "step (s, b) (s', b') \<Longrightarrow> step (s, Par a b c) (s', Par a b' c)"
| join: "step (s, Par Ret Ret c) (s, c)"

inductive_cases step_RetE [elim!]: "step (s, Ret) t"
inductive_cases step_FailE [elim!]: "step (s, Fail e) t"
inductive_cases step_RdE [elim!]: "step (s, Rd l k) t"
inductive_cases step_WrE [elim!]: "step (s, Wr l v a) t"
inductive_cases step_ParE: "step (s, Par a b c) (s', d)"

lemma step_Par_cases:
  assumes "step (s, Par a b c) (s', d)"
  obtains (left) a' where "step (s, a) (s', a')" "d = Par a' b c"
  | (right) b' where "step (s, b) (s', b')" "d = Par a b' c"
  | (join) "a = Ret" "b = Ret" "d = c" "s' = s"
  using assms by (auto elim: step_ParE)

text \<open>The sequential run: at a fork the created thread runs to its end first.\<close>

primrec run :: "('l, 'v) act \<Rightarrow> ('l \<Rightarrow> 'v) \<Rightarrow> ('l \<Rightarrow> 'v)" where
  "run Ret s = s"
| "run (Fail e) s = s"
| "run (Rd l k) s = run (k (s l)) s"
| "run (Wr l v a) s = run a (s(l := v))"
| "run (Par a b c) s = run c (run b (run a s))"

section \<open>Footprints and races\<close>

primrec within :: "'l set \<Rightarrow> ('l, 'v) act \<Rightarrow> bool" where
  "within A Ret \<longleftrightarrow> True"
| "within A (Fail e) \<longleftrightarrow> True"
| "within A (Rd l k) \<longleftrightarrow> l \<in> A \<and> (\<forall>v. within A (k v))"
| "within A (Wr l v a) \<longleftrightarrow> l \<in> A \<and> within A a"
| "within A (Par a b c) \<longleftrightarrow> within A a \<and> within A b \<and> within A c"

text \<open>No thread fails, and threads that run side by side keep apart.\<close>

primrec race_free :: "('l, 'v) act \<Rightarrow> bool" where
  "race_free Ret \<longleftrightarrow> True"
| "race_free (Fail e) \<longleftrightarrow> False"
| "race_free (Rd l k) \<longleftrightarrow> (\<forall>v. race_free (k v))"
| "race_free (Wr l v a) \<longleftrightarrow> race_free a"
| "race_free (Par a b c) \<longleftrightarrow> race_free a \<and> race_free b \<and> race_free c \<and>
     (\<exists>A B. within A a \<and> within B b \<and> A \<inter> B = {})"

lemma within_mono: "within A a \<Longrightarrow> A \<subseteq> B \<Longrightarrow> within B a"
  by (induction a) auto

lemma within_act_seq [simp, intro]: "within A a \<Longrightarrow> within A b \<Longrightarrow> within A (act_seq a b)"
  by (induction a) auto

lemma race_free_act_seq [simp]: "race_free (act_seq a b) \<longleftrightarrow> race_free a \<and> race_free b"
  by (induction a) auto

lemma run_act_seq [simp]: "race_free a \<Longrightarrow> run (act_seq a b) s = run b (run a s)"
  by (induction a arbitrary: s) auto

lemma run_outside: "within A a \<Longrightarrow> l \<notin> A \<Longrightarrow> run a s l = s l"
  by (induction a arbitrary: s) auto

lemma run_upd:
  "within A a \<Longrightarrow> l \<notin> A \<Longrightarrow> run a (s(l := v)) = (run a s)(l := v)"
proof (induction a arbitrary: s)
  case (Wr l' v' a)
  then have "l' \<noteq> l" by auto
  then have "run (Wr l' v' a) (s(l := v)) = run a (s(l' := v', l := v))"
    by (simp add: fun_upd_twist)
  also have "\<dots> = (run a (s(l' := v')))(l := v)"
    using Wr.prems by (intro Wr.IH) auto
  finally show ?case by (simp only: run.simps)
qed auto

lemma step_within: "step (s, a) (s', a') \<Longrightarrow> within A a \<Longrightarrow> within A a'"
  by (induction "(s, a)" "(s', a')" arbitrary: s a s' a' rule: step.induct) auto

text \<open>A step of one thread is still the same step after another thread, disjoint from it, has run.\<close>

lemma step_frame:
  assumes "step (s, b) (s', b')" and "within B b" and "within A a" and "A \<inter> B = {}"
  shows "step (run a s, b) (run a s', b')"
  using assms(1,2)
proof (induction "(s, b)" "(s', b')" arbitrary: s b s' b' rule: step.induct)
  case (rd s l k)
  then have "run a s l = s l" using assms by (auto intro: run_outside)
  then show ?case using step.rd [of "run a s" l k] by simp
next
  case (wr s l v a')
  then have "run a (s(l := v)) = (run a s)(l := v)" using assms by (auto intro: run_upd)
  then show ?case using step.wr [of "run a s" l v a'] by simp
qed (auto intro: step.intros)

lemma step_run:
  "step (s, a) (s', a') \<Longrightarrow> race_free a \<Longrightarrow> race_free a' \<and> run a' s' = run a s"
proof (induction a arbitrary: s s' a')
  case (Par a b c)
  from Par.prems(2) obtain A B where
    AB: "within A a" "within B b" "A \<inter> B = {}" "race_free a" "race_free b" "race_free c" by auto
  from Par.prems(1) show ?case
  proof (cases rule: step_Par_cases)
    case (left a1)
    with Par.IH(1) AB left step_within have "race_free a1" "run a1 s' = run a s" "within A a1"
      by blast+
    with left AB show ?thesis by auto
  next
    case (right b1)
    from step_frame [OF right(1) AB(2,1,3)] have fr: "step (run a s, b) (run a s', b1)" .
    with Par.IH(2) AB right step_within have "race_free b1" "run b1 (run a s') = run b (run a s)" "within B b1"
      by blast+
    with right AB show ?thesis by auto
  next
    case join
    with AB show ?thesis by auto
  qed
qed auto

section \<open>Every schedule ends in the sequential store\<close>

abbreviation steps :: "('l \<Rightarrow> 'v) \<times> ('l, 'v) act \<Rightarrow> ('l \<Rightarrow> 'v) \<times> ('l, 'v) act \<Rightarrow> bool" where
  "steps \<equiv> step\<^sup>*\<^sup>*"

lemma steps_run:
  assumes "steps (s, a) (s', a')" and "race_free a"
  shows "race_free a' \<and> run a' s' = run a s"
  using assms
proof (induction "(s', a')" arbitrary: s' a' rule: rtranclp_induct)
  case base
  then show ?case by simp
next
  case (step y)
  obtain s1 a1 where "y = (s1, a1)" by (cases y)
  with step step_run show ?case by metis
qed

lemma steps_Ret: "steps (s, a) (s', Ret) \<Longrightarrow> race_free a \<Longrightarrow> s' = run a s"
  using steps_run by fastforce

text \<open>No program is stuck before its end, and no schedule goes on forever.\<close>

lemma step_progress: "race_free a \<Longrightarrow> a \<noteq> Ret \<Longrightarrow> \<exists>s' a'. step (s, a) (s', a')"
proof (induction a arbitrary: s)
  case (Par a b c)
  then have "race_free a" "race_free b" by simp_all
  then show ?case using Par.IH(1,2) by (cases "a = Ret"; cases "b = Ret") (blast intro: step.intros)+
qed (auto intro: step.intros)

definition act_succ :: "('l, 'v) act \<Rightarrow> ('l, 'v) act \<Rightarrow> bool" where
  "act_succ a' a \<longleftrightarrow> (\<exists>s s'. step (s, a) (s', a'))"

lemma accp_Par:
  assumes "Wellfounded.accp act_succ a" and "Wellfounded.accp act_succ b"
    and "Wellfounded.accp act_succ c"
  shows "Wellfounded.accp act_succ (Par a b c)"
  using assms(1,2)
proof (induction a arbitrary: b rule: accp.induct)
  case outer: (accI a)
  from outer(3) show ?case
  proof (induction b rule: accp.induct)
    case inner: (accI b)
    show ?case
    proof (rule accpI)
      fix d assume "act_succ d (Par a b c)"
      then obtain s s' where "step (s, Par a b c) (s', d)" by (auto simp: act_succ_def)
      then show "Wellfounded.accp act_succ d"
      proof (cases rule: step_Par_cases)
        case (left a')
        then have "act_succ a' a" by (auto simp: act_succ_def)
        moreover have "Wellfounded.accp act_succ b" using inner(1) by (blast intro: accp.accI)
        ultimately show ?thesis using outer(2) left by simp
      next
        case (right b')
        then have "act_succ b' b" by (auto simp: act_succ_def)
        then show ?thesis using inner(2) right by simp
      next
        case join
        then show ?thesis using assms(3) by simp
      qed
    qed
  qed
qed

lemma accp_act: "Wellfounded.accp act_succ a"
proof (induction a)
  case (Par a b c)
  then show ?case by (rule accp_Par)
next
  case Ret
  show ?case by (rule accpI) (auto simp: act_succ_def)
next
  case (Fail e)
  show ?case by (rule accpI) (auto simp: act_succ_def)
next
  case (Rd l k)
  show ?case
  proof (rule accpI)
    fix d assume "act_succ d (Rd l k)"
    then obtain v where "d = k v" by (auto simp: act_succ_def)
    with Rd show "Wellfounded.accp act_succ d" by auto
  qed
next
  case (Wr l v a)
  show ?case
  proof (rule accpI)
    fix d assume "act_succ d (Wr l v a)"
    then have "d = a" by (auto simp: act_succ_def)
    with Wr show "Wellfounded.accp act_succ d" by simp
  qed
qed

lemma act_succ_snd: "step x y \<Longrightarrow> act_succ (snd y) (snd x)"
  unfolding act_succ_def by (metis prod.collapse)

lemma wf_act_succ: "wf {(x, y). act_succ x y}"
proof -
  have "wfp act_succ" by (rule accp_wfpI) (simp add: accp_act)
  then show ?thesis by (simp add: wfp_def)
qed

lemma no_infinite_schedule:
  fixes f :: "nat \<Rightarrow> ('l \<Rightarrow> 'v) \<times> ('l, 'v) act"
  shows "\<exists>i. \<not> step (f i) (f (Suc i))"
proof -
  obtain i where "(snd (f (Suc i)), snd (f i)) \<notin> {(x, y). act_succ x y}"
    using wf_no_infinite_down_chainE [OF wf_act_succ, of "\<lambda>i. snd (f i)"] by auto
  then show ?thesis using act_succ_snd by blast
qed

text \<open>
  \<open>inevitable P x\<close>: along every schedule from \<open>x\<close> a configuration with \<open>P\<close> is reached, no schedule
  getting stuck or going on forever before.
\<close>

inductive inevitable ::
  "(('l \<Rightarrow> 'v) \<times> ('l, 'v) act \<Rightarrow> bool) \<Rightarrow> ('l \<Rightarrow> 'v) \<times> ('l, 'v) act \<Rightarrow> bool" for P where
  now: "P x \<Longrightarrow> inevitable P x"
| later: "\<exists>y. step x y \<Longrightarrow> (\<And>y. step x y \<Longrightarrow> inevitable P y) \<Longrightarrow> inevitable P x"

lemma inevitable_mono: "inevitable P x \<Longrightarrow> (\<And>x. P x \<Longrightarrow> Q x) \<Longrightarrow> inevitable Q x"
  by (induction rule: inevitable.induct) (auto intro: inevitable.intros)

lemma race_free_inevitable:
  "race_free a \<Longrightarrow> inevitable (\<lambda>x. x = (run a s, Ret)) (s, a)"
proof (induction a arbitrary: s rule: wf_induct_rule [OF wf_act_succ])
  case (1 a)
  show ?case
  proof (cases "a = Ret")
    case True
    then show ?thesis by (auto intro: inevitable.now)
  next
    case False
    show ?thesis
    proof (rule inevitable.later)
      show "\<exists>y. step (s, a) y" using step_progress [OF 1(2) False] by blast
    next
      fix y assume st: "step (s, a) y"
      obtain s' a' where y: "y = (s', a')" by (cases y)
      with st step_run 1(2) have "race_free a'" "run a' s' = run a s" by blast+
      with 1(1) [of a' s'] st y show "inevitable (\<lambda>x. x = (run a s, Ret)) y"
        by (auto simp: act_succ_def)
    qed
  qed
qed

section \<open>Programs that cannot return\<close>

text \<open>On every way to the end some thread fails.\<close>

primrec faulty :: "('l, 'v) act \<Rightarrow> bool" where
  "faulty Ret \<longleftrightarrow> False"
| "faulty (Fail e) \<longleftrightarrow> True"
| "faulty (Rd l k) \<longleftrightarrow> (\<forall>v. faulty (k v))"
| "faulty (Wr l v a) \<longleftrightarrow> faulty a"
| "faulty (Par a b c) \<longleftrightarrow> faulty a \<or> faulty b \<or> faulty c"

lemma faulty_act_seq: "faulty a \<or> faulty b \<Longrightarrow> faulty (act_seq a b)"
  by (induction a) auto

lemma step_faulty: "step (s, a) (s', a') \<Longrightarrow> faulty a \<Longrightarrow> faulty a'"
  by (induction "(s, a)" "(s', a')" arbitrary: s a s' a' rule: step.induct) auto

lemma faulty_no_return:
  assumes "faulty a"
  shows "\<not> steps (s, a) (s', Ret)"
proof
  assume "steps (s, a) (s', Ret)"
  moreover have "faulty (snd y)" if "steps (s, a) y" for y
    using that assms by (induction rule: rtranclp_induct) (auto dest: step_faulty)
  ultimately show False by fastforce
qed

end
