(* ===== verification/Tmsort.thy ===== *)
theory Tmsort
  imports Msort Conc
begin

text \<open>
  The multi-threaded merge sort of \<open>Concurrent Sorting/tmsort.c\<close> as a fork-join program over two
  shared arrays. Whether a thread can be created is an argument, \<open>create f t\<close> for the thread that is
  to sort from \<open>f\<close> up to \<open>t\<close>; each range is sorted by one call, so that the argument covers every series of
  answers. Where all threads are created and the thread count is below \<open>INT_MAX\<close>, every schedule
  ends and leaves the arrays exactly as the sequential program of \<open>msort.c\<close> does. The code checks
  neither: where a creation fails, the caller joins an uninitialised handle, and from \<open>INT_MAX\<close> on
  the count overflows.
\<close>

section \<open>The program\<close>

text \<open>A location is an array and an index into it.\<close>

type_synonym loc = "nat \<times> nat"
type_synonym prog = "(loc, int) act"

record merge_ctx =
  ctx_nums :: nat
  ctx_target :: nat
  ctx_from :: nat
  ctx_to :: nat
  ctx_thread_count :: int

primrec tm_memmove :: "nat \<Rightarrow> nat \<Rightarrow> nat \<Rightarrow> nat \<Rightarrow> nat \<Rightarrow> prog" where
  "tm_memmove target i nums j 0 = Ret"
| "tm_memmove target i nums j (Suc n) =
     act_seq (Rd (nums, j + n) (\<lambda>v. Wr (target, i + n) v Ret)) (tm_memmove target i nums j n)"

function tm_merge_loop :: "nat \<Rightarrow> nat \<Rightarrow> nat \<Rightarrow> nat \<Rightarrow> nat \<Rightarrow> nat \<Rightarrow> nat \<Rightarrow> prog" where
  "tm_merge_loop nums mid to target left right i =
     (if left < mid \<and> right < to then
        Rd (nums, left) (\<lambda>l.
        Rd (nums, right) (\<lambda>r.
        if l \<le> r then
          Rd (nums, left) (\<lambda>v.
          Wr (target, i) v (tm_merge_loop nums mid to target (left + 1) right (i + 1)))
        else
          Rd (nums, right) (\<lambda>v.
          Wr (target, i) v (tm_merge_loop nums mid to target left (right + 1) (i + 1)))))
      else if left < mid then tm_memmove target i nums left (mid - left)
      else if right < to then tm_memmove target i nums right (to - right)
      else Ret)"
  by pat_completeness auto
termination
  by (relation "measure (\<lambda>(nums, mid, to, target, left, right, i). (mid - left) + (to - right))") auto

declare tm_merge_loop.simps [simp del]

definition tm_merge :: "nat \<Rightarrow> nat \<Rightarrow> nat \<Rightarrow> nat \<Rightarrow> nat \<Rightarrow> prog" where
  "tm_merge nums from mid to target = tm_merge_loop nums mid to target from mid from"

text \<open>
  The caller's own half is started after the thread for the other one; where the thread was not
  created, the join that follows it reads a handle that was never written.
\<close>

function tm_merge_sort_aux :: "(nat \<Rightarrow> nat \<Rightarrow> bool) \<Rightarrow> nat \<Rightarrow> nat \<Rightarrow> nat \<Rightarrow> nat \<Rightarrow> int \<Rightarrow> prog" where
  "tm_merge_sort_aux create nums from to target thread_count =
     (if to \<le> from + 1 then Ret
      else if 2 ^ 31 \<le> from + to then Fail Int_Overflow
      else let mid = (from + to) div 2 in
        if thread_count \<le> 1 then
          act_seq (tm_merge_sort_aux create target from mid nums 1)
            (act_seq (tm_merge_sort_aux create target mid to nums 1)
              (tm_merge nums from mid to target))
        else
          let own = (case int_add thread_count 1 of
                Inl e \<Rightarrow> Fail e
              | Inr n \<Rightarrow> tm_merge_sort_aux create target mid to nums (n div 2))
          in if create from mid then
               Par (tm_merge_sort_aux create target from mid nums (thread_count div 2)) own
                 (tm_merge nums from mid to target)
             else act_seq own (Fail Bad_Memory))"
  by pat_completeness auto
termination
  by (relation "measure (\<lambda>(create, nums, from, to, target, thread_count). to - from)") auto

declare tm_merge_sort_aux.simps [simp del]

text \<open>
  The thread's entry point unpacks its context; the created thread of the fork above is
  \<open>merge_sort_aux_threaded\<close> on the context the caller builds.
\<close>

definition merge_sort_aux_threaded :: "(nat \<Rightarrow> nat \<Rightarrow> bool) \<Rightarrow> merge_ctx \<Rightarrow> prog" where
  "merge_sort_aux_threaded create ctx =
     tm_merge_sort_aux create (ctx_nums ctx) (ctx_from ctx) (ctx_to ctx) (ctx_target ctx)
       (ctx_thread_count ctx)"

text \<open>The call on a range of more than one element, when nothing goes wrong in it.\<close>

lemma tm_merge_sort_aux_fork:
  fixes nums target "from" to :: nat and tc :: int
  assumes "\<not> to \<le> from + 1" and "to \<le> 2 ^ 30" and "\<And>f t. create f t" and "tc < 2 ^ 31 - 1"
  defines "mid \<equiv> (from + to) div 2"
  defines "args \<equiv> \<lparr>ctx_nums = target, ctx_target = nums, ctx_from = from, ctx_to = mid,
    ctx_thread_count = tc div 2\<rparr>"
  shows "tm_merge_sort_aux create nums from to target tc =
    (if tc \<le> 1 then
       act_seq (tm_merge_sort_aux create target from mid nums 1)
         (act_seq (tm_merge_sort_aux create target mid to nums 1) (tm_merge nums from mid to target))
     else Par (merge_sort_aux_threaded create args) (tm_merge_sort_aux create target mid to nums ((tc + 1) div 2))
       (tm_merge nums from mid to target))"
proof -
  have "from + to < 2 ^ 31" using assms(1,2) by simp
  then show ?thesis
    using assms(1,3,4) by (simp add: tm_merge_sort_aux.simps [of create nums] merge_sort_aux_threaded_def Let_def int_add_def mid_def args_def)
qed

text \<open>The result array is array 1, the argument array 0.\<close>

definition tm_merge_sort :: "(nat \<Rightarrow> nat \<Rightarrow> bool) \<Rightarrow> bool \<Rightarrow> nat \<Rightarrow> int \<Rightarrow> prog res" where
  "tm_merge_sort create calloc_ok cnt thread_count =
     bindR (assertR calloc_ok) (\<lambda>_.
     Inr (act_seq (tm_memmove 1 0 0 0 cnt) (tm_merge_sort_aux create 0 0 cnt 1 thread_count)))"

text \<open>Induction over the halves of the range, whatever the thread count of the calls on them.\<close>

lemma tm_aux_induct:
  fixes P :: "nat \<Rightarrow> nat \<Rightarrow> nat \<Rightarrow> nat \<Rightarrow> int \<Rightarrow> bool"
  assumes "\<And>nums from to target tc. to \<le> from + 1 \<Longrightarrow> P nums from to target tc"
    and "\<And>nums from mid to target tc. \<not> to \<le> from + 1 \<Longrightarrow> mid = (from + to) div 2 \<Longrightarrow> from < mid \<Longrightarrow> mid < to \<Longrightarrow>
      (\<And>t. P target from mid nums t) \<Longrightarrow> (\<And>t. P target mid to nums t) \<Longrightarrow> P nums from to target tc"
  shows "P nums from to target tc"
proof (induction "to - from" arbitrary: nums "from" to target tc rule: less_induct)
  case less
  show ?case
  proof (cases "to \<le> from + 1")
    case True
    then show ?thesis by (rule assms(1))
  next
    case False
    define mid where "mid = (from + to) div 2"
    have mid: "from < mid" "mid < to" using aux_halves [OF False] by (simp_all add: mid_def)
    show ?thesis by (rule assms(2) [OF False mid_def mid]) (use mid in \<open>auto intro: less\<close>)
  qed
qed

section \<open>Footprints\<close>

definition area :: "nat \<Rightarrow> nat \<Rightarrow> nat \<Rightarrow> nat \<Rightarrow> loc set" where
  "area a b l h = {a, b} \<times> {l..<h}"

lemma area_comm: "area a b l h = area b a l h"
  by (auto simp: area_def)

lemma area_mono: "l \<le> l' \<Longrightarrow> h' \<le> h \<Longrightarrow> area a b l' h' \<subseteq> area a b l h"
  by (auto simp: area_def)

lemma area_disjoint: "area a b l m \<inter> area c d m h = {}"
  by (auto simp: area_def)

lemma within_swap:
  "within (area a b l' h') p \<Longrightarrow> l \<le> l' \<Longrightarrow> h' \<le> h \<Longrightarrow> within (area b a l h) p"
  using within_mono area_mono area_comm by metis

lemma within_memmove:
  "l \<le> i \<Longrightarrow> i + n \<le> h \<Longrightarrow> l \<le> j \<Longrightarrow> j + n \<le> h \<Longrightarrow> within (area nums target l h) (tm_memmove target i nums j n)"
  by (induction n) (auto simp: area_def)

lemma race_free_memmove [simp]: "race_free (tm_memmove target i nums j n)"
  by (induction n) auto

lemma within_merge_loop:
  assumes "l \<le> left" "left \<le> mid" "mid \<le> right" "right \<le> to" "l \<le> i"
    and "i + (mid - left) + (to - right) = to"
  shows "within (area nums target l to) (tm_merge_loop nums mid to target left right i)"
  using assms
proof (induction nums mid to target left right i rule: tm_merge_loop.induct)
  case (1 nums mid to target left right i)
  then have "left < mid \<Longrightarrow> right < to \<Longrightarrow> i < to" by linarith
  with 1 show ?case
    by (subst tm_merge_loop.simps) (auto simp: area_def intro!: within_memmove [unfolded area_def])
qed

lemma race_free_merge_loop: "race_free (tm_merge_loop nums mid to target left right i)"
proof (induction nums mid to target left right i rule: tm_merge_loop.induct)
  case (1 nums mid to target left right i)
  then show ?case by (subst tm_merge_loop.simps) auto
qed

lemma within_merge:
  "from \<le> mid \<Longrightarrow> mid \<le> to \<Longrightarrow> within (area nums target from to) (tm_merge nums from mid to target)"
  by (simp add: tm_merge_def within_merge_loop)

lemma within_aux: "within (area nums target from to) (tm_merge_sort_aux create nums from to target tc)"
proof (induction nums "from" to target tc rule: tm_aux_induct)
  case (1 nums "from" to target tc)
  then show ?case by (simp add: tm_merge_sort_aux.simps [of create nums])
next
  case (2 nums "from" mid to target tc)
  have "within (area nums target from to) (tm_merge_sort_aux create target from mid nums t)"
    and "within (area nums target from to) (tm_merge_sort_aux create target mid to nums t)"
    and "within (area nums target from to) (tm_merge nums from mid to target)" for t
    using within_swap [OF 2(5)] within_swap [OF 2(6)] within_merge 2(3,4) by simp_all
  then show ?case
    unfolding tm_merge_sort_aux.simps [of create nums] Let_def 2(2) [symmetric] by (auto split: sum.split)
qed

lemma race_free_aux:
  assumes "\<And>f t. create f t" and "tc < 2 ^ 31 - 1" and "to \<le> 2 ^ 30"
  shows "race_free (tm_merge_sort_aux create nums from to target tc)"
  using assms(2,3)
proof (induction nums "from" to target tc rule: tm_aux_induct)
  case (1 nums "from" to target tc)
  then show ?case by (simp add: tm_merge_sort_aux.simps [of create nums])
next
  case (2 nums "from" mid to target tc)
  have "\<exists>A B. within A (tm_merge_sort_aux create target from mid nums t) \<and>
      within B (tm_merge_sort_aux create target mid to nums u) \<and> A \<inter> B = {}" for t u
    using within_aux area_disjoint by blast
  moreover have "race_free (tm_merge_sort_aux create target from mid nums t)" "race_free (tm_merge_sort_aux create target mid to nums t)"
    if "t < 2 ^ 31 - 1" for t using 2 that by simp_all
  moreover have "tc div 2 < 2 ^ 31 - 1" "(tc + 1) div 2 < 2 ^ 31 - 1" if "\<not> tc \<le> 1" using 2(7) that by simp_all
  ultimately show ?case
    using 2(7) unfolding tm_merge_sort_aux_fork [OF 2(1,8) assms(1) 2(7)] 2(2) [symmetric]
    by (simp add: merge_sort_aux_threaded_def tm_merge_def race_free_merge_loop)
qed

section \<open>The sequential run is the program of msort.c\<close>

text \<open>The first \<open>n\<close> elements of array \<open>a\<close> in a store.\<close>

definition arr :: "(loc \<Rightarrow> int) \<Rightarrow> nat \<Rightarrow> nat \<Rightarrow> int list" where
  "arr s a n = map (\<lambda>i. s (a, i)) [0..<n]"

lemma length_arr [simp]: "length (arr s a n) = n"
  by (simp add: arr_def)

lemma nth_arr [simp]: "i < n \<Longrightarrow> arr s a n ! i = s (a, i)"
  by (simp add: arr_def)

lemma arr_upd: "i < n \<Longrightarrow> arr (s((a, i) := v)) a n = (arr s a n)[i := v]"
  by (rule nth_equalityI) (auto simp: nth_list_update)

lemma arr_upd_other [simp]: "a \<noteq> b \<Longrightarrow> arr (s((a, i) := v)) b n = arr s b n"
  by (simp add: arr_def)

lemma run_memmove:
  assumes "a \<noteq> b" and "i + n \<le> N" and "j + n \<le> M"
  shows "arr (run (tm_memmove b i a j n) s) b N =
      take i (arr s b N) @ take n (drop j (arr s a M)) @ drop (i + n) (arr s b N) \<and>
    arr (run (tm_memmove b i a j n) s) a M = arr s a M"
  using assms
proof (induction n arbitrary: s)
  case 0
  then show ?case by simp
next
  case (Suc n)
  let ?s = "s((b, i + n) := s (a, j + n))"
  have "arr ?s b N = (arr s b N)[i + n := s (a, j + n)]" and "arr ?s a M = arr s a M"
    using Suc.prems by (simp_all add: arr_upd)
  moreover have "take (Suc n) (drop j (arr s a M)) = take n (drop j (arr s a M)) @ [s (a, j + n)]"
    using Suc.prems by (simp add: take_Suc_conv_app_nth)
  moreover have "drop (i + n) ((arr s b N)[i + n := s (a, j + n)]) =
      s (a, j + n) # drop (Suc (i + n)) (arr s b N)"
    using Suc.prems by (simp add: Cons_nth_drop_Suc [symmetric] drop_update_swap)
  moreover have "arr (run (tm_memmove b i a j n) ?s) b N =
      take i (arr ?s b N) @ take n (drop j (arr ?s a M)) @ drop (i + n) (arr ?s b N) \<and>
    arr (run (tm_memmove b i a j n) ?s) a M = arr ?s a M"
    using Suc.prems by (intro Suc.IH) simp_all
  ultimately show ?case by simp
qed

lemma run_merge_loop:
  assumes "a \<noteq> b" and "left \<le> mid" and "mid \<le> right" and "right \<le> to" and "to \<le> n" and "to \<le> m"
    and "i + (mid - left) + (to - right) = to"
  shows "merge_rest (arr s a n) mid to (arr s b m) left right i =
      Inr (arr (run (tm_merge_loop a mid to b left right i) s) b m) \<and>
    arr (run (tm_merge_loop a mid to b left right i) s) a n = arr s a n"
  using assms
proof (induction a mid to b left right i arbitrary: s rule: tm_merge_loop.induct)
  case (1 a mid to b left right i)
  show ?case
  proof (cases "left < mid \<and> right < to")
    case True
    with "1.prems" have i: "i < to" by linarith
    show ?thesis
    proof (cases "s (a, left) \<le> s (a, right)")
      case le: True
      let ?s = "s((b, i) := s (a, left))"
      have "run (tm_merge_loop a mid to b left right i) s =
          run (tm_merge_loop a mid to b (left + 1) right (i + 1)) ?s"
        using True le by (simp add: tm_merge_loop.simps [of a mid to b left])
      moreover have "merge_rest (arr s a n) mid to (arr s b m) left right i =
          merge_rest (arr ?s a n) mid to (arr ?s b m) (left + 1) right (i + 1)"
        using True i le "1.prems"
        by (simp add: merge_rest_def merge_loop.simps [of "arr s a n" mid to "arr s b m"] arr_upd)
      moreover have "arr ?s a n = arr s a n" using "1.prems" by simp
      moreover have "merge_rest (arr ?s a n) mid to (arr ?s b m) (left + 1) right (i + 1) =
          Inr (arr (run (tm_merge_loop a mid to b (left + 1) right (i + 1)) ?s) b m) \<and>
          arr (run (tm_merge_loop a mid to b (left + 1) right (i + 1)) ?s) a n = arr ?s a n"
        using True le i "1.prems" by (intro "1.IH"(1)) auto
      ultimately show ?thesis by simp
    next
      case gt: False
      let ?s = "s((b, i) := s (a, right))"
      have "run (tm_merge_loop a mid to b left right i) s =
          run (tm_merge_loop a mid to b left (right + 1) (i + 1)) ?s"
        using True gt by (simp add: tm_merge_loop.simps [of a mid to b left])
      moreover have "merge_rest (arr s a n) mid to (arr s b m) left right i =
          merge_rest (arr ?s a n) mid to (arr ?s b m) left (right + 1) (i + 1)"
        using True i gt "1.prems"
        by (simp add: merge_rest_def merge_loop.simps [of "arr s a n" mid to "arr s b m"] arr_upd)
      moreover have "arr ?s a n = arr s a n" using "1.prems" by simp
      moreover have "merge_rest (arr ?s a n) mid to (arr ?s b m) left (right + 1) (i + 1) =
          Inr (arr (run (tm_merge_loop a mid to b left (right + 1) (i + 1)) ?s) b m) \<and>
          arr (run (tm_merge_loop a mid to b left (right + 1) (i + 1)) ?s) a n = arr ?s a n"
        using True gt i "1.prems" by (intro "1.IH"(2)) auto
      ultimately show ?thesis by simp
    qed
  next
    case False
    have "merge_loop (arr s a n) mid to (arr s b m) left right i = Inr (arr s b m, left, right, i)"
      using False by (subst merge_loop.simps) auto
    moreover have "tm_merge_loop a mid to b left right i =
        (if left < mid then tm_memmove b i a left (mid - left)
         else if right < to then tm_memmove b i a right (to - right) else Ret)"
      using False by (subst tm_merge_loop.simps) auto
    moreover have "i + (mid - left) \<le> m" "left + (mid - left) \<le> n"
      "i + (to - right) \<le> m" "right + (to - right) \<le> n"
      using "1.prems" by linarith+
    ultimately show ?thesis
      using \<open>a \<noteq> b\<close> run_memmove [of a b i "mid - left" m left n s]
        run_memmove [of a b i "to - right" m right n s]
      by (simp add: merge_rest_def)
  qed
qed

lemma run_merge:
  assumes "a \<noteq> b" and "from \<le> mid" and "mid \<le> to" and "to \<le> n" and "to \<le> m"
  shows "merge (arr s a n) from mid to (arr s b m) =
      Inr (arr (run (tm_merge a from mid to b) s) b m) \<and>
    arr (run (tm_merge a from mid to b) s) a n = arr s a n"
  using run_merge_loop [of a b "from" mid mid to n m "from" s] assms
  by (simp add: merge_def merge_rest_def tm_merge_def)

lemma run_aux:
  assumes "\<And>f t. create f t" and "tc < 2 ^ 31 - 1" and "a \<noteq> b" and "to \<le> n" and "to \<le> m" and "to \<le> 2 ^ 30"
  shows "merge_sort_aux (arr s a n) from to (arr s b m) =
    Inr (arr (run (tm_merge_sort_aux create a from to b tc) s) a n,
         arr (run (tm_merge_sort_aux create a from to b tc) s) b m)"
  using assms(2-)
proof (induction a "from" to b tc arbitrary: s n m rule: tm_aux_induct)
  case (1 a "from" to b tc)
  then show ?case by (simp add: merge_sort_aux.simps [of "arr s a n"] tm_merge_sort_aux.simps [of create a])
next
  case (2 a "from" mid to b tc)
  define t u where "t = (if tc \<le> 1 then 1 else tc div 2)" and "u = (if tc \<le> 1 then 1 else (tc + 1) div 2)"
  have tu: "t < 2 ^ 31 - 1" "u < 2 ^ 31 - 1" using 2(7) by (auto simp: t_def u_def)
  define s1 where "s1 = run (tm_merge_sort_aux create b from mid a t) s"
  define s2 where "s2 = run (tm_merge_sort_aux create b mid to a u) s1"
  have "race_free (tm_merge_sort_aux create b from mid a t)" "race_free (tm_merge_sort_aux create b mid to a u)"
    using race_free_aux [of create] assms(1) tu 2(4,11) by simp_all
  then have r: "run (tm_merge_sort_aux create a from to b tc) s = run (tm_merge a from mid to b) s2"
    unfolding tm_merge_sort_aux_fork [OF 2(1,11) assms(1) 2(7)] 2(2) [symmetric]
    by (cases "tc \<le> 1") (simp_all add: merge_sort_aux_threaded_def s1_def s2_def t_def u_def)
  have 3: "merge_sort_aux (arr s b m) from mid (arr s a n) = Inr (arr s1 b m, arr s1 a n)"
    unfolding s1_def by (rule 2(5)) (use 2 tu in auto)
  have 4: "merge_sort_aux (arr s1 b m) mid to (arr s1 a n) = Inr (arr s2 b m, arr s2 a n)"
    unfolding s2_def by (rule 2(6)) (use 2 tu in auto)
  have small: "from + to < 2 ^ 31" using 2 by simp
  show ?case
    using run_merge [of a b "from" mid to n m s2] 3 4 2 small
    by (simp add: r merge_sort_aux.simps [of "arr s a n"])
qed

section \<open>What goes wrong otherwise\<close>

lemma faulty_sort:
  "faulty (tm_merge_sort_aux create 0 0 n 1 tc) \<Longrightarrow> tm_merge_sort create True n tc = Inr p \<Longrightarrow> \<not> steps (s, p) (s', Ret)"
  by (rule faulty_no_return) (auto simp: tm_merge_sort_def intro: faulty_act_seq)

lemma tmsort_no_thread:
  assumes "1 < n" and "1 < tc" and "\<not> create 0 (n div 2)" and "tm_merge_sort create True n tc = Inr p"
  shows "\<not> steps (s, p) (s', Ret)"
proof (rule faulty_sort [OF _ assms(4)])
  show "faulty (tm_merge_sort_aux create 0 0 n 1 tc)"
    unfolding tm_merge_sort_aux.simps [of create 0 0] Let_def using assms(1-3) by (auto intro: faulty_act_seq)
qed

lemma tmsort_thread_count_overflow:
  assumes "1 < n" and "tm_merge_sort create True n (2 ^ 31 - 1) = Inr p"
  shows "\<not> steps (s, p) (s', Ret)"
proof (rule faulty_sort [OF _ assms(2)])
  show "faulty (tm_merge_sort_aux create 0 0 n 1 (2 ^ 31 - 1))"
    unfolding tm_merge_sort_aux.simps [of create 0 0] Let_def using assms(1) by (auto simp: int_add_def)
qed

section \<open>Properties\<close>

text \<open>C3: when every \<open>pthread_create\<close> succeeds and the thread count is below \<open>INT_MAX\<close>, then for up to \<open>2 ^ 30\<close>
  elements and under every interleaving of the threads' memory accesses the threaded \<open>merge_sort\<close> returns, and
  when it does the result array is the sorted input and both arrays are exactly those the
  single-threaded program of \<open>msort.c\<close> leaves.\<close>

theorem tmsort_every_schedule:
  assumes "n \<le> 2 ^ 30" and "tc < 2 ^ 31 - 1" and "\<And>f t. create f t" and "tm_merge_sort create True n tc = Inr p"
  shows "inevitable (\<lambda>(s', a). a = Ret \<and> arr s' 1 n = sort (arr s 0 n) \<and>
      merge_sort True (arr s 0 n) n = Inr (arr s' 1 n, arr s' 0 n)) (s, p)"
proof -
  from assms(4) have p: "p = act_seq (tm_memmove 1 0 0 0 n) (tm_merge_sort_aux create 0 0 n 1 tc)"
    by (simp add: tm_merge_sort_def)
  define s1 where "s1 = run (tm_memmove 1 0 0 0 n) s"
  have s1: "arr s1 1 n = arr s 0 n" "arr s1 0 n = arr s 0 n"
    using run_memmove [of 0 1 0 n n 0 n s] by (simp_all add: s1_def)
  have "merge_sort_aux (arr s 0 n) 0 n (arr s 0 n) = Inr (arr (run p s) 0 n, arr (run p s) 1 n)"
    using run_aux [of create tc 0 1 n n n s1 0] s1 assms(1-3) by (simp add: p s1_def)
  then have "merge_sort True (arr s 0 n) n = Inr (arr (run p s) 1 n, arr (run p s) 0 n)"
    by (simp add: merge_sort_def)
  moreover from this have "arr (run p s) 1 n = sort (arr s 0 n)"
    using merge_sort_correct [of n "arr s 0 n"] assms(1) by simp
  moreover have "race_free p" using race_free_aux [of create] assms(1-3) by (simp add: p)
  ultimately show ?thesis
    by (auto intro: inevitable_mono [OF race_free_inevitable])
qed

theorem tmsort_every_schedule_witness:
  "\<exists>p. tm_merge_sort (\<lambda>_ _. True) True 3 4 = Inr p \<and>
    inevitable (\<lambda>(s', a). a = Ret \<and> arr s' 1 3 = [1, 2, 5] \<and>
      merge_sort True [5, 1, 2] 3 = Inr (arr s' 1 3, arr s' 0 3))
    ((\<lambda>(a, i). if a = 0 then [5, 1, 2] ! i else 0), p)"
proof -
  let ?s = "\<lambda>(a, i). if a = (0 :: nat) then [5, 1, 2 :: int] ! i else 0"
  let ?p = "act_seq (tm_memmove 1 0 0 0 3) (tm_merge_sort_aux (\<lambda>_ _. True) 0 0 3 1 4)"
  have "arr ?s 0 3 = [5, 1, 2]" by (simp add: arr_def numeral_eq_Suc)
  moreover have p: "tm_merge_sort (\<lambda>_ _. True) True 3 4 = Inr ?p" by (simp add: tm_merge_sort_def)
  ultimately show ?thesis
    using tmsort_every_schedule [of 3 4 "\<lambda>_ _. True", OF _ _ _ p, of ?s] by (intro exI [of _ ?p]) simp
qed

end
