(* ===== verification/MyMalloc.thy ===== *)
theory MyMalloc
  imports Prelude
begin

text \<open>
  The first-fit allocator of \<open>Memory Allocator/mymalloc.c\<close>. The heap is the part of the address space
  below the program break: a map from the addresses of block headers to their contents, the head
  pointer, the break and the payload bytes. A header occupies 24 bytes (\<open>sizeof(block_t)\<close> on the
  64-bit target).

  \<open>mymalloc\<close> calls \<open>request_space\<close> and \<open>find_if_free\<close>, which no file of the repository defines (the file
  defines \<open>request_new_space\<close> and \<open>search_free_block\<close>), so the two are arguments of its model. The
  theorems are about \<open>mymalloc\<close> with the file's own two functions in their place.
\<close>

section \<open>State and operations\<close>

record block_t =
  b_size :: u64
  b_next :: "nat option"
  b_is_free :: bool

record mheap =
  mm_blocks :: "nat \<Rightarrow> block_t option"
  mm_head :: "nat option"
  mm_brk :: nat
  mm_mem :: "nat \<Rightarrow> u8"

definition HDR :: nat where
  "HDR = 24"

text \<open>
  \<open>sbrk\<close> moves the break by a signed amount and fails beyond the limit the system sets; the model
  returns the new break.
\<close>

definition sbrk :: "nat \<Rightarrow> u64 \<Rightarrow> nat \<Rightarrow> nat option" where
  "sbrk limit inc brk =
     (let nb = int brk + sint inc in if nb < 0 \<or> int limit < nb then None else Some (nat nb))"

definition deref_block :: "mheap \<Rightarrow> nat \<Rightarrow> block_t res" where
  "deref_block h a = (case mm_blocks h a of None \<Rightarrow> Inl Bad_Memory | Some b \<Rightarrow> Inr b)"

fun search_loop :: "nat \<Rightarrow> nat \<Rightarrow> nat option \<Rightarrow> u64 \<Rightarrow> mheap \<Rightarrow> (nat option \<times> nat) res" where
  "search_loop 0 prev cur sz h = Inl Out_Of_Fuel"
| "search_loop (Suc fuel) prev None sz h = Inr (None, prev)"
| "search_loop (Suc fuel) prev (Some a) sz h =
     bindR (deref_block h a) (\<lambda>b.
     if b_size b < sz \<or> \<not> b_is_free b then search_loop fuel a (b_next b) sz h
     else Inr (Some a, prev))"

text \<open>
  \<open>search_free_block\<close> returns the block it found and the new value of \<open>*previous_block\<close>. A list of
  distinct headers below the break cannot be longer than the break, which bounds the loop.
\<close>

definition search_free_block :: "nat \<Rightarrow> u64 \<Rightarrow> mheap \<Rightarrow> (nat option \<times> nat) res" where
  "search_free_block previous_block requested_size h =
     search_loop (Suc (Suc (mm_brk h))) previous_block (mm_head h) requested_size h"

definition request_new_space :: "nat \<Rightarrow> nat option \<Rightarrow> u64 \<Rightarrow> mheap \<Rightarrow> (nat option \<times> mheap) res" where
  "request_new_space limit previous_block requested_size h =
     (let new_block = mm_brk h in
      case sbrk limit (of_nat HDR + requested_size) (mm_brk h) of
        None \<Rightarrow> Inr (None, h)
      | Some nb \<Rightarrow>
          let h = h\<lparr>mm_brk := nb\<rparr> in
          bindR (case previous_block of
                   None \<Rightarrow> Inr h
                 | Some p \<Rightarrow>
                     bindR (deref_block h p) (\<lambda>b.
                     Inr (h\<lparr>mm_blocks := (mm_blocks h)(p \<mapsto> b\<lparr>b_next := Some new_block\<rparr>)\<rparr>))) (\<lambda>h.
          bindR (guardR Out_Of_Bounds (new_block + HDR \<le> nb)) (\<lambda>_.
          Inr (Some new_block,
               h\<lparr>mm_blocks := (mm_blocks h)(new_block \<mapsto>
                  \<lparr>b_size = requested_size, b_next = None, b_is_free = False\<rparr>)\<rparr>))))"

definition mymalloc ::
  "(nat option \<Rightarrow> u64 \<Rightarrow> mheap \<Rightarrow> (nat option \<times> mheap) res) \<Rightarrow>
   (nat \<Rightarrow> u64 \<Rightarrow> mheap \<Rightarrow> (nat option \<times> nat) res) \<Rightarrow> u64 \<Rightarrow> mheap \<Rightarrow> (nat option \<times> mheap) res" where
  "mymalloc request_space find_if_free s h =
     bindR (assertR (s > 0)) (\<lambda>_.
     case mm_head h of
       None \<Rightarrow>
         bindR (request_space None s h) (\<lambda>(block, h).
         case block of
           None \<Rightarrow> Inr (None, h)
         | Some b \<Rightarrow> let h = h\<lparr>mm_head := Some b\<rparr> in Inr (Some (b + HDR), h))
     | Some lst \<Rightarrow>
         bindR (find_if_free lst s h) (\<lambda>(block, lst).
         case block of
           Some b \<Rightarrow> Inr (Some (b + HDR), h)
         | None \<Rightarrow>
             bindR (request_space (Some lst) s h) (\<lambda>(block, h).
             case block of
               None \<Rightarrow> Inr (None, h)
             | Some b \<Rightarrow> Inr (Some (b + HDR), h))))"

definition mycalloc ::
  "(nat option \<Rightarrow> u64 \<Rightarrow> mheap \<Rightarrow> (nat option \<times> mheap) res) \<Rightarrow>
   (nat \<Rightarrow> u64 \<Rightarrow> mheap \<Rightarrow> (nat option \<times> nat) res) \<Rightarrow> u64 \<Rightarrow> u64 \<Rightarrow> mheap \<Rightarrow> (nat option \<times> mheap) res" where
  "mycalloc request_space find_if_free num_elements size_per_element h =
     (let total_size = num_elements * size_per_element in
      bindR (mymalloc request_space find_if_free total_size h) (\<lambda>(p, h).
      case p of
        None \<Rightarrow> Inr (None, h)
      | Some a \<Rightarrow>
          Inr (Some a, h\<lparr>mm_mem := (\<lambda>i. if a \<le> i \<and> i < a + unat total_size then 0 else mm_mem h i)\<rparr>)))"

definition myfree :: "nat option \<Rightarrow> mheap \<Rightarrow> mheap res" where
  "myfree pointer_to_free h =
     (case pointer_to_free of
        None \<Rightarrow> Inr h
      | Some p \<Rightarrow>
          bindR (guardR Out_Of_Bounds (HDR \<le> p)) (\<lambda>_.
          bindR (deref_block h (p - HDR)) (\<lambda>b.
          Inr (h\<lparr>mm_blocks := (mm_blocks h)(p - HDR \<mapsto> b\<lparr>b_is_free := True\<rparr>)\<rparr>))))"

text \<open>The allocator with the file's own two helpers.\<close>

definition my_malloc :: "nat \<Rightarrow> u64 \<Rightarrow> mheap \<Rightarrow> (nat option \<times> mheap) res" where
  "my_malloc limit = mymalloc (request_new_space limit) search_free_block"

section \<open>The block list\<close>

primrec chain :: "(nat \<Rightarrow> block_t option) \<Rightarrow> nat option \<Rightarrow> nat list \<Rightarrow> bool" where
  "chain m p [] \<longleftrightarrow> p = None"
| "chain m p (x # xs) \<longleftrightarrow>
     p = Some x \<and> (case m x of None \<Rightarrow> False | Some b \<Rightarrow> chain m (b_next b) xs)"

text \<open>The blocks lie one after the other, each with its header and payload, up to the break.\<close>

primrec laid_out :: "(nat \<Rightarrow> block_t option) \<Rightarrow> nat \<Rightarrow> nat \<Rightarrow> nat list \<Rightarrow> bool" where
  "laid_out m lo brk [] \<longleftrightarrow> lo \<le> brk"
| "laid_out m lo brk (x # xs) \<longleftrightarrow>
     lo \<le> x \<and> (case m x of None \<Rightarrow> False | Some b \<Rightarrow> laid_out m (x + HDR + unat (b_size b)) brk xs)"

definition heap_list :: "mheap \<Rightarrow> nat list \<Rightarrow> bool" where
  "heap_list h xs \<longleftrightarrow>
     chain (mm_blocks h) (mm_head h) xs \<and> laid_out (mm_blocks h) 0 (mm_brk h) xs \<and>
     dom (mm_blocks h) = set xs"

definition payload :: "mheap \<Rightarrow> nat \<Rightarrow> nat set" where
  "payload h a = (case mm_blocks h a of None \<Rightarrow> {} | Some b \<Rightarrow> {a + HDR ..< a + HDR + unat (b_size b)})"

definition fits :: "mheap \<Rightarrow> u64 \<Rightarrow> nat \<Rightarrow> bool" where
  "fits h s a = (case mm_blocks h a of None \<Rightarrow> False | Some b \<Rightarrow> s \<le> b_size b \<and> b_is_free b)"

lemma laid_out_bounds: "laid_out m lo brk xs \<Longrightarrow> lo + HDR * length xs \<le> brk"
  by (induction xs arbitrary: lo) (fastforce simp: HDR_def split: option.splits)+

lemma laid_out_mem:
  "laid_out m lo brk xs \<Longrightarrow> x \<in> set xs \<Longrightarrow>
   \<exists>b. m x = Some b \<and> lo \<le> x \<and> x + HDR + unat (b_size b) \<le> brk"
proof (induction xs arbitrary: lo)
  case (Cons y ys)
  then obtain b where b: "m y = Some b" "lo \<le> y" "laid_out m (y + HDR + unat (b_size b)) brk ys"
    by (auto split: option.splits)
  with Cons show ?case
    using laid_out_bounds [OF b(3)] by fastforce
qed simp

lemma laid_out_above: "laid_out m lo brk xs \<Longrightarrow> x \<in> set xs \<Longrightarrow> lo \<le> x"
  using laid_out_mem by blast

lemma laid_out_distinct: "laid_out m lo brk xs \<Longrightarrow> distinct xs"
proof (induction xs arbitrary: lo)
  case (Cons y ys)
  then obtain b :: block_t where b: "laid_out m (y + HDR + unat (b_size b)) brk ys"
    by (auto split: option.splits)
  then have "y \<notin> set ys" using laid_out_above [OF b, of y] by (auto simp: HDR_def)
  with Cons b show ?case by auto
qed simp

lemma laid_out_disjoint:
  assumes "laid_out m lo brk xs" and "x \<in> set xs" and "y \<in> set xs" and "x < y"
    and "m x = Some b"
  shows "x + HDR + unat (b_size b) \<le> y"
  using assms
proof (induction xs arbitrary: lo)
  case (Cons z zs)
  then obtain c where c: "m z = Some c" "laid_out m (z + HDR + unat (b_size c)) brk zs"
    by (auto split: option.splits)
  show ?case
  proof (cases "x = z")
    case True
    with Cons.prems c laid_out_above [OF c(2), of y] show ?thesis by auto
  next
    case False
    with Cons.prems have "x \<in> set zs" by simp
    moreover from this have "y \<noteq> z" using Cons.prems(4) laid_out_above [OF c(2)] by fastforce
    ultimately show ?thesis using Cons.IH [OF c(2)] Cons.prems by simp
  qed
qed simp

lemma payload_disjoint:
  assumes "heap_list h xs" and "x \<in> set xs" and "y \<in> set xs" and "x \<noteq> y"
  shows "payload h x \<inter> payload h y = {}"
proof -
  from assms have lay: "laid_out (mm_blocks h) 0 (mm_brk h) xs" by (simp add: heap_list_def)
  from laid_out_mem [OF lay] assms obtain b c where
    b: "mm_blocks h x = Some b" and c: "mm_blocks h y = Some c" by blast
  from assms(4) consider "x < y" | "y < x" by linarith
  then show ?thesis
    using laid_out_disjoint [OF lay assms(2,3) _ b] laid_out_disjoint [OF lay assms(3,2) _ c]
    by cases (auto simp: payload_def b c)
qed

section \<open>Searching and requesting\<close>

lemma search_loop_none:
  assumes "chain (mm_blocks h) p xs" and "length xs < fuel" and "\<forall>x \<in> set xs. \<not> fits h s x"
  shows "search_loop fuel prev p s h = Inr (None, last (prev # xs))"
  using assms
proof (induction xs arbitrary: p prev fuel)
  case Nil
  then show ?case by (cases fuel) auto
next
  case (Cons x xs)
  then obtain n b where n: "fuel = Suc n" and b: "mm_blocks h x = Some b" "p = Some x"
    "chain (mm_blocks h) (b_next b) xs"
    by (cases fuel) (auto split: option.splits)
  moreover have "b_size b < s \<or> \<not> b_is_free b" using Cons.prems(3) b by (auto simp: fits_def)
  ultimately show ?case using Cons.IH [of "b_next b" n x] Cons.prems by (simp add: deref_block_def)
qed

lemma search_loop_found:
  assumes "chain (mm_blocks h) p (xs @ a # ys)" and "length (xs @ a # ys) < fuel"
    and "\<forall>x \<in> set xs. \<not> fits h s x" and "fits h s a"
  shows "\<exists>prev'. search_loop fuel prev p s h = Inr (Some a, prev')"
  using assms
proof (induction xs arbitrary: p prev fuel)
  case Nil
  then show ?case
    by (cases fuel) (auto simp: deref_block_def fits_def not_less split: option.splits)
next
  case (Cons x xs)
  then obtain n b where n: "fuel = Suc n" and b: "mm_blocks h x = Some b" "p = Some x"
    "chain (mm_blocks h) (b_next b) (xs @ a # ys)"
    by (cases fuel) (auto split: option.splits)
  moreover have "b_size b < s \<or> \<not> b_is_free b" using Cons.prems(3) b by (auto simp: fits_def)
  ultimately show ?case using Cons.IH [of "b_next b" n x] Cons.prems by (auto simp: deref_block_def)
qed

lemma heap_list_fuel: "heap_list h xs \<Longrightarrow> length xs < Suc (Suc (mm_brk h))"
  using laid_out_bounds [of "mm_blocks h" 0 "mm_brk h" xs] by (simp add: heap_list_def HDR_def)

lemma search_free_block_none:
  assumes "heap_list h xs" and "\<forall>x \<in> set xs. \<not> fits h s x"
  shows "search_free_block prev s h = Inr (None, last (prev # xs))"
  using assms heap_list_fuel [OF assms(1)]
  by (simp add: search_free_block_def heap_list_def search_loop_none del: last.simps)

lemma search_free_block_found:
  assumes "heap_list h (xs @ a # ys)" and "\<forall>x \<in> set xs. \<not> fits h s x" and "fits h s a"
  shows "\<exists>prev'. search_free_block prev s h = Inr (Some a, prev')"
  using assms heap_list_fuel [OF assms(1)] search_loop_found [of h "mm_head h" xs a ys]
  by (simp add: search_free_block_def heap_list_def)

text \<open>Linking a new block behind the last one.\<close>

lemma chain_upd_notin: "x \<notin> set xs \<Longrightarrow> chain (m(x := v)) p xs = chain m p xs"
  by (induction xs arbitrary: p) (auto split: option.splits)

lemma laid_out_upd_notin: "x \<notin> set xs \<Longrightarrow> laid_out (m(x := v)) lo brk xs = laid_out m lo brk xs"
  by (induction xs arbitrary: lo) (auto split: option.splits)

lemma laid_out_same_size:
  assumes "m x = Some b" and "b_size b' = b_size b"
  shows "laid_out (m(x \<mapsto> b')) lo brk xs = laid_out m lo brk xs"
  using assms by (induction xs arbitrary: lo) (auto split: option.splits)

lemma chain_snoc:
  assumes "chain m p (xs @ [l])" and "distinct (xs @ [l])" and "new \<notin> set (xs @ [l])"
    and "m l = Some b" and "b_next nb = None"
  shows "chain (m(l \<mapsto> b\<lparr>b_next := Some new\<rparr>, new \<mapsto> nb)) p ((xs @ [l]) @ [new])"
  using assms
proof (induction xs arbitrary: p)
  case Nil
  then show ?case by auto
next
  case (Cons x xs)
  then show ?case by (auto split: option.splits)
qed

lemma laid_out_snoc:
  assumes "laid_out m lo brk xs" and "m new = Some b" and "brk \<le> new"
    and "new + HDR + unat (b_size b) \<le> brk'"
  shows "laid_out m lo brk' (xs @ [new])"
  using assms by (induction xs arbitrary: lo) (auto split: option.splits)

lemma sbrk_nat:
  "sint inc = int n \<Longrightarrow> sbrk limit inc brk = (if limit < brk + n then None else Some (brk + n))"
  by (auto simp: sbrk_def)

lemma sbrk_request:
  assumes "HDR + unat s < 2 ^ 63"
  shows "sbrk limit (of_nat HDR + s) brk =
    (if limit < brk + (HDR + unat s) then None else Some (brk + (HDR + unat s)))"
proof (rule sbrk_nat)
  have u: "unat (24 + s) = 24 + unat s" using assms by (simp add: unat_word_ariths HDR_def)
  then have "sint (24 + s) = int (unat (24 + s))" using assms by (intro sint_u64_small) (simp add: HDR_def)
  then show "sint (of_nat HDR + s) = int (HDR + unat s)" unfolding u by (simp add: HDR_def)
qed

lemma sbrk_grow:
  "HDR + unat s < 2 ^ 63 \<Longrightarrow> brk + HDR + unat s \<le> limit \<Longrightarrow>
   sbrk limit (of_nat HDR + s) brk = Some (brk + HDR + unat s)"
  by (simp add: sbrk_request add.assoc)

lemma heap_list_brk_new: "heap_list h xs \<Longrightarrow> mm_brk h \<notin> set xs"
  using laid_out_mem [of "mm_blocks h" 0 "mm_brk h" xs "mm_brk h"]
  by (auto simp: heap_list_def HDR_def)

text \<open>The two outcomes of an allocation on a well-formed heap.\<close>

definition new_block :: "u64 \<Rightarrow> block_t" where
  "new_block s = \<lparr>b_size = s, b_next = None, b_is_free = False\<rparr>"

lemma my_malloc_fresh_empty:
  assumes "heap_list h []" and "0 < s" and "HDR + unat s < 2 ^ 63" and "mm_brk h + HDR + unat s \<le> limit"
  shows "\<exists>h'. my_malloc limit s h = Inr (Some (mm_brk h + HDR), h') \<and> heap_list h' [mm_brk h] \<and>
    mm_brk h' = mm_brk h + HDR + unat s \<and> mm_blocks h' (mm_brk h) = Some (new_block s)"
proof -
  from assms(1) have h: "mm_head h = None" "mm_blocks h = Map.empty"
    by (auto simp: heap_list_def)
  let ?h = "h\<lparr>mm_brk := mm_brk h + HDR + unat s, mm_blocks := (mm_blocks h)(mm_brk h \<mapsto> new_block s),
    mm_head := Some (mm_brk h)\<rparr>"
  have "my_malloc limit s h = Inr (Some (mm_brk h + HDR), ?h)"
    using assms h sbrk_grow [OF assms(3,4)]
    by (simp add: my_malloc_def mymalloc_def request_new_space_def Let_def new_block_def)
  moreover have "heap_list ?h [mm_brk h]"
    using h by (simp add: heap_list_def new_block_def)
  ultimately show ?thesis by auto
qed

lemma my_malloc_fresh:
  assumes inv: "heap_list h xs" and ne: "xs \<noteq> []" and nofit: "\<forall>x \<in> set xs. \<not> fits h s x"
    and s: "0 < s" "HDR + unat s < 2 ^ 63" and room: "mm_brk h + HDR + unat s \<le> limit"
  shows "\<exists>h'. my_malloc limit s h = Inr (Some (mm_brk h + HDR), h') \<and>
    heap_list h' (xs @ [mm_brk h]) \<and> mm_brk h' = mm_brk h + HDR + unat s \<and>
    mm_blocks h' (mm_brk h) = Some (new_block s) \<and>
    (\<forall>x \<in> set xs. map_option b_size (mm_blocks h' x) = map_option b_size (mm_blocks h x) \<and>
      map_option b_is_free (mm_blocks h' x) = map_option b_is_free (mm_blocks h x))"
proof -
  obtain ys l where xs: "xs = ys @ [l]" using ne by (cases xs rule: rev_cases) auto
  have lay: "laid_out (mm_blocks h) 0 (mm_brk h) xs" and ch: "chain (mm_blocks h) (mm_head h) xs"
    and dm: "dom (mm_blocks h) = set xs"
    using inv by (auto simp: heap_list_def)
  obtain b where b: "mm_blocks h l = Some b" using laid_out_mem [OF lay, of l] xs by auto
  have new: "mm_brk h \<notin> set xs" using inv by (rule heap_list_brk_new)
  have dist: "distinct xs" using lay by (rule laid_out_distinct)
  define m where "m = (mm_blocks h)(l \<mapsto> b\<lparr>b_next := Some (mm_brk h)\<rparr>, mm_brk h \<mapsto> new_block s)"
  let ?h = "h\<lparr>mm_brk := mm_brk h + HDR + unat s, mm_blocks := m\<rparr>"
  obtain hd where hd: "mm_head h = Some hd" using ch ne by (cases xs) auto
  have "my_malloc limit s h = Inr (Some (mm_brk h + HDR), ?h)"
    using s hd b sbrk_grow [OF s(2) room] search_free_block_none [OF inv nofit, of hd]
    by (simp add: my_malloc_def mymalloc_def request_new_space_def Let_def new_block_def
        deref_block_def m_def xs)
  moreover have "chain m (mm_head h) (xs @ [mm_brk h])"
    unfolding m_def xs
    by (rule chain_snoc) (use ch dist new b xs in \<open>simp_all add: new_block_def\<close>)
  moreover have "laid_out m 0 (mm_brk h + HDR + unat s) (xs @ [mm_brk h])"
  proof (rule laid_out_snoc)
    show "laid_out m 0 (mm_brk h) xs"
      unfolding m_def using lay new b by (simp add: laid_out_upd_notin laid_out_same_size)
    show "m (mm_brk h) = Some (new_block s)" by (simp add: m_def)
  qed (simp_all add: new_block_def)
  moreover have "dom m = set (xs @ [mm_brk h])" using dm by (auto simp: m_def xs)
  moreover have "map_option b_size (m x) = map_option b_size (mm_blocks h x) \<and>
      map_option b_is_free (m x) = map_option b_is_free (mm_blocks h x)" if "x \<in> set xs" for x
    using that new b by (auto simp: m_def)
  ultimately show ?thesis by (intro exI [of _ ?h]) (auto simp: heap_list_def m_def)
qed

lemma my_malloc_reuse:
  assumes "heap_list h (xs @ a # ys)" and "\<forall>x \<in> set xs. \<not> fits h s x" and "fits h s a" and "0 < s"
  shows "my_malloc limit s h = Inr (Some (a + HDR), h)"
proof -
  from assms(1) obtain hd where hd: "mm_head h = Some hd"
    by (cases xs) (auto simp: heap_list_def)
  obtain prev where "search_free_block hd s h = Inr (Some a, prev)"
    using search_free_block_found [OF assms(1-3)] by blast
  with hd assms(4) show ?thesis by (simp add: my_malloc_def mymalloc_def)
qed

lemma my_malloc_fails:
  assumes "heap_list h xs" and "\<forall>x \<in> set xs. \<not> fits h s x" and "0 < s" and "HDR + unat s < 2 ^ 63"
    and "limit < mm_brk h + HDR + unat s"
  shows "my_malloc limit s h = Inr (None, h)"
proof -
  have "sbrk limit (of_nat HDR + s) (mm_brk h) = None"
    using assms(4,5) by (simp add: sbrk_request add.assoc)
  then show ?thesis
    using assms(3) search_free_block_none [OF assms(1,2)]
    by (auto simp: my_malloc_def mymalloc_def request_new_space_def Let_def split: option.splits)
qed

lemma myfree_frees:
  assumes "heap_list h xs" and "a \<in> set xs"
  shows "\<exists>h'. myfree (Some (a + HDR)) h = Inr h' \<and> heap_list h' xs \<and> mm_brk h' = mm_brk h \<and>
    (\<exists>b. mm_blocks h a = Some b \<and> mm_blocks h' = (mm_blocks h)(a \<mapsto> b\<lparr>b_is_free := True\<rparr>))"
proof -
  from assms obtain b where b: "mm_blocks h a = Some b"
    using laid_out_mem by (metis heap_list_def)
  have "chain ((mm_blocks h)(a \<mapsto> b\<lparr>b_is_free := True\<rparr>)) p ys = chain (mm_blocks h) p ys" for p ys
    using b by (induction ys arbitrary: p) (auto split: option.splits)
  then have "heap_list (h\<lparr>mm_blocks := (mm_blocks h)(a \<mapsto> b\<lparr>b_is_free := True\<rparr>)\<rparr>) xs"
    using assms b by (auto simp: heap_list_def laid_out_same_size)
  with b show ?thesis by (simp add: myfree_def deref_block_def)
qed

section \<open>Properties\<close>

text \<open>C24: with the file's own \<open>request_new_space\<close> and \<open>search_free_block\<close> in place of the two functions that \<open>mymalloc\<close> calls and
  no file defines, and for sizes that stay below \<open>2 ^ 63\<close> together with the header, so that the signed argument of \<open>sbrk\<close> does
  not overflow: on a well-formed heap on which no free block is large enough, an allocation that the system
  grants returns a block behind all others: the heap stays well formed, the payloads of distinct
  blocks stay disjoint, and the new payload holds the requested number of bytes below the new
  break and overlaps none of the old blocks. If the system refuses, null is returned and the heap
  is unchanged.\<close>

theorem malloc_fresh_disjoint:
  assumes "heap_list h xs" and "\<forall>x \<in> set xs. \<not> fits h s x" and "0 < s" and "HDR + unat s < 2 ^ 63"
  shows "(if limit < mm_brk h + HDR + unat s then my_malloc limit s h = Inr (None, h)
    else \<exists>h' a. my_malloc limit s h = Inr (Some (a + HDR), h') \<and> heap_list h' (xs @ [a]) \<and>
      payload h' a = {a + HDR ..< a + HDR + unat s} \<and> a + HDR + unat s = mm_brk h' \<and>
      (\<forall>x \<in> set xs. payload h' x = payload h x \<and> payload h' a \<inter> payload h' x = {}))"
proof (cases "limit < mm_brk h + HDR + unat s")
  case True
  with my_malloc_fails [OF assms] show ?thesis by simp
next
  case False
  then have room: "mm_brk h + HDR + unat s \<le> limit" by simp
  obtain h' where h': "my_malloc limit s h = Inr (Some (mm_brk h + HDR), h')"
    "heap_list h' (xs @ [mm_brk h])" "mm_brk h' = mm_brk h + HDR + unat s"
    "mm_blocks h' (mm_brk h) = Some (new_block s)"
    "\<forall>x \<in> set xs. map_option b_size (mm_blocks h' x) = map_option b_size (mm_blocks h x)"
  proof (cases "xs = []")
    case True
    with my_malloc_fresh_empty [of h s limit] assms room that show thesis by auto
  next
    case False
    with my_malloc_fresh [OF assms(1) False assms(2,3,4) room] that show thesis by auto
  qed
  have new: "mm_brk h \<notin> set xs" using assms(1) by (rule heap_list_brk_new)
  have "payload h' x = payload h x" if "x \<in> set xs" for x
    using h'(5) that by (auto simp: payload_def split: option.splits)
  moreover have "payload h' (mm_brk h) \<inter> payload h' x = {}" if "x \<in> set xs" for x
    using that new by (intro payload_disjoint [OF h'(2)]) auto
  moreover have "payload h' (mm_brk h) = {mm_brk h + HDR ..< mm_brk h + HDR + unat s}"
    by (simp add: payload_def h'(4) new_block_def)
  ultimately show ?thesis using False h' by auto
qed

theorem malloc_fresh_disjoint_witness:
  "let h = \<lparr>mm_blocks = [1000 \<mapsto> \<lparr>b_size = 8, b_next = None, b_is_free = False\<rparr>],
      mm_head = Some 1000, mm_brk = 1032, mm_mem = (\<lambda>_. 0)\<rparr> in
   heap_list h [1000] \<and>
   (\<exists>h' a. my_malloc 2000 16 h = Inr (Some (a + HDR), h') \<and> heap_list h' [1000, a] \<and>
      payload h' a \<inter> payload h' 1000 = {})"
proof -
  let ?h = "\<lparr>mm_blocks = [1000 \<mapsto> \<lparr>b_size = 8, b_next = None, b_is_free = False\<rparr>],
      mm_head = Some 1000, mm_brk = 1032, mm_mem = (\<lambda>_. 0)\<rparr>"
  have h: "heap_list ?h [1000]" by (simp add: heap_list_def HDR_def)
  have "\<forall>x \<in> set [1000]. \<not> fits ?h 16 x" by (simp add: fits_def)
  from malloc_fresh_disjoint [OF h this, of 2000] h show ?thesis by (auto simp: HDR_def Let_def)
qed

text \<open>C25: First fit: when some free block is large enough, the allocation returns the payload of the first
  such block of the list. It does so without changing the heap, so the block stays marked free
  and the next request of that size is given the very same block.\<close>

theorem malloc_reuse_aliases:
  assumes "heap_list h (xs @ a # ys)" and "\<forall>x \<in> set xs. \<not> fits h s x" and "fits h s a" and "0 < s"
  shows "my_malloc limit s h = Inr (Some (a + HDR), h) \<and>
    bindR (my_malloc limit s h) (\<lambda>(p, h1). bindR (my_malloc limit s h1) (\<lambda>(q, h2). Inr (p, q))) =
      Inr (Some (a + HDR), Some (a + HDR))"
  using my_malloc_reuse [OF assms, of limit] by simp

theorem malloc_reuse_aliases_witness:
  "bindR (my_malloc 2000 8
      \<lparr>mm_blocks = [1000 \<mapsto> \<lparr>b_size = 8, b_next = None, b_is_free = True\<rparr>],
       mm_head = Some 1000, mm_brk = 1032, mm_mem = (\<lambda>_. 0)\<rparr>)
     (\<lambda>(p, h1). bindR (my_malloc 2000 8 h1) (\<lambda>(q, h2). Inr (p, q))) = Inr (Some 1024, Some 1024)"
  using malloc_reuse_aliases
    [of "\<lparr>mm_blocks = [1000 \<mapsto> \<lparr>b_size = 8, b_next = None, b_is_free = True\<rparr>],
       mm_head = Some 1000, mm_brk = 1032, mm_mem = (\<lambda>_. 0)\<rparr>" "[]" 1000 "[]" 8 2000]
  by (simp add: heap_list_def fits_def HDR_def)

text \<open>A size so large that the header is added modulo \<open>2 ^ 64\<close>: the break moves by less than a header, which is written beyond it.\<close>

lemma malloc_size_wraps:
  assumes "mm_head h = None" and "mm_brk h + 8 \<le> limit"
  shows "my_malloc limit (- 16) h = Inl Out_Of_Bounds"
proof -
  have "sint (of_nat HDR + (- 16 :: u64)) = int 8" by (simp add: HDR_def)
  then have "sbrk limit (of_nat HDR + - 16) (mm_brk h) = Some (mm_brk h + 8)"
    using assms(2) sbrk_nat [of "of_nat HDR + - 16" 8 limit "mm_brk h"] by simp
  moreover have "(0 :: u64) < - 16" by code_simp
  ultimately show ?thesis
    using assms(1) by (simp add: my_malloc_def mymalloc_def request_new_space_def Let_def HDR_def)
qed

text \<open>Freeing a block marks it free and keeps the heap well formed, and \<open>mycalloc\<close> returns zeroed bytes.\<close>

lemma mycalloc_zeroes:
  assumes "mycalloc rs ff n sz h = Inr (Some a, h')" and "i < unat (n * sz)"
  shows "mm_mem h' (a + i) = 0"
proof (cases "mymalloc rs ff (n * sz) h")
  case (Inl e)
  with assms(1) show ?thesis by (simp add: mycalloc_def Let_def)
next
  case (Inr r)
  obtain p h1 where "r = (p, h1)" by (cases r) auto
  with Inr assms show ?thesis by (cases p) (auto simp: mycalloc_def Let_def)
qed

text \<open>The product in \<open>mycalloc\<close> is not checked: it wraps, and a huge request is served by a small block.\<close>

lemma mycalloc_overflow: "mycalloc rs ff (2 ^ 61 + 1) 8 h = mycalloc rs ff 1 8 h"
proof -
  have "(2 ^ 61 + 1) * 8 = (1 * 8 :: u64)" by code_simp
  then show ?thesis unfolding mycalloc_def by (simp only:)
qed

end
