(* ===== verification/Image.thy ===== *)
theory Image
  imports Prelude
begin

text \<open>
  The disk image of the file system: one megabyte of bytes mapped into memory (\<open>blocks_base\<close> of
  blocks.c), addressed by offsets from its start. A C pointer into the image is such an offset, and a
  pointer that may be null is an \<open>int option\<close>. Every access is checked against the mapping:
  outside it is \<^const>\<open>Out_Of_Bounds\<close>. An \<open>int\<close> is four bytes, little-endian, in two's
  complement; a \<open>time_t\<close> eight. The unchecked \<open>get32\<close>, \<open>set32\<close> and \<open>set64\<close> carry the reasoning.
\<close>

section \<open>Bytes and integers of the image\<close>

type_synonym img = "int \<Rightarrow> u8"

definition NUFS_SIZE :: int where
  "NUFS_SIZE = 1048576"

definition mapped :: "int \<Rightarrow> int \<Rightarrow> bool" where
  "mapped a n \<longleftrightarrow> 0 \<le> a \<and> 0 \<le> n \<and> a + n \<le> NUFS_SIZE"

definition rd8 :: "img \<Rightarrow> int \<Rightarrow> u8 res" where
  "rd8 m a = (if mapped a 1 then Inr (m a) else Inl Out_Of_Bounds)"

definition wr8 :: "img \<Rightarrow> int \<Rightarrow> u8 \<Rightarrow> img res" where
  "wr8 m a v = (if mapped a 1 then Inr (m(a := v)) else Inl Out_Of_Bounds)"

definition get32 :: "img \<Rightarrow> int \<Rightarrow> int" where
  "get32 m a =
     (let v = uint (m a) + 256 * uint (m (a + 1)) + 65536 * uint (m (a + 2)) + 16777216 * uint (m (a + 3))
      in if v < 2147483648 then v else v - 4294967296)"

definition set32 :: "img \<Rightarrow> int \<Rightarrow> int \<Rightarrow> img" where
  "set32 m a v = m(a := word_of_int v, a + 1 := word_of_int (v div 256),
     a + 2 := word_of_int (v div 65536), a + 3 := word_of_int (v div 16777216))"

definition set64 :: "img \<Rightarrow> int \<Rightarrow> int \<Rightarrow> img" where
  "set64 m a v = set32 (set32 m a v) (a + 4) (v div 4294967296)"

definition rd32 :: "img \<Rightarrow> int \<Rightarrow> int res" where
  "rd32 m a = (if mapped a 4 then Inr (get32 m a) else Inl Out_Of_Bounds)"

definition wr32 :: "img \<Rightarrow> int \<Rightarrow> int \<Rightarrow> img res" where
  "wr32 m a v = (if mapped a 4 then Inr (set32 m a v) else Inl Out_Of_Bounds)"

definition wr64 :: "img \<Rightarrow> int \<Rightarrow> int \<Rightarrow> img res" where
  "wr64 m a v = (if mapped a 8 then Inr (set64 m a v) else Inl Out_Of_Bounds)"

text \<open>\<open>memset(p, 0, n)\<close>, and \<open>memcpy\<close> out of and into the image.\<close>

definition clear_img :: "img \<Rightarrow> int \<Rightarrow> int \<Rightarrow> img" where
  "clear_img m a n = (\<lambda>i. if a \<le> i \<and> i < a + n then 0 else m i)"

definition memzero :: "img \<Rightarrow> int \<Rightarrow> int \<Rightarrow> img res" where
  "memzero m a n = (if mapped a n then Inr (clear_img m a n) else Inl Out_Of_Bounds)"

definition get_bytes :: "img \<Rightarrow> int \<Rightarrow> nat \<Rightarrow> u8 list" where
  "get_bytes m a n = map (\<lambda>i. m (a + int i)) [0..<n]"

definition set_bytes :: "img \<Rightarrow> int \<Rightarrow> u8 list \<Rightarrow> img" where
  "set_bytes m a bs = (\<lambda>i. if a \<le> i \<and> i < a + int (length bs) then bs ! nat (i - a) else m i)"

definition copy_out :: "img \<Rightarrow> int \<Rightarrow> int \<Rightarrow> u8 list res" where
  "copy_out m a n = (if mapped a n then Inr (get_bytes m a (nat n)) else Inl Out_Of_Bounds)"

definition copy_in :: "img \<Rightarrow> int \<Rightarrow> u8 list \<Rightarrow> img res" where
  "copy_in m a bs = (if mapped a (int (length bs)) then Inr (set_bytes m a bs) else Inl Out_Of_Bounds)"

text \<open>
  C strings are character lists without a zero character. \<open>str_at\<close> is \<open>strcmp(a, s) == 0\<close> for a
  string \<open>s\<close> outside the image: it reads no further than the first difference.
\<close>

fun str_at :: "img \<Rightarrow> int \<Rightarrow> string \<Rightarrow> bool res" where
  "str_at m a [] = bindR (rd8 m a) (\<lambda>b. Inr (b = 0))"
| "str_at m a (c # s) =
     bindR (rd8 m a) (\<lambda>b. if b = of_char c then str_at m (a + 1) s else Inr False)"

definition str_bytes :: "string \<Rightarrow> u8 list" where
  "str_bytes s = map of_char s @ [0]"

definition strcpy_img :: "img \<Rightarrow> int \<Rightarrow> string \<Rightarrow> img res" where
  "strcpy_img m a s = copy_in m a (str_bytes s)"

text \<open>Dereferencing a pointer, and signed arithmetic on \<open>int\<close>.\<close>

definition deref :: "int option \<Rightarrow> int res" where
  "deref p = (case p of None \<Rightarrow> Inl Null_Deref | Some a \<Rightarrow> Inr a)"

definition int32 :: "int \<Rightarrow> bool" where
  "int32 v \<longleftrightarrow> - 2147483648 \<le> v \<and> v < 2147483648"

definition chk32 :: "int \<Rightarrow> int res" where
  "chk32 v = (if int32 v then Inr v else Inl Int_Overflow)"

text \<open>Conversion of an integer to \<open>int\<close>, and to \<open>size_t\<close>.\<close>

definition to_int32 :: "int \<Rightarrow> int" where
  "to_int32 v = (v + 2147483648) mod 4294967296 - 2147483648"

definition to_size :: "int \<Rightarrow> int" where
  "to_size v = v mod 18446744073709551616"

section \<open>Reading back what was written\<close>

named_theorems img_simps \<open>reads of an updated image\<close>

text \<open>Two images agree outside a set of addresses.\<close>

definition eq_outside :: "int set \<Rightarrow> img \<Rightarrow> img \<Rightarrow> bool" where
  "eq_outside S m m' \<longleftrightarrow> (\<forall>a. a \<notin> S \<longrightarrow> m' a = m a)"

lemma mod_65536: "(w :: int) mod 65536 = 256 * (w div 256 mod 256) + w mod 256"
  using zmod_zmult2_eq [of 256 w 256] by simp

lemma byte_sum:
  "v mod 256 + 256 * (v div 256 mod 256) + 65536 * (v div 65536 mod 256) + 16777216 * (v div 16777216 mod 256)
     = v mod (4294967296 :: int)"
proof -
  have "v mod 4294967296 = 65536 * (v div 65536 mod 65536) + v mod 65536"
    using zmod_zmult2_eq [of 65536 v 65536] by simp
  moreover have "v div 65536 div 256 = v div 16777216"
    using zdiv_zmult2_eq [of 256 v 65536] by simp
  ultimately show ?thesis
    using mod_65536 [of v] mod_65536 [of "v div 65536"] by (simp only: distrib_left mult.assoc [symmetric])
qed

lemma int32_mod: "int32 v \<Longrightarrow> v mod 4294967296 = (if 0 \<le> v then v else v + 4294967296)"
  using mod_pos_pos_trivial [of v 4294967296] mod_pos_pos_trivial [of "v + 4294967296" 4294967296]
  by (simp add: int32_def)

lemma uint_u8_of_int: "uint (word_of_int v :: u8) = v mod 256"
  by (simp add: uint_word_of_int)

lemma get32_set32_same: "int32 v \<Longrightarrow> get32 (set32 m a v) a = v"
proof -
  assume v: "int32 v"
  have "set32 m a v a = word_of_int v" "set32 m a v (a + 1) = word_of_int (v div 256)"
    "set32 m a v (a + 2) = word_of_int (v div 65536)" "set32 m a v (a + 3) = word_of_int (v div 16777216)"
    by (simp_all add: set32_def)
  then have "get32 (set32 m a v) a =
      (if v mod 4294967296 < 2147483648 then v mod 4294967296 else v mod 4294967296 - 4294967296)"
    by (simp only: get32_def Let_def uint_u8_of_int byte_sum)
  with v show ?thesis by (simp add: int32_mod) (simp add: int32_def)
qed

lemma int32_get32 [simp]: "int32 (get32 m a)"
proof -
  have "uint (w :: u8) < 256" "0 \<le> uint w" for w using uint_bounded [of w] by simp_all
  from this [of "m a"] this [of "m (a + 1)"] this [of "m (a + 2)"] this [of "m (a + 3)"]
  have "0 \<le> uint (m a) + 256 * uint (m (a + 1)) + 65536 * uint (m (a + 2)) + 16777216 * uint (m (a + 3))"
    "uint (m a) + 256 * uint (m (a + 1)) + 65536 * uint (m (a + 2)) + 16777216 * uint (m (a + 3)) < 4294967296"
    by linarith+
  then show ?thesis unfolding int32_def get32_def Let_def by (simp only: split: if_split) linarith
qed

lemma rd32_int32: "rd32 m a = Inr v \<Longrightarrow> int32 v"
  by (auto simp: rd32_def split: if_splits)

lemma rd32_wr32: "wr32 m a v = Inr m' \<Longrightarrow> int32 v \<Longrightarrow> rd32 m' a = Inr v"
  by (auto simp: rd32_def wr32_def get32_set32_same split: if_splits)

lemma get32_cong:
  assumes "\<And>i. a \<le> i \<Longrightarrow> i < a + 4 \<Longrightarrow> m' i = m i"
  shows "get32 m' a = get32 m a"
proof -
  have "m' a = m a" "m' (a + 1) = m (a + 1)" "m' (a + 2) = m (a + 2)" "m' (a + 3) = m (a + 3)"
    by (rule assms; simp)+
  then show ?thesis by (simp add: get32_def)
qed

lemma set32_other: "i < a \<or> a + 4 \<le> i \<Longrightarrow> set32 m a v i = m i"
  by (auto simp: set32_def)

lemma set64_other: "i < a \<or> a + 8 \<le> i \<Longrightarrow> set64 m a v i = m i"
  by (auto simp: set64_def set32_other)

lemma clear_img_other: "i < a \<or> a + n \<le> i \<Longrightarrow> clear_img m a n i = m i"
  by (auto simp: clear_img_def)

lemma set_bytes_other: "i < a \<or> a + int (length bs) \<le> i \<Longrightarrow> set_bytes m a bs i = m i"
  by (auto simp: set_bytes_def)

lemma get32_set32: "int32 v \<Longrightarrow> b = a \<or> b + 4 \<le> a \<or> a + 4 \<le> b \<Longrightarrow>
   get32 (set32 m a v) b = (if b = a then v else get32 m b)"
  by (auto simp: get32_set32_same intro!: get32_cong set32_other)

lemma get32_set32_other: "b + 4 \<le> a \<or> a + 4 \<le> b \<Longrightarrow> get32 (set32 m a v) b = get32 m b"
  by (intro get32_cong set32_other) auto

lemma get32_set64_other: "b + 4 \<le> a \<or> a + 8 \<le> b \<Longrightarrow> get32 (set64 m a v) b = get32 m b"
  by (intro get32_cong set64_other) auto

lemma get32_upd_other: "b + 4 \<le> a \<or> a < b \<Longrightarrow> get32 (m(a := v)) b = get32 m b"
  by (intro get32_cong) auto

lemma get32_clear_other: "b + 4 \<le> a \<or> a + n \<le> b \<Longrightarrow> get32 (clear_img m a n) b = get32 m b"
  by (intro get32_cong clear_img_other) auto

lemma get32_clear: "a \<le> b \<Longrightarrow> b + 4 \<le> a + n \<Longrightarrow> get32 (clear_img m a n) b = 0"
  by (simp add: get32_def clear_img_def)

lemma get32_set_bytes_other:
  "b + 4 \<le> a \<or> a + int (length bs) \<le> b \<Longrightarrow> get32 (set_bytes m a bs) b = get32 m b"
  by (intro get32_cong set_bytes_other) auto

lemma get32_eq_outside: "eq_outside S m m' \<Longrightarrow> {a ..< a + 4} \<inter> S = {} \<Longrightarrow> get32 m' a = get32 m a"
  by (rule get32_cong) (auto simp: eq_outside_def)

lemmas image_other = set32_other set64_other clear_img_other set_bytes_other
lemmas get32_other = get32_set32_other get32_set64_other get32_upd_other get32_clear_other
  get32_set_bytes_other

lemma length_get_bytes [simp]: "length (get_bytes m a n) = n"
  by (simp add: get_bytes_def)

lemma get_bytes_set_bytes: "get_bytes (set_bytes m a bs) a (length bs) = bs"
  by (rule nth_equalityI) (auto simp: get_bytes_def set_bytes_def)

lemma get_bytes_cong:
  "(\<And>i. a \<le> i \<Longrightarrow> i < a + int n \<Longrightarrow> m' i = m i) \<Longrightarrow> get_bytes m' a n = get_bytes m a n"
  by (simp add: get_bytes_def)

lemma to_int32_id [simp]: "int32 v \<Longrightarrow> to_int32 v = v"
  by (simp add: int32_def to_int32_def)

lemma to_size_id [simp]: "0 \<le> v \<Longrightarrow> v < 18446744073709551616 \<Longrightarrow> to_size v = v"
  by (simp add: to_size_def)

section \<open>Strings in the image\<close>

lemma unat_of_char_u8: "unat (of_char c :: u8) = of_char c"
proof -
  have "unat (of_nat (of_char c) :: u8) = of_char c"
    using nat_of_char_less_256 [of c] by (simp only: unat_of_nat) (simp add: take_bit_eq_mod)
  then show ?thesis by (simp only: of_nat_of_char)
qed

lemma of_char_u8_inject [simp]: "(of_char c :: u8) = of_char d \<longleftrightarrow> c = d"
  by (metis unat_of_char_u8 of_char_eq_iff)

lemma of_char_u8_eq_0 [simp]: "(of_char c :: u8) = 0 \<longleftrightarrow> c = CHR 0x00"
  using of_char_u8_inject [of c "CHR 0x00"] by (simp only: of_char_Char) simp

text \<open>The string at an address, as a predicate on the bytes there.\<close>

definition holds_str :: "img \<Rightarrow> int \<Rightarrow> string \<Rightarrow> bool" where
  "holds_str m a s \<longleftrightarrow> get_bytes m a (length s + 1) = str_bytes s"

lemma length_str_bytes [simp]: "length (str_bytes s) = length s + 1"
  by (simp add: str_bytes_def)

lemma get_bytes_Suc: "get_bytes m a (Suc n) = m a # get_bytes m (a + 1) n"
proof -
  have "[0..<Suc n] = 0 # map Suc [0..<n]" by (simp add: upt_conv_Cons map_Suc_upt del: upt_Suc)
  then show ?thesis by (simp add: get_bytes_def add.assoc del: upt_Suc)
qed

lemma holds_str_Nil: "holds_str m a [] \<longleftrightarrow> m a = 0"
  by (simp add: holds_str_def str_bytes_def get_bytes_def)

lemma holds_str_Cons: "holds_str m a (c # s) \<longleftrightarrow> m a = of_char c \<and> holds_str m (a + 1) s"
  by (simp add: holds_str_def str_bytes_def get_bytes_Suc)

lemma str_at_correct:
  "mapped a (int (length s) + 1) \<Longrightarrow> str_at m a s = Inr (holds_str m a s)"
  by (induction s arbitrary: a) (simp_all add: rd8_def holds_str_Nil holds_str_Cons mapped_def)

lemma holds_str_unique:
  "holds_str m a s \<Longrightarrow> holds_str m a t \<Longrightarrow> CHR 0x00 \<notin> set s \<Longrightarrow> CHR 0x00 \<notin> set t \<Longrightarrow> s = t"
proof (induction s arbitrary: a t)
  case Nil
  then show ?case by (cases t) (auto simp: holds_str_Nil holds_str_Cons)
next
  case (Cons c s)
  then show ?case by (cases t) (auto simp: holds_str_Nil holds_str_Cons)
qed

lemma holds_str_cong:
  "(\<And>i. a \<le> i \<Longrightarrow> i < a + int (length s) + 1 \<Longrightarrow> m' i = m i) \<Longrightarrow> holds_str m' a s = holds_str m a s"
  unfolding holds_str_def by (subst get_bytes_cong [of a _ m' m]) auto

lemma holds_str_strcpy: "holds_str (set_bytes m a (str_bytes s)) a s"
  using get_bytes_set_bytes [of m a "str_bytes s"] by (simp add: holds_str_def)

end
