(* ===== verification/Bitmap.thy ===== *)
theory Bitmap
  imports Image "HOL-Library.Signed_Division"
begin

text \<open>
  The bitmaps of the file system (File System/files/bitmap.c): \<open>bitmap_get\<close>, \<open>bitmap_put\<close> and
  \<open>bitmap_print\<close> on the bytes of the image, and that they read and write single bits.
\<close>

section \<open>The program\<close>

text \<open>
  C division truncates, so a negative index has a negative bit number and the shift by it is
  undefined; the model follows x86, which takes the shift count modulo 32 (a negative index then reads
  as 0 and writes nothing). \<open>get_inode(-1)\<close>, which the inode code calls, depends on it.
\<close>

definition byte_index :: "int \<Rightarrow> int" where
  "byte_index n = n sdiv 8"

definition bit_index :: "int \<Rightarrow> int" where
  "bit_index n = n smod 8"

definition shift_count :: "int \<Rightarrow> nat" where
  "shift_count n = nat (n mod 32)"

definition nth_bit_mask :: "int \<Rightarrow> u8" where
  "nth_bit_mask n = push_bit (shift_count n) 1"

definition bitmap_get :: "img \<Rightarrow> int \<Rightarrow> int \<Rightarrow> int res" where
  "bitmap_get m bm i =
     bindR (rd8 m (bm + byte_index i)) (\<lambda>b.
     Inr (uint (drop_bit (shift_count (bit_index i)) b AND 1)))"

definition bitmap_put :: "img \<Rightarrow> int \<Rightarrow> int \<Rightarrow> int \<Rightarrow> img res" where
  "bitmap_put m bm i v =
     (let bit_mask = nth_bit_mask (bit_index i) in
      if v \<noteq> 0 then
        bindR (rd8 m (bm + byte_index i)) (\<lambda>b. wr8 m (bm + byte_index i) (b OR bit_mask))
      else
        (let bit_mask = NOT bit_mask in
         bindR (rd8 m (bm + byte_index i)) (\<lambda>b. wr8 m (bm + byte_index i) (b AND bit_mask))))"

text \<open>The characters \<open>bitmap_print\<close> writes from index \<open>i\<close> on.\<close>

function bitmap_print_loop :: "img \<Rightarrow> int \<Rightarrow> int \<Rightarrow> int \<Rightarrow> string res" where
  "bitmap_print_loop m bm n i =
     (if i < n then
        bindR (bitmap_get m bm i) (\<lambda>b.
        bindR (bitmap_print_loop m bm n (i + 1)) (\<lambda>out.
        Inr ((if b \<noteq> 0 then ''1'' else ''0'') @
             (if (i + 1) smod 64 = 0 then [CHR 0x0A]
              else if (i + 1) smod 8 = 0 then '' '' else []) @ out)))
      else Inr [])"
  by pat_completeness auto
termination by (relation "measure (\<lambda>(m, bm, n, i). nat (n - i))") auto

declare bitmap_print_loop.simps [simp del]

definition bitmap_print :: "img \<Rightarrow> int \<Rightarrow> int \<Rightarrow> string res" where
  "bitmap_print m bm n = bitmap_print_loop m bm n 0"

section \<open>Bits\<close>

text \<open>Bit \<open>i\<close> of the bitmap at \<open>bm\<close>.\<close>

definition bm_bit :: "img \<Rightarrow> int \<Rightarrow> int \<Rightarrow> bool" where
  "bm_bit m bm i = bit (m (bm + i div 8)) (nat (i mod 8))"

lemma byte_index_nonneg [simp]: "0 \<le> i \<Longrightarrow> byte_index i = i div 8"
  by (cases "i = 0") (simp_all add: byte_index_def signed_divide_int_def)

lemma bit_index_nonneg [simp]: "0 \<le> i \<Longrightarrow> bit_index i = i mod 8"
  by (cases "i = 0") (simp_all add: bit_index_def signed_modulo_int_def signed_divide_int_def minus_div_mult_eq_mod)

lemma shift_count_mod8 [simp]: "shift_count (i mod 8) = nat (i mod 8)"
proof -
  have "i mod 8 mod 32 = i mod 8" by (rule mod_pos_pos_trivial; presburger)
  then show ?thesis by (simp add: shift_count_def)
qed

lemma nat_mod8: "nat (i mod 8) < 8"
  by (simp add: nat_less_iff)

lemma bm_bit_cong: "m' (bm + i div 8) = m (bm + i div 8) \<Longrightarrow> bm_bit m' bm i = bm_bit m bm i"
  by (simp add: bm_bit_def)

lemma bitmap_get_correct:
  assumes "0 \<le> i" and "mapped (bm + i div 8) 1"
  shows "bitmap_get m bm i = Inr (of_bool (bm_bit m bm i))"
proof -
  let ?b = "m (bm + i div 8)" and ?k = "nat (i mod 8)"
  have "drop_bit ?k ?b AND 1 = of_bool (bit ?b ?k)"
    by (simp add: and_one_eq mod_2_eq_odd bit_iff_odd_drop_bit)
  with assms show ?thesis by (simp add: bitmap_get_def rd8_def bm_bit_def)
qed

definition put_bit :: "img \<Rightarrow> int \<Rightarrow> int \<Rightarrow> bool \<Rightarrow> img" where
  "put_bit m bm i b =
     (let a = bm + i div 8; k = nat (i mod 8) in m(a := (if b then set_bit k (m a) else unset_bit k (m a))))"

lemma bitmap_put_correct:
  assumes "0 \<le> i" and "mapped (bm + i div 8) 1"
  shows "bitmap_put m bm i v = Inr (put_bit m bm i (v \<noteq> 0))"
  using assms by (simp add: bitmap_put_def rd8_def wr8_def put_bit_def nth_bit_mask_def Let_def
      set_bit_eq_or unset_bit_eq_and_not)

lemma bm_bit_put_bit:
  assumes "0 \<le> i" and "0 \<le> j"
  shows "bm_bit (put_bit m bm i b) bm j = (if j = i then b else bm_bit m bm j)"
proof (cases "j div 8 = i div 8")
  case True
  have "nat (j mod 8) = nat (i mod 8) \<longleftrightarrow> j = i"
  proof
    assume "nat (j mod 8) = nat (i mod 8)"
    then have "j mod 8 = i mod 8" by (simp add: eq_nat_nat_iff)
    with True show "j = i" by (metis div_mult_mod_eq)
  qed simp
  with True nat_mod8 [of i] show ?thesis
    by (auto simp: bm_bit_def put_bit_def Let_def bit_set_bit_iff bit_unset_bit_iff)
next
  case False
  then have "j \<noteq> i" by auto
  with False show ?thesis by (simp add: bm_bit_def put_bit_def Let_def)
qed

lemma put_bit_other: "a \<noteq> bm + i div 8 \<Longrightarrow> put_bit m bm i b a = m a"
  by (simp add: put_bit_def Let_def)

section \<open>Property\<close>

text \<open>Writing a bit and reading any bit: the written bit reads as the value written, every other bit as
  before, and no byte but the one that holds the bit changes.\<close>

theorem bitmap_put_get:
  assumes "0 \<le> i" and "0 \<le> j" and "mapped (bm + i div 8) 1" and "mapped (bm + j div 8) 1"
  shows "\<exists>m'. bitmap_put m bm i v = Inr m' \<and>
    bitmap_get m' bm j = (if j = i then Inr (of_bool (v \<noteq> 0)) else bitmap_get m bm j) \<and>
    (\<forall>a. a \<noteq> bm + i div 8 \<longrightarrow> m' a = m a)"
  using assms by (simp add: bitmap_put_correct bitmap_get_correct bm_bit_put_bit put_bit_other)

theorem bitmap_put_get_witness:
  "\<exists>m'. bitmap_put (\<lambda>_. 0) 32 9 1 = Inr m' \<and> bitmap_get m' 32 9 = Inr 1 \<and>
     bitmap_get m' 32 10 = bitmap_get (\<lambda>_. 0) 32 10"
  using bitmap_put_get [of 9 9 32 "\<lambda>_. 0" 1] bitmap_put_get [of 9 10 32 "\<lambda>_. 0" 1]
  by (auto simp: mapped_def NUFS_SIZE_def)

end
