(* ===== verification/Blocks.thy ===== *)
theory Blocks
  imports Bitmap
begin

text \<open>
  The block layer (File System/files/blocks.c): 256 blocks of 4096 bytes, the two bitmaps in block 0, and
  the allocation of blocks. The outcomes of \<open>open\<close>, \<open>ftruncate\<close> and \<open>mmap\<close> are arguments of \<open>blocks_init\<close>,
  together with the content of the mapped file. The allocation lemmas are stated for a search over
  any bitmap, which the inode layer uses as well.
\<close>

section \<open>The program\<close>

definition BLOCK_COUNT :: int where
  "BLOCK_COUNT = 256"

definition BLOCK_SIZE :: int where
  "BLOCK_SIZE = 4096"

definition INODE_COUNT :: int where
  "INODE_COUNT = 256"

text \<open>\<open>sizeof(inode_t)\<close>: five ints, four bytes of padding and two \<open>time_t\<close>.\<close>

definition INODE_SIZE :: int where
  "INODE_SIZE = 40"

definition BLOCK_BITMAP_SIZE :: int where
  "BLOCK_BITMAP_SIZE = BLOCK_COUNT sdiv 8"

definition INODE_BITMAP_SIZE :: int where
  "INODE_BITMAP_SIZE = INODE_COUNT sdiv 8"

definition bytes_to_blocks :: "int \<Rightarrow> int" where
  "bytes_to_blocks bytes =
     (let quo = bytes sdiv BLOCK_SIZE in if bytes smod BLOCK_SIZE = 0 then quo else quo + 1)"

definition blocks_get_block :: "int \<Rightarrow> int res" where
  "blocks_get_block bnum = chk32 (BLOCK_SIZE * bnum)"

definition get_blocks_bitmap :: "int res" where
  "get_blocks_bitmap = blocks_get_block 0"

definition get_inode_bitmap :: "int res" where
  "get_inode_bitmap = bindR (blocks_get_block 0) (\<lambda>b. Inr (b + BLOCK_BITMAP_SIZE))"

function blocks_init_loop :: "img \<Rightarrow> int \<Rightarrow> int \<Rightarrow> img res" where
  "blocks_init_loop m bbm i =
     (if (i - 2) * BLOCK_SIZE < INODE_COUNT * INODE_SIZE then
        bindR (bitmap_put m bbm i 1) (\<lambda>m. blocks_init_loop m bbm (i + 1))
      else Inr m)"
  by pat_completeness auto
termination
  by (relation "measure (\<lambda>(m, bbm, i). nat (100 - i))")
    (auto simp: BLOCK_SIZE_def INODE_COUNT_def INODE_SIZE_def)

declare blocks_init_loop.simps [simp del]

definition blocks_init :: "bool \<Rightarrow> bool \<Rightarrow> bool \<Rightarrow> img \<Rightarrow> img res" where
  "blocks_init open_ok ftruncate_ok mmap_ok m =
     bindR (assertR open_ok) (\<lambda>_.
     bindR (assertR ftruncate_ok) (\<lambda>_.
     bindR (assertR mmap_ok) (\<lambda>_.
     bindR get_blocks_bitmap (\<lambda>bbm.
     bindR (bitmap_put m bbm 0 1) (\<lambda>m.
     bindR (bitmap_put m bbm 1 1) (\<lambda>m.
     blocks_init_loop m bbm 2))))))"

definition blocks_free :: "bool \<Rightarrow> unit res" where
  "blocks_free munmap_ok = assertR munmap_ok"

function alloc_block_loop :: "img \<Rightarrow> int \<Rightarrow> int \<Rightarrow> (int \<times> img) res" where
  "alloc_block_loop m bbm ii =
     (if ii < BLOCK_COUNT then
        bindR (bitmap_get m bbm ii) (\<lambda>b.
        if b = 0 then bindR (bitmap_put m bbm ii 1) (\<lambda>m. Inr (ii, m))
        else alloc_block_loop m bbm (ii + 1))
      else Inr (-1, m))"
  by pat_completeness auto
termination by (relation "measure (\<lambda>(m, bbm, ii). nat (BLOCK_COUNT - ii))") auto

declare alloc_block_loop.simps [simp del]

definition alloc_block :: "img \<Rightarrow> (int \<times> img) res" where
  "alloc_block m = bindR get_blocks_bitmap (\<lambda>bbm. alloc_block_loop m bbm 1)"

definition free_block :: "img \<Rightarrow> int \<Rightarrow> img res" where
  "free_block m bnum = bindR get_blocks_bitmap (\<lambda>bbm. bitmap_put m bbm bnum 0)"

section \<open>Lemmas\<close>

text \<open>The state of a block: bit \<open>b\<close> of the block bitmap.\<close>

definition block_used :: "img \<Rightarrow> int \<Rightarrow> bool" where
  "block_used m b = bm_bit m 0 b"

lemma blocks_get_block_ok [simp]: "0 \<le> b \<Longrightarrow> b < 256 \<Longrightarrow> blocks_get_block b = Inr (4096 * b)"
  by (simp add: blocks_get_block_def BLOCK_SIZE_def chk32_def int32_def)

lemma get_blocks_bitmap_eq [simp]: "get_blocks_bitmap = Inr 0"
  by (simp add: get_blocks_bitmap_def)

lemma get_inode_bitmap_eq [simp]: "get_inode_bitmap = Inr 32"
  by (simp add: get_inode_bitmap_def BLOCK_BITMAP_SIZE_def BLOCK_COUNT_def signed_divide_int_def)

lemma mapped_bit: "0 \<le> bm \<Longrightarrow> bm \<le> 1024 \<Longrightarrow> 0 \<le> i \<Longrightarrow> i < 256 \<Longrightarrow> mapped (bm + i div 8) 1"
  by (auto simp: mapped_def NUFS_SIZE_def)

text \<open>The first clear bit of a range, and its absence.\<close>

definition first_clear :: "img \<Rightarrow> int \<Rightarrow> int \<Rightarrow> int \<Rightarrow> int \<Rightarrow> bool" where
  "first_clear m bm lo hi b \<longleftrightarrow>
     lo \<le> b \<and> b < hi \<and> \<not> bm_bit m bm b \<and> (\<forall>j. lo \<le> j \<and> j < b \<longrightarrow> bm_bit m bm j)"

definition all_set :: "img \<Rightarrow> int \<Rightarrow> int \<Rightarrow> int \<Rightarrow> bool" where
  "all_set m bm lo hi \<longleftrightarrow> (\<forall>j. lo \<le> j \<and> j < hi \<longrightarrow> bm_bit m bm j)"

lemma first_clear_step: "bm_bit m bm lo \<Longrightarrow> first_clear m bm (lo + 1) hi b = first_clear m bm lo hi b"
  unfolding first_clear_def by (metis add_le_same_cancel1 le_less not_one_le_zero zless_add1_eq linorder_not_less)

lemma all_set_step: "bm_bit m bm lo \<Longrightarrow> all_set m bm (lo + 1) hi = all_set m bm lo hi"
  unfolding all_set_def by (metis add1_zle_eq le_less zle_add1_eq_le)

lemma first_clear_or_all_set: "all_set m bm lo hi \<or> (\<exists>b. first_clear m bm lo hi b)"
proof (induction "nat (hi - lo)" arbitrary: lo)
  case 0
  then show ?case by (auto simp: all_set_def)
next
  case (Suc n)
  show ?case
  proof (cases "bm_bit m bm lo")
    case True
    have "n = nat (hi - (lo + 1))" using Suc.hyps(2) by simp
    from Suc.hyps(1) [OF this] first_clear_step [OF True] all_set_step [OF True] show ?thesis by metis
  next
    case False
    then have "first_clear m bm lo hi lo" using Suc.hyps(2) by (auto simp: first_clear_def)
    then show ?thesis by blast
  qed
qed

lemma alloc_block_loop_correct:
  assumes "0 \<le> ii" and "ii \<le> 256"
  shows "(\<forall>b. first_clear m 0 ii 256 b \<longrightarrow> alloc_block_loop m 0 ii = Inr (b, put_bit m 0 b True)) \<and>
         (all_set m 0 ii 256 \<longrightarrow> alloc_block_loop m 0 ii = Inr (-1, m))"
  using assms
proof (induction "nat (256 - ii)" arbitrary: ii)
  case 0
  then show ?case by (subst (1 2) alloc_block_loop.simps) (auto simp: BLOCK_COUNT_def first_clear_def)
next
  case (Suc n)
  then have ii: "0 \<le> ii" "ii < 256" and n: "n = nat (256 - (ii + 1))" by auto
  have ok: "mapped (ii div 8) 1" using mapped_bit [of 0 ii] ii by simp
  show ?case
  proof (cases "bm_bit m 0 ii")
    case True
    have "alloc_block_loop m 0 ii = alloc_block_loop m 0 (ii + 1)"
      using ii ok True by (subst alloc_block_loop.simps) (simp add: BLOCK_COUNT_def bitmap_get_correct)
    with Suc.hyps(1) [OF n] ii True show ?thesis by (simp add: first_clear_step all_set_step)
  next
    case False
    have "alloc_block_loop m 0 ii = Inr (ii, put_bit m 0 ii True)"
      using ii ok False by (subst alloc_block_loop.simps)
        (simp add: BLOCK_COUNT_def bitmap_get_correct bitmap_put_correct)
    moreover have "b = ii" if "first_clear m 0 ii 256 b" for b
      using that False ii by (auto simp: first_clear_def)
    moreover have "\<not> all_set m 0 ii 256" using False ii by (auto simp: all_set_def)
    ultimately show ?thesis by auto
  qed
qed

lemma alloc_block_found: "first_clear m 0 1 256 b \<Longrightarrow> alloc_block m = Inr (b, put_bit m 0 b True)"
  using alloc_block_loop_correct [of 1 m] by (simp add: alloc_block_def)

lemma alloc_block_full: "all_set m 0 1 256 \<Longrightarrow> alloc_block m = Inr (-1, m)"
  using alloc_block_loop_correct [of 1 m] by (simp add: alloc_block_def)

lemma free_block_ok: "0 \<le> b \<Longrightarrow> b < 256 \<Longrightarrow> free_block m b = Inr (put_bit m 0 b False)"
  using mapped_bit [of 0 b] by (simp add: free_block_def bitmap_put_correct)

lemma blocks_init_ok:
  "blocks_init True True True m =
     Inr (put_bit (put_bit (put_bit (put_bit (put_bit m 0 0 True) 0 1 True) 0 2 True) 0 3 True) 0 4 True)"
proof -
  have put: "bitmap_put n 0 i 1 = Inr (put_bit n 0 i True)" if "0 \<le> i" "i < 256" for n i
    using mapped_bit [of 0 i] that by (simp add: bitmap_put_correct)
  show ?thesis
    by (simp add: blocks_init_def put blocks_init_loop.simps BLOCK_SIZE_def INODE_COUNT_def INODE_SIZE_def)
qed

section \<open>Properties\<close>

text \<open>Initialising the block layer marks blocks 0 to 4 (the bitmaps and the inode table) as used,
  keeps the state of every other block and changes nothing outside the block bitmap.\<close>

theorem blocks_init_reserves:
  "\<exists>m'. blocks_init True True True m = Inr m' \<and>
     (\<forall>b. 0 \<le> b \<longrightarrow> block_used m' b = (b \<le> 4 \<or> block_used m b)) \<and>
     (\<forall>a. a \<noteq> 0 \<longrightarrow> m' a = m a)"
  by (auto simp: blocks_init_ok block_used_def bm_bit_put_bit put_bit_other)

theorem blocks_init_reserves_witness:
  "\<exists>m'. blocks_init True True True (\<lambda>_. 0) = Inr m' \<and> block_used m' 3 \<and> \<not> block_used m' 5"
proof -
  obtain m' where "blocks_init True True True (\<lambda>_. 0) = Inr m'"
    "\<forall>b. 0 \<le> b \<longrightarrow> block_used m' b = (b \<le> 4 \<or> block_used (\<lambda>_. 0) b)"
    using blocks_init_reserves [of "\<lambda>_. 0"] by auto
  moreover have "\<not> block_used (\<lambda>_. 0) 5" by (simp add: block_used_def bm_bit_def)
  ultimately show ?thesis by auto
qed

text \<open>Allocating a block returns the lowest-numbered free block above 0 and marks exactly that block used,
  or returns -1 and changes nothing when there is none.\<close>

theorem alloc_block_first_fit:
  "\<exists>b m'. alloc_block m = Inr (b, m') \<and>
     (if b = -1 then m' = m \<and> (\<forall>j \<in> {1..255}. block_used m j)
      else b \<in> {1..255} \<and> \<not> block_used m b \<and> (\<forall>j \<in> {1..<b}. block_used m j) \<and>
        (\<forall>j. 0 \<le> j \<longrightarrow> block_used m' j = (j = b \<or> block_used m j)) \<and>
        (\<forall>a. a < 0 \<or> 32 \<le> a \<longrightarrow> m' a = m a))"
proof (cases "all_set m 0 1 256")
  case True
  then show ?thesis by (auto simp: alloc_block_full all_set_def block_used_def)
next
  case False
  then obtain b where b: "first_clear m 0 1 256 b" using first_clear_or_all_set by blast
  then have "1 \<le> b" "b < 256" by (auto simp: first_clear_def)
  moreover have "put_bit m 0 b True a = m a" if "a < 0 \<or> 32 \<le> a" for a
    using that \<open>1 \<le> b\<close> \<open>b < 256\<close> by (intro put_bit_other) auto
  ultimately show ?thesis using b
    by (auto simp: alloc_block_found first_clear_def block_used_def bm_bit_put_bit)
qed

theorem alloc_block_first_fit_witness:
  "\<exists>m'. alloc_block (\<lambda>a. if a = 0 then 31 else 0) = Inr (5, m') \<and> block_used m' 5"
proof -
  let ?m = "\<lambda>a. if a = 0 then 31 else 0"
  have u: "block_used ?m 1" "block_used ?m 2" "block_used ?m 3" "block_used ?m 4" "\<not> block_used ?m 5"
    by (simp_all add: block_used_def bm_bit_def)
  obtain b m' where b: "alloc_block ?m = Inr (b, m')"
    "if b = -1 then m' = ?m \<and> (\<forall>j \<in> {1..255}. block_used ?m j)
      else b \<in> {1..255} \<and> \<not> block_used ?m b \<and> (\<forall>j \<in> {1..<b}. block_used ?m j) \<and>
        (\<forall>j. 0 \<le> j \<longrightarrow> block_used m' j = (j = b \<or> block_used ?m j)) \<and>
        (\<forall>a. a < 0 \<or> 32 \<le> a \<longrightarrow> m' a = ?m a)"
    using alloc_block_first_fit [of ?m] by blast
  have "b \<noteq> -1" using b(2) u(5) by auto
  then have "b \<in> {1..255}" "\<not> block_used ?m b" "\<forall>j \<in> {1..<b}. block_used ?m j" "block_used m' b"
    using b(2) by auto
  moreover have "\<not> 5 < b" using \<open>\<forall>j \<in> {1..<b}. block_used ?m j\<close> u(5) by auto
  moreover have "b \<noteq> 1" "b \<noteq> 2" "b \<noteq> 3" "b \<noteq> 4" using \<open>\<not> block_used ?m b\<close> u(1-4) by metis+
  ultimately have "b = 5" by auto
  with b(1) \<open>block_used m' b\<close> show ?thesis by blast
qed

end
