(* ===== verification/Inode.thy ===== *)
theory Inode
  imports Blocks
begin

text \<open>
  The inode layer (File System/files/inode.c). An inode is the forty bytes of an \<open>inode_t\<close> in the table
  that starts at block 2; a file of more than one block is a chain of inodes linked by \<open>next_inode\<close>, each with
  one block and with the number of bytes from its block to the end of the file as its size. The
  time \<open>time(NULL)\<close> returns is the argument \<open>now\<close>. The loops that follow the chain take the number
  of inodes as fuel: a walk of more steps has met an inode twice and, in C, does not end.
\<close>

section \<open>The program\<close>

definition ROOT_INODE :: int where
  "ROOT_INODE = 1"

definition SIZE :: int where
  "SIZE = 64"

text \<open>The offsets of the fields of \<open>inode_t\<close>.\<close>

definition i_refs :: "int \<Rightarrow> int" where
  "i_refs p = p"

definition i_mode :: "int \<Rightarrow> int" where
  "i_mode p = p + 4"

definition i_size :: "int \<Rightarrow> int" where
  "i_size p = p + 8"

definition i_block :: "int \<Rightarrow> int" where
  "i_block p = p + 12"

definition i_next_inode :: "int \<Rightarrow> int" where
  "i_next_inode p = p + 16"

definition i_atime :: "int \<Rightarrow> int" where
  "i_atime p = p + 24"

definition i_mtime :: "int \<Rightarrow> int" where
  "i_mtime p = p + 32"

definition get_inode :: "img \<Rightarrow> int \<Rightarrow> int option res" where
  "get_inode m inum =
     bindR (assertR (inum < SIZE)) (\<lambda>_.
     bindR get_inode_bitmap (\<lambda>ibm.
     bindR (bitmap_get m ibm inum) (\<lambda>b.
     if b = 0 then Inr None
     else
       bindR (blocks_get_block 2) (\<lambda>inode_ptr.
       Inr (Some (inode_ptr + INODE_SIZE * inum))))))"

function alloc_inode_loop :: "int \<Rightarrow> img \<Rightarrow> int \<Rightarrow> int \<Rightarrow> (int \<times> img) res" where
  "alloc_inode_loop now m ibm i =
     (if i < SIZE then
        bindR (bitmap_get m ibm i) (\<lambda>b.
        if b = 0 then
          bindR (bitmap_put m ibm i 1) (\<lambda>m.
          bindR (get_inode m i) (\<lambda>node.
          bindR (deref node) (\<lambda>node.
          bindR (memzero m node INODE_SIZE) (\<lambda>m.
          bindR (wr32 m (i_refs node) 0) (\<lambda>m.
          bindR (wr32 m (i_mode node) 4516) (\<lambda>m.
          bindR (wr32 m (i_size node) 0) (\<lambda>m.
          bindR (alloc_block m) (\<lambda>(b, m).
          bindR (wr32 m (i_block node) b) (\<lambda>m.
          bindR (wr32 m (i_next_inode node) (-1)) (\<lambda>m.
          bindR (wr64 m (i_atime node) now) (\<lambda>m.
          bindR (wr64 m (i_mtime node) now) (\<lambda>m.
          Inr (i, m)))))))))))))
        else alloc_inode_loop now m ibm (i + 1))
      else Inr (-1, m))"
  by pat_completeness auto
termination by (relation "measure (\<lambda>(now, m, ibm, i). nat (SIZE - i))") auto

declare alloc_inode_loop.simps [simp del]

definition alloc_inode :: "int \<Rightarrow> img \<Rightarrow> (int \<times> img) res" where
  "alloc_inode now m = bindR get_inode_bitmap (\<lambda>ibm. alloc_inode_loop now m ibm (ROOT_INODE + 1))"

text \<open>
  Growing: the size read at the head of the loop is the one just written, smaller by a block each time.
\<close>

function grow_loop :: "int \<Rightarrow> img \<Rightarrow> int \<Rightarrow> img res" where
  "grow_loop now m pnode =
     bindR (rd32 m (i_size pnode)) (\<lambda>sz.
     if BLOCK_SIZE < sz then
       bindR (rd32 m (i_next_inode pnode)) (\<lambda>nxt.
       bindR (if nxt = -1 then
                bindR (alloc_inode now m) (\<lambda>(n, m). wr32 m (i_next_inode pnode) n)
              else Inr m) (\<lambda>m.
       bindR (rd32 m (i_next_inode pnode)) (\<lambda>nxt.
       bindR (get_inode m nxt) (\<lambda>p.
       bindR (deref p) (\<lambda>p.
       bindR (wr32 m (i_size p) (sz - BLOCK_SIZE)) (\<lambda>m.
       grow_loop now m p))))))
     else Inr m)"
  by pat_completeness auto
termination
proof (relation "measure (\<lambda>(now, m, p). case rd32 m (i_size p) of Inl _ \<Rightarrow> 0 | Inr s \<Rightarrow> nat s)", goal_cases)
  case 1
  then show ?case by simp
next
  case (2 now m pnode sz nxt m' nxt' p p' m'')
  then have "int32 (sz - BLOCK_SIZE)" by (auto dest!: rd32_int32 simp: int32_def BLOCK_SIZE_def)
  with 2 have "rd32 m'' (i_size p') = Inr (sz - BLOCK_SIZE)" by (auto intro: rd32_wr32)
  with 2 show ?case by (simp add: BLOCK_SIZE_def)
qed

declare grow_loop.simps [simp del]

definition grow_inode :: "int \<Rightarrow> img \<Rightarrow> int \<Rightarrow> int \<Rightarrow> (int \<times> img) res" where
  "grow_inode now m node n =
     bindR (rd32 m (i_size node)) (\<lambda>s.
     bindR (chk32 (s + n)) (\<lambda>target_size.
     bindR (wr32 m (i_size node) target_size) (\<lambda>m.
     bindR (grow_loop now m node) (\<lambda>m.
     Inr (0, m)))))"

text \<open>The three loops of \<open>shrink_inode\<close>.\<close>

fun shrink_find :: "nat \<Rightarrow> img \<Rightarrow> int \<Rightarrow> int \<Rightarrow> int res" where
  "shrink_find 0 m n pnode = Inl Out_Of_Fuel"
| "shrink_find (Suc fuel) m n pnode =
     bindR (rd32 m (i_size pnode)) (\<lambda>s.
     bindR (chk32 (s - BLOCK_SIZE)) (\<lambda>d.
     if n < d then
       bindR (rd32 m (i_next_inode pnode)) (\<lambda>nxt.
       bindR (get_inode m nxt) (\<lambda>p.
       bindR (deref p) (\<lambda>p. shrink_find fuel m n p)))
     else Inr pnode))"

text \<open>The second loop never moves \<open>to_del\<close>, so it goes through the same inode again.\<close>

fun shrink_del :: "nat \<Rightarrow> img \<Rightarrow> int \<Rightarrow> int \<Rightarrow> int option \<Rightarrow> img res" where
  "shrink_del 0 m ibm inum_to_del to_del = Inl Out_Of_Fuel"
| "shrink_del (Suc fuel) m ibm inum_to_del to_del =
     (if 0 < inum_to_del then
        bindR (bitmap_put m ibm inum_to_del 0) (\<lambda>m.
        bindR (deref to_del) (\<lambda>p.
        bindR (rd32 m (i_block p)) (\<lambda>b.
        bindR (free_block m b) (\<lambda>m.
        bindR (rd32 m (i_next_inode p)) (\<lambda>nxt.
        bindR (memzero m p INODE_SIZE) (\<lambda>m.
        shrink_del fuel m ibm nxt to_del))))))
      else Inr m)"

fun shrink_sizes :: "nat \<Rightarrow> img \<Rightarrow> int \<Rightarrow> int \<Rightarrow> img res" where
  "shrink_sizes 0 m n pnode = Inl Out_Of_Fuel"
| "shrink_sizes (Suc fuel) m n pnode =
     bindR (rd32 m (i_next_inode pnode)) (\<lambda>nxt.
     if nxt \<noteq> -1 then
       bindR (get_inode m nxt) (\<lambda>p.
       bindR (deref p) (\<lambda>p.
       bindR (rd32 m (i_size p)) (\<lambda>s.
       bindR (chk32 (s - n)) (\<lambda>s.
       bindR (wr32 m (i_size p) s) (\<lambda>m.
       shrink_sizes fuel m n p)))))
     else Inr m)"

definition shrink_inode :: "img \<Rightarrow> int \<Rightarrow> int \<Rightarrow> (int \<times> img) res" where
  "shrink_inode m node n =
     bindR get_inode_bitmap (\<lambda>ibm.
     bindR (shrink_find 64 m n node) (\<lambda>pnode.
     bindR (rd32 m (i_next_inode pnode)) (\<lambda>inum_to_del.
     bindR (wr32 m (i_next_inode pnode) (-1)) (\<lambda>m.
     bindR (get_inode m inum_to_del) (\<lambda>to_del.
     bindR (shrink_del 64 m ibm inum_to_del to_del) (\<lambda>m.
     bindR (rd32 m (i_size node)) (\<lambda>s.
     bindR (chk32 (s - n)) (\<lambda>target_size.
     bindR (wr32 m (i_size node) target_size) (\<lambda>m.
     bindR (shrink_sizes 64 m n node) (\<lambda>m.
     Inr (0, m)))))))))))"

definition free_inode :: "img \<Rightarrow> int \<Rightarrow> img res" where
  "free_inode m inum =
     bindR get_inode_bitmap (\<lambda>ibm.
     bindR (get_inode m inum) (\<lambda>node.
     bindR (deref node) (\<lambda>node.
     bindR (rd32 m (i_refs node)) (\<lambda>r.
     bindR (assertR (r = 0)) (\<lambda>_.
     bindR (rd32 m (i_size node)) (\<lambda>s.
     bindR (shrink_inode m node s) (\<lambda>(_, m).
     bindR (rd32 m (i_block node)) (\<lambda>b.
     bindR (free_block m b) (\<lambda>m.
     bindR (memzero m node INODE_SIZE) (\<lambda>m.
     bitmap_put m ibm inum 0))))))))))"

section \<open>Inodes of the table\<close>

definition node_at :: "int \<Rightarrow> int" where
  "node_at i = 8192 + 40 * i"

definition inode_used :: "img \<Rightarrow> int \<Rightarrow> bool" where
  "inode_used m i = bm_bit m 32 i"

definition n_refs :: "img \<Rightarrow> int \<Rightarrow> int" where
  "n_refs m i = get32 m (node_at i)"

definition n_mode :: "img \<Rightarrow> int \<Rightarrow> int" where
  "n_mode m i = get32 m (node_at i + 4)"

definition n_size :: "img \<Rightarrow> int \<Rightarrow> int" where
  "n_size m i = get32 m (node_at i + 8)"

definition n_block :: "img \<Rightarrow> int \<Rightarrow> int" where
  "n_block m i = get32 m (node_at i + 12)"

definition n_next :: "img \<Rightarrow> int \<Rightarrow> int" where
  "n_next m i = get32 m (node_at i + 16)"

lemmas node_fields = n_refs_def n_mode_def n_size_def n_block_def n_next_def
lemmas i_offsets = i_refs_def i_mode_def i_size_def i_block_def i_next_inode_def i_atime_def i_mtime_def

definition inum_ok :: "int \<Rightarrow> bool" where
  "inum_ok i \<longleftrightarrow> 0 \<le> i \<and> i < 64"

lemma mapped_node: "inum_ok i \<Longrightarrow> 0 \<le> k \<Longrightarrow> 0 \<le> n \<Longrightarrow> k + n \<le> 40 \<Longrightarrow> mapped (node_at i + k) n"
  by (auto simp: inum_ok_def mapped_def node_at_def NUFS_SIZE_def)

lemma mapped_ibit: "inum_ok i \<Longrightarrow> mapped (32 + i div 8) 1"
  by (rule mapped_bit) (auto simp: inum_ok_def)

lemma rd_node [simp]:
  assumes "inum_ok i"
  shows "rd32 m (i_refs (node_at i)) = Inr (n_refs m i)" "rd32 m (i_mode (node_at i)) = Inr (n_mode m i)"
    "rd32 m (i_size (node_at i)) = Inr (n_size m i)" "rd32 m (i_block (node_at i)) = Inr (n_block m i)"
    "rd32 m (i_next_inode (node_at i)) = Inr (n_next m i)"
  using mapped_node [OF assms, of 0 4] mapped_node [OF assms, of 4 4] mapped_node [OF assms, of 8 4]
    mapped_node [OF assms, of 12 4] mapped_node [OF assms, of 16 4]
  by (simp_all add: rd32_def i_offsets node_fields)

lemma wr_node [simp]:
  assumes "inum_ok i"
  shows "wr32 m (i_refs (node_at i)) v = Inr (set32 m (node_at i) v)"
    "wr32 m (i_mode (node_at i)) v = Inr (set32 m (node_at i + 4) v)"
    "wr32 m (i_size (node_at i)) v = Inr (set32 m (node_at i + 8) v)"
    "wr32 m (i_block (node_at i)) v = Inr (set32 m (node_at i + 12) v)"
    "wr32 m (i_next_inode (node_at i)) v = Inr (set32 m (node_at i + 16) v)"
    "wr64 m (i_atime (node_at i)) v = Inr (set64 m (node_at i + 24) v)"
    "wr64 m (i_mtime (node_at i)) v = Inr (set64 m (node_at i + 32) v)"
    "memzero m (node_at i) INODE_SIZE = Inr (clear_img m (node_at i) 40)"
  using mapped_node [OF assms, of 0 4] mapped_node [OF assms, of 4 4] mapped_node [OF assms, of 8 4]
    mapped_node [OF assms, of 12 4] mapped_node [OF assms, of 16 4] mapped_node [OF assms, of 24 8]
    mapped_node [OF assms, of 32 8] mapped_node [OF assms, of 0 40]
  by (simp_all add: wr32_def wr64_def memzero_def i_offsets INODE_SIZE_def)

lemma deref_Some [simp]: "deref (Some a) = Inr a"
  by (simp add: deref_def)

lemma deref_None [simp]: "deref None = Inl Null_Deref"
  by (simp add: deref_def)

lemma get_inode_ok [simp]:
  assumes "inum_ok i"
  shows "get_inode m i = Inr (if inode_used m i then Some (node_at i) else None)"
  using assms mapped_ibit [OF assms]
  by (simp add: get_inode_def bitmap_get_correct inode_used_def SIZE_def INODE_SIZE_def node_at_def inum_ok_def)

lemma get_inode_minus_1 [simp]: "get_inode m (-1) = Inr None"
proof -
  have "drop_bit 31 b = (0 :: u8)" for b
    by (rule bit_word_eqI) (simp add: bit_drop_bit_eq bit_imp_le_length)
  then show ?thesis
    by (simp add: get_inode_def SIZE_def bitmap_get_def byte_index_def bit_index_def shift_count_def
        signed_divide_int_def signed_modulo_int_def rd8_def mapped_def NUFS_SIZE_def)
qed

lemma get_inode_big [simp]: "64 \<le> i \<Longrightarrow> get_inode m i = Inl Assert_Failed"
  by (simp add: get_inode_def SIZE_def)

text \<open>Distinct inodes do not overlap, and none overlaps the bitmaps or the data blocks.\<close>

lemma node_disjoint: "i \<noteq> j \<Longrightarrow> node_at i + 40 \<le> node_at j \<or> node_at j + 40 \<le> node_at i"
  by (auto simp: node_at_def)

lemma node_bounds: "inum_ok i \<Longrightarrow> 8192 \<le> node_at i \<and> node_at i + 40 \<le> 10752"
  by (auto simp: node_at_def inum_ok_def)

definition same_node :: "img \<Rightarrow> img \<Rightarrow> int \<Rightarrow> bool" where
  "same_node m m' i \<longleftrightarrow> (\<forall>a. node_at i \<le> a \<and> a < node_at i + 40 \<longrightarrow> m' a = m a)"

lemma same_nodeD:
  assumes "same_node m m' i"
  shows "n_refs m' i = n_refs m i" "n_mode m' i = n_mode m i" "n_size m' i = n_size m i"
    "n_block m' i = n_block m i" "n_next m' i = n_next m i"
  using assms unfolding node_fields same_node_def by (intro get32_cong; simp)+

lemma eq_outside_same_node:
  "eq_outside S m m' \<Longrightarrow> S \<inter> {node_at i ..< node_at i + 40} = {} \<Longrightarrow> same_node m m' i"
  by (auto simp: eq_outside_def same_node_def)

lemma eq_outside_block_used:
  assumes "eq_outside S m m'" and "S \<inter> {0..<32} = {}" and "0 \<le> b" and "b < 256"
  shows "block_used m' b = block_used m b"
proof -
  have "b div 8 \<in> {0..<32}" using assms(3,4) by auto
  with assms(1,2) show ?thesis unfolding block_used_def eq_outside_def by (intro bm_bit_cong) auto
qed

lemma eq_outside_inode_used:
  assumes "eq_outside S m m'" and "S \<inter> {32..<64} = {}" and "inum_ok i"
  shows "inode_used m' i = inode_used m i"
proof -
  have "32 + i div 8 \<in> {32..<64}" using assms(3) by (auto simp: inum_ok_def)
  with assms(1,2) show ?thesis unfolding inode_used_def eq_outside_def by (intro bm_bit_cong) auto
qed

section \<open>Allocating an inode\<close>

lemma alloc_inode_loop_skip:
  assumes "0 \<le> ii" and "ii \<le> i" and "i \<le> 64" and "\<forall>j. ii \<le> j \<and> j < i \<longrightarrow> bm_bit m 32 j"
  shows "alloc_inode_loop now m 32 ii = alloc_inode_loop now m 32 i"
  using assms
proof (induction "nat (i - ii)" arbitrary: ii)
  case 0
  then show ?case by simp
next
  case (Suc n)
  then have ii: "0 \<le> ii" "ii < i" "n = nat (i - (ii + 1))" by auto
  have "alloc_inode_loop now m 32 ii = alloc_inode_loop now m 32 (ii + 1)"
    using ii Suc.prems mapped_bit [of 32 ii]
    by (subst alloc_inode_loop.simps) (simp add: SIZE_def bitmap_get_correct)
  with Suc.hyps(1) [OF ii(3)] ii Suc.prems show ?case by simp
qed

text \<open>The image after \<open>alloc_inode\<close> has set up inode \<open>i\<close> with block \<open>b\<close>, over the image \<open>m\<close> in which the block was
  allocated.\<close>

definition node_start :: "img \<Rightarrow> int \<Rightarrow> img" where
  "node_start m i =
     set32 (set32 (set32 (clear_img (put_bit m 32 i True) (node_at i) 40) (node_at i) 0) (node_at i + 4) 4516)
       (node_at i + 8) 0"

definition node_finish :: "int \<Rightarrow> img \<Rightarrow> int \<Rightarrow> int \<Rightarrow> img" where
  "node_finish now m i b =
     set64 (set64 (set32 (set32 m (node_at i + 12) b) (node_at i + 16) (-1)) (node_at i + 24) now)
       (node_at i + 32) now"

lemma alloc_inode_step:
  assumes "first_clear m 32 2 64 i" and "alloc_block (node_start m i) = Inr (b, mb)"
  shows "alloc_inode now m = Inr (i, node_finish now mb i b)"
proof -
  have i: "2 \<le> i" "i < 64" "\<not> bm_bit m 32 i" "inum_ok i"
    using assms(1) by (auto simp: first_clear_def inum_ok_def)
  have used: "inode_used (put_bit m 32 i True) i" using i by (simp add: inode_used_def bm_bit_put_bit)
  have "alloc_inode now m = alloc_inode_loop now m 32 i"
    using alloc_inode_loop_skip [of 2 i m now] assms(1)
    by (simp add: alloc_inode_def ROOT_INODE_def first_clear_def)
  also have "\<dots> = Inr (i, node_finish now mb i b)"
    using i mapped_ibit [OF i(4)] used assms(2)
    by (subst alloc_inode_loop.simps)
      (simp add: SIZE_def bitmap_get_correct bitmap_put_correct node_start_def node_finish_def)
  finally show ?thesis .
qed

lemma node_start_other: "a < node_at i \<or> node_at i + 40 \<le> a \<Longrightarrow> a \<noteq> 32 + i div 8 \<Longrightarrow> node_start m i a = m a"
  unfolding node_start_def by (elim disjE) (simp_all add: image_other put_bit_other)

lemma node_finish_other: "a < node_at i + 12 \<or> node_at i + 40 \<le> a \<Longrightarrow> node_finish now m i b a = m a"
  unfolding node_finish_def by (elim disjE) (simp_all add: image_other)

lemma node_start_fields:
  "get32 (node_start m i) (node_at i) = 0" "get32 (node_start m i) (node_at i + 4) = 4516"
  "get32 (node_start m i) (node_at i + 8) = 0"
  by (simp_all add: node_start_def get32_set32_same get32_set32_other int32_def)

lemma node_finish_fields:
  "int32 b \<Longrightarrow> get32 (node_finish now m i b) (node_at i + 12) = b"
  "get32 (node_finish now m i b) (node_at i + 16) = -1"
  by (simp_all add: node_finish_def get32_set32_same get32_set32_other get32_set64_other int32_def)

definition fresh_block :: "img \<Rightarrow> int \<Rightarrow> bool" where
  "fresh_block m b \<longleftrightarrow> first_clear m 0 1 256 b \<or> b = -1 \<and> all_set m 0 1 256"

lemma fresh_block_exists: "\<exists>b. fresh_block m b"
  using first_clear_or_all_set unfolding fresh_block_def by blast

lemma first_clear_cong:
  "(\<And>j. lo \<le> j \<Longrightarrow> j < hi \<Longrightarrow> bm_bit m' bm j = bm_bit m bm j) \<Longrightarrow> first_clear m' bm lo hi b = first_clear m bm lo hi b"
  by (auto simp: first_clear_def)

lemma all_set_cong:
  "(\<And>j. lo \<le> j \<Longrightarrow> j < hi \<Longrightarrow> bm_bit m' bm j = bm_bit m bm j) \<Longrightarrow> all_set m' bm lo hi = all_set m bm lo hi"
  by (auto simp: all_set_def)

definition take_block :: "img \<Rightarrow> int \<Rightarrow> img" where
  "take_block m b = (if b = -1 then m else put_bit m 0 b True)"

lemma alloc_block_fresh: "fresh_block m b \<Longrightarrow> alloc_block m = Inr (b, take_block m b)"
  by (auto simp: fresh_block_def take_block_def alloc_block_found alloc_block_full first_clear_def)

lemma take_block_other: "fresh_block m b \<Longrightarrow> 32 \<le> a \<Longrightarrow> take_block m' b a = m' a"
  by (auto simp: take_block_def fresh_block_def first_clear_def put_bit_other)

lemma alloc_inode_ok:
  assumes "first_clear m 32 2 64 i" and "fresh_block m b"
  obtains m' where "alloc_inode now m = Inr (i, m')"
    and "n_refs m' i = 0" and "n_mode m' i = 4516" and "n_size m' i = 0" and "n_block m' i = b" and "n_next m' i = -1"
    and "\<And>j. inum_ok j \<Longrightarrow> inode_used m' j = (j = i \<or> inode_used m j)"
    and "\<And>j. 0 \<le> j \<Longrightarrow> j < 256 \<Longrightarrow> block_used m' j = (j = b \<or> block_used m j)"
    and "eq_outside ({0..<64} \<union> {node_at i ..< node_at i + 40}) m m'"
proof -
  let ?s = "node_start m i" and ?t = "take_block (node_start m i) b"
  let ?m = "node_finish now ?t i b"
  have i: "2 \<le> i" "i < 64" "inum_ok i" using assms(1) by (auto simp: first_clear_def inum_ok_def)
  note ib = node_bounds [OF i(3)]
  have b: "b = -1 \<or> 1 \<le> b \<and> b < 256" "int32 b"
    using assms(2) by (auto simp: fresh_block_def first_clear_def int32_def)
  have low: "?s a = m a" if "0 \<le> a" "a < 32" for a
    using that ib i by (intro node_start_other) auto
  have bits: "bm_bit ?s 0 j = bm_bit m 0 j" if "0 \<le> j" "j < 256" for j
    using that by (intro bm_bit_cong low) auto
  have fresh: "fresh_block ?s b"
    using assms(2) bits by (simp add: fresh_block_def cong: first_clear_cong all_set_cong)
  have eq1: "alloc_inode now m = Inr (i, ?m)"
    using alloc_inode_step [OF assms(1) alloc_block_fresh [OF fresh]] .
  have t: "?t a = ?s a" if "32 \<le> a" for a using take_block_other [OF fresh that] .
  have "get32 ?m (node_at i + k) = get32 ?s (node_at i + k)" if "0 \<le> k" "k + 4 \<le> 12" for k
    using that ib by (intro get32_cong) (simp add: node_finish_other t)
  from this [of 0] this [of 4] this [of 8]
  have fields: "n_refs ?m i = 0" "n_mode ?m i = 4516" "n_size ?m i = 0" "n_block ?m i = b" "n_next ?m i = -1"
    using b(2) by (simp_all add: node_fields node_start_fields node_finish_fields)
  have ub: "inode_used ?m j = (j = i \<or> inode_used m j)" if j: "inum_ok j" for j
  proof -
    have a: "32 \<le> 32 + j div 8" "32 + j div 8 < 64" using j by (auto simp: inum_ok_def)
    then have "?m (32 + j div 8) = ?s (32 + j div 8)" using ib by (simp add: node_finish_other t)
    also have "\<dots> = put_bit m 32 i True (32 + j div 8)" using a ib by (simp add: node_start_def image_other)
    finally have "bm_bit ?m 32 j = bm_bit (put_bit m 32 i True) 32 j" by (rule bm_bit_cong)
    with i(1) j show ?thesis by (simp add: inode_used_def bm_bit_put_bit inum_ok_def)
  qed
  have bb: "block_used ?m j = (j = b \<or> block_used m j)" if j: "0 \<le> j" "j < 256" for j
  proof -
    have "bm_bit ?m 0 j = bm_bit ?t 0 j" using j ib by (intro bm_bit_cong node_finish_other) auto
    with bits [OF j] b(1) j show ?thesis by (auto simp: block_used_def take_block_def bm_bit_put_bit split: if_splits)
  qed
  have "?m a = m a" if "a \<notin> {0..<64} \<union> {node_at i ..< node_at i + 40}" for a
  proof -
    have "?t a = ?s a" using that t [of a] b(1) by (cases "a < 0") (auto simp: take_block_def put_bit_other)
    then show ?thesis using that i ib by (auto simp: node_finish_other node_start_other)
  qed
  then have "eq_outside ({0..<64} \<union> {node_at i ..< node_at i + 40}) m ?m" by (simp add: eq_outside_def)
  with that eq1 fields ub bb show thesis by blast
qed

lemma alloc_inode_full:
  assumes "all_set m 32 2 64"
  shows "alloc_inode now m = Inr (-1, m)"
  using alloc_inode_loop_skip [of 2 64 m now] assms
  by (simp add: alloc_inode_def ROOT_INODE_def all_set_def) (simp add: alloc_inode_loop.simps SIZE_def)

section \<open>Files as chains of inodes\<close>

text \<open>
  \<open>links m is\<close>: the inodes \<open>is\<close> are allocated, have a data block each, and are linked in this order.
  \<open>fchain m is sz\<close>: moreover their sizes are those of a file of \<open>sz\<close> bytes that needs all of them.
\<close>

definition node_ok :: "img \<Rightarrow> int \<Rightarrow> bool" where
  "node_ok m i \<longleftrightarrow> inum_ok i \<and> 0 < i \<and> inode_used m i \<and> n_block m i \<in> {5..255} \<and> block_used m (n_block m i)"

fun links :: "img \<Rightarrow> int list \<Rightarrow> bool" where
  "links m [] = False"
| "links m [i] \<longleftrightarrow> node_ok m i \<and> n_next m i = -1"
| "links m (i # j # is) \<longleftrightarrow> node_ok m i \<and> n_next m i = j \<and> links m (j # is)"

fun sizes :: "img \<Rightarrow> int list \<Rightarrow> int \<Rightarrow> bool" where
  "sizes m [] sz = False"
| "sizes m [i] sz \<longleftrightarrow> n_size m i = sz \<and> 0 \<le> sz \<and> sz \<le> 4096"
| "sizes m (i # j # is) sz \<longleftrightarrow> n_size m i = sz \<and> 4096 < sz \<and> sizes m (j # is) (sz - 4096)"

definition separate :: "img \<Rightarrow> int list \<Rightarrow> bool" where
  "separate m is \<longleftrightarrow> distinct is \<and> inj_on (n_block m) (set is)"

definition fchain :: "img \<Rightarrow> int list \<Rightarrow> int \<Rightarrow> bool" where
  "fchain m is sz \<longleftrightarrow> links m is \<and> sizes m is sz \<and> separate m is"

text \<open>The bytes of the blocks of a chain, and the file system's reserved blocks.\<close>

definition block_bytes :: "img \<Rightarrow> int \<Rightarrow> u8 list" where
  "block_bytes m i = get_bytes m (4096 * n_block m i) 4096"

definition chain_bytes :: "img \<Rightarrow> int list \<Rightarrow> u8 list" where
  "chain_bytes m is = concat (map (block_bytes m) is)"

definition reserved :: "img \<Rightarrow> bool" where
  "reserved m \<longleftrightarrow> (\<forall>b \<in> {0..4}. block_used m b)"

definition free_inodes :: "img \<Rightarrow> int set" where
  "free_inodes m = {i \<in> {2..63}. \<not> inode_used m i}"

definition free_blocks :: "img \<Rightarrow> int set" where
  "free_blocks m = {b \<in> {1..255}. \<not> block_used m b}"

lemma links_node_ok: "links m is \<Longrightarrow> i \<in> set is \<Longrightarrow> node_ok m i"
  by (induction m "is" rule: links.induct) auto

lemma links_hd: "links m (i # is) \<Longrightarrow> node_ok m i"
  by (rule links_node_ok) auto

lemma node_okD:
  assumes "node_ok m i"
  shows "inum_ok i" "inode_used m i" "5 \<le> n_block m i" "n_block m i \<le> 255" "block_used m (n_block m i)" "0 < i"
  using assms by (auto simp: node_ok_def)

lemma sizes_hd: "sizes m (i # is) sz \<Longrightarrow> n_size m i = sz"
  by (cases "is") auto

lemma sizes_length: "sizes m is sz \<Longrightarrow> 4096 * (int (length is) - 1) \<le> sz \<and> sz \<le> 4096 * int (length is)"
  by (induction m "is" sz rule: sizes.induct) auto

lemma length_block_bytes [simp]: "length (block_bytes m i) = 4096"
  by (simp add: block_bytes_def)

lemma length_chain_bytes [simp]: "length (chain_bytes m is) = 4096 * length is"
  by (induction "is") (simp_all add: chain_bytes_def)

lemma chain_bytes_Cons: "chain_bytes m (i # is) = block_bytes m i @ chain_bytes m is"
  by (simp add: chain_bytes_def)

text \<open>A change that keeps the inodes of a chain and does not free them keeps the chain.\<close>

definition keeps_use :: "img \<Rightarrow> img \<Rightarrow> bool" where
  "keeps_use m m' \<longleftrightarrow> (\<forall>j. inum_ok j \<longrightarrow> inode_used m j \<longrightarrow> inode_used m' j) \<and>
     (\<forall>b. 0 \<le> b \<longrightarrow> b < 256 \<longrightarrow> block_used m b \<longrightarrow> block_used m' b)"

lemma node_ok_mono:
  assumes "node_ok m i" and "keeps_use m m'" and "n_block m' i = n_block m i"
  shows "node_ok m' i"
  using assms by (auto simp: node_ok_def keeps_use_def)

lemma links_mono:
  assumes "links m is" and "keeps_use m m'"
    and "\<And>i. i \<in> set is \<Longrightarrow> n_block m' i = n_block m i \<and> n_next m' i = n_next m i"
  shows "links m' is"
  using assms by (induction m "is" rule: links.induct) (auto intro: node_ok_mono)

lemma sizes_cong:
  assumes "sizes m is sz" and "\<And>i. i \<in> set is \<Longrightarrow> n_size m' i = n_size m i"
  shows "sizes m' is sz"
  using assms by (induction m "is" sz rule: sizes.induct) auto

lemma fchain_mono:
  assumes "fchain m is sz" and "keeps_use m m'" and "\<And>i. i \<in> set is \<Longrightarrow> same_node m m' i"
  shows "fchain m' is sz"
proof -
  have "links m' is" using assms by (auto simp: fchain_def intro!: links_mono [of m] dest: same_nodeD)
  moreover have "sizes m' is sz" using assms by (auto simp: fchain_def intro!: sizes_cong [of m] dest: same_nodeD)
  moreover have "separate m' is"
    using assms same_nodeD(4) [OF assms(3)] by (auto simp: fchain_def separate_def inj_on_def)
  ultimately show ?thesis by (simp add: fchain_def)
qed

section \<open>Growing a file\<close>

text \<open>
  What growing the chain \<open>is\<close> to a file of \<open>t\<close> bytes does: the chain is extended by inodes and blocks that were
  free, and every other inode and the data area stay as they were.
\<close>

definition grown :: "img \<Rightarrow> img \<Rightarrow> int list \<Rightarrow> int list \<Rightarrow> int \<Rightarrow> bool" where
  "grown m m' is js t \<longleftrightarrow>
     fchain m' (is @ js) t \<and> keeps_use m m' \<and>
     (\<forall>j. inum_ok j \<longrightarrow> j \<notin> set (is @ js) \<longrightarrow> same_node m m' j) \<and>
     set js \<subseteq> free_inodes m \<and> n_block m' ` set js \<subseteq> free_blocks m \<and>
     (\<forall>j \<in> set is. n_refs m' j = n_refs m j \<and> n_mode m' j = n_mode m j \<and> n_block m' j = n_block m j) \<and>
     (\<forall>a. 20480 \<le> a \<longrightarrow> m' a = m a)"

lemma fchain_Cons:
  assumes "fchain m (j # is) (t - 4096)" and "node_ok m i" and "n_next m i = j" and "n_size m i = t" and "4096 < t"
    and "i \<notin> set (j # is)" and "n_block m i \<notin> n_block m ` set (j # is)"
  shows "fchain m (i # j # is) t"
  using assms by (auto simp: fchain_def separate_def)

text \<open>Writing the field at offset \<open>k\<close> of one inode.\<close>

lemma get_set_field:
  assumes "int32 v" and "0 \<le> k" and "k + 4 \<le> 40" and "0 \<le> l" and "l + 4 \<le> 40" and "l = k \<or> l + 4 \<le> k \<or> k + 4 \<le> l"
  shows "get32 (set32 m (node_at j + k) v) (node_at i + l) = (if i = j \<and> l = k then v else get32 m (node_at i + l))"
proof (cases "i = j")
  case True
  with assms show ?thesis by (auto simp: get32_set32)
next
  case False
  with assms node_disjoint [of i j] show ?thesis by (auto intro!: get32_set32_other)
qed

lemmas get_set_field0 = get_set_field [where k = 0, simplified] get_set_field [where l = 0, simplified]

lemma set_field_frame:
  assumes "inum_ok j" and "0 \<le> k" and "k + 4 \<le> 40"
  shows "i \<noteq> j \<Longrightarrow> same_node m (set32 m (node_at j + k) v) i"
    and "0 \<le> b \<Longrightarrow> b < 256 \<Longrightarrow> block_used (set32 m (node_at j + k) v) b = block_used m b"
    and "inum_ok l \<Longrightarrow> inode_used (set32 m (node_at j + k) v) l = inode_used m l"
    and "10752 \<le> a \<Longrightarrow> set32 m (node_at j + k) v a = m a"
proof -
  note nb = node_bounds [OF assms(1)]
  show "same_node m (set32 m (node_at j + k) v) i" if "i \<noteq> j"
    using node_disjoint [OF that] assms by (auto simp: same_node_def intro!: set32_other)
  show "block_used (set32 m (node_at j + k) v) b = block_used m b" if "0 \<le> b" "b < 256"
    using that nb assms unfolding block_used_def by (intro bm_bit_cong set32_other) auto
  show "inode_used (set32 m (node_at j + k) v) l = inode_used m l" if "inum_ok l"
    using that nb assms unfolding inode_used_def inum_ok_def by (intro bm_bit_cong set32_other) auto
  show "set32 m (node_at j + k) v a = m a" if "10752 \<le> a" using that nb assms by (intro set32_other) auto
qed

lemma set_size_fields:
  assumes "int32 v"
  shows "n_size (set32 m (node_at j + 8) v) i = (if i = j then v else n_size m i)"
    and "n_refs (set32 m (node_at j + 8) v) i = n_refs m i" and "n_mode (set32 m (node_at j + 8) v) i = n_mode m i"
    and "n_block (set32 m (node_at j + 8) v) i = n_block m i" and "n_next (set32 m (node_at j + 8) v) i = n_next m i"
  using assms by (simp_all add: node_fields get_set_field get_set_field0)

lemma set_next_fields:
  assumes "int32 v"
  shows "n_next (set32 m (node_at j + 16) v) i = (if i = j then v else n_next m i)"
    and "n_refs (set32 m (node_at j + 16) v) i = n_refs m i" and "n_mode (set32 m (node_at j + 16) v) i = n_mode m i"
    and "n_block (set32 m (node_at j + 16) v) i = n_block m i" and "n_size (set32 m (node_at j + 16) v) i = n_size m i"
  using assms by (simp_all add: node_fields get_set_field get_set_field0)

lemma free_inodes_least:
  assumes "free_inodes m \<noteq> {}"
  obtains i where "first_clear m 32 2 64 i" and "i \<in> free_inodes m"
proof -
  have "\<not> all_set m 32 2 64" using assms by (auto simp: free_inodes_def all_set_def inode_used_def)
  then obtain i where "first_clear m 32 2 64 i" using first_clear_or_all_set by blast
  then show thesis using that by (auto simp: first_clear_def free_inodes_def inode_used_def)
qed

lemma free_blocks_least:
  assumes "free_blocks m \<noteq> {}"
  obtains b where "fresh_block m b" and "b \<in> free_blocks m"
proof -
  have "\<not> all_set m 0 1 256" using assms by (auto simp: free_blocks_def all_set_def block_used_def)
  then obtain b where "first_clear m 0 1 256 b" using first_clear_or_all_set by blast
  then show thesis using that by (auto simp: first_clear_def free_blocks_def block_used_def fresh_block_def)
qed

text \<open>One round of the loop that needs a new inode.\<close>

lemma grow_alloc:
  assumes "inum_ok i" and "inode_used m i" and "reserved m" and "free_inodes m \<noteq> {}" and "free_blocks m \<noteq> {}"
  obtains j m' where "alloc_inode now m = Inr (j, m')" and "j \<in> free_inodes m" and "node_ok m' j"
    and "n_next m' j = -1" and "n_block m' j \<in> free_blocks m" and "n_refs m' j = 0" and "n_mode m' j = 4516"
    and "free_inodes m' = free_inodes m - {j}" and "free_blocks m' = free_blocks m - {n_block m' j}"
    and "keeps_use m m'" and "\<And>k. inum_ok k \<Longrightarrow> k \<noteq> j \<Longrightarrow> same_node m m' k"
    and "\<And>a. 10752 \<le> a \<Longrightarrow> m' a = m a"
proof -
  obtain j where j: "first_clear m 32 2 64 j" "j \<in> free_inodes m" using free_inodes_least [OF assms(4)] .
  obtain b where b: "fresh_block m b" "b \<in> free_blocks m" using free_blocks_least [OF assms(5)] .
  obtain m' where m': "alloc_inode now m = Inr (j, m')" "n_refs m' j = 0" "n_mode m' j = 4516" "n_size m' j = 0"
    "n_block m' j = b" "n_next m' j = -1"
    "\<And>k. inum_ok k \<Longrightarrow> inode_used m' k = (k = j \<or> inode_used m k)"
    "\<And>k. 0 \<le> k \<Longrightarrow> k < 256 \<Longrightarrow> block_used m' k = (k = b \<or> block_used m k)"
    "eq_outside ({0..<64} \<union> {node_at j ..< node_at j + 40}) m m'"
    using alloc_inode_ok [OF j(1) b(1), of now] by blast
  have jj: "inum_ok j" "2 \<le> j" using j(2) by (auto simp: free_inodes_def inum_ok_def)
  have bb: "1 \<le> b" "b \<le> 255" "\<not> block_used m b" using b(2) by (auto simp: free_blocks_def)
  have b5: "5 \<le> b"
  proof (rule ccontr)
    assume "\<not> 5 \<le> b"
    then have "b \<in> {0..4}" using bb by simp
    then show False using assms(3) bb(3) by (auto simp: reserved_def)
  qed
  have ok: "node_ok m' j" using jj bb b5 m'(5,7,8) by (simp add: node_ok_def)
  have keep: "keeps_use m m'" using m'(7,8) by (simp add: keeps_use_def)
  have same: "same_node m m' k" if "inum_ok k" "k \<noteq> j" for k
    using m'(9) node_bounds [OF that(1)] node_disjoint [OF that(2)]
    by (intro eq_outside_same_node [OF m'(9)]) auto
  have data: "m' a = m a" if "10752 \<le> a" for a
    using m'(9) that node_bounds [OF jj(1)] by (auto simp: eq_outside_def)
  have fi: "free_inodes m' = free_inodes m - {j}" using m'(7) by (auto simp: free_inodes_def inum_ok_def)
  have fb: "free_blocks m' = free_blocks m - {n_block m' j}" using m'(5,8) by (auto simp: free_blocks_def)
  show thesis using that [OF m'(1) j(2) ok m'(6) _ m'(2,3) fi fb keep same data] b(2) m'(5) by simp
qed

lemma grown_Cons:
  assumes g: "grown m m' (j # is) js (t - 4096)" and i: "node_ok m i" "n_next m i = j" "n_size m i = t" "4096 < t"
    and out: "i \<notin> set (j # is)" "n_block m i \<notin> n_block m ` set (j # is)"
  shows "fchain m' (i # j # is @ js) t" and "same_node m m' i"
proof -
  have "i \<notin> set js" using g i(1) by (auto simp: grown_def free_inodes_def node_ok_def)
  with out g i(1) show same: "same_node m m' i" by (auto simp: grown_def node_ok_def)
  have "node_ok m' i" using g i(1) same_nodeD(4) [OF same] by (auto simp: grown_def intro: node_ok_mono)
  moreover have "n_block m' i \<notin> n_block m' ` set (j # is @ js)"
  proof
    assume "n_block m' i \<in> n_block m' ` set (j # is @ js)"
    then obtain x where "n_block m' i = n_block m' x" "x \<in> set (j # is @ js)" by (rule imageE)
    then have x: "x \<in> set (j # is) \<union> set js" "n_block m' x = n_block m i"
      using same_nodeD(4) [OF same] by simp_all
    show False
    proof (cases "x \<in> set js")
      case True
      then have "n_block m' x \<in> free_blocks m" using g by (auto simp: grown_def)
      with x(2) i(1) show False by (simp add: free_blocks_def node_ok_def)
    next
      case False
      with x g have "n_block m' x = n_block m x" "x \<in> set (j # is)" by (auto simp: grown_def)
      with x(2) out(2) show False by (metis imageI)
    qed
  qed
  ultimately show "fchain m' (i # j # is @ js) t"
    using g i out \<open>i \<notin> set js\<close> same_nodeD [OF same] by (intro fchain_Cons) (auto simp: grown_def)
qed

lemma keeps_use_refl [simp]: "keeps_use m m"
  by (simp add: keeps_use_def)

lemma keeps_use_trans: "keeps_use m m' \<Longrightarrow> keeps_use m' m'' \<Longrightarrow> keeps_use m m''"
  by (auto simp: keeps_use_def)

lemma keeps_use_set_field: "inum_ok j \<Longrightarrow> 0 \<le> k \<Longrightarrow> k + 4 \<le> 40 \<Longrightarrow> keeps_use m (set32 m (node_at j + k) v)"
  by (simp add: keeps_use_def set_field_frame)

lemma same_node_trans: "same_node m m' i \<Longrightarrow> same_node m' m'' i \<Longrightarrow> same_node m m'' i"
  by (simp add: same_node_def)

lemma same_node_refl [simp]: "same_node m m i"
  by (simp add: same_node_def)

lemma reserved_mono: "reserved m \<Longrightarrow> keeps_use m m' \<Longrightarrow> reserved m'"
  by (auto simp: reserved_def keeps_use_def)

text \<open>The loop on an inode whose successor exists, and on the last inode of the chain.\<close>

lemma grow_loop_next:
  assumes "node_ok m i" and "node_ok m j" and "n_next m i = j" and "n_size m i = t" and "4096 < t"
  shows "grow_loop now m (node_at i) = grow_loop now (set32 m (node_at j + 8) (t - 4096)) (node_at j)"
  using assms node_okD [OF assms(1)] node_okD [OF assms(2)]
  by (subst grow_loop.simps) (simp add: BLOCK_SIZE_def)

lemma grow_loop_last:
  assumes "node_ok m i" and "n_next m i = -1" and "n_size m i = t" and "4096 < t"
    and "alloc_inode now m = Inr (j, m')" and "node_ok m' j" and "i \<noteq> j" and "int32 j"
  shows "grow_loop now m (node_at i) =
    grow_loop now (set32 (set32 m' (node_at i + 16) j) (node_at j + 8) (t - 4096)) (node_at j)"
  using assms node_okD [OF assms(1)] node_okD [OF assms(6)]
  by (subst grow_loop.simps) (simp add: BLOCK_SIZE_def set_next_fields set_field_frame)

lemma grow_loop_done: "inum_ok i \<Longrightarrow> n_size m i \<le> 4096 \<Longrightarrow> grow_loop now m (node_at i) = Inr m"
  by (subst grow_loop.simps) (simp add: BLOCK_SIZE_def)

lemma grow_loop_correct:
  assumes "links m (i # is)" and "separate m (i # is)" and "n_size m i = t" and "0 \<le> t" and "reserved m"
    and "4096 * int (length is) < t \<or> is = []" and "t \<le> 4096 * (int (length is) + 1 + int f)"
    and "f \<le> card (free_inodes m)" and "f \<le> card (free_blocks m)"
  shows "\<exists>m' js. grow_loop now m (node_at i) = Inr m' \<and> grown m m' (i # is) js t"
  using assms
proof (induction "nat t" arbitrary: m i "is" t f rule: less_induct)
  case less
  note i = links_hd [OF less.prems(1)]
  note ii = node_okD [OF i]
  show ?case
  proof (cases "4096 < t")
    case False
    then have "is = []" using less.prems(6) by (cases "is") auto
    then have "grown m m [i] [] t" using less.prems False by (simp add: grown_def fchain_def)
    moreover have "grow_loop now m (node_at i) = Inr m"
      using False less.prems(3) ii(1) by (simp add: grow_loop_done)
    ultimately show ?thesis using \<open>is = []\<close> by blast
  next
    case big: True
    have small: "nat (t - 4096) < nat t" and t32: "int32 (t - 4096)"
      using big less.prems(3) int32_get32 [of m "node_at i + 8"] by (auto simp: int32_def n_size_def)
    show ?thesis
    proof (cases "is")
      case (Cons j rest)
      have j: "node_ok m j" "n_next m i = j" "links m (j # rest)" "i \<noteq> j"
        using less.prems(1,2) Cons by (auto simp: separate_def intro: links_hd)
      let ?m1 = "set32 m (node_at j + 8) (t - 4096)"
      note jj = node_okD [OF j(1)]
      note fr = set_field_frame [OF jj(1), of 8, simplified] set_size_fields [OF t32]
      have k1: "keeps_use m ?m1" using jj(1) by (intro keeps_use_set_field) auto
      have free: "free_inodes ?m1 = free_inodes m" "free_blocks ?m1 = free_blocks m"
        using fr by (auto simp: free_inodes_def free_blocks_def inum_ok_def)
      have "links ?m1 (j # rest)" by (rule links_mono [OF j(3) k1]) (simp add: fr)
      moreover have "separate ?m1 (j # rest)" using less.prems(2) Cons fr by (simp add: separate_def inj_on_def)
      moreover have "n_size ?m1 j = t - 4096" "reserved ?m1"
        using fr less.prems(5) k1 by (auto intro: reserved_mono)
      ultimately obtain m' js where g: "grow_loop now ?m1 (node_at j) = Inr m'" "grown ?m1 m' (j # rest) js (t - 4096)"
        using less.hyps [OF small, of ?m1 j rest f] less.prems(4,6,7,8,9) Cons big free by auto
      have "n_block ?m1 i \<notin> n_block ?m1 ` set (j # rest)"
        using less.prems(2) Cons fr by (auto simp: separate_def inj_on_def)
      moreover have i1: "node_ok ?m1 i" "n_next ?m1 i = j" "n_size ?m1 i = t"
        using node_ok_mono [OF i k1] j less.prems(3) fr by simp_all
      ultimately have chain: "fchain m' (i # j # rest @ js) t" "same_node ?m1 m' i"
        using grown_Cons [OF g(2) i1 big] less.prems(2) Cons by (auto simp: separate_def)
      have "same_node m m' k" if "inum_ok k" "k \<notin> set (i # j # rest @ js)" for k
        using g(2) that fr(1) [of k m "t - 4096"] by (auto simp: grown_def intro: same_node_trans [of m ?m1])
      then have "grown m m' (i # is) js t"
        using g(2) chain(1) Cons fr free same_nodeD [OF chain(2)] keeps_use_trans [OF k1]
        by (auto simp: grown_def)
      moreover have "grow_loop now m (node_at i) = Inr m'"
        using grow_loop_next [OF i j(1,2) less.prems(3) big] g(1) by simp
      ultimately show ?thesis by blast
    next
      case Nil
      then obtain f' where f: "f = Suc f'" using less.prems(7) big by (cases f) auto
      have "free_inodes m \<noteq> {}" "free_blocks m \<noteq> {}" using less.prems(8,9) f by auto
      then obtain j m1 where al: "alloc_inode now m = Inr (j, m1)" "j \<in> free_inodes m" "node_ok m1 j"
        "n_next m1 j = -1" "n_block m1 j \<in> free_blocks m" "free_inodes m1 = free_inodes m - {j}"
        "free_blocks m1 = free_blocks m - {n_block m1 j}" "keeps_use m m1"
        "\<And>k. inum_ok k \<Longrightarrow> k \<noteq> j \<Longrightarrow> same_node m m1 k" "\<And>a. 10752 \<le> a \<Longrightarrow> m1 a = m a"
        using grow_alloc [OF ii(1,2) less.prems(5), of now] by metis
      have ij: "i \<noteq> j" using al(2) ii(2) by (auto simp: free_inodes_def)
      note jj = node_okD [OF al(3)]
      have j32: "int32 j" using jj(1) by (simp add: inum_ok_def int32_def)
      let ?m2 = "set32 (set32 m1 (node_at i + 16) j) (node_at j + 8) (t - 4096)"
      note fr = set_field_frame [OF jj(1), of 8, simplified] set_size_fields [OF t32]
        set_field_frame [OF ii(1), of 16, simplified] set_next_fields [OF j32]
      have k2: "keeps_use m1 ?m2"
        using jj(1) ii(1) by (auto intro!: keeps_use_trans [OF keeps_use_set_field keeps_use_set_field])
      have same_i: "same_node m m1 i" using al(9) ii(1) ij by simp
      have free: "free_inodes ?m2 = free_inodes m - {j}" "free_blocks ?m2 = free_blocks m - {n_block m1 j}"
        using fr al(6,7) by (auto simp: free_inodes_def free_blocks_def inum_ok_def)
      have i2: "node_ok ?m2 i" "n_next ?m2 i = j" "n_size ?m2 i = t" "n_block ?m2 i = n_block m i"
        using i al(8) k2 ij fr less.prems(3) same_nodeD [OF same_i]
        by (auto intro: node_ok_mono keeps_use_trans)
      have "links ?m2 [j]" "separate ?m2 [j]" "n_size ?m2 j = t - 4096" "reserved ?m2"
        using al(3,4,8) k2 ij fr less.prems(5)
        by (auto simp: separate_def intro: node_ok_mono reserved_mono keeps_use_trans)
      moreover have "f' \<le> card (free_inodes ?m2)" "f' \<le> card (free_blocks ?m2)"
        using less.prems(8,9) f free al(2,5) by (auto simp: card_Diff_singleton)
      ultimately obtain m' js where g: "grow_loop now ?m2 (node_at j) = Inr m'" "grown ?m2 m' [j] js (t - 4096)"
        using less.hyps [OF small, of ?m2 j "[]" f'] less.prems(7) Nil big f by auto
      have "n_block ?m2 i \<notin> n_block ?m2 ` set [j]"
        using al(5) ii(5) fr same_nodeD [OF same_i] by (auto simp: free_blocks_def)
      then have chain: "fchain m' (i # j # [] @ js) t" "same_node ?m2 m' i"
        using grown_Cons [OF g(2) i2(1-3) big] ij by auto
      have "same_node m m' k" if "inum_ok k" "k \<notin> set (i # j # js)" for k
      proof -
        have "same_node m m1 k" using al(9) that by simp
        moreover have "same_node m1 (set32 m1 (node_at i + 16) j) k"
          using that by (intro set_field_frame(1) [OF ii(1)]) auto
        moreover have "same_node (set32 m1 (node_at i + 16) j) ?m2 k"
          using that by (intro set_field_frame(1) [OF jj(1)]) auto
        moreover have "same_node ?m2 m' k" using g(2) that by (simp add: grown_def)
        ultimately show ?thesis by (simp add: same_node_def)
      qed
      moreover have "keeps_use m m'" using g(2) keeps_use_trans [OF keeps_use_trans [OF al(8) k2]] by (simp add: grown_def)
      moreover have "set (j # js) \<subseteq> free_inodes m" using g(2) al(2) free(1) by (auto simp: grown_def)
      moreover have "n_block m' j = n_block m1 j" using g(2) fr by (simp add: grown_def)
      then have "n_block m' ` set (j # js) \<subseteq> free_blocks m" using g(2) al(5) free(2) by (auto simp: grown_def)
      moreover have "n_refs m' i = n_refs m i" "n_mode m' i = n_mode m i" "n_block m' i = n_block m i"
        using same_nodeD [OF chain(2)] same_nodeD [OF same_i] fr by simp_all
      moreover have "m' a = m a" if "20480 \<le> a" for a using g(2) fr(4,13) al(10) that by (simp add: grown_def)
      ultimately have "grown m m' (i # is) (j # js) t" using chain(1) Nil by (simp add: grown_def)
      moreover have "grow_loop now m (node_at i) = Inr m'"
        using grow_loop_last [OF i _ less.prems(3) big al(1,3) ij j32] less.prems(1) Nil g(1) by simp
      ultimately show ?thesis by blast
    qed
  qed
qed

lemma sizes_needed: "sizes m (i # is) sz \<Longrightarrow> 4096 * int (length is) < sz \<or> is = []"
  by (induction "is" arbitrary: i sz) fastforce+

lemma grow_inode_grown:
  assumes "fchain m (i # is) sz" and "0 \<le> n" and "int32 (sz + n)" and "reserved m"
    and "sz + n \<le> 4096 * (int (length is) + 1 + int f)" and "f \<le> card (free_inodes m)" and "f \<le> card (free_blocks m)"
  shows "\<exists>m' js. grow_inode now m (node_at i) n = Inr (0, m') \<and> grown m m' (i # is) js (sz + n)"
proof -
  have l: "links m (i # is)" and sz: "n_size m i = sz" "0 \<le> sz" "4096 * int (length is) < sz \<or> is = []"
    and sep: "separate m (i # is)"
    using assms(1) sizes_hd [of m i "is" sz] sizes_needed [of m i "is" sz] sizes_length [of m "i # is" sz]
    by (auto simp: fchain_def)
  note ii = node_okD [OF links_hd [OF l]]
  let ?m = "set32 m (node_at i + 8) (sz + n)"
  note fr = set_field_frame [OF ii(1), of 8, simplified] set_size_fields [OF assms(3)]
  have k: "keeps_use m ?m" using ii(1) by (intro keeps_use_set_field) auto
  have "links ?m (i # is)" by (rule links_mono [OF l k]) (simp add: fr)
  moreover have "separate ?m (i # is)" using sep fr by (simp add: separate_def inj_on_def)
  moreover have free: "free_inodes ?m = free_inodes m" "free_blocks ?m = free_blocks m"
    using fr by (auto simp: free_inodes_def free_blocks_def inum_ok_def)
  ultimately obtain m' js where g: "grow_loop now ?m (node_at i) = Inr m'" "grown ?m m' (i # is) js (sz + n)"
    using grow_loop_correct [of ?m i "is" "sz + n" f now] assms fr sz reserved_mono [OF assms(4) k] by auto
  have "same_node m m' j" if "inum_ok j" "j \<notin> set (i # is @ js)" for j
    using g(2) that fr(1) [of j m] by (simp add: grown_def same_node_def)
  then have "grown m m' (i # is) js (sz + n)"
    using g(2) fr free keeps_use_trans [OF k] by (simp add: grown_def)
  moreover have "grow_inode now m (node_at i) n = Inr (0, m')"
    using ii(1) sz(1) assms(3) g(1) by (simp add: grow_inode_def chk32_def)
  ultimately show ?thesis by blast
qed

section \<open>Shrinking a file\<close>

lemma shrink_del_none: "shrink_del (Suc f) m ibm (-1) p = Inr m"
  by simp

lemma shrink_inode_last:
  assumes "inum_ok i" and "n_next m i = -1" and "n_size m i = s" and "0 \<le> n" and "n \<le> s" and "s \<le> 4096"
  shows "shrink_inode m (node_at i) n =
    Inr (0, set32 (set32 m (node_at i + 16) (-1)) (node_at i + 8) (s - n))"
proof -
  have r: "int32 (s - 4096)" "int32 (s - n)" "int32 (-1)" "\<not> n < s - 4096" using assms by (auto simp: int32_def)
  note fr = set_size_fields [OF r(2)] set_next_fields [OF r(3)]
  have find: "shrink_find 64 m n (node_at i) = Inr (node_at i)"
    using assms r by (simp add: numeral_eq_Suc chk32_def BLOCK_SIZE_def)
  have del: "shrink_del 64 m' 32 (-1) p = Inr m'" for m' p by (simp add: numeral_eq_Suc)
  have sz: "shrink_sizes 64 m' n (node_at i) = Inr m'" if "n_next m' i = -1" for m'
    using assms(1) that by (simp add: numeral_eq_Suc)
  show ?thesis using assms r by (simp add: shrink_inode_def find del sz fr chk32_def)
qed

text \<open>Writing a bit of one of the bitmaps keeps every inode.\<close>

lemma put_bit_same_node:
  assumes "0 \<le> i" and "i < 256" and "bm = 0 \<or> bm = 32" and "inum_ok j"
  shows "same_node m (put_bit m bm i b) j"
  using assms node_bounds [OF assms(4)] by (auto simp: same_node_def intro!: put_bit_other)

lemmas put_bit_fields = same_nodeD [OF put_bit_same_node]

lemma clear_fields:
  "n_refs (clear_img m (node_at i) 40) i = 0" "n_mode (clear_img m (node_at i) 40) i = 0"
  "n_size (clear_img m (node_at i) 40) i = 0" "n_block (clear_img m (node_at i) 40) i = 0"
  "n_next (clear_img m (node_at i) 40) i = 0"
  by (simp_all add: node_fields get32_clear)

lemma clear_same_node: "i \<noteq> j \<Longrightarrow> same_node m (clear_img m (node_at j) 40) i"
  using node_disjoint [of i j] by (auto simp: same_node_def intro!: clear_img_other)

lemma clear_bits:
  assumes "inum_ok i"
  shows "0 \<le> b \<Longrightarrow> b < 256 \<Longrightarrow> block_used (clear_img m (node_at i) 40) b = block_used m b"
    and "inum_ok j \<Longrightarrow> inode_used (clear_img m (node_at i) 40) j = inode_used m j"
  using node_bounds [OF assms] unfolding block_used_def inode_used_def inum_ok_def
  by (intro bm_bit_cong clear_img_other; auto)+

lemma put_bit_used:
  assumes "0 \<le> b" and "b < 256"
  shows "0 \<le> c \<Longrightarrow> block_used (put_bit m 0 b v) c = (if c = b then v else block_used m c)"
    and "inum_ok i \<Longrightarrow> inode_used (put_bit m 0 b v) i = inode_used m i"
    and "0 \<le> i \<Longrightarrow> inode_used (put_bit m 32 b v) i = (if i = b then v else inode_used m i)"
    and "0 \<le> c \<Longrightarrow> c < 256 \<Longrightarrow> block_used (put_bit m 32 b v) c = block_used m c"
proof -
  show "block_used (put_bit m 0 b v) c = (if c = b then v else block_used m c)" if "0 \<le> c"
    using assms that by (simp add: block_used_def bm_bit_put_bit)
  show "inode_used (put_bit m 32 b v) i = (if i = b then v else inode_used m i)" if "0 \<le> i"
    using assms that by (simp add: inode_used_def bm_bit_put_bit)
  show "inode_used (put_bit m 0 b v) i = inode_used m i" if "inum_ok i"
  proof -
    have "b div 8 < 32" "0 \<le> i div 8" using assms that by (auto simp: inum_ok_def)
    then show ?thesis unfolding inode_used_def by (intro bm_bit_cong put_bit_other) auto
  qed
  show "block_used (put_bit m 32 b v) c = block_used m c" if "0 \<le> c" "c < 256"
  proof -
    have "c div 8 < 32" "0 \<le> b div 8" using assms that by auto
    then show ?thesis unfolding block_used_def by (intro bm_bit_cong put_bit_other) auto
  qed
qed

text \<open>The deletion loop on a chain of two or more inodes.\<close>

definition after_del :: "img \<Rightarrow> int \<Rightarrow> img" where
  "after_del m j = clear_img (put_bit (put_bit m 32 j False) 0 (n_block m j) False) (node_at j) 40"

lemma shrink_del_two:
  assumes j: "inum_ok j" "0 < j" "n_next m j = k" "0 \<le> n_block m j" "n_block m j < 256" and k: "inum_ok k" "0 < k"
  shows "shrink_del (Suc (Suc (Suc f))) m 32 j (Some (node_at j)) =
    Inr (clear_img (put_bit (put_bit (after_del m j) 32 k False) 0 0 False) (node_at j) 40)"
proof -
  have b: "0 \<le> j" "j < 256" "0 \<le> k" "k < 256" using j k by (auto simp: inum_ok_def)
  note put = bitmap_put_correct [OF b(1) mapped_ibit [OF j(1)]] bitmap_put_correct [OF b(3) mapped_ibit [OF k(1)]]
  have 1: "shrink_del (Suc (Suc (Suc f))) m 32 j (Some (node_at j)) =
      shrink_del (Suc (Suc f)) (after_del m j) 32 k (Some (node_at j))"
    using j b put by (subst shrink_del.simps) (simp add: free_block_ok put_bit_fields after_del_def del: shrink_del.simps)
  show ?thesis
    unfolding 1 using j(1) k b put
    by (simp add: free_block_ok put_bit_fields after_del_def clear_fields)
qed

lemma shrink_inode_three:
  assumes "fchain m [i, j, k] sz"
  shows "\<exists>m'. shrink_inode m (node_at i) sz = Inr (0, m') \<and> n_size m' i = 0 \<and> n_next m' i = -1 \<and>
    \<not> inode_used m' j \<and> \<not> inode_used m' k \<and> \<not> block_used m' 0 \<and> block_used m' (n_block m k)"
proof -
  have ok: "node_ok m i" "node_ok m j" "node_ok m k" and nx: "n_next m i = j" "n_next m j = k"
    and sz: "n_size m i = sz" "8192 < sz" "sz \<le> 12288" and ne: "i \<noteq> j" "i \<noteq> k" "j \<noteq> k"
    and bl: "n_block m j \<noteq> n_block m k"
    using assms by (auto simp: fchain_def separate_def)
  note ii = node_okD [OF ok(1)] and jj = node_okD [OF ok(2)] and kk = node_okD [OF ok(3)]
  let ?m1 = "set32 m (node_at i + 16) (-1)"
  let ?m2 = "clear_img (put_bit (put_bit (after_del ?m1 j) 32 k False) 0 0 False) (node_at j) 40"
  let ?m3 = "set32 ?m2 (node_at i + 8) 0"
  have r: "int32 (-1)" "int32 0" "int32 (sz - 4096)" using sz by (auto simp: int32_def)
  have b: "0 \<le> j" "j < 256" "0 \<le> k" "k < 256" using jj(1) kk(1) by (auto simp: inum_ok_def)
  note fr = set_field_frame [OF ii(1), of 16, simplified] set_field_frame [OF ii(1), of 8, simplified]
    set_next_fields [OF r(1)] set_size_fields [OF r(2)] clear_bits [OF jj(1)] put_bit_used
  have find: "shrink_find 64 m sz (node_at i) = Inr (node_at i)"
    using ii(1) sz r(3) by (simp add: numeral_eq_Suc chk32_def BLOCK_SIZE_def)
  have del: "shrink_del 64 ?m1 32 j (Some (node_at j)) = Inr ?m2"
    using shrink_del_two [of j ?m1 k 61] jj kk nx ne fr by (simp add: numeral_eq_Suc del: shrink_del.simps)
  have i2: "n_size ?m2 i = sz" "n_next ?m2 i = -1"
    using same_nodeD [OF clear_same_node [OF ne(1)]] put_bit_fields [of _ _ i] ii(1) jj kk b ne fr sz
    by (simp_all add: after_del_def)
  have "shrink_sizes 64 ?m3 sz (node_at i) = Inr ?m3" using ii(1) i2(2) fr by (simp add: numeral_eq_Suc)
  then have "shrink_inode m (node_at i) sz = Inr (0, ?m3)"
    using ii(1) jj(1,2) nx(1) find del i2 fr r by (simp add: shrink_inode_def chk32_def)
  moreover have "n_size ?m3 i = 0" "n_next ?m3 i = -1" using i2 fr by simp_all
  moreover have "\<not> inode_used ?m3 j" "\<not> inode_used ?m3 k" "\<not> block_used ?m3 0" "block_used ?m3 (n_block m k)"
    using jj kk b ne bl fr by (simp_all add: after_del_def)
  ultimately show ?thesis by blast
qed

section \<open>Properties\<close>

text \<open>Allocating an inode returns the lowest free inode number from 2 on, initialised as an empty regular
  file with a block that was free (or block -1 when the disk is full), and leaves every other inode
  and the data as they were; it returns -1 and changes nothing when no inode is free.\<close>

theorem alloc_inode_first_fit:
  "\<exists>i m'. alloc_inode now m = Inr (i, m') \<and>
     (if free_inodes m = {} then i = -1 \<and> m' = m
      else i \<in> free_inodes m \<and> (\<forall>j \<in> free_inodes m. i \<le> j) \<and> free_inodes m' = free_inodes m - {i} \<and>
        n_refs m' i = 0 \<and> n_mode m' i = 4516 \<and> n_size m' i = 0 \<and> n_next m' i = -1 \<and>
        (if free_blocks m = {} then n_block m' i = -1
         else n_block m' i \<in> free_blocks m \<and> free_blocks m' = free_blocks m - {n_block m' i}) \<and>
        (\<forall>j. inum_ok j \<longrightarrow> j \<noteq> i \<longrightarrow> same_node m m' j) \<and> (\<forall>a. 10752 \<le> a \<longrightarrow> m' a = m a))"
proof (cases "free_inodes m = {}")
  case True
  then have "all_set m 32 2 64" by (auto simp: free_inodes_def all_set_def inode_used_def)
  with True show ?thesis by (simp add: alloc_inode_full)
next
  case False
  then obtain i where i: "first_clear m 32 2 64 i" "i \<in> free_inodes m" using free_inodes_least by blast
  obtain b where b: "fresh_block m b" using fresh_block_exists by blast
  obtain m' where m': "alloc_inode now m = Inr (i, m')" "n_refs m' i = 0" "n_mode m' i = 4516" "n_size m' i = 0"
    "n_block m' i = b" "n_next m' i = -1"
    "\<And>j. inum_ok j \<Longrightarrow> inode_used m' j = (j = i \<or> inode_used m j)"
    "\<And>j. 0 \<le> j \<Longrightarrow> j < 256 \<Longrightarrow> block_used m' j = (j = b \<or> block_used m j)"
    "eq_outside ({0..<64} \<union> {node_at i ..< node_at i + 40}) m m'"
    using alloc_inode_ok [OF i(1) b, of now] by blast
  have ii: "inum_ok i" using i(2) by (auto simp: free_inodes_def inum_ok_def)
  have least: "\<forall>j \<in> free_inodes m. i \<le> j"
    using i(1) by (auto simp: free_inodes_def first_clear_def inode_used_def not_less [symmetric])
  have same: "same_node m m' j" if "inum_ok j" "j \<noteq> i" for j
    using node_bounds [OF that(1)] node_disjoint [OF that(2)] by (intro eq_outside_same_node [OF m'(9)]) auto
  have data: "m' a = m a" if "10752 \<le> a" for a
    using m'(9) that node_bounds [OF ii] by (auto simp: eq_outside_def)
  have fi: "free_inodes m' = free_inodes m - {i}" using m'(7) by (auto simp: free_inodes_def inum_ok_def)
  have full: "free_blocks m = {} \<longleftrightarrow> all_set m 0 1 256"
    by (auto simp: free_blocks_def all_set_def block_used_def)
  have "if free_blocks m = {} then b = -1 else b \<in> free_blocks m \<and> free_blocks m' = free_blocks m - {b}"
    using b full m'(8) by (auto simp: fresh_block_def first_clear_def free_blocks_def block_used_def all_set_def)
  with False i(2) m'(1-6) least same data fi show ?thesis by auto
qed

theorem alloc_inode_first_fit_witness:
  "\<exists>m'. alloc_inode 7 ((\<lambda>_. 0)(0 := 63, 32 := 6)) = Inr (3, m') \<and> n_size m' 3 = 0"
proof -
  let ?m = "(\<lambda>_. 0)(0 := 63, 32 := 6) :: img"
  have f: "3 \<in> free_inodes ?m" "2 \<notin> free_inodes ?m" by (simp_all add: free_inodes_def inode_used_def bm_bit_def)
  have f2: "i \<noteq> 2 \<and> 2 \<le> i" if "i \<in> free_inodes ?m" for i using that f(2) by (auto simp: free_inodes_def)
  obtain i m' where im: "alloc_inode 7 ?m = Inr (i, m')" "i \<in> free_inodes ?m" "\<forall>j \<in> free_inodes ?m. i \<le> j" "n_size m' i = 0"
    using alloc_inode_first_fit [of 7 ?m] f(1) by (auto split: if_splits)
  then have "i = 3" using f f2 [OF im(2)] by force
  with im show ?thesis by blast
qed

text \<open>C26: Growing a well-formed file to any size for which there are enough free inodes and blocks succeeds: the
  result is a well-formed file of the new size whose chain extends the old one by inodes and blocks
  that were free, and every other inode and the data area stay as they were.\<close>

theorem grow_inode_extends:
  assumes "fchain m (i # is) sz" and "0 \<le> n" and "sz + n < 2 ^ 31" and "reserved m"
    and "sz + n \<le> 4096 * (int (length (i # is)) + int f)" and "f \<le> card (free_inodes m)" and "f \<le> card (free_blocks m)"
  shows "\<exists>m' js. grow_inode now m (node_at i) n = Inr (0, m') \<and> grown m m' (i # is) js (sz + n)"
proof -
  have "0 \<le> sz" using assms(1) sizes_length [of m "i # is" sz] by (auto simp: fchain_def)
  then show ?thesis using assms by (intro grow_inode_grown [of m i "is" sz n f]) (auto simp: int32_def)
qed

text \<open>A small image with one empty file: inode 2 with block 5.\<close>

definition one_file_bits :: img where
  "one_file_bits = put_bit (put_bit (put_bit (put_bit (put_bit (put_bit (put_bit (put_bit (\<lambda>_. 0)
     0 0 True) 0 1 True) 0 2 True) 0 3 True) 0 4 True) 0 5 True) 32 1 True) 32 2 True"

definition one_file :: img where
  "one_file = set32 (set32 one_file_bits (node_at 2 + 12) 5) (node_at 2 + 16) (-1)"

lemma one_file_fields:
  "n_size one_file 2 = 0" "n_block one_file 2 = 5" "n_next one_file 2 = -1" "n_mode one_file 2 = 0"
proof -
  have "n_size one_file_bits 2 = 0" "n_mode one_file_bits 2 = 0"
    by (simp_all add: one_file_bits_def put_bit_fields inum_ok_def) (simp_all add: node_fields get32_def)
  then show "n_size one_file 2 = 0" "n_block one_file 2 = 5" "n_next one_file 2 = -1" "n_mode one_file 2 = 0"
    by (simp_all add: one_file_def node_fields get_set_field int32_def)
qed

lemma one_file_used:
  "0 \<le> b \<Longrightarrow> b < 256 \<Longrightarrow> block_used one_file b = (b < 6)"
  "inum_ok i \<Longrightarrow> inode_used one_file i = (i = 1 \<or> i = 2)"
proof -
  have 2: "inum_ok 2" by (simp add: inum_ok_def)
  note fr = set_field_frame [OF 2, of 12, simplified] set_field_frame [OF 2, of 16, simplified]
  show "block_used one_file b = (b < 6)" if "0 \<le> b" "b < 256"
  proof -
    have "block_used one_file b = (b = 5 \<or> b = 4 \<or> b = 3 \<or> b = 2 \<or> b = 1 \<or> b = 0)"
      using that fr by (simp add: one_file_def one_file_bits_def put_bit_used) (simp add: block_used_def bm_bit_def)
    with that show ?thesis by auto
  qed
  show "inode_used one_file i = (i = 1 \<or> i = 2)" if "inum_ok i"
  proof -
    have "0 \<le> i" "\<not> inode_used (\<lambda>_. 0) i" using that by (simp_all add: inum_ok_def inode_used_def bm_bit_def)
    with that fr show ?thesis by (simp add: one_file_def one_file_bits_def put_bit_used)
  qed
qed

lemma one_file_chain: "fchain one_file [2] 0" and one_file_reserved: "reserved one_file"
  by (simp_all add: fchain_def separate_def node_ok_def reserved_def one_file_fields one_file_used inum_ok_def)

lemma one_file_free: "10 \<le> card (free_inodes one_file)" "10 \<le> card (free_blocks one_file)"
proof -
  have "{11..20} \<subseteq> free_inodes one_file" "{11..20} \<subseteq> free_blocks one_file"
    by (auto simp: free_inodes_def free_blocks_def one_file_used inum_ok_def)
  moreover have "finite (free_inodes one_file)" "finite (free_blocks one_file)"
    unfolding free_inodes_def free_blocks_def by (rule finite_subset [of _ "{0..255}"]; auto)+
  ultimately show "10 \<le> card (free_inodes one_file)" "10 \<le> card (free_blocks one_file)"
    using card_mono [of "free_inodes one_file" "{11..20}"] card_mono [of "free_blocks one_file" "{11..20}"] by auto
qed

theorem grow_inode_extends_witness:
  "\<exists>m' js. grow_inode 7 one_file (node_at 2) 5000 = Inr (0, m') \<and> fchain m' (2 # js) 5000"
  using grow_inode_extends [of one_file 2 "[]" 0 5000 10 7] one_file_chain one_file_reserved one_file_free
  by (auto simp: grown_def)

text \<open>C33: Shrinking a file of three blocks to nothing frees its second and third inode and empties the first. It
  clears the second inode before reading the third inode's block from it, so it frees block 0 (the
  bitmaps) instead, and the third block stays allocated although no inode refers to it.\<close>

theorem shrink_chain_frees_block_0:
  assumes "fchain m [i, j, k] sz"
  shows "\<exists>m'. shrink_inode m (node_at i) sz = Inr (0, m') \<and> n_size m' i = 0 \<and> n_next m' i = -1 \<and>
    \<not> inode_used m' j \<and> \<not> inode_used m' k \<and> \<not> block_used m' 0 \<and> block_used m' (n_block m k)"
  using assms by (rule shrink_inode_three)

theorem shrink_chain_frees_block_0_witness:
  "\<exists>m j k m'. fchain m [2, j, k] 9000 \<and> shrink_inode m (node_at 2) 9000 = Inr (0, m') \<and> \<not> block_used m' 0"
proof -
  obtain m js where m: "grown one_file m [2] js 9000"
    using grow_inode_grown [of one_file 2 "[]" 0 9000 10 7] one_file_chain one_file_reserved one_file_free
    by (auto simp: int32_def)
  then have "length ([2] @ js) = 3"
    using sizes_length [of m "[2] @ js" 9000] by (auto simp: grown_def fchain_def)
  then obtain j k where "js = [j, k]" by (auto simp: numeral_eq_Suc length_Suc_conv)
  with m have "fchain m [2, j, k] 9000" by (simp add: grown_def)
  with shrink_chain_frees_block_0 [of m 2 j k 9000] show ?thesis by blast
qed

end
