(* ===== verification/SList.thy ===== *)
theory SList
  imports Prelude
begin

text \<open>
  The reference-counted string lists of the file system (File System/files/slist.c), on a heap of nodes:
  \<open>s_cons\<close>, \<open>s_free\<close> and \<open>s_explode\<close>, the split of a path at a delimiter. Strings are copied by
  \<open>strdup\<close>, so a node holds its string by value. \<open>malloc_ok\<close> tells whether \<open>malloc\<close> succeeds.
\<close>

section \<open>The program\<close>

record slist_t =
  sl_data :: string
  sl_refs :: int
  sl_next :: "nat option"

text \<open>A heap of list nodes; \<open>sh_new\<close> is the address the next \<open>malloc\<close> returns.\<close>

record slist_heap =
  sh_nodes :: "nat \<rightharpoonup> slist_t"
  sh_new :: nat

definition s_cons :: "bool \<Rightarrow> string \<Rightarrow> nat option \<Rightarrow> slist_heap \<Rightarrow> (nat option \<times> slist_heap) res" where
  "s_cons malloc_ok str rest h =
     (if malloc_ok then
        (let xs = sh_new h in
         Inr (Some xs,
           h\<lparr>sh_nodes := (sh_nodes h)(xs \<mapsto> \<lparr>sl_data = str, sl_refs = 1, sl_next = rest\<rparr>), sh_new := xs + 1\<rparr>))
      else Inl Null_Deref)"

text \<open>Freeing follows the list; the fuel bounds the depth of the recursion.\<close>

fun s_free :: "nat \<Rightarrow> nat option \<Rightarrow> slist_heap \<Rightarrow> slist_heap res" where
  "s_free fuel None h = Inr h"
| "s_free 0 (Some xs) h = Inl Out_Of_Fuel"
| "s_free (Suc fuel) (Some xs) h =
     (case sh_nodes h xs of
        None \<Rightarrow> Inl Bad_Memory
      | Some node \<Rightarrow>
          (let node = node\<lparr>sl_refs := sl_refs node - 1\<rparr>;
               h = h\<lparr>sh_nodes := (sh_nodes h)(xs \<mapsto> node)\<rparr> in
           if sl_refs node = 0 then
             bindR (s_free fuel (sl_next node) h) (\<lambda>h.
             Inr (h\<lparr>sh_nodes := (sh_nodes h)(xs := None)\<rparr>))
           else Inr h))"

text \<open>The character at an index of a C string, whose end is the zero character.\<close>

definition char_at :: "string \<Rightarrow> nat \<Rightarrow> char" where
  "char_at s i = (if i < length s then s ! i else CHR 0x00)"

fun part_len :: "string \<Rightarrow> char \<Rightarrow> nat" where
  "part_len [] delim = 0"
| "part_len (c # cs) delim = (if c \<noteq> delim then Suc (part_len cs delim) else 0)"

lemma part_len_le: "part_len s d \<le> length s"
  by (induction s) auto

lemma part_len_zero: "s \<noteq> [] \<Longrightarrow> part_len s d = 0 \<Longrightarrow> s ! 0 = d"
  by (cases s) (auto split: if_splits)

function s_explode :: "bool \<Rightarrow> string \<Rightarrow> char \<Rightarrow> slist_heap \<Rightarrow> (nat option \<times> slist_heap) res" where
  "s_explode malloc_ok str delim h =
     (if str = [] then Inr (None, h)
      else
        (let plen = part_len str delim;
             skip = (if char_at str plen = delim then 1 else 0) in
         if plen + skip \<le> length str then
           bindR (s_explode malloc_ok (drop (plen + skip) str) delim h) (\<lambda>(rest, h).
           s_cons malloc_ok (take plen str) rest h)
         else Inl Out_Of_Bounds))"
  by pat_completeness auto
termination
proof (relation "measure (\<lambda>(_, str, _). length str)", goal_cases)
  case 1
  then show ?case by simp
next
  case (2 malloc_ok str delim h plen skip)
  then show ?case using part_len_zero [of str delim] by (cases "plen = 0") (auto simp: char_at_def)
qed

declare s_explode.simps [simp del]

section \<open>Lemmas\<close>

text \<open>The list at a pointer, its nodes allocated last to first from address \<open>base\<close> on, each with one reference.\<close>

primrec slist_at :: "slist_heap \<Rightarrow> nat \<Rightarrow> nat option \<Rightarrow> string list \<Rightarrow> bool" where
  "slist_at h base p [] \<longleftrightarrow> p = None"
| "slist_at h base p (x # xs) \<longleftrightarrow>
     p = Some (base + length xs) \<and>
     (\<exists>q. sh_nodes h (base + length xs) = Some \<lparr>sl_data = x, sl_refs = 1, sl_next = q\<rparr> \<and> slist_at h base q xs)"

text \<open>The parts of a string, as a function, and joining them again.\<close>

function explode :: "string \<Rightarrow> char \<Rightarrow> string list" where
  "explode str delim =
     (if str = [] then [] else takeWhile (\<lambda>c. c \<noteq> delim) str # explode (drop 1 (dropWhile (\<lambda>c. c \<noteq> delim) str)) delim)"
  by pat_completeness auto
termination
proof (relation "measure (\<lambda>(str, _). length str)", goal_cases)
  case 1
  then show ?case by simp
next
  case (2 str delim)
  have "length (dropWhile (\<lambda>c. c \<noteq> delim) str) \<le> length str" by (rule length_dropWhile_le)
  moreover have "length str > 0" using 2 by simp
  ultimately have "length (dropWhile (\<lambda>c. c \<noteq> delim) str) - 1 < length str" by linarith
  then show ?case by simp
qed

declare explode.simps [simp del]

fun join :: "char \<Rightarrow> string list \<Rightarrow> string" where
  "join d [] = []"
| "join d [x] = x"
| "join d (x # y # ys) = x @ d # join d (y # ys)"

lemma part_len_takeWhile: "take (part_len s d) s = takeWhile (\<lambda>c. c \<noteq> d) s"
  by (induction s) auto

lemma part_len_dropWhile: "drop (part_len s d) s = dropWhile (\<lambda>c. c \<noteq> d) s"
  by (induction s) auto

lemma part_len_char: "d \<noteq> CHR 0x00 \<Longrightarrow> char_at s (part_len s d) = d \<longleftrightarrow> part_len s d < length s"
  by (induction s) (auto simp: char_at_def split: if_splits)

lemma slist_at_cong:
  "(\<And>a. base \<le> a \<Longrightarrow> a < base + length xs \<Longrightarrow> sh_nodes h' a = sh_nodes h a) \<Longrightarrow> slist_at h' base p xs = slist_at h base p xs"
  by (induction xs arbitrary: p) auto

lemma s_explode_at:
  assumes "delim \<noteq> CHR 0x00"
  shows "\<exists>p h'. s_explode True str delim h = Inr (p, h') \<and> slist_at h' (sh_new h) p (explode str delim) \<and>
    sh_new h' = sh_new h + length (explode str delim) \<and>
    (\<forall>a. a < sh_new h \<or> sh_new h' \<le> a \<longrightarrow> sh_nodes h' a = sh_nodes h a)"
  using assms
proof (induction str delim rule: explode.induct)
  case (1 str delim)
  show ?case
  proof (cases "str = []")
    case True
    then show ?thesis by (simp add: s_explode.simps explode.simps)
  next
    case False
    let ?n = "part_len str delim"
    let ?k = "if char_at str ?n = delim then 1 else (0 :: nat)"
    have k: "?n + ?k \<le> length str" using part_len_le [of str delim] part_len_char [OF 1(2), of str] by auto
    have d: "drop (?n + ?k) str = drop 1 (dropWhile (\<lambda>c. c \<noteq> delim) str)"
      using part_len_char [OF 1(2), of str] part_len_le [of str delim] by (simp flip: part_len_dropWhile)
    have e: "explode str delim = take ?n str # explode (drop (?n + ?k) str) delim"
      unfolding d using False by (subst explode.simps) (simp add: part_len_takeWhile)
    from 1(1) [OF False 1(2)] obtain p h' where r: "s_explode True (drop (?n + ?k) str) delim h = Inr (p, h')"
      "slist_at h' (sh_new h) p (explode (drop (?n + ?k) str) delim)"
      "sh_new h' = sh_new h + length (explode (drop (?n + ?k) str) delim)"
      "\<forall>a. a < sh_new h \<or> sh_new h' \<le> a \<longrightarrow> sh_nodes h' a = sh_nodes h a"
      unfolding d by blast
    let ?h = "h'\<lparr>sh_nodes := (sh_nodes h')(sh_new h' \<mapsto> \<lparr>sl_data = take ?n str, sl_refs = 1, sl_next = p\<rparr>),
      sh_new := sh_new h' + 1\<rparr>"
    have "s_explode True str delim h = Inr (Some (sh_new h'), ?h)"
      using False k r(1) by (subst s_explode.simps) (simp add: Let_def s_cons_def)
    moreover have "slist_at ?h (sh_new h) p (explode (drop (?n + ?k) str) delim)"
      using r(2,3) by (subst slist_at_cong) auto
    ultimately show ?thesis using r(3,4) unfolding e by auto
  qed
qed

lemma s_free_at:
  assumes "slist_at h base p xs" and "length xs \<le> fuel"
  shows "s_free fuel p h =
    Inr (h\<lparr>sh_nodes := (\<lambda>a. if base \<le> a \<and> a < base + length xs then None else sh_nodes h a)\<rparr>)"
  using assms
proof (induction xs arbitrary: p h fuel)
  case Nil
  have "(\<lambda>a. if base \<le> a \<and> a < base then None else sh_nodes h a) = sh_nodes h" by (intro ext) auto
  with Nil show ?case by (cases fuel) auto
next
  case (Cons x xs)
  let ?a = "base + length xs"
  from Cons.prems obtain q f where q: "p = Some ?a" "sh_nodes h ?a = Some \<lparr>sl_data = x, sl_refs = 1, sl_next = q\<rparr>"
    "slist_at h base q xs" "fuel = Suc f" "length xs \<le> f" by (cases fuel) auto
  let ?h = "h\<lparr>sh_nodes := (sh_nodes h)(?a \<mapsto> \<lparr>sl_data = x, sl_refs = 0, sl_next = q\<rparr>)\<rparr>"
  have "slist_at ?h base q xs" using q(3) by (subst slist_at_cong) auto
  from Cons.IH [OF this q(5)] show ?case using q
    by (auto simp: Let_def intro!: arg_cong [where f = "\<lambda>n. h\<lparr>sh_nodes := n\<rparr>"])
qed

lemma explode_parts: "x \<in> set (explode str d) \<Longrightarrow> d \<notin> set x"
  by (induction str d rule: explode.induct) (subst (asm) (2) explode.simps, auto split: if_splits dest: set_takeWhileD)

lemma explode_join: "str = join d (explode str d) \<or> str = join d (explode str d) @ [d]"
proof (induction str d rule: explode.induct)
  case (1 str d)
  show ?case
  proof (cases "str = []")
    case True
    then show ?thesis by (simp add: explode.simps)
  next
    case False
    let ?x = "takeWhile (\<lambda>c. c \<noteq> d) str" and ?r = "dropWhile (\<lambda>c. c \<noteq> d) str"
    have s: "str = ?x @ ?r" by simp
    have e: "explode str d = ?x # explode (drop 1 ?r) d" using False by (subst explode.simps) simp
    show ?thesis
    proof (cases ?r)
      case Nil
      with s e show ?thesis by (simp add: explode.simps)
    next
      case (Cons c r)
      then have "c = d" using hd_dropWhile [of "\<lambda>c. c \<noteq> d" str] by simp
      with 1 [OF False] s e Cons show ?thesis
        by (cases "explode r d") (auto simp: explode.simps)
    qed
  qed
qed

section \<open>Property\<close>

text \<open>Splitting a path: \<open>s_explode\<close> builds the list of the parts between the delimiters. No part contains the
  delimiter, joining them gives the string back (up to one delimiter at its end), and \<open>s_free\<close> on the
  result returns exactly the nodes that were allocated.\<close>

theorem s_explode_splits:
  assumes "delim \<noteq> CHR 0x00"
  shows "\<exists>p h' parts. s_explode True str delim h = Inr (p, h') \<and> slist_at h' (sh_new h) p parts \<and>
    (\<forall>x \<in> set parts. delim \<notin> set x) \<and> (str = join delim parts \<or> str = join delim parts @ [delim]) \<and>
    ((\<forall>a \<ge> sh_new h. sh_nodes h a = None) \<longrightarrow>
      (\<exists>h''. s_free (length parts) p h' = Inr h'' \<and> sh_nodes h'' = sh_nodes h))"
proof -
  obtain p h' where r: "s_explode True str delim h = Inr (p, h')" "slist_at h' (sh_new h) p (explode str delim)"
    "sh_new h' = sh_new h + length (explode str delim)"
    "\<forall>a. a < sh_new h \<or> sh_new h' \<le> a \<longrightarrow> sh_nodes h' a = sh_nodes h a"
    using s_explode_at [OF assms, of str h] by blast
  have "sh_nodes h = (\<lambda>a. if sh_new h \<le> a \<and> a < sh_new h + length (explode str delim) then None else sh_nodes h' a)"
    if "\<forall>a \<ge> sh_new h. sh_nodes h a = None"
    using r(3,4) that by (auto intro!: ext)
  with s_free_at [OF r(2) order.refl] r(1,2) explode_parts [of _ str delim] explode_join [of str delim]
  show ?thesis by (intro exI [of _ p] exI [of _ h'] exI [of _ "explode str delim"]) auto
qed

theorem s_explode_splits_witness:
  "\<exists>p h' parts. s_explode True ''/usr/lib'' (CHR ''/'') \<lparr>sh_nodes = Map.empty, sh_new = 0\<rparr> = Inr (p, h') \<and>
     slist_at h' 0 p parts \<and> (''/usr/lib'' = join (CHR ''/'') parts \<or> ''/usr/lib'' = join (CHR ''/'') parts @ ''/'')"
  using s_explode_splits [of "CHR ''/''" "''/usr/lib''" "\<lparr>sh_nodes = Map.empty, sh_new = 0\<rparr>"] by auto

end
