(* ===== verification/ListH.thy ===== *)
theory ListH
  imports Prelude
begin

text \<open>
  The intrusive circular doubly linked list of File System/files/list.h. A list entry is an address in a
  store of \<open>prev\<close>/\<open>next\<close> pairs; touching an address that is not in the store is
  \<^const>\<open>Bad_Memory\<close>. The macro \<open>to_struct\<close> turns the address of the entry of a structure into the
  address of the structure; both are the same address here.
\<close>

section \<open>The program\<close>

record list_entry =
  le_prev :: nat
  le_next :: nat

type_synonym lstore = "nat \<rightharpoonup> list_entry"

definition le_get :: "lstore \<Rightarrow> nat \<Rightarrow> list_entry res" where
  "le_get st a = (case st a of None \<Rightarrow> Inl Bad_Memory | Some e \<Rightarrow> Inr e)"

definition set_next :: "lstore \<Rightarrow> nat \<Rightarrow> nat \<Rightarrow> lstore res" where
  "set_next st a v = bindR (le_get st a) (\<lambda>e. Inr (st(a \<mapsto> e\<lparr>le_next := v\<rparr>)))"

definition set_prev :: "lstore \<Rightarrow> nat \<Rightarrow> nat \<Rightarrow> lstore res" where
  "set_prev st a v = bindR (le_get st a) (\<lambda>e. Inr (st(a \<mapsto> e\<lparr>le_prev := v\<rparr>)))"

definition list_init :: "lstore \<Rightarrow> nat \<Rightarrow> lstore res" where
  "list_init st elm = bindR (set_next st elm elm) (\<lambda>st. set_prev st elm elm)"

text \<open>\<open>__list_add\<close> and \<open>__list_del\<close>.\<close>

definition list_add_between :: "lstore \<Rightarrow> nat \<Rightarrow> nat \<Rightarrow> nat \<Rightarrow> lstore res" where
  "list_add_between st elm prev nxt =
     bindR (set_prev st nxt elm) (\<lambda>st.
     bindR (set_next st prev elm) (\<lambda>st.
     bindR (set_next st elm nxt) (\<lambda>st.
     set_prev st elm prev)))"

definition list_del_between :: "lstore \<Rightarrow> nat \<Rightarrow> nat \<Rightarrow> lstore res" where
  "list_del_between st prev nxt = bindR (set_next st prev nxt) (\<lambda>st. set_prev st nxt prev)"

definition list_next :: "lstore \<Rightarrow> nat \<Rightarrow> nat res" where
  "list_next st a = bindR (le_get st a) (\<lambda>e. Inr (le_next e))"

definition list_prev :: "lstore \<Rightarrow> nat \<Rightarrow> nat res" where
  "list_prev st a = bindR (le_get st a) (\<lambda>e. Inr (le_prev e))"

definition list_add_before :: "lstore \<Rightarrow> nat \<Rightarrow> nat \<Rightarrow> lstore res" where
  "list_add_before st listelm elm = bindR (list_prev st listelm) (\<lambda>p. list_add_between st elm p listelm)"

definition list_add_after :: "lstore \<Rightarrow> nat \<Rightarrow> nat \<Rightarrow> lstore res" where
  "list_add_after st listelm elm = bindR (list_next st listelm) (\<lambda>n. list_add_between st elm listelm n)"

definition list_add :: "lstore \<Rightarrow> nat \<Rightarrow> nat \<Rightarrow> lstore res" where
  "list_add st listelm elm = list_add_after st listelm elm"

definition list_del :: "lstore \<Rightarrow> nat \<Rightarrow> lstore res" where
  "list_del st listelm =
     bindR (list_prev st listelm) (\<lambda>p. bindR (list_next st listelm) (\<lambda>n. list_del_between st p n))"

definition list_del_init :: "lstore \<Rightarrow> nat \<Rightarrow> lstore res" where
  "list_del_init st listelm = bindR (list_del st listelm) (\<lambda>st. list_init st listelm)"

definition list_empty :: "lstore \<Rightarrow> nat \<Rightarrow> bool res" where
  "list_empty st lst = bindR (list_next st lst) (\<lambda>n. Inr (n = lst))"

section \<open>Rings\<close>

text \<open>\<open>lpath st a xs b\<close>: from \<open>a\<close> through \<open>xs\<close> to \<open>b\<close>, linked both ways. A ring is a lpath back to its head.\<close>

definition linked :: "lstore \<Rightarrow> nat \<Rightarrow> nat \<Rightarrow> bool" where
  "linked st a b \<longleftrightarrow> (\<exists>e. st a = Some e \<and> le_next e = b) \<and> (\<exists>e. st b = Some e \<and> le_prev e = a)"

primrec lpath :: "lstore \<Rightarrow> nat \<Rightarrow> nat list \<Rightarrow> nat \<Rightarrow> bool" where
  "lpath st a [] b \<longleftrightarrow> linked st a b"
| "lpath st a (x # xs) b \<longleftrightarrow> linked st a x \<and> lpath st x xs b"

fun ring :: "lstore \<Rightarrow> nat list \<Rightarrow> bool" where
  "ring st [] = False"
| "ring st (a # xs) \<longleftrightarrow> distinct (a # xs) \<and> lpath st a xs a"

lemmas list_op_defs = list_add_between_def list_del_between_def list_next_def list_prev_def
  list_add_after_def list_add_before_def list_del_def list_init_def set_next_def set_prev_def le_get_def

text \<open>A lpath only reads the \<open>next\<close> field of its nodes but the last and the \<open>prev\<close> field of all but the first.\<close>

lemma lpath_cong:
  assumes "lpath st a xs b"
    and "\<And>c. c \<in> set (a # xs) \<Longrightarrow> map_option le_next (st' c) = map_option le_next (st c)"
    and "\<And>c. c \<in> set (xs @ [b]) \<Longrightarrow> map_option le_prev (st' c) = map_option le_prev (st c)"
  shows "lpath st' a xs b"
  using assms
proof (induction xs arbitrary: a)
  case Nil
  from Nil(2) [of a] Nil(3) [of b] Nil(1) show ?case by (auto simp: linked_def)
next
  case (Cons x xs)
  from Cons.prems(2) [of a] Cons.prems(3) [of x] Cons.prems(1) have "linked st' a x" by (auto simp: linked_def)
  with Cons show ?case by simp
qed

lemma lpath_snocD: "lpath st a (xs @ [y]) b \<longleftrightarrow> lpath st a xs y \<and> linked st y b"
  by (induction xs arbitrary: a) auto

lemma list_init_ring: "st a = Some e \<Longrightarrow> \<exists>st'. list_init st a = Inr st' \<and> ring st' [a] \<and> (\<forall>c. c \<noteq> a \<longrightarrow> st' c = st c)"
  by (auto simp: list_op_defs linked_def)

lemma list_add_after_ring:
  assumes "ring st (a # xs)" and "e \<notin> set (a # xs)" and "st e \<noteq> None"
  shows "\<exists>st'. list_add_after st a e = Inr st' \<and> ring st' (a # e # xs) \<and> (\<forall>c. c \<notin> set (a # e # xs) \<longrightarrow> st' c = st c)"
proof (cases xs)
  case Nil
  then show ?thesis using assms by (auto simp: list_op_defs linked_def)
next
  case (Cons x ys)
  from assms(1) Cons obtain ea ex ee where st: "st a = Some ea" "le_next ea = x" "st x = Some ex" "le_prev ex = a"
    "st e = Some ee" "lpath st x ys a" "a \<noteq> x" "a \<notin> set ys" "x \<notin> set ys" "distinct ys"
    using assms(3) by (auto simp: linked_def)
  let ?st = "st(x \<mapsto> ex\<lparr>le_prev := e\<rparr>, a \<mapsto> ea\<lparr>le_next := e\<rparr>, e \<mapsto> ee\<lparr>le_next := x, le_prev := a\<rparr>)"
  have ne: "e \<noteq> a" "e \<noteq> x" "e \<notin> set ys" using assms(2) Cons by auto
  have "list_add_after st a e = Inr ?st" using st ne by (simp add: list_op_defs)
  moreover have "lpath ?st x ys a" using st ne by (intro lpath_cong [OF st(6)]) auto
  then have "ring ?st (a # e # xs)" using st ne Cons by (auto simp: linked_def)
  ultimately show ?thesis using Cons by auto
qed

lemma list_del_head:
  assumes "ring st (a # x # xs)"
  shows "\<exists>st'. list_next st a = Inr x \<and> list_del st a = Inr st' \<and> ring (st'(a := None)) (x # xs) \<and>
    (\<forall>c. c \<notin> set (a # x # xs) \<longrightarrow> st' c = st c)"
proof (cases xs rule: rev_cases)
  case Nil
  then show ?thesis using assms by (auto simp: list_op_defs linked_def)
next
  case (snoc ys y)
  from assms snoc obtain ea ex ey where st: "st a = Some ea" "le_next ea = x" "le_prev ea = y"
    "st x = Some ex" "le_prev ex = a" "st y = Some ey" "le_next ey = a" "lpath st x ys y"
    "a \<noteq> x" "a \<noteq> y" "x \<noteq> y" "a \<notin> set ys" "x \<notin> set ys" "y \<notin> set ys" "distinct ys"
    by (auto simp: linked_def lpath_snocD)
  let ?st = "st(y \<mapsto> ey\<lparr>le_next := x\<rparr>, x \<mapsto> ex\<lparr>le_prev := y\<rparr>)"
  have "list_next st a = Inr x" "list_del st a = Inr ?st" using st by (simp_all add: list_op_defs)
  moreover have "lpath (?st(a := None)) x ys y" using st by (intro lpath_cong [OF st(8)]) auto
  then have "ring (?st(a := None)) (x # xs)" using st snoc by (auto simp: linked_def lpath_snocD)
  ultimately show ?thesis using snoc by auto
qed

lemma list_del_single:
  assumes "ring st [a]"
  shows "list_next st a = Inr a" and "\<exists>st'. list_del st a = Inr st' \<and> (\<forall>c. c \<noteq> a \<longrightarrow> st' c = st c)"
  using assms by (auto simp: list_op_defs linked_def)

end
