(* ===== verification/Directory.thy ===== *)
theory Directory
  imports Inode SList ListH
begin

text \<open>
  Directories (File System/files/directory.c): the block of a directory's inode as an array of sixty 68-byte
  \<open>dirent_t\<close>s, lookup, insertion, deletion and listing of its entries, and the lookup of a path. Paths
  are split by \<open>s_explode\<close>; the strings of the resulting list are used by value (lemma \<open>s_explode_at\<close>).
  The listing builds a circular list of copies of the entries, on a heap of its own. The allocations
  of both, which the code does not check, are taken to succeed.
\<close>

section \<open>The program\<close>

definition DIR_NAME_LENGTH :: int where
  "DIR_NAME_LENGTH = 48"

text \<open>\<open>sizeof(dirent_t)\<close>, the number of entries of a block, and the fields of an entry.\<close>

definition DIRENT_SIZE :: int where
  "DIRENT_SIZE = 68"

definition TOTAL_DIRENTS :: int where
  "TOTAL_DIRENTS = BLOCK_SIZE div DIRENT_SIZE"

definition d_name :: "int \<Rightarrow> int" where
  "d_name d = d"

definition d_inum :: "int \<Rightarrow> int" where
  "d_inum d = d + DIR_NAME_LENGTH"

definition d_filled :: "int \<Rightarrow> int" where
  "d_filled d = d + 64"

definition ENOENT :: int where
  "ENOENT = 2"

definition EEXIST :: int where
  "EEXIST = 17"

text \<open>\<open>blocks_get_block(dd->block)\<close>.\<close>

definition dir_contents :: "img \<Rightarrow> int option \<Rightarrow> int res" where
  "dir_contents m dd = bindR (deref dd) (\<lambda>p. bindR (rd32 m (i_block p)) blocks_get_block)"

function lookup_loop :: "img \<Rightarrow> int \<Rightarrow> string \<Rightarrow> int \<Rightarrow> int res" where
  "lookup_loop m dir name i =
     (if i < TOTAL_DIRENTS then
        bindR (str_at m (d_name (dir + DIRENT_SIZE * i)) name) (\<lambda>eq.
        if eq then rd32 m (d_inum (dir + DIRENT_SIZE * i))
        else lookup_loop m dir name (i + 1))
      else Inr (- ENOENT))"
  by pat_completeness auto
termination by (relation "measure (\<lambda>(m, dir, name, i). nat (TOTAL_DIRENTS - i))") auto

declare lookup_loop.simps [simp del]

definition directory_lookup :: "img \<Rightarrow> int option \<Rightarrow> string \<Rightarrow> int res" where
  "directory_lookup m dd name = bindR (dir_contents m dd) (\<lambda>dir. lookup_loop m dir name 0)"

text \<open>The walk of \<open>tree_lookup\<close> over the parts of the path, from inode \<open>inode_num\<close>.\<close>

fun tree_walk :: "img \<Rightarrow> int \<Rightarrow> string list \<Rightarrow> int res" where
  "tree_walk m inode_num [] = Inr inode_num"
| "tree_walk m inode_num (data # curr_file) =
     (if data \<noteq> [] then
        bindR (get_inode m inode_num) (\<lambda>node.
        bindR (directory_lookup m node data) (\<lambda>n.
        if n < 0 then Inr (-1) else tree_walk m n curr_file))
      else tree_walk m inode_num curr_file)"

definition tree_lookup :: "img \<Rightarrow> string \<Rightarrow> int res" where
  "tree_lookup m path =
     bindR (get_inode m ROOT_INODE) (\<lambda>root_inode.
     tree_walk m ROOT_INODE (explode path (CHR ''/'')))"

function put_loop :: "img \<Rightarrow> int \<Rightarrow> string \<Rightarrow> int \<Rightarrow> int \<Rightarrow> (int \<times> img) res" where
  "put_loop m dir name inum i =
     (if i < TOTAL_DIRENTS then
        bindR (rd32 m (d_filled (dir + DIRENT_SIZE * i))) (\<lambda>f.
        if f \<noteq> 1 then
          bindR (wr32 m (d_inum (dir + DIRENT_SIZE * i)) inum) (\<lambda>m.
          bindR (strcpy_img m (d_name (dir + DIRENT_SIZE * i)) name) (\<lambda>m.
          bindR (wr32 m (d_filled (dir + DIRENT_SIZE * i)) 1) (\<lambda>m.
          Inr (0, m))))
        else put_loop m dir name inum (i + 1))
      else Inr (-1, m))"
  by pat_completeness auto
termination by (relation "measure (\<lambda>(m, dir, name, inum, i). nat (TOTAL_DIRENTS - i))") auto

declare put_loop.simps [simp del]

definition directory_put :: "img \<Rightarrow> int option \<Rightarrow> string \<Rightarrow> int \<Rightarrow> (int \<times> img) res" where
  "directory_put m dd name inum = bindR (dir_contents m dd) (\<lambda>dir. put_loop m dir name inum 0)"

function delete_loop :: "img \<Rightarrow> int \<Rightarrow> string \<Rightarrow> int \<Rightarrow> (int \<times> img) res" where
  "delete_loop m dir name i =
     (if i < TOTAL_DIRENTS then
        bindR (str_at m (d_name (dir + DIRENT_SIZE * i)) name) (\<lambda>eq.
        if eq then bindR (wr32 m (d_filled (dir + DIRENT_SIZE * i)) 0) (\<lambda>m. Inr (0, m))
        else delete_loop m dir name (i + 1))
      else Inr (-1, m))"
  by pat_completeness auto
termination by (relation "measure (\<lambda>(m, dir, name, i). nat (TOTAL_DIRENTS - i))") auto

declare delete_loop.simps [simp del]

definition directory_delete :: "img \<Rightarrow> int option \<Rightarrow> string \<Rightarrow> (int \<times> img) res" where
  "directory_delete m dd name = bindR (dir_contents m dd) (\<lambda>dir. delete_loop m dir name 0)"

definition directory_init :: "int \<Rightarrow> img \<Rightarrow> img res" where
  "directory_init now m =
     (let i = ROOT_INODE in
      bindR get_inode_bitmap (\<lambda>ibm.
      bindR (bitmap_get m ibm i) (\<lambda>b.
      if b = 1 then Inr m
      else
        bindR (bitmap_put m ibm i 1) (\<lambda>m.
        bindR (get_inode m i) (\<lambda>dir.
        bindR (deref dir) (\<lambda>p.
        bindR (memzero m p INODE_SIZE) (\<lambda>m.
        bindR (wr32 m (i_mode p) 16877) (\<lambda>m.
        bindR (wr32 m (i_refs p) 1) (\<lambda>m.
        bindR (wr32 m (i_size p) 0) (\<lambda>m.
        bindR (alloc_block m) (\<lambda>(b, m).
        bindR (wr32 m (i_block p) b) (\<lambda>m.
        bindR (wr32 m (i_next_inode p) (-1)) (\<lambda>m.
        bindR (wr64 m (i_atime p) now) (\<lambda>m.
        bindR (wr64 m (i_mtime p) now) (\<lambda>m.
        bindR (directory_put m dir ''.'' i) (\<lambda>(_, m).
        bindR (directory_put m dir ''..'' i) (\<lambda>(_, m).
        Inr m)))))))))))))))))"

text \<open>The listing: copies of the filled entries on a heap, linked in a ring.\<close>

record dheap =
  dh_links :: lstore
  dh_entries :: "nat \<rightharpoonup> u8 list"
  dh_new :: nat

function list_loop :: "img \<Rightarrow> int \<Rightarrow> int \<Rightarrow> nat option \<Rightarrow> dheap \<Rightarrow> (nat option \<times> dheap) res" where
  "list_loop m dir i dirents h =
     (if i < TOTAL_DIRENTS then
        bindR (rd32 m (d_filled (dir + DIRENT_SIZE * i))) (\<lambda>f.
        if f = 1 then
          (let tmp = dh_new h in
           bindR (copy_out m (dir + DIRENT_SIZE * i) DIRENT_SIZE) (\<lambda>entry.
           let h = h\<lparr>dh_links := (dh_links h)(tmp \<mapsto> \<lparr>le_prev = 0, le_next = 0\<rparr>),
                     dh_entries := (dh_entries h)(tmp \<mapsto> entry), dh_new := tmp + 1\<rparr> in
           case dirents of
             None \<Rightarrow>
               bindR (list_init (dh_links h) tmp) (\<lambda>st.
               list_loop m dir (i + 1) (Some tmp) (h\<lparr>dh_links := st\<rparr>))
           | Some d \<Rightarrow>
               bindR (list_add_after (dh_links h) d tmp) (\<lambda>st.
               list_loop m dir (i + 1) (Some d) (h\<lparr>dh_links := st\<rparr>))))
        else list_loop m dir (i + 1) dirents h)
      else Inr (dirents, h))"
  by pat_completeness auto
termination by (relation "measure (\<lambda>(m, dir, i, d, h). nat (TOTAL_DIRENTS - i))") auto

declare list_loop.simps [simp del]

definition directory_list :: "img \<Rightarrow> string option \<Rightarrow> int \<Rightarrow> dheap \<Rightarrow> (nat option \<times> dheap) res" where
  "directory_list m path inum h =
     bindR (case path of None \<Rightarrow> Inr inum | Some p \<Rightarrow> tree_lookup m p) (\<lambda>inum.
     bindR (get_inode m inum) (\<lambda>dd.
     bindR (dir_contents m dd) (\<lambda>dir.
     list_loop m dir 0 None h)))"

text \<open>The lines \<open>print_directory\<close> prints: the bytes of a name up to its terminating zero.\<close>

definition c_str :: "u8 list \<Rightarrow> u8 list" where
  "c_str bs = takeWhile (\<lambda>b. b \<noteq> 0) bs"

function print_loop :: "img \<Rightarrow> int \<Rightarrow> int \<Rightarrow> u8 list list res" where
  "print_loop m dir i =
     (if i < TOTAL_DIRENTS then
        bindR (rd32 m (d_filled (dir + DIRENT_SIZE * i))) (\<lambda>f.
        bindR (print_loop m dir (i + 1)) (\<lambda>out.
        if f = 1 then
          Inr (c_str (get_bytes m (d_name (dir + DIRENT_SIZE * i)) (nat (NUFS_SIZE - (dir + DIRENT_SIZE * i)))) # out)
        else Inr out))
      else Inr [])"
  by pat_completeness auto
termination by (relation "measure (\<lambda>(m, dir, i). nat (TOTAL_DIRENTS - i))") auto

declare print_loop.simps [simp del]

definition print_directory :: "img \<Rightarrow> int option \<Rightarrow> u8 list list res" where
  "print_directory m dd = bindR (dir_contents m dd) (\<lambda>dir. print_loop m dir 0)"

section \<open>The entries of a directory block\<close>

definition slot :: "int \<Rightarrow> nat \<Rightarrow> int" where
  "slot b i = 4096 * b + 68 * int i"

definition names :: "img \<Rightarrow> int \<Rightarrow> string \<Rightarrow> nat \<Rightarrow> bool" where
  "names m b s i = holds_str m (slot b i) s"

definition ent_inum :: "img \<Rightarrow> int \<Rightarrow> nat \<Rightarrow> int" where
  "ent_inum m b i = get32 m (slot b i + 48)"

definition ent_filled :: "img \<Rightarrow> int \<Rightarrow> nat \<Rightarrow> bool" where
  "ent_filled m b i \<longleftrightarrow> get32 m (slot b i + 64) = 1"

definition valid_name :: "string \<Rightarrow> bool" where
  "valid_name s \<longleftrightarrow> length s < 48 \<and> CHR 0x00 \<notin> set s"

text \<open>The first slot from \<open>i\<close> on with a property.\<close>

definition first_slot :: "(nat \<Rightarrow> bool) \<Rightarrow> nat \<Rightarrow> nat option" where
  "first_slot P i = find P [i..<60]"

lemma first_slot_step: "i < 60 \<Longrightarrow> first_slot P i = (if P i then Some i else first_slot P (Suc i))"
  by (simp add: first_slot_def upt_conv_Cons)

lemma first_slot_end: "60 \<le> i \<Longrightarrow> first_slot P i = None"
  by (simp add: first_slot_def)

lemma first_slot_Some:
  "first_slot P i = Some j \<longleftrightarrow> i \<le> j \<and> j < 60 \<and> P j \<and> (\<forall>k. i \<le> k \<longrightarrow> k < j \<longrightarrow> \<not> P k)"
proof
  assume "first_slot P i = Some j"
  then obtain n where n: "n < length [i..<60]" "P ([i..<60] ! n)" "j = [i..<60] ! n" "\<forall>k < n. \<not> P ([i..<60] ! k)"
    unfolding first_slot_def find_Some_iff by blast
  have "\<not> P k" if "i \<le> k" "k < j" for k using n that by (auto dest!: spec [of _ "k - i"])
  with n show "i \<le> j \<and> j < 60 \<and> P j \<and> (\<forall>k. i \<le> k \<longrightarrow> k < j \<longrightarrow> \<not> P k)" by auto
next
  assume j: "i \<le> j \<and> j < 60 \<and> P j \<and> (\<forall>k. i \<le> k \<longrightarrow> k < j \<longrightarrow> \<not> P k)"
  then show "first_slot P i = Some j"
    unfolding first_slot_def find_Some_iff by (auto intro!: exI [of _ "j - i"])
qed

lemma first_slot_None: "first_slot P i = None \<longleftrightarrow> (\<forall>k. i \<le> k \<longrightarrow> k < 60 \<longrightarrow> \<not> P k)"
  by (auto simp: first_slot_def find_None_iff)

lemma TOTAL_DIRENTS_eq [simp]: "TOTAL_DIRENTS = 60"
  by (simp add: TOTAL_DIRENTS_def BLOCK_SIZE_def DIRENT_SIZE_def)

lemma slot_bounds: "0 \<le> b \<Longrightarrow> b < 256 \<Longrightarrow> i < 60 \<Longrightarrow> 0 \<le> slot b i \<and> slot b i + 68 \<le> NUFS_SIZE"
  by (auto simp: slot_def NUFS_SIZE_def)

lemma slot_disjoint: "i \<noteq> j \<Longrightarrow> slot b i + 68 \<le> slot b j \<or> slot b j + 68 \<le> slot b i"
  by (auto simp: slot_def)

text \<open>The accesses of the loops at slot \<open>i\<close>.\<close>

lemma slot_access:
  assumes "0 \<le> b" and "b < 256" and "i < 60"
  shows "valid_name s \<Longrightarrow> str_at m (d_name (4096 * b + DIRENT_SIZE * int i)) s = Inr (names m b s i)"
    and "rd32 m (d_inum (4096 * b + DIRENT_SIZE * int i)) = Inr (ent_inum m b i)"
    and "rd32 m (d_filled (4096 * b + DIRENT_SIZE * int i)) = Inr (get32 m (slot b i + 64))"
    and "wr32 m (d_inum (4096 * b + DIRENT_SIZE * int i)) v = Inr (set32 m (slot b i + 48) v)"
    and "wr32 m (d_filled (4096 * b + DIRENT_SIZE * int i)) v = Inr (set32 m (slot b i + 64) v)"
    and "valid_name s \<Longrightarrow> strcpy_img m (d_name (4096 * b + DIRENT_SIZE * int i)) s = Inr (set_bytes m (slot b i) (str_bytes s))"
    and "copy_out m (4096 * b + DIRENT_SIZE * int i) DIRENT_SIZE = Inr (get_bytes m (slot b i) 68)"
proof -
  have s: "4096 * b + DIRENT_SIZE * int i = slot b i" by (simp add: slot_def DIRENT_SIZE_def)
  note sb = slot_bounds [OF assms]
  show "str_at m (d_name (4096 * b + DIRENT_SIZE * int i)) s = Inr (names m b s i)" if "valid_name s"
    using that sb unfolding s d_name_def names_def
    by (intro str_at_correct) (simp add: mapped_def valid_name_def)
  show "strcpy_img m (d_name (4096 * b + DIRENT_SIZE * int i)) s = Inr (set_bytes m (slot b i) (str_bytes s))"
    if "valid_name s"
    using that sb unfolding s d_name_def by (simp add: strcpy_img_def copy_in_def mapped_def valid_name_def)
qed (use slot_bounds [OF assms] in \<open>simp_all add: slot_def [symmetric] d_inum_def d_filled_def DIR_NAME_LENGTH_def
  rd32_def wr32_def copy_out_def mapped_def ent_inum_def DIRENT_SIZE_def\<close>)

lemma lookup_loop_correct:
  assumes "0 \<le> b" and "b < 256" and "valid_name s"
  shows "lookup_loop m (4096 * b) s (int i) =
    Inr (case first_slot (names m b s) i of None \<Rightarrow> -2 | Some j \<Rightarrow> ent_inum m b j)"
proof (induction "60 - i" arbitrary: i)
  case 0
  then show ?case by (subst lookup_loop.simps) (simp add: first_slot_end ENOENT_def)
next
  case (Suc n)
  then have "n = 60 - Suc i" "i < 60" by auto
  with Suc.hyps(1) [of "Suc i"] assms show ?case
    by (subst lookup_loop.simps) (simp add: slot_access first_slot_step add.commute [of 1])
qed

definition put_ent :: "img \<Rightarrow> int \<Rightarrow> nat \<Rightarrow> string \<Rightarrow> int \<Rightarrow> img" where
  "put_ent m b i s n = set32 (set_bytes (set32 m (slot b i + 48) n) (slot b i) (str_bytes s)) (slot b i + 64) 1"

lemma put_loop_correct:
  assumes "0 \<le> b" and "b < 256" and "valid_name s"
  shows "put_loop m (4096 * b) s n (int i) =
    Inr (case first_slot (\<lambda>j. \<not> ent_filled m b j) i of None \<Rightarrow> (-1, m) | Some j \<Rightarrow> (0, put_ent m b j s n))"
proof (induction "60 - i" arbitrary: i)
  case 0
  then show ?case by (subst put_loop.simps) (simp add: first_slot_end)
next
  case (Suc k)
  then have "k = 60 - Suc i" "i < 60" by auto
  with Suc.hyps(1) [of "Suc i"] assms show ?case
    by (subst put_loop.simps)
      (simp add: slot_access first_slot_step add.commute [of 1] put_ent_def ent_filled_def)
qed

lemma delete_loop_correct:
  assumes "0 \<le> b" and "b < 256" and "valid_name s"
  shows "delete_loop m (4096 * b) s (int i) =
    Inr (case first_slot (names m b s) i of None \<Rightarrow> (-1, m) | Some j \<Rightarrow> (0, set32 m (slot b j + 64) 0))"
proof (induction "60 - i" arbitrary: i)
  case 0
  then show ?case by (subst delete_loop.simps) (simp add: first_slot_end)
next
  case (Suc n)
  then have "n = 60 - Suc i" "i < 60" by auto
  with Suc.hyps(1) [of "Suc i"] assms show ?case
    by (subst delete_loop.simps) (simp add: slot_access first_slot_step add.commute [of 1])
qed

text \<open>Writing an entry changes that slot only, and reads back.\<close>

lemma put_ent_other: "a < slot b i \<or> slot b i + 68 \<le> a \<Longrightarrow> valid_name s \<Longrightarrow> put_ent m b i s n a = m a"
  unfolding put_ent_def by (elim disjE) (simp_all add: image_other valid_name_def)

lemma put_ent_fields:
  assumes "valid_name s" and "int32 n"
  shows "ent_inum (put_ent m b i s n) b i = n" and "ent_filled (put_ent m b i s n) b i"
    and "valid_name t \<Longrightarrow> names (put_ent m b i s n) b t i = (t = s)"
proof -
  have len: "length (str_bytes s) \<le> 48" using assms(1) by (simp add: valid_name_def)
  show "ent_inum (put_ent m b i s n) b i = n"
    using len assms(2) by (simp add: ent_inum_def put_ent_def get32_set32_other get32_set_bytes_other get32_set32_same)
  show "ent_filled (put_ent m b i s n) b i"
    by (simp add: ent_filled_def put_ent_def get32_set32_same int32_def)
  have "holds_str (put_ent m b i s n) (slot b i) t = holds_str (set_bytes (set32 m (slot b i + 48) n) (slot b i) (str_bytes s)) (slot b i) t"
    if "valid_name t" for t
    unfolding put_ent_def using that by (intro holds_str_cong set32_other) (auto simp: valid_name_def)
  then show "names (put_ent m b i s n) b t i = (t = s)" if "valid_name t"
    using that assms(1) holds_str_strcpy [of "set32 m (slot b i + 48) n" "slot b i" s]
    by (auto simp: names_def valid_name_def dest: holds_str_unique)
qed

lemma ent_cong:
  assumes "\<And>a. slot b i \<le> a \<Longrightarrow> a < slot b i + 68 \<Longrightarrow> m' a = m a"
  shows "ent_inum m' b i = ent_inum m b i" and "ent_filled m' b i = ent_filled m b i"
    and "valid_name s \<Longrightarrow> names m' b s i = names m b s i"
proof -
  show "ent_inum m' b i = ent_inum m b i" unfolding ent_inum_def by (intro get32_cong assms) auto
  have "get32 m' (slot b i + 64) = get32 m (slot b i + 64)" by (intro get32_cong assms) auto
  then show "ent_filled m' b i = ent_filled m b i" by (simp add: ent_filled_def)
  show "names m' b s i = names m b s i" if "valid_name s"
    unfolding names_def using that by (intro holds_str_cong assms) (auto simp: valid_name_def)
qed

lemma put_ent_others:
  assumes "valid_name s" and "j \<noteq> i"
  shows "ent_inum (put_ent m b i s n) b j = ent_inum m b j" and "ent_filled (put_ent m b i s n) b j = ent_filled m b j"
    and "valid_name t \<Longrightarrow> names (put_ent m b i s n) b t j = names m b t j"
  using slot_disjoint [OF assms(2), of b] assms(1) by (intro ent_cong put_ent_other; auto)+

lemma clear_filled:
  shows "ent_inum (set32 m (slot b i + 64) v) b j = ent_inum m b j"
    and "valid_name t \<Longrightarrow> names (set32 m (slot b i + 64) v) b t j = names m b t j"
    and "j \<noteq> i \<Longrightarrow> ent_filled (set32 m (slot b i + 64) v) b j = ent_filled m b j"
    and "int32 v \<Longrightarrow> ent_filled (set32 m (slot b i + 64) v) b i = (v = 1)"
proof -
  have "ent_inum (set32 m (slot b i + 64) v) b j = ent_inum m b j \<and>
      (valid_name t \<longrightarrow> names (set32 m (slot b i + 64) v) b t j = names m b t j)"
  proof (cases "j = i")
    case True
    have "holds_str (set32 m (slot b i + 64) v) (slot b i) t = holds_str m (slot b i) t" if "valid_name t"
      using that by (intro holds_str_cong set32_other) (auto simp: valid_name_def)
    with True show ?thesis by (simp add: ent_inum_def names_def get32_set32_other)
  next
    case False
    then show ?thesis using slot_disjoint [OF False, of b]
      by (intro conjI impI ent_cong set32_other) auto
  qed
  then show "ent_inum (set32 m (slot b i + 64) v) b j = ent_inum m b j"
    "valid_name t \<Longrightarrow> names (set32 m (slot b i + 64) v) b t j = names m b t j" by auto
  show "ent_filled (set32 m (slot b i + 64) v) b j = ent_filled m b j" if "j \<noteq> i"
    using slot_disjoint [OF that, of b] by (intro ent_cong set32_other) auto
  show "ent_filled (set32 m (slot b i + 64) v) b i = (v = 1)" if "int32 v"
    using that by (simp add: ent_filled_def get32_set32_same)
qed

section \<open>Operations on a directory\<close>

text \<open>\<open>dir_at m dd b\<close>: \<open>dd\<close> points to an inode of the table whose block is the data block \<open>b\<close>.\<close>

definition dir_at :: "img \<Rightarrow> int option \<Rightarrow> int \<Rightarrow> bool" where
  "dir_at m dd b \<longleftrightarrow> (\<exists>i. inum_ok i \<and> dd = Some (node_at i) \<and> n_block m i = b \<and> 5 \<le> b \<and> b < 256)"

lemma dir_atD:
  assumes "dir_at m dd b"
  shows "dir_contents m dd = Inr (4096 * b)" and "0 \<le> b" and "b < 256" and "5 \<le> b"
  using assms by (auto simp: dir_at_def dir_contents_def)

lemma dir_at_cong:
  assumes "dir_at m dd b" and "\<And>a. 8192 \<le> a \<Longrightarrow> a < 20480 \<Longrightarrow> m' a = m a"
  shows "dir_at m' dd b"
proof -
  from assms(1) obtain i where i: "inum_ok i" "dd = Some (node_at i)" "n_block m i = b" "5 \<le> b" "b < 256"
    by (auto simp: dir_at_def)
  have "n_block m' i = n_block m i"
    unfolding n_block_def using node_bounds [OF i(1)] by (intro get32_cong assms(2)) auto
  with i show ?thesis by (auto simp: dir_at_def)
qed

lemma dir_at_put_ent: "dir_at m dd b \<Longrightarrow> valid_name s \<Longrightarrow> dir_at (put_ent m b i s n) dd b"
  by (rule dir_at_cong [of m]) (auto intro!: put_ent_other simp: slot_def dest: dir_atD(4))

lemma dir_at_clear: "dir_at m dd b \<Longrightarrow> dir_at (set32 m (slot b i + 64) v) dd b"
  by (rule dir_at_cong [of m]) (auto intro!: set32_other simp: slot_def dest: dir_atD(4))

lemma directory_lookup_eq:
  assumes "dir_at m dd b" and "valid_name s"
  shows "directory_lookup m dd s = Inr (case first_slot (names m b s) 0 of None \<Rightarrow> -2 | Some j \<Rightarrow> ent_inum m b j)"
  using lookup_loop_correct [OF dir_atD(2,3) [OF assms(1)] assms(2), of m 0] dir_atD(1) [OF assms(1)]
  by (simp add: directory_lookup_def)

lemma directory_put_eq:
  assumes "dir_at m dd b" and "valid_name s"
  shows "directory_put m dd s n =
    Inr (case first_slot (\<lambda>j. \<not> ent_filled m b j) 0 of None \<Rightarrow> (-1, m) | Some j \<Rightarrow> (0, put_ent m b j s n))"
  using put_loop_correct [OF dir_atD(2,3) [OF assms(1)] assms(2), of m n 0] dir_atD(1) [OF assms(1)]
  by (simp add: directory_put_def)

lemma directory_delete_eq:
  assumes "dir_at m dd b" and "valid_name s"
  shows "directory_delete m dd s =
    Inr (case first_slot (names m b s) 0 of None \<Rightarrow> (-1, m) | Some j \<Rightarrow> (0, set32 m (slot b j + 64) 0))"
  using delete_loop_correct [OF dir_atD(2,3) [OF assms(1)] assms(2), of m 0] dir_atD(1) [OF assms(1)]
  by (simp add: directory_delete_def)

text \<open>Lookup after insertion: the new name, and the names whose first entry is in use.\<close>

lemma lookup_put:
  assumes d: "dir_at m dd b" and s: "valid_name s" "int32 n" and j: "first_slot (\<lambda>j. \<not> ent_filled m b j) 0 = Some j"
    and new: "\<And>i. i < 60 \<Longrightarrow> ent_filled m b i \<Longrightarrow> \<not> names m b s i"
  shows "directory_lookup (put_ent m b j s n) dd s = Inr n"
proof -
  have "first_slot (names (put_ent m b j s n) b s) 0 = Some j"
    unfolding first_slot_Some
    using j s new put_ent_fields(3) [OF s s(1)] put_ent_others(3) [OF s(1) _ s(1)]
    by (auto simp: first_slot_Some)
  then show ?thesis
    using directory_lookup_eq [OF dir_at_put_ent [OF d s(1)] s(1)] put_ent_fields(1) [OF s] by simp
qed

lemma lookup_put_other:
  assumes d: "dir_at m dd b" and s: "valid_name s" "int32 n" and j: "\<not> ent_filled m b j"
    and t: "valid_name t" "t \<noteq> s" and k: "first_slot (names m b t) 0 = Some k" "ent_filled m b k"
  shows "directory_lookup (put_ent m b j s n) dd t = directory_lookup m dd t"
proof -
  have "k \<noteq> j" using j k(2) by auto
  have "names (put_ent m b j s n) b t i \<longleftrightarrow> i \<noteq> j \<and> names m b t i" for i
    using put_ent_fields(3) [OF s t(1)] put_ent_others(3) [OF s(1) _ t(1)] t(2) by (cases "i = j") auto
  then have "first_slot (names (put_ent m b j s n) b t) 0 = Some k"
    using k(1) \<open>k \<noteq> j\<close> by (auto simp: first_slot_Some)
  then show ?thesis
    using directory_lookup_eq [OF dir_at_put_ent [OF d s(1)] t(1)] directory_lookup_eq [OF d t(1)] k(1)
      put_ent_others(1) [OF s(1) \<open>k \<noteq> j\<close>] by simp
qed

section \<open>Paths\<close>

lemma explode_nonempty:
  "p \<noteq> [] \<Longrightarrow> explode p d = takeWhile (\<lambda>c. c \<noteq> d) p # explode (drop 1 (dropWhile (\<lambda>c. c \<noteq> d) p)) d"
  by (subst explode.simps) simp

lemma explode_empty [simp]: "explode [] d = []"
  by (simp add: explode.simps)

lemma explode_single: "s \<noteq> [] \<Longrightarrow> d \<notin> set s \<Longrightarrow> explode s d = [s]"
proof -
  assume "s \<noteq> []" "d \<notin> set s"
  then have t: "takeWhile (\<lambda>c. c \<noteq> d) s = s" and d: "dropWhile (\<lambda>c. c \<noteq> d) s = []"
    by (auto simp: takeWhile_eq_all_conv dropWhile_eq_Nil_conv)
  show ?thesis unfolding explode.simps [of s d] t d using \<open>s \<noteq> []\<close> by (simp add: explode.simps)
qed

lemma explode_app:
  "filter (\<lambda>x. x \<noteq> []) (explode (p @ d # s) d) =
   filter (\<lambda>x. x \<noteq> []) (explode p d) @ filter (\<lambda>x. x \<noteq> []) (explode s d)"
proof (induction p d rule: explode.induct)
  case (1 p d)
  show ?case
  proof (cases "p = []")
    case True
    then show ?thesis using explode_nonempty [of "d # s" d] by simp
  next
    case False
    let ?r = "dropWhile (\<lambda>c. c \<noteq> d) p"
    have e: "explode (p @ d # s) d = takeWhile (\<lambda>c. c \<noteq> d) (p @ d # s) # explode (drop 1 (dropWhile (\<lambda>c. c \<noteq> d) (p @ d # s))) d"
      by (rule explode_nonempty) simp
    show ?thesis
    proof (cases "d \<in> set p")
      case True
      have t: "takeWhile (\<lambda>c. c \<noteq> d) (p @ d # s) = takeWhile (\<lambda>c. c \<noteq> d) p"
        and r: "dropWhile (\<lambda>c. c \<noteq> d) (p @ d # s) = ?r @ d # s" and "?r \<noteq> []"
        using True by (auto simp: takeWhile_append1 dropWhile_append1 dropWhile_eq_Nil_conv)
      then have "drop 1 (?r @ d # s) = drop 1 ?r @ d # s" by (cases ?r) auto
      with 1 [OF False] explode_nonempty [OF False, of d] show ?thesis unfolding e t r by simp
    next
      case no: False
      have t: "takeWhile (\<lambda>c. c \<noteq> d) (p @ d # s) = p" using no by (subst takeWhile_append2) auto
      have r: "dropWhile (\<lambda>c. c \<noteq> d) (p @ d # s) = d # s" using no by (subst dropWhile_append2) auto
      show ?thesis unfolding e t r explode_single [OF False no] by simp
    qed
  qed
qed

lemma tree_walk_filter: "tree_walk m i xs = tree_walk m i (filter (\<lambda>x. x \<noteq> []) xs)"
  by (induction xs arbitrary: i) (auto intro!: bindR_cong)

lemma tree_walk_app:
  "0 \<le> i \<Longrightarrow> tree_walk m i (xs @ ys) = bindR (tree_walk m i xs) (\<lambda>j. if j < 0 then Inr (-1) else tree_walk m j ys)"
  by (induction xs arbitrary: i) (auto simp: bindR_assoc intro!: bindR_cong)

lemma tree_lookup_walk:
  "tree_lookup m (p @ CHR ''/'' # s) =
   bindR (tree_lookup m p) (\<lambda>j. if j < 0 then Inr (-1) else tree_walk m j (explode s (CHR ''/'')))"
proof -
  let ?f = "filter (\<lambda>x. x \<noteq> [])" and ?d = "CHR ''/''"
  have "tree_walk m 1 (explode (p @ ?d # s) ?d) = tree_walk m 1 (?f (explode p ?d) @ ?f (explode s ?d))"
    by (subst tree_walk_filter) (simp only: explode_app)
  also have "\<dots> = bindR (tree_walk m 1 (explode p ?d)) (\<lambda>j. if j < 0 then Inr (-1) else tree_walk m j (explode s ?d))"
    by (simp only: tree_walk_app zero_le_one tree_walk_filter [symmetric])
  finally show ?thesis by (simp add: tree_lookup_def bindR_assoc ROOT_INODE_def)
qed

section \<open>Listing a directory\<close>

text \<open>The entries listed from slot \<open>i\<close> on, and the list a listing builds: the first entry found, then the others
  from the last to the second.\<close>

definition filled_from :: "img \<Rightarrow> int \<Rightarrow> nat \<Rightarrow> u8 list list" where
  "filled_from m b i = map (\<lambda>j. get_bytes m (slot b j) 68) (filter (ent_filled m b) [i..<60])"

lemma filled_from_step:
  "i < 60 \<Longrightarrow> filled_from m b i = (if ent_filled m b i then [get_bytes m (slot b i) 68] else []) @ filled_from m b (Suc i)"
  by (simp add: filled_from_def upt_conv_Cons)

lemma filled_from_end: "60 \<le> i \<Longrightarrow> filled_from m b i = []"
  by (simp add: filled_from_def)

fun ring_order :: "'a list \<Rightarrow> 'a list" where
  "ring_order [] = []"
| "ring_order (x # xs) = x # rev xs"

text \<open>A list on the heap: a ring of nodes and the entries they carry.\<close>

definition dlist :: "dheap \<Rightarrow> nat list \<Rightarrow> u8 list list \<Rightarrow> bool" where
  "dlist h ns es \<longleftrightarrow> ring (dh_links h) ns \<and> map (dh_entries h) ns = map Some es \<and> (\<forall>n \<in> set ns. n < dh_new h)"

lemma dlist_add:
  assumes "dlist h (d # ns) (e0 # es)" and "tmp = dh_new h"
    and "h' = h\<lparr>dh_links := (dh_links h)(tmp \<mapsto> le), dh_entries := (dh_entries h)(tmp \<mapsto> e), dh_new := tmp + 1\<rparr>"
  shows "\<exists>st. list_add_after (dh_links h') d tmp = Inr st \<and> dlist (h'\<lparr>dh_links := st\<rparr>) (d # tmp # ns) (e0 # e # es)"
proof -
  have new: "tmp \<notin> set (d # ns)" using assms(1,2) by (auto simp: dlist_def)
  have eqs: "dh_links h' = (dh_links h)(tmp \<mapsto> le)" "dh_entries h' = (dh_entries h)(tmp \<mapsto> e)" "dh_new h' = tmp + 1"
    using assms(3) by simp_all
  have p: "lpath (dh_links h) d ns d" using assms(1) by (simp add: dlist_def)
  have "lpath (dh_links h') d ns d" by (rule lpath_cong [OF p]) (use new eqs(1) in auto)
  then have "ring (dh_links h') (d # ns)" using assms(1) by (simp add: dlist_def)
  moreover have "dh_links h' tmp \<noteq> None" using eqs(1) by simp
  ultimately obtain st where "list_add_after (dh_links h') d tmp = Inr st" "ring st (d # tmp # ns)"
    using list_add_after_ring [of "dh_links h'" d ns tmp] new by blast
  moreover have "map (dh_entries h') (d # tmp # ns) = map Some (e0 # e # es)"
    using assms(1) eqs(2) new by (auto simp: dlist_def)
  moreover have "\<forall>n \<in> set (d # tmp # ns). n < dh_new h'" using assms(1,2) eqs(3) by (auto simp: dlist_def)
  ultimately show ?thesis by (auto simp: dlist_def)
qed

lemma list_loop_some:
  assumes "0 \<le> b" and "b < 256" and "dlist h (d # ns) (e0 # es)"
  shows "\<exists>h' ns'. list_loop m (4096 * b) (int i) (Some d) h = Inr (Some d, h') \<and>
    dlist h' (d # ns') (e0 # rev (filled_from m b i) @ es)"
  using assms(3)
proof (induction "60 - i" arbitrary: i h ns es)
  case 0
  then show ?case by (subst list_loop.simps) (auto simp: filled_from_end)
next
  case (Suc k)
  then have i: "k = 60 - Suc i" "i < 60" by auto
  note acc = slot_access [OF assms(1,2) i(2)]
  show ?case
  proof (cases "ent_filled m b i")
    case True
    let ?e = "get_bytes m (slot b i) 68" and ?tmp = "dh_new h"
    let ?h = "h\<lparr>dh_links := (dh_links h)(?tmp \<mapsto> \<lparr>le_prev = 0, le_next = 0\<rparr>),
      dh_entries := (dh_entries h)(?tmp \<mapsto> ?e), dh_new := ?tmp + 1\<rparr>"
    obtain st where st: "list_add_after (dh_links ?h) d ?tmp = Inr st"
      "dlist (?h\<lparr>dh_links := st\<rparr>) (d # ?tmp # ns) (e0 # ?e # es)"
      using dlist_add [OF Suc.prems refl refl] by blast
    have "list_loop m (4096 * b) (int i) (Some d) h = list_loop m (4096 * b) (int (Suc i)) (Some d) (?h\<lparr>dh_links := st\<rparr>)"
      using True i(2) st(1) by (subst list_loop.simps) (simp add: acc ent_filled_def Let_def add.commute [of 1])
    with Suc.hyps(1) [OF i(1) st(2)] True i(2) show ?thesis by (simp add: filled_from_step)
  next
    case False
    have "list_loop m (4096 * b) (int i) (Some d) h = list_loop m (4096 * b) (int (Suc i)) (Some d) h"
      using False i(2) by (subst list_loop.simps) (simp add: acc ent_filled_def add.commute [of 1])
    with Suc.hyps(1) [OF i(1) Suc.prems] False i(2) show ?thesis by (simp add: filled_from_step)
  qed
qed

lemma list_loop_none:
  assumes "0 \<le> b" and "b < 256"
  shows "\<exists>p h' ns. list_loop m (4096 * b) (int i) None h = Inr (p, h') \<and>
    (if filled_from m b i = [] then p = None
     else p = Some (hd ns) \<and> dlist h' ns (ring_order (filled_from m b i)))"
proof (induction "60 - i" arbitrary: i)
  case 0
  then show ?case by (subst list_loop.simps) (auto simp: filled_from_end)
next
  case (Suc k)
  then have i: "k = 60 - Suc i" "i < 60" by auto
  note acc = slot_access [OF assms i(2)]
  show ?case
  proof (cases "ent_filled m b i")
    case True
    let ?e = "get_bytes m (slot b i) 68" and ?tmp = "dh_new h"
    let ?h = "h\<lparr>dh_links := (dh_links h)(?tmp \<mapsto> \<lparr>le_prev = 0, le_next = 0\<rparr>),
      dh_entries := (dh_entries h)(?tmp \<mapsto> ?e), dh_new := ?tmp + 1\<rparr>"
    obtain st where st: "list_init (dh_links ?h) ?tmp = Inr st" "ring st [?tmp]"
      using list_init_ring [of "dh_links ?h" ?tmp] by auto
    then have d: "dlist (?h\<lparr>dh_links := st\<rparr>) [?tmp] [?e]" by (simp add: dlist_def)
    have "list_loop m (4096 * b) (int i) None h = list_loop m (4096 * b) (int (Suc i)) (Some ?tmp) (?h\<lparr>dh_links := st\<rparr>)"
      using True i(2) st(1) by (subst list_loop.simps) (simp add: acc ent_filled_def Let_def add.commute [of 1])
    with list_loop_some [OF assms d, of m "Suc i"] True i(2) show ?thesis
      by (auto simp: filled_from_step intro!: exI [of _ "?tmp # _"])
  next
    case False
    have "list_loop m (4096 * b) (int i) None h = list_loop m (4096 * b) (int (Suc i)) None h"
      using False i(2) by (subst list_loop.simps) (simp add: acc ent_filled_def add.commute [of 1])
    moreover have "filled_from m b i = filled_from m b (Suc i)" using False i(2) by (simp add: filled_from_step)
    ultimately show ?thesis using Suc.hyps(1) [OF i(1)] by (simp only:)
  qed
qed

lemma one_file_data: "20480 \<le> a \<Longrightarrow> one_file a = 0"
  using node_bounds [of 2] by (simp add: one_file_def one_file_bits_def image_other put_bit_other inum_ok_def)

lemma one_file_dir:
  "dir_at one_file (Some (node_at 2)) 5" "\<not> ent_filled one_file 5 i" "c \<noteq> CHR 0x00 \<Longrightarrow> \<not> names one_file 5 (c # s) i"
proof -
  show "dir_at one_file (Some (node_at 2)) 5"
    by (auto simp: dir_at_def one_file_fields inum_ok_def intro!: exI [of _ 2])
  show "\<not> ent_filled one_file 5 i" by (simp add: ent_filled_def get32_def one_file_data slot_def)
  show "\<not> names one_file 5 (c # s) i" if "c \<noteq> CHR 0x00"
    using that of_char_u8_eq_0 [of c] by (auto simp: names_def holds_str_Cons one_file_data slot_def)
qed

section \<open>Properties\<close>

text \<open>Adding an entry to a directory that has a free slot makes its name resolve to the given inode (when no
  live entry already has that name), and keeps the resolution of every other name whose first entry
  is live; with no free slot the call returns -1 and changes nothing.\<close>

theorem directory_put_lookup:
  assumes "dir_at m dd b" and "valid_name s" and "int32 n" and "\<forall>i < 60. ent_filled m b i \<longrightarrow> \<not> names m b s i"
  shows "if \<forall>i < 60. ent_filled m b i then directory_put m dd s n = Inr (-1, m)
    else \<exists>m'. directory_put m dd s n = Inr (0, m') \<and> directory_lookup m' dd s = Inr n \<and>
      (\<forall>t k. valid_name t \<longrightarrow> t \<noteq> s \<longrightarrow> first_slot (names m b t) 0 = Some k \<longrightarrow> ent_filled m b k \<longrightarrow>
        directory_lookup m' dd t = directory_lookup m dd t)"
proof (cases "first_slot (\<lambda>j. \<not> ent_filled m b j) 0")
  case None
  then have "\<forall>i < 60. ent_filled m b i" by (simp add: first_slot_None)
  with None show ?thesis by (simp add: directory_put_eq [OF assms(1,2)])
next
  case (Some j)
  then have "j < 60" "\<not> ent_filled m b j" by (auto simp: first_slot_Some)
  moreover have "directory_put m dd s n = Inr (0, put_ent m b j s n)"
    using Some by (simp add: directory_put_eq [OF assms(1,2)])
  ultimately show ?thesis
    using lookup_put [OF assms(1-3) Some] lookup_put_other [OF assms(1-3)] assms(4) by auto
qed

theorem directory_put_lookup_witness:
  "\<exists>m'. directory_put one_file (Some (node_at 2)) ''notes'' 9 = Inr (0, m') \<and>
     directory_lookup m' (Some (node_at 2)) ''notes'' = Inr 9"
proof -
  have "valid_name ''notes''" "int32 9" by (simp_all add: valid_name_def int32_def)
  moreover have "\<not> (\<forall>i < 60. ent_filled one_file 5 i)" using one_file_dir(2) by (auto intro: exI [of _ 0])
  ultimately show ?thesis
    using directory_put_lookup [OF one_file_dir(1), of "''notes''" 9] one_file_dir(2) by (auto split: if_splits)
qed

text \<open>Deleting an entry marks its slot free but keeps its name, and lookup does not test the mark: a name that
  was found before it is deleted is still found afterwards, with the same inode number.\<close>

theorem deleted_name_still_found:
  assumes "dir_at m dd b" and "valid_name s"
  shows "\<exists>r m'. directory_delete m dd s = Inr (r, m') \<and> (r = 0 \<longleftrightarrow> (\<exists>i < 60. names m b s i)) \<and>
    directory_lookup m' dd s = directory_lookup m dd s"
proof (cases "first_slot (names m b s) 0")
  case None
  then have "directory_delete m dd s = Inr (-1, m)" using directory_delete_eq [OF assms] by simp
  with None show ?thesis by (auto simp: first_slot_None)
next
  case (Some j)
  let ?m = "set32 m (slot b j + 64) 0"
  have "names ?m b s = names m b s" using clear_filled(2) [OF assms(2)] by auto
  then have "directory_lookup ?m dd s = directory_lookup m dd s"
    using directory_lookup_eq [OF dir_at_clear [OF assms(1)] assms(2)] directory_lookup_eq [OF assms] Some
    by (simp add: clear_filled(1))
  moreover have "directory_delete m dd s = Inr (0, ?m)" using Some directory_delete_eq [OF assms] by simp
  ultimately show ?thesis using Some by (auto simp: first_slot_Some)
qed

theorem deleted_name_still_found_witness:
  "\<exists>m m'. directory_lookup m (Some (node_at 2)) ''notes'' = Inr 9 \<and>
     directory_delete m (Some (node_at 2)) ''notes'' = Inr (0, m') \<and>
     directory_lookup m' (Some (node_at 2)) ''notes'' = Inr 9"
proof -
  let ?m = "put_ent one_file 5 0 ''notes'' 9"
  have v: "valid_name ''notes''" "int32 9" by (simp_all add: valid_name_def int32_def)
  have "first_slot (\<lambda>j. \<not> ent_filled one_file 5 j) 0 = Some 0" by (simp add: first_slot_Some one_file_dir)
  then have l: "directory_lookup ?m (Some (node_at 2)) ''notes'' = Inr 9"
    using lookup_put [OF one_file_dir(1) v] one_file_dir(2) by blast
  have "names ?m 5 ''notes'' 0" using put_ent_fields(3) [OF v v(1)] by simp
  then have ex: "\<exists>i < 60. names ?m 5 ''notes'' i" by (intro exI [of _ 0]) simp
  obtain r m' where d: "directory_delete ?m (Some (node_at 2)) ''notes'' = Inr (r, m')"
    "r = 0 \<longleftrightarrow> (\<exists>i < 60. names ?m 5 ''notes'' i)"
    "directory_lookup m' (Some (node_at 2)) ''notes'' = directory_lookup ?m (Some (node_at 2)) ''notes''"
    using deleted_name_still_found [OF dir_at_put_ent [OF one_file_dir(1) v(1)] v(1), of 0 9] by blast
  then show ?thesis using l ex by (intro exI [of _ ?m] exI [of _ m']) simp
qed

text \<open>C28: A path resolves component by component: looking up \<open>p/s\<close> looks up \<open>p\<close> and then the name \<open>s\<close> in that
  directory, with -1 when either is missing; repeated and trailing slashes do not matter.\<close>

theorem tree_lookup_child:
  assumes "s \<noteq> []" and "CHR ''/'' \<notin> set s"
  shows "tree_lookup m (p @ CHR ''/'' # s) =
      bindR (tree_lookup m p) (\<lambda>j. if j < 0 then Inr (-1) else
        bindR (get_inode m j) (\<lambda>node. bindR (directory_lookup m node s) (\<lambda>n. Inr (if n < 0 then -1 else n)))) \<and>
    tree_lookup m (p @ ''/'') = bindR (tree_lookup m p) (\<lambda>j. Inr (if j < 0 then -1 else j))"
  using assms tree_lookup_walk [of m p s] tree_lookup_walk [of m p "[]"]
  by (auto simp: explode_single explode.simps [of "[]"] if_distrib [of Inr] intro!: bindR_cong)

theorem tree_lookup_child_witness:
  "\<exists>m'. tree_lookup m' ''/a/b'' = bindR (tree_lookup m' ''/a'') (\<lambda>j. if j < 0 then Inr (-1) else
     bindR (get_inode m' j) (\<lambda>node. bindR (directory_lookup m' node ''b'') (\<lambda>n. Inr (if n < 0 then -1 else n))))"
  using tree_lookup_child [of "''b''" _ "''/a''"] by auto

text \<open>Listing a directory returns a ring of copies of exactly its filled entries: the first one, followed by the
  others from the last to the second; an empty directory gives the null pointer.\<close>

theorem directory_list_entries:
  assumes "get_inode m inum = Inr dd" and "dir_at m dd b"
  shows "\<exists>p h' ns. directory_list m None inum h = Inr (p, h') \<and>
    (if filled_from m b 0 = [] then p = None
     else p = Some (hd ns) \<and> dlist h' ns (ring_order (filled_from m b 0)))"
  using assms list_loop_none [OF dir_atD(2,3) [OF assms(2)], of m 0 h] dir_atD(1) [OF assms(2)]
  by (simp add: directory_list_def)

theorem directory_list_entries_witness:
  "\<exists>p h'. directory_list one_file None 2 \<lparr>dh_links = Map.empty, dh_entries = Map.empty, dh_new = 0\<rparr> = Inr (None, h')"
proof -
  have "filled_from one_file 5 0 = []" by (simp add: filled_from_def one_file_dir filter_False)
  moreover have "get_inode one_file 2 = Inr (Some (node_at 2))" by (simp add: one_file_used inum_ok_def)
  ultimately show ?thesis
    using directory_list_entries [of one_file 2 "Some (node_at 2)" 5] one_file_dir(1) by auto
qed

end
