(* ===== verification/Storage.thy ===== *)
theory Storage
  imports Directory
begin

text \<open>
  The storage layer (File System/files/storage.c): status, reading and writing a file through its chain of
  inodes, creating, unlinking, linking and renaming objects, and splitting a path. A path argument
  that may be null is a \<open>string option\<close>; \<open>size_t\<close> arithmetic is modulo 2^64 (\<^const>\<open>to_size\<close>) and conversion to
  \<open>int\<close> is \<^const>\<open>to_int32\<close>.
\<close>

section \<open>The program\<close>

definition storage_init :: "bool \<Rightarrow> bool \<Rightarrow> bool \<Rightarrow> int \<Rightarrow> img \<Rightarrow> img res" where
  "storage_init open_ok ftruncate_ok mmap_ok now m =
     bindR (blocks_init open_ok ftruncate_ok mmap_ok m) (directory_init now)"

text \<open>
  The fields of \<open>struct stat\<close> that are touched. \<open>memset(st, 0, sizeof(stat))\<close> takes the size of the function
  \<open>stat\<close>, which is 1: it clears the lowest byte of \<open>st_dev\<close> only, the other fields keep what the caller
  had there.
\<close>

record stat_t =
  st_dev :: u64
  st_ino :: int
  st_uid :: int
  st_mode :: int
  st_nlink :: int
  st_size :: int

definition S_ISREG :: "int \<Rightarrow> bool" where
  "S_ISREG mode \<longleftrightarrow> mode AND 61440 = 32768"

definition path_inum :: "img \<Rightarrow> string option \<Rightarrow> int \<Rightarrow> int res" where
  "path_inum m path inum = (case path of None \<Rightarrow> Inr inum | Some p \<Rightarrow> tree_lookup m p)"

definition storage_stat :: "int \<Rightarrow> img \<Rightarrow> string option \<Rightarrow> int \<Rightarrow> stat_t \<Rightarrow> (int \<times> stat_t) res" where
  "storage_stat uid m path inum st =
     bindR (path_inum m path inum) (\<lambda>inum.
     if inum < 0 then Inr (-1, st)
     else
       bindR (get_inode m inum) (\<lambda>node.
       let st = st\<lparr>st_dev := st_dev st AND NOT 255, st_ino := inum, st_uid := uid\<rparr> in
       bindR (deref node) (\<lambda>p.
       bindR (rd32 m (i_mode p)) (\<lambda>mode.
       bindR (rd32 m (i_refs p)) (\<lambda>refs.
       let st = st\<lparr>st_mode := mode, st_nlink := refs\<rparr> in
       if S_ISREG mode then bindR (rd32 m (i_size p)) (\<lambda>s. Inr (0, st\<lparr>st_size := s\<rparr>))
       else Inr (0, st))))))"

text \<open>\<open>pnode = get_inode(pnode->next_inode)\<close>.\<close>

definition next_node :: "img \<Rightarrow> int option \<Rightarrow> int option res" where
  "next_node m pnode =
     bindR (deref pnode) (\<lambda>p. bindR (rd32 m (i_next_inode p)) (\<lambda>nxt. get_inode m nxt))"

definition node_block :: "img \<Rightarrow> int option \<Rightarrow> int res" where
  "node_block m pnode = bindR (deref pnode) (\<lambda>p. bindR (rd32 m (i_block p)) blocks_get_block)"

function seek_loop :: "img \<Rightarrow> int option \<Rightarrow> int \<Rightarrow> (int option \<times> int) res" where
  "seek_loop m pnode offset =
     (if BLOCK_SIZE \<le> offset then
        bindR (next_node m pnode) (\<lambda>pnode. seek_loop m pnode (offset - BLOCK_SIZE))
      else Inr (pnode, offset))"
  by pat_completeness auto
termination by (relation "measure (\<lambda>(m, pnode, offset). nat offset)") (auto simp: BLOCK_SIZE_def)

declare seek_loop.simps [simp del]

text \<open>The loop over whole blocks and the last part of a read; the bytes copied to the buffer are returned.\<close>

function read_loop :: "img \<Rightarrow> int option \<Rightarrow> int \<Rightarrow> u8 list res" where
  "read_loop m pnode temp_sz =
     (if BLOCK_SIZE < temp_sz then
        bindR (next_node m pnode) (\<lambda>pnode.
        bindR (node_block m pnode) (\<lambda>block_temp.
        bindR (copy_out m block_temp BLOCK_SIZE) (\<lambda>bs.
        bindR (read_loop m pnode (temp_sz - BLOCK_SIZE)) (\<lambda>rest.
        Inr (bs @ rest)))))
      else
        bindR (next_node m pnode) (\<lambda>pnode.
        bindR (node_block m pnode) (\<lambda>block_temp.
        copy_out m block_temp temp_sz)))"
  by pat_completeness auto
termination by (relation "measure (\<lambda>(m, pnode, temp_sz). nat temp_sz)") (auto simp: BLOCK_SIZE_def)

declare read_loop.simps [simp del]

definition storage_read :: "img \<Rightarrow> string option \<Rightarrow> int \<Rightarrow> int \<Rightarrow> int \<Rightarrow> (int \<times> u8 list) res" where
  "storage_read m path inum sz offset =
     bindR (path_inum m path inum) (\<lambda>inum.
     bindR (get_inode m inum) (\<lambda>node.
     bindR (assertR (0 \<le> offset)) (\<lambda>_.
     if sz = 0 then Inr (0, [])
     else
       bindR (deref node) (\<lambda>p.
       bindR (rd32 m (i_size p)) (\<lambda>node_size.
       let sz = (if to_size node_size < to_size (offset + sz) then to_size (node_size - offset) else sz) in
       bindR (seek_loop m node offset) (\<lambda>(pnode, offset).
       bindR (node_block m pnode) (\<lambda>block.
       let block_temp = block + offset in
       if BLOCK_SIZE < to_size (sz + offset) then
         bindR (copy_out m block_temp (BLOCK_SIZE - offset)) (\<lambda>bs.
         let temp_sz = to_int32 (to_int32 sz - (BLOCK_SIZE - offset)) in
         bindR (read_loop m pnode temp_sz) (\<lambda>rest.
         Inr (to_int32 sz, bs @ rest)))
       else
         bindR (copy_out m block_temp sz) (\<lambda>bs. Inr (to_int32 sz, bs)))))))))"

text \<open>Copying \<open>n\<close> bytes of the caller's buffer into the image.\<close>

definition put_buf :: "img \<Rightarrow> int \<Rightarrow> u8 list \<Rightarrow> int \<Rightarrow> img res" where
  "put_buf m a buf n =
     (if 0 \<le> n \<and> n \<le> int (length buf) then copy_in m a (take (nat n) buf) else Inl Out_Of_Bounds)"

function write_loop :: "img \<Rightarrow> int option \<Rightarrow> u8 list \<Rightarrow> int \<Rightarrow> img res" where
  "write_loop m pnode buf temp_sz =
     (if 0 < temp_sz then
        bindR (next_node m pnode) (\<lambda>pnode.
        bindR (node_block m pnode) (\<lambda>block_temp.
        bindR (put_buf m block_temp buf (if BLOCK_SIZE < temp_sz then BLOCK_SIZE else temp_sz)) (\<lambda>m.
        write_loop m pnode (drop (nat BLOCK_SIZE) buf) (temp_sz - BLOCK_SIZE))))
      else Inr m)"
  by pat_completeness auto
termination by (relation "measure (\<lambda>(m, pnode, buf, temp_sz). nat temp_sz)") (auto simp: BLOCK_SIZE_def)

declare write_loop.simps [simp del]

text \<open>The part of \<open>storage_write\<close> after the file has grown: seek to the offset and copy.\<close>

definition write_at :: "img \<Rightarrow> int option \<Rightarrow> u8 list \<Rightarrow> int \<Rightarrow> int \<Rightarrow> (int \<times> img) res" where
  "write_at m node buf sz offset =
     bindR (seek_loop m node offset) (\<lambda>(pnode, offset).
     bindR (node_block m pnode) (\<lambda>block.
     let block_temp = block + offset in
     if BLOCK_SIZE < to_size (sz + offset) then
       bindR (put_buf m block_temp buf (BLOCK_SIZE - offset)) (\<lambda>m.
       let temp_sz = to_int32 (to_int32 sz - (BLOCK_SIZE - offset)) in
       bindR (write_loop m pnode (drop (nat (BLOCK_SIZE - offset)) buf) temp_sz) (\<lambda>m.
       Inr (to_int32 sz, m)))
     else
       bindR (put_buf m block_temp buf sz) (\<lambda>m. Inr (to_int32 sz, m))))"

definition storage_write :: "int \<Rightarrow> img \<Rightarrow> string option \<Rightarrow> int \<Rightarrow> u8 list \<Rightarrow> int \<Rightarrow> int \<Rightarrow> (int \<times> img) res" where
  "storage_write now m path inum buf sz offset =
     bindR (path_inum m path inum) (\<lambda>inum.
     bindR (assertR (0 \<le> inum)) (\<lambda>_.
     bindR (get_inode m inum) (\<lambda>node.
     bindR (assertR (0 \<le> offset)) (\<lambda>_.
     if sz = 0 then Inr (0, m)
     else
       bindR (deref node) (\<lambda>p.
       bindR (rd32 m (i_size p)) (\<lambda>node_size.
       bindR (if to_size node_size < to_size (sz + offset)
              then grow_inode now m p (to_int32 (sz + offset - node_size)) else Inr (0, m)) (\<lambda>(rv, m).
       if rv < 0 then Inr (-1, m) else write_at m node buf sz offset)))))))"

definition storage_truncate :: "int \<Rightarrow> img \<Rightarrow> string \<Rightarrow> int \<Rightarrow> (int \<times> img) res" where
  "storage_truncate now m path sz =
     bindR (tree_lookup m path) (\<lambda>inum.
     bindR (assertR (0 \<le> inum)) (\<lambda>_.
     bindR (get_inode m inum) (\<lambda>node.
     bindR (deref node) (\<lambda>p.
     bindR (rd32 m (i_size p)) (\<lambda>node_size.
     if node_size \<le> sz then grow_inode now m p (to_int32 (sz - node_size))
     else shrink_inode m p (to_int32 (node_size - sz)))))))"

definition storage_mknod :: "int \<Rightarrow> img \<Rightarrow> string option \<Rightarrow> string \<Rightarrow> int \<Rightarrow> int \<Rightarrow> (int \<times> img) res" where
  "storage_mknod now m path name pinum mode =
     bindR (path_inum m path pinum) (\<lambda>pinum.
     bindR (assertR (0 \<le> pinum)) (\<lambda>_.
     bindR (get_inode m pinum) (\<lambda>directory_node.
     bindR (directory_lookup m directory_node name) (\<lambda>inum.
     if 0 \<le> inum then Inr (- EEXIST, m)
     else
       bindR (alloc_inode now m) (\<lambda>(inum, m).
       bindR (get_inode m inum) (\<lambda>node.
       bindR (deref node) (\<lambda>p.
       bindR (wr32 m (i_refs p) 1) (\<lambda>m.
       bindR (wr32 m (i_mode p) mode) (\<lambda>m.
       bindR (wr32 m (i_size p) 0) (\<lambda>m.
       bindR (directory_put m directory_node name inum) (\<lambda>(_, m).
       Inr (0, m))))))))))))"

definition storage_unlink :: "img \<Rightarrow> string option \<Rightarrow> int \<Rightarrow> string \<Rightarrow> (int \<times> img) res" where
  "storage_unlink m path pinum name =
     bindR (path_inum m path pinum) (\<lambda>pinum.
     bindR (get_inode m pinum) (\<lambda>directory_node.
     bindR (directory_lookup m directory_node name) (\<lambda>inum.
     bindR (get_inode m inum) (\<lambda>node.
     bindR (deref node) (\<lambda>p.
     bindR (rd32 m (i_refs p)) (\<lambda>refs.
     bindR (chk32 (refs - 1)) (\<lambda>refs.
     bindR (wr32 m (i_refs p) refs) (\<lambda>m.
     bindR (directory_delete m directory_node name) (\<lambda>(rv, m).
     bindR (rd32 m (i_refs p)) (\<lambda>refs.
     if refs \<le> 0 then bindR (free_inode m inum) (\<lambda>m. Inr (rv, m))
     else Inr (rv, m)))))))))))"

definition storage_link :: "img \<Rightarrow> string option \<Rightarrow> int \<Rightarrow> string option \<Rightarrow> int \<Rightarrow> string \<Rightarrow> (int \<times> img) res" where
  "storage_link m from_path from_inum to_parent to_pinum to_child =
     bindR (path_inum m from_path from_inum) (\<lambda>from_inum.
     bindR (assertR (0 \<le> from_inum)) (\<lambda>_.
     bindR (get_inode m from_inum) (\<lambda>node.
     bindR (deref node) (\<lambda>p.
     bindR (rd32 m (i_refs p)) (\<lambda>refs.
     bindR (chk32 (refs + 1)) (\<lambda>refs.
     bindR (wr32 m (i_refs p) refs) (\<lambda>m.
     bindR (path_inum m to_parent to_pinum) (\<lambda>to_pinum.
     bindR (get_inode m to_pinum) (\<lambda>to_parent_node.
     directory_put m to_parent_node to_child from_inum)))))))))"

definition storage_rename :: "img \<Rightarrow> string option \<Rightarrow> int \<Rightarrow> string \<Rightarrow> string option \<Rightarrow> int \<Rightarrow> string \<Rightarrow> (int \<times> img) res" where
  "storage_rename m from_parent from_pinum from_child to_parent to_pinum to_child =
     bindR (path_inum m from_parent from_pinum) (\<lambda>from_pinum.
     bindR (get_inode m from_pinum) (\<lambda>from_pnode.
     bindR (directory_lookup m from_pnode from_child) (\<lambda>from_inum.
     bindR (storage_link m None from_inum to_parent to_pinum to_child) (\<lambda>(_, m).
     bindR (storage_unlink m from_parent from_pinum from_child) (\<lambda>(_, m).
     Inr (0, m))))))"

definition storage_list :: "img \<Rightarrow> string option \<Rightarrow> int \<Rightarrow> dheap \<Rightarrow> (nat option \<times> dheap) res" where
  "storage_list m path inum h = directory_list m path inum h"

text \<open>The search for the last slash; running past the start of the string is an error.\<close>

function split_loop :: "string \<Rightarrow> int \<Rightarrow> int \<Rightarrow> int res" where
  "split_loop path index counter =
     (if index < 0 \<or> int (length path) \<le> index then Inl Out_Of_Bounds
      else if path ! nat index \<noteq> CHR ''/'' then split_loop path (index - 1) (counter + 1)
      else Inr counter)"
  by pat_completeness auto
termination by (relation "measure (\<lambda>(path, index, counter). nat (index + 1))") auto

declare split_loop.simps [simp del]

text \<open>The two buffers after the call; \<open>want_name\<close> is whether the pointer for the name is not null.\<close>

definition split_path :: "string \<Rightarrow> bool \<Rightarrow> (string \<times> string option) res" where
  "split_path path want_name =
     bindR (split_loop path (int (length path) - 1) 0) (\<lambda>counter.
     if counter \<noteq> int (length path) - 1 then
       Inr (take (nat (int (length path) - counter - 1)) path,
            if want_name then Some (drop (nat (int (length path) - counter)) path) else None)
     else
       Inr (take 1 path, if want_name then Some (drop 1 path) else None))"

section \<open>Splitting a path\<close>

lemma split_loop_correct:
  assumes "CHR ''/'' \<notin> set s"
  shows "split_loop (p @ CHR ''/'' # s @ t) (int (length p) + int (length s)) c = Inr (c + int (length s))"
  using assms
proof (induction s arbitrary: t c rule: rev_induct)
  case Nil
  then show ?case by (subst split_loop.simps) (simp add: nth_append)
next
  case (snoc x s)
  have "split_loop (p @ CHR ''/'' # (s @ [x]) @ t) (int (length p) + int (length (s @ [x]))) c =
      split_loop (p @ CHR ''/'' # s @ x # t) (int (length p) + int (length s)) (c + 1)"
    using snoc.prems by (subst split_loop.simps) (auto simp: nth_append nat_add_distrib)
  with snoc.IH [of "x # t" "c + 1"] snoc.prems show ?case by simp
qed

lemma split_path_eq:
  assumes "CHR ''/'' \<notin> set s"
  shows "split_path (p @ CHR ''/'' # s) want =
    Inr (if p = [] then ''/'' else p, if want then Some s else None)"
  using split_loop_correct [OF assms, of p "[]" 0] by (auto simp: split_path_def nat_add_distrib nat_diff_distrib)

section \<open>Reading and writing a chain\<close>

lemma node_block_ok: "node_ok m i \<Longrightarrow> node_block m (Some (node_at i)) = Inr (4096 * n_block m i)"
  using node_okD [of m i] by (simp add: node_block_def)

lemma next_node_ok:
  "node_ok m i \<Longrightarrow> node_ok m j \<Longrightarrow> n_next m i = j \<Longrightarrow> next_node m (Some (node_at i)) = Inr (Some (node_at j))"
  using node_okD [of m i] node_okD [of m j] by (simp add: next_node_def)

lemma copy_out_block:
  assumes "node_ok m i" and "0 \<le> r" and "0 \<le> n" and "r + n \<le> 4096"
  shows "copy_out m (4096 * n_block m i + r) n = Inr (take (nat n) (drop (nat r) (block_bytes m i)))"
proof -
  have "mapped (4096 * n_block m i + r) n"
    using node_okD [OF assms(1)] assms by (auto simp: mapped_def NUFS_SIZE_def)
  moreover have "get_bytes m (4096 * n_block m i + r) (nat n) = take (nat n) (drop (nat r) (block_bytes m i))"
    using assms by (intro nth_equalityI) (auto simp: get_bytes_def block_bytes_def add.assoc)
  ultimately show ?thesis by (simp add: copy_out_def)
qed

lemma seek_loop_correct:
  assumes "links m is" and "is \<noteq> []" and "k < length is" and "0 \<le> r" and "r < 4096"
  shows "seek_loop m (Some (node_at (hd is))) (4096 * int k + r) = Inr (Some (node_at (is ! k)), r)"
  using assms
proof (induction k arbitrary: "is")
  case 0
  then show ?case by (subst seek_loop.simps) (simp add: BLOCK_SIZE_def hd_conv_nth)
next
  case (Suc k)
  then obtain i j js where is_eq: "is = i # j # js" by (cases "(m, is)" rule: links.cases) auto
  have "next_node m (Some (node_at i)) = Inr (Some (node_at j))"
    using Suc.prems(1) is_eq links_node_ok [OF Suc.prems(1)] by (intro next_node_ok) auto
  with Suc.IH [of "j # js"] Suc.prems is_eq show ?case
    by (subst seek_loop.simps) (simp add: BLOCK_SIZE_def algebra_simps)
qed

lemma links_drop: "links m is \<Longrightarrow> k < length is \<Longrightarrow> links m (drop k is)"
proof (induction k arbitrary: "is")
  case (Suc k)
  then show ?case by (cases "(m, is)" rule: links.cases) auto
qed simp

lemma read_loop_correct:
  assumes "links m (i # is)" and "0 \<le> n" and "n \<le> 4096 * int (length is)" and "is \<noteq> []"
  shows "read_loop m (Some (node_at i)) n = Inr (take (nat n) (chain_bytes m is))"
  using assms
proof (induction "is" arbitrary: i n)
  case (Cons j js)
  have ok: "node_ok m i" "node_ok m j" "n_next m i = j" using Cons.prems(1) links_hd by auto
  note nn = next_node_ok [OF ok] node_block_ok [OF ok(2)]
  show ?case
  proof (cases "4096 < n")
    case True
    have c: "copy_out m (4096 * n_block m j) 4096 = Inr (block_bytes m j)"
      using copy_out_block [OF ok(2), of 0 4096] by simp
    have "js \<noteq> []" using True Cons.prems(3) by auto
    then have "read_loop m (Some (node_at j)) (n - 4096) = Inr (take (nat (n - 4096)) (chain_bytes m js))"
      using True Cons.prems by (intro Cons.IH) auto
    then show ?thesis using nn c True
      by (subst read_loop.simps) (simp add: BLOCK_SIZE_def chain_bytes_Cons nat_diff_distrib)
  next
    case False
    have "copy_out m (4096 * n_block m j) n = Inr (take (nat n) (block_bytes m j))"
      using copy_out_block [OF ok(2), of 0 n] Cons.prems(2) False by simp
    then show ?thesis using nn False
      by (subst read_loop.simps) (simp add: BLOCK_SIZE_def chain_bytes_Cons)
  qed
qed simp

text \<open>The bytes of a chain from an offset.\<close>

lemma chain_bytes_drop: "k \<le> length is \<Longrightarrow> drop (4096 * k) (chain_bytes m is) = chain_bytes m (drop k is)"
proof (induction k arbitrary: "is")
  case (Suc k)
  then obtain i js where "is = i # js" by (cases "is") auto
  with Suc show ?case by (simp add: chain_bytes_Cons)
qed simp

lemma chain_bytes_append: "chain_bytes m (xs @ ys) = chain_bytes m xs @ chain_bytes m ys"
  by (simp add: chain_bytes_def)

text \<open>The position of an offset in a chain.\<close>

lemma chain_position:
  assumes "links m is" and "0 \<le> off" and "off < 4096 * int (length is)"
  obtains xs x js r where "is = xs @ x # js" and "off = 4096 * int (length xs) + r" and "0 \<le> r" and "r < 4096"
    and "links m (x # js)" and "node_ok m x" and "seek_loop m (Some (node_at (hd is))) off = Inr (Some (node_at x), r)"
proof -
  define k where "k = nat (off div 4096)"
  define r where "r = off mod 4096"
  have off: "off = 4096 * int k + r" "0 \<le> r" "r < 4096" and k: "k < length is"
    using assms(2,3) by (auto simp: k_def r_def)
  have s: "is = take k is @ is ! k # drop (Suc k) is" using k by (simp add: id_take_nth_drop)
  have l: "links m (is ! k # drop (Suc k) is)" using links_drop [OF assms(1) k] k by (simp add: Cons_nth_drop_Suc)
  have "is \<noteq> []" using k by auto
  then show thesis
    using that [OF s _ off(2,3) l links_hd [OF l]] off(1) k seek_loop_correct [OF assms(1) _ k off(2,3)] by simp
qed

lemma storage_read_eq:
  assumes f: "fchain m (i # is) sz" and n: "0 < n" "0 \<le> off" "off + n \<le> sz"
  shows "storage_read m None i n off = Inr (n, take (nat n) (drop (nat off) (chain_bytes m (i # is))))"
proof -
  have l: "links m (i # is)" and s: "n_size m i = sz" "sz \<le> 4096 * int (length (i # is))"
    using f sizes_hd [of m i "is" sz] sizes_length [of m "i # is" sz] by (auto simp: fchain_def)
  note ii = node_okD [OF links_hd [OF l]]
  have sz32: "sz < 2147483648" using s(1) int32_get32 [of m "node_at i + 8"] by (simp add: n_size_def int32_def)
  have "off < 4096 * int (length (i # is))" using n s(2) by linarith
  then obtain xs x js r where p: "i # is = xs @ x # js" "off = 4096 * int (length xs) + r" "0 \<le> r" "r < 4096"
    and lx: "links m (x # js)" and x: "node_ok m x"
    and seek: "seek_loop m (Some (node_at i)) off = Inr (Some (node_at x), r)"
    using chain_position [OF l n(2)] by (metis list.sel(1))
  have room: "n + r \<le> 4096 * (int (length js) + 1)"
    using s(2) n(3) p(2) unfolding p(1) by simp
  have off: "nat off = 4096 * length xs + nat r" using p(2,3) by simp
  have cb: "drop (nat off) (chain_bytes m (i # is)) = drop (nat r) (block_bytes m x) @ chain_bytes m js"
    unfolding p(1) off using p(4) by (simp add: chain_bytes_append chain_bytes_Cons)
  have small: "to_size (off + n) = off + n" "to_size sz = sz" "to_size (n + r) = n + r" "to_int32 n = n"
    "to_int32 (n - (4096 - r)) = n - (4096 - r)"
    using n sz32 p(2-4) by (simp_all add: int32_def)
  have head: "storage_read m None i n off =
      (if 4096 < n + r then
         bindR (copy_out m (4096 * n_block m x + r) (4096 - r)) (\<lambda>bs.
         bindR (read_loop m (Some (node_at x)) (n - (4096 - r))) (\<lambda>rest. Inr (n, bs @ rest)))
       else bindR (copy_out m (4096 * n_block m x + r) n) (\<lambda>bs. Inr (n, bs)))"
    using ii(1,2) s(1) n small seek node_block_ok [OF x]
    by (simp add: storage_read_def path_inum_def BLOCK_SIZE_def Let_def)
  show ?thesis
  proof (cases "4096 < n + r")
    case True
    then have "js \<noteq> []" using room by auto
    then have "read_loop m (Some (node_at x)) (n - (4096 - r)) = Inr (take (nat (n - (4096 - r))) (chain_bytes m js))"
      using True room by (intro read_loop_correct [OF lx]) auto
    moreover have "copy_out m (4096 * n_block m x + r) (4096 - r) = Inr (drop (nat r) (block_bytes m x))"
      using copy_out_block [OF x p(3), of "4096 - r"] p(3,4) by (simp add: nat_diff_distrib)
    ultimately show ?thesis unfolding head cb using True p(3,4) by (simp add: nat_diff_distrib)
  next
    case False
    have "copy_out m (4096 * n_block m x + r) n = Inr (take (nat n) (drop (nat r) (block_bytes m x)))"
      using copy_out_block [OF x p(3), of n] n False by simp
    moreover have "nat n \<le> length (drop (nat r) (block_bytes m x))" using False p(3) n by simp
    ultimately show ?thesis unfolding head cb using False by simp
  qed
qed

text \<open>Writing bytes into data blocks.\<close>

definition blk :: "img \<Rightarrow> int \<Rightarrow> int set" where
  "blk m i = {4096 * n_block m i ..< 4096 * n_block m i + 4096}"

definition same_meta :: "img \<Rightarrow> img \<Rightarrow> bool" where
  "same_meta m m' \<longleftrightarrow> (\<forall>a. a < 20480 \<longrightarrow> m' a = m a)"

lemma same_metaD:
  assumes "same_meta m m'"
  shows "inum_ok i \<Longrightarrow> same_node m m' i" and "keeps_use m m'"
proof -
  show "same_node m m' i" if "inum_ok i"
    using assms node_bounds [OF that] by (auto simp: same_meta_def same_node_def)
  have "inode_used m' i = inode_used m i" if "inum_ok i" for i
    using assms that unfolding inode_used_def inum_ok_def by (intro bm_bit_cong) (auto simp: same_meta_def)
  moreover have "block_used m' b = block_used m b" if "0 \<le> b" "b < 256" for b
    using assms that unfolding block_used_def by (intro bm_bit_cong) (auto simp: same_meta_def)
  ultimately show "keeps_use m m'" by (simp add: keeps_use_def)
qed

lemma same_meta_links:
  assumes "links m is" and "same_meta m m'"
  shows "links m' is" and "j \<in> set is \<Longrightarrow> n_block m' j = n_block m j"
proof -
  have s: "same_node m m' j" if "j \<in> set is" for j
    using same_metaD(1) [OF assms(2) node_okD(1)] links_node_ok [OF assms(1) that] by blast
  then show "j \<in> set is \<Longrightarrow> n_block m' j = n_block m j" by (blast dest: same_nodeD)
  show "links m' is"
    using same_nodeD [OF s] by (intro links_mono [OF assms(1) same_metaD(2) [OF assms(2)]]) auto
qed

lemma block_bytes_cong:
  "n_block m' i = n_block m i \<Longrightarrow> (\<And>a. a \<in> blk m i \<Longrightarrow> m' a = m a) \<Longrightarrow> block_bytes m' i = block_bytes m i"
  unfolding block_bytes_def blk_def by (simp, intro get_bytes_cong) auto

lemma chain_bytes_cong: "(\<And>i. i \<in> set is \<Longrightarrow> block_bytes m' i = block_bytes m i) \<Longrightarrow> chain_bytes m' is = chain_bytes m is"
  by (simp add: chain_bytes_def cong: map_cong)

lemma blk_disjoint: "n_block m i \<noteq> n_block m j \<Longrightarrow> blk m i \<inter> blk m j = {}"
  by (auto simp: blk_def)

lemma put_block:
  assumes x: "node_ok m x" and r: "0 \<le> r" "r + n \<le> 4096" "0 \<le> n" "n \<le> int (length buf)"
  shows "\<exists>m'. put_buf m (4096 * n_block m x + r) buf n = Inr m' \<and> same_meta m m' \<and>
    block_bytes m' x = take (nat r) (block_bytes m x) @ take (nat n) buf @ drop (nat (r + n)) (block_bytes m x) \<and>
    (\<forall>a. a \<notin> blk m x \<longrightarrow> m' a = m a)"
proof -
  let ?a = "4096 * n_block m x + r" and ?bs = "take (nat n) buf"
  let ?m = "set_bytes m ?a ?bs"
  have len: "int (length ?bs) = n" using r by simp
  note xb = node_okD [OF x]
  have "mapped ?a n" using xb r by (auto simp: mapped_def NUFS_SIZE_def)
  then have "put_buf m ?a buf n = Inr ?m" using r(3,4) len by (simp add: put_buf_def copy_in_def del: length_take)
  moreover have meta: "same_meta m ?m" using xb r by (auto simp: same_meta_def intro!: set_bytes_other)
  moreover have out: "?m a = m a" if "a \<notin> blk m x" for a
    using that r len by (intro set_bytes_other) (auto simp: blk_def)
  moreover have "block_bytes ?m x = take (nat r) (block_bytes m x) @ ?bs @ drop (nat (r + n)) (block_bytes m x)"
  proof -
    have b: "n_block ?m x = n_block m x" using same_nodeD(4) [OF same_metaD(1) [OF meta xb(1)]] .
    show ?thesis
    proof (rule nth_equalityI)
      show "length (block_bytes ?m x) = length (take (nat r) (block_bytes m x) @ ?bs @ drop (nat (r + n)) (block_bytes m x))"
        using r by (simp add: nat_add_distrib)
      fix k assume "k < length (block_bytes ?m x)"
      then have k: "k < 4096" by simp
      have "block_bytes ?m x ! k = ?m (4096 * n_block m x + int k)" using k by (simp add: block_bytes_def get_bytes_def b)
      also have "\<dots> = (take (nat r) (block_bytes m x) @ ?bs @ drop (nat (r + n)) (block_bytes m x)) ! k"
        using k r len by (auto simp: nth_append set_bytes_def block_bytes_def get_bytes_def nat_add_distrib
          nat_diff_distrib less_diff_conv algebra_simps)
      finally show "block_bytes ?m x ! k = (take (nat r) (block_bytes m x) @ ?bs @ drop (nat (r + n)) (block_bytes m x)) ! k" .
    qed
  qed
  ultimately show ?thesis by blast
qed

lemma separate_tl: "separate m (i # is) \<Longrightarrow> separate m is"
  by (auto simp: separate_def)

lemma separate_meta: "separate m is \<Longrightarrow> (\<And>i. i \<in> set is \<Longrightarrow> n_block m' i = n_block m i) \<Longrightarrow> separate m' is"
  by (auto simp: separate_def inj_on_def)

lemma write_loop_correct:
  assumes "links m (i # is)" and "separate m is" and "length buf \<le> 4096 * length is"
  shows "\<exists>m'. write_loop m (Some (node_at i)) buf (int (length buf)) = Inr m' \<and> same_meta m m' \<and>
    chain_bytes m' is = buf @ drop (length buf) (chain_bytes m is) \<and> (\<forall>a. (\<forall>j \<in> set is. a \<notin> blk m j) \<longrightarrow> m' a = m a)"
  using assms
proof (induction "is" arbitrary: i m buf)
  case Nil
  then show ?case by (subst write_loop.simps) (auto simp: chain_bytes_def same_meta_def)
next
  case (Cons j js)
  show ?case
  proof (cases "buf = []")
    case True
    then show ?thesis by (subst write_loop.simps) (auto simp: same_meta_def)
  next
    case False
    have ok: "node_ok m i" "node_ok m j" "n_next m i = j" and lj: "links m (j # js)"
      using Cons.prems(1) links_hd by auto
    define n where "n = (if 4096 < int (length buf) then 4096 else int (length buf))"
    have n: "n \<le> 4096" "0 \<le> n" "n \<le> int (length buf)" "nat n = min 4096 (length buf)" by (auto simp: n_def)
    obtain m1 where m1: "put_buf m (4096 * n_block m j) buf n = Inr m1" "same_meta m m1"
      "block_bytes m1 j = take (nat n) buf @ drop (nat n) (block_bytes m j)" "\<forall>a. a \<notin> blk m j \<longrightarrow> m1 a = m a"
      using put_block [OF ok(2), of 0 n buf] n by auto
    note sm = same_meta_links [OF lj m1(2)]
    have other: "block_bytes m1 k = block_bytes m k" if "k \<in> set js" for k
    proof (rule block_bytes_cong)
      show "n_block m1 k = n_block m k" using sm(2) that by simp
      have "n_block m k \<noteq> n_block m j" using Cons.prems(2) that by (auto simp: separate_def inj_on_def)
      then show "m1 a = m a" if "a \<in> blk m k" for a using m1(4) blk_disjoint [of m k j] that by auto
    qed
    have sep: "separate m1 js" by (rule separate_meta [OF separate_tl [OF Cons.prems(2)]]) (simp add: sm(2))
    have "length (drop 4096 buf) \<le> 4096 * length js" using Cons.prems(3) by simp
    then obtain m' where m': "write_loop m1 (Some (node_at j)) (drop 4096 buf) (int (length (drop 4096 buf))) = Inr m'"
      "same_meta m1 m'" "chain_bytes m' js = drop 4096 buf @ drop (length (drop 4096 buf)) (chain_bytes m1 js)"
      "\<forall>a. (\<forall>k \<in> set js. a \<notin> blk m1 k) \<longrightarrow> m' a = m1 a"
      using Cons.IH [OF sm(1) sep] by blast
    have stop: "write_loop m1 (Some (node_at j)) (drop 4096 buf) (int (length buf) - 4096) = Inr m'"
    proof (cases "4096 < length buf")
      case True
      then show ?thesis using m'(1) by (simp add: of_nat_diff)
    next
      case False
      then show ?thesis using m'(1) by (subst write_loop.simps) (simp add: write_loop.simps)
    qed
    have "write_loop m (Some (node_at i)) buf (int (length buf)) = Inr m'"
      using False next_node_ok [OF ok] node_block_ok [OF ok(2)] m1(1) stop
      by (subst write_loop.simps) (auto simp: BLOCK_SIZE_def n_def split: if_splits)
    moreover have "same_meta m m'" using m1(2) m'(2) by (simp add: same_meta_def)
    moreover have blks: "blk m1 k = blk m k" if "k \<in> set (j # js)" for k using sm(2) [OF that] by (simp add: blk_def)
    then have "\<forall>a. (\<forall>k \<in> set (j # js). a \<notin> blk m k) \<longrightarrow> m' a = m a" using m1(4) m'(4) by auto
    moreover have "block_bytes m' j = block_bytes m1 j"
    proof (rule block_bytes_cong)
      show "n_block m' j = n_block m1 j" using same_meta_links(2) [OF sm(1) m'(2)] by simp
      have "blk m1 j \<inter> blk m1 k = {}" if "k \<in> set js" for k
        using Cons.prems(2) that sm(2) by (intro blk_disjoint) (auto simp: separate_def inj_on_def)
      then show "m' a = m1 a" if "a \<in> blk m1 j" for a using m'(4) that by blast
    qed
    then have "chain_bytes m' (j # js) = buf @ drop (length buf) (chain_bytes m (j # js))"
      using m1(3) m'(3) chain_bytes_cong [of js m1 m, OF other]
      by (cases "4096 \<le> length buf") (simp_all add: chain_bytes_Cons n(4))
    ultimately show ?thesis by blast
  qed
qed

lemma write_at_correct:
  assumes l: "links m (i # is)" and sep: "separate m (i # is)" and n: "0 \<le> off" "off + int (length buf) \<le> 4096 * int (length (i # is))"
    and big: "off + int (length buf) < 2147483648" and ne: "buf \<noteq> []"
  shows "\<exists>m'. write_at m (Some (node_at i)) buf (int (length buf)) off = Inr (int (length buf), m') \<and> same_meta m m' \<and>
    chain_bytes m' (i # is) = take (nat off) (chain_bytes m (i # is)) @ buf @ drop (nat off + length buf) (chain_bytes m (i # is)) \<and>
    (\<forall>a. (\<forall>j \<in> set (i # is). a \<notin> blk m j) \<longrightarrow> m' a = m a)"
proof -
  have "off < 4096 * int (length (i # is))" using n ne by (cases buf) auto
  then obtain xs x js r where p: "i # is = xs @ x # js" "off = 4096 * int (length xs) + r" "0 \<le> r" "r < 4096"
    and lx: "links m (x # js)" and x: "node_ok m x"
    and seek: "seek_loop m (Some (node_at i)) off = Inr (Some (node_at x), r)"
    using chain_position [OF l n(1)] by (metis list.sel(1))
  let ?n = "int (length buf)"
  have room: "?n + r \<le> 4096 * (int (length js) + 1)" using n(2) p(2) unfolding p(1) by simp
  have off: "nat off = 4096 * length xs + nat r" using p(2,3) by simp
  have small: "to_size (?n + r) = ?n + r" "to_int32 ?n = ?n" "to_int32 (?n - (4096 - r)) = ?n - (4096 - r)"
    using n(1) big p(2-4) by (simp_all add: int32_def)
  define k where "k = (if 4096 < ?n + r then 4096 - r else ?n)"
  have k: "r + k \<le> 4096" "0 \<le> k" "k \<le> ?n" using p(3,4) by (auto simp: k_def)
  obtain m1 where m1: "put_buf m (4096 * n_block m x + r) buf k = Inr m1" "same_meta m m1"
    "block_bytes m1 x = take (nat r) (block_bytes m x) @ take (nat k) buf @ drop (nat (r + k)) (block_bytes m x)"
    "\<forall>a. a \<notin> blk m x \<longrightarrow> m1 a = m a"
    using put_block [OF x p(3) k] by blast
  let ?rest = "drop (nat k) buf"
  have dist: "blk m a \<inter> blk m b = {}" if "a \<in> set (i # is)" "b \<in> set (i # is)" "a \<noteq> b" for a b
    using sep that by (intro blk_disjoint) (auto simp: separate_def inj_on_def)
  have xd: "x \<notin> set xs" "x \<notin> set js" "set xs \<inter> set js = {}" and xin: "set (xs @ x # js) = set (i # is)"
    using sep unfolding p(1) separate_def by auto
  note sm1 = same_meta_links [OF lx m1(2)]
  have sepj: "separate m1 js"
    using sep p(1) sm1(2) unfolding separate_def by (auto simp: inj_on_def)
  have "length ?rest \<le> 4096 * length js" using room k p(3,4) by (auto simp: k_def)
  then obtain m' where m': "write_loop m1 (Some (node_at x)) ?rest (int (length ?rest)) = Inr m'" "same_meta m1 m'"
    "chain_bytes m' js = ?rest @ drop (length ?rest) (chain_bytes m1 js)" "\<forall>a. (\<forall>j \<in> set js. a \<notin> blk m1 j) \<longrightarrow> m' a = m1 a"
    using write_loop_correct [OF sm1(1) sepj] by blast
  have meta: "same_meta m m'" using m1(2) m'(2) by (simp add: same_meta_def)
  have nb: "n_block m' j = n_block m j" if "j \<in> set (i # is)" for j using same_meta_links(2) [OF l meta that] .
  have blk1: "blk m1 j = blk m j" if "j \<in> set js" for j using sm1(2) [of j] that by (simp add: blk_def)
  have frame: "m' a = m a" if "a \<notin> blk m x" "\<forall>j \<in> set js. a \<notin> blk m j" for a
    using that m1(4) m'(4) blk1 by auto
  have cxs: "chain_bytes m' xs = chain_bytes m xs"
  proof (intro chain_bytes_cong block_bytes_cong)
    fix j a assume j: "j \<in> set xs"
    then show "n_block m' j = n_block m j" using nb xin by auto
    assume a: "a \<in> blk m j"
    have "a \<notin> blk m b" if "b \<in> insert x (set js)" for b
      using dist [of j b] that j a xd xin by auto
    then show "m' a = m a" using frame by auto
  qed
  have cjs: "chain_bytes m1 js = chain_bytes m js"
  proof (intro chain_bytes_cong block_bytes_cong)
    fix j a assume j: "j \<in> set js"
    then show "n_block m1 j = n_block m j" using sm1(2) by simp
    assume "a \<in> blk m j"
    then show "m1 a = m a" using m1(4) dist [of j x] j xd xin by auto
  qed
  have bx: "block_bytes m' x = block_bytes m1 x"
  proof (rule block_bytes_cong)
    show "n_block m' x = n_block m1 x" using nb [of x] sm1(2) [of x] xin by auto
    fix a assume "a \<in> blk m1 x"
    then have "a \<in> blk m x" using sm1(2) [of x] by (simp add: blk_def)
    then have "a \<notin> blk m1 j" if "j \<in> set js" for j using dist [of x j] blk1 [OF that] that xd xin by auto
    then show "m' a = m1 a" using m'(4) by blast
  qed
  have "write_at m (Some (node_at i)) buf ?n off = Inr (?n, m')"
  proof (cases "4096 < ?n + r")
    case True
    then show ?thesis using m1(1) m'(1) k small seek node_block_ok [OF x]
      by (simp add: write_at_def BLOCK_SIZE_def Let_def k_def of_nat_diff nat_diff_distrib)
  next
    case False
    then have "m' = m1" using m'(1) by (simp add: k_def write_loop.simps)
    with False show ?thesis using m1(1) small seek node_block_ok [OF x]
      by (simp add: write_at_def BLOCK_SIZE_def Let_def k_def)
  qed
  moreover have "chain_bytes m' (i # is) =
      take (nat off) (chain_bytes m (i # is)) @ buf @ drop (nat off + length buf) (chain_bytes m (i # is))"
  proof -
    have t: "take (nat off) (chain_bytes m (i # is)) = chain_bytes m xs @ take (nat r) (block_bytes m x)"
      unfolding p(1) off using p(4) by (simp add: chain_bytes_append chain_bytes_Cons)
    have d: "drop (nat off + length buf) (chain_bytes m (i # is)) =
        drop (nat r + length buf) (block_bytes m x) @ drop (nat r + length buf - 4096) (chain_bytes m js)"
      unfolding p(1) off by (simp add: chain_bytes_append chain_bytes_Cons)
    have e: "drop (nat (r + k)) (block_bytes m x) = drop (nat r + length buf) (block_bytes m x)"
      "length ?rest = nat r + length buf - 4096" "take (nat k) buf @ ?rest = buf"
      using p(3,4) by (auto simp: k_def nat_diff_distrib nat_add_distrib)
    have "drop (nat r + length buf) (block_bytes m x) = [] \<or> ?rest = []" using p(3,4) by (auto simp: k_def)
    then show ?thesis
      unfolding t d using e unfolding p(1)
      by (auto simp: chain_bytes_append chain_bytes_Cons cxs bx m1(3) m'(3) cjs)
  qed
  moreover have "\<forall>a. (\<forall>j \<in> set (i # is). a \<notin> blk m j) \<longrightarrow> m' a = m a"
    unfolding xin [symmetric] using frame by simp
  ultimately show ?thesis using meta by blast
qed

lemma same_meta_fchain: "fchain m is sz \<Longrightarrow> same_meta m m' \<Longrightarrow> fchain m' is sz"
proof -
  assume f: "fchain m is sz" and meta: "same_meta m m'"
  have "same_node m m' i" if "i \<in> set is" for i
    using f links_node_ok [of m "is" i] node_okD(1) [of m i] that by (intro same_metaD(1) [OF meta]) (simp add: fchain_def)
  then show ?thesis by (rule fchain_mono [OF f same_metaD(2) [OF meta]])
qed

lemma grown_refl: "fchain m is sz \<Longrightarrow> grown m m is [] sz"
  by (simp add: grown_def)

text \<open>A write grows the file if necessary and then replaces the bytes of the range.\<close>

lemma storage_write_steps:
  assumes f: "fchain m (i # is) sz" and "reserved m" and buf: "buf \<noteq> []" "0 \<le> off" "off + int (length buf) < 2147483648"
    and room: "off + int (length buf) \<le> 4096 * (int (length is) + 1 + int f)"
      "f \<le> card (free_inodes m)" "f \<le> card (free_blocks m)"
  shows "\<exists>m1 js m'. grown m m1 (i # is) js (max sz (off + int (length buf))) \<and>
    storage_write now m None i buf (int (length buf)) off = Inr (int (length buf), m') \<and> same_meta m1 m' \<and>
    chain_bytes m' (i # is @ js) =
      take (nat off) (chain_bytes m1 (i # is @ js)) @ buf @ drop (nat off + length buf) (chain_bytes m1 (i # is @ js)) \<and>
    (\<forall>a. (\<forall>j \<in> set (i # is @ js). a \<notin> blk m1 j) \<longrightarrow> m' a = m1 a)"
proof -
  let ?n = "int (length buf)" and ?t = "max sz (off + int (length buf))"
  have l: "links m (i # is)" and s: "n_size m i = sz" "0 \<le> sz"
    using f sizes_hd [of m i "is" sz] sizes_length [of m "i # is" sz] by (auto simp: fchain_def)
  note ii = node_okD [OF links_hd [OF l]]
  have sz32: "sz < 2147483648" using s(1) int32_get32 [of m "node_at i + 8"] by (simp add: n_size_def int32_def)
  have small: "to_size sz = sz" "to_size (?n + off) = ?n + off" "to_int32 (?n + off - sz) = ?n + off - sz"
    using s(2) sz32 buf(2,3) by (simp_all add: int32_def)
  obtain m1 js where g: "grown m m1 (i # is) js ?t"
    and w: "storage_write now m None i buf ?n off = write_at m1 (Some (node_at i)) buf ?n off"
  proof (cases "sz < off + ?n")
    case True
    obtain m1 js where g: "grow_inode now m (node_at i) (?n + off - sz) = Inr (0, m1)" "grown m m1 (i # is) js (off + ?n)"
      using grow_inode_grown [OF f, of "?n + off - sz" f now] assms True sz32 s(2) by (auto simp: int32_def add.commute)
    have "storage_write now m None i buf ?n off = write_at m1 (Some (node_at i)) buf ?n off"
      using ii s(1) small buf True g(1) by (simp add: storage_write_def path_inum_def)
    with g(2) True that show thesis by (simp add: max_def)
  next
    case False
    have "storage_write now m None i buf ?n off = write_at m (Some (node_at i)) buf ?n off"
      using ii s(1) small buf False by (simp add: storage_write_def path_inum_def)
    with False that grown_refl [OF f] show thesis by (simp add: max_def)
  qed
  have l1: "links m1 (i # is @ js)" "separate m1 (i # is @ js)" and st: "sizes m1 (i # is @ js) ?t"
    using g by (auto simp: grown_def fchain_def)
  have "off + ?n \<le> 4096 * int (length (i # is @ js))" using sizes_length [OF st] by simp
  then show ?thesis using write_at_correct [OF l1 buf(2) _ buf(3,1)] g w by metis
qed

section \<open>Properties\<close>

text \<open>Splitting a path at its last slash gives the parent directory (the root for a name in it) and the last
  component.\<close>

theorem split_path_last_slash:
  assumes "CHR ''/'' \<notin> set s"
  shows "split_path (p @ CHR ''/'' # s) True = Inr (if p = [] then ''/'' else p, Some s)"
  using split_path_eq [OF assms] by simp

theorem split_path_last_slash_witness: "split_path ''/usr/lib/x'' True = Inr (''/usr/lib'', Some ''x'')"
  using split_path_last_slash [of "''x''" "''/usr/lib''"] by simp

text \<open>Reading inside a well-formed file returns exactly the bytes of that range of the file, however many
  blocks it spans.\<close>

theorem storage_read_range:
  assumes "fchain m (i # is) sz" and "0 < n" and "0 \<le> off" and "off + n \<le> sz"
  shows "storage_read m None i n off = Inr (n, take (nat n) (drop (nat off) (chain_bytes m (i # is))))"
  using assms by (rule storage_read_eq)

theorem storage_read_range_witness:
  "\<exists>m. fchain m [2] 100 \<and> storage_read m None 2 10 50 = Inr (10, take 10 (drop 50 (chain_bytes m [2])))"
proof -
  obtain m js where m: "grown one_file m [2] js 100"
    using grow_inode_grown [of one_file 2 "[]" 0 100 0 7] one_file_chain one_file_reserved by (auto simp: int32_def)
  then have "4096 * (int (length ([2] @ js)) - 1) \<le> 100"
    using sizes_length [of m "[2] @ js" 100] by (simp add: grown_def fchain_def)
  then have "length ([2] @ js) = 1" by (cases js) auto
  with m have "fchain m [2] 100" by (simp add: grown_def)
  with storage_read_range [of m 2 "[]" 100 10 50] show ?thesis by auto
qed

text \<open>C11: Writing to a well-formed file, at any offset and over any number of blocks (allocating what is missing), and
  reading the range back returns the bytes written. The file stays well formed, its size becomes the
  larger of the old size and the end of the range, and its old blocks keep every byte outside the
  range.\<close>

theorem storage_write_read:
  assumes "fchain m (i # is) sz" and "reserved m" and "buf \<noteq> []" and "0 \<le> off" and "off + int (length buf) < 2 ^ 31"
    and "off + int (length buf) \<le> 4096 * (int (length (i # is)) + int f)"
    and "f \<le> card (free_inodes m)" and "f \<le> card (free_blocks m)"
  shows "\<exists>m' js. storage_write now m None i buf (int (length buf)) off = Inr (int (length buf), m') \<and>
    storage_read m' None i (int (length buf)) off = Inr (int (length buf), buf) \<and>
    fchain m' (i # is @ js) (max sz (off + int (length buf))) \<and>
    (\<forall>k < 4096 * length (i # is). k < nat off \<or> nat off + length buf \<le> k \<longrightarrow>
      chain_bytes m' (i # is) ! k = chain_bytes m (i # is) ! k)"
proof -
  let ?n = "int (length buf)" and ?t = "max sz (off + int (length buf))"
  obtain m1 js m' where g: "grown m m1 (i # is) js ?t"
    and w: "storage_write now m None i buf ?n off = Inr (?n, m')" and meta: "same_meta m1 m'"
    and cb: "chain_bytes m' (i # is @ js) =
      take (nat off) (chain_bytes m1 (i # is @ js)) @ buf @ drop (nat off + length buf) (chain_bytes m1 (i # is @ js))"
    using storage_write_steps [OF assms(1-4), of f now] assms(5-8) by auto
  have f1: "fchain m1 ((i # is) @ js) ?t" using g by (simp add: grown_def)
  then have f': "fchain m' (i # is @ js) ?t" using same_meta_fchain [OF f1 meta] by simp
  then have len: "nat off + length buf \<le> length (chain_bytes m1 (i # is @ js))"
    using sizes_length [of m' "i # is @ js" ?t] assms(4) by (auto simp: fchain_def)
  have r: "storage_read m' None i ?n off = Inr (?n, buf)"
    using storage_read_eq [OF f', of ?n off] assms(3,4) cb len by simp
  have old: "chain_bytes m1 (i # is) = chain_bytes m (i # is)"
  proof (intro chain_bytes_cong block_bytes_cong)
    fix j a assume j: "j \<in> set (i # is)"
    then show "n_block m1 j = n_block m j" using g unfolding grown_def by blast
    assume "a \<in> blk m j"
    moreover have "5 \<le> n_block m j" using assms(1) j links_node_ok node_okD(3) unfolding fchain_def by blast
    ultimately show "m1 a = m a" using g by (auto simp: grown_def blk_def)
  qed
  have "chain_bytes m' (i # is) ! k = chain_bytes m (i # is) ! k"
    if k: "k < 4096 * length (i # is)" "k < nat off \<or> nat off + length buf \<le> k" for k
  proof -
    have "chain_bytes m' (i # is) ! k = chain_bytes m' (i # is @ js) ! k"
      using k(1) chain_bytes_append [of m' "i # is" js] by (simp add: nth_append)
    also have "\<dots> = chain_bytes m1 (i # is @ js) ! k" unfolding cb using k len by (auto simp: nth_append)
    also have "\<dots> = chain_bytes m1 (i # is) ! k"
      using k(1) chain_bytes_append [of m1 "i # is" js] by (simp add: nth_append)
    finally show ?thesis by (simp add: old)
  qed
  with w r f' show ?thesis by blast
qed

theorem storage_write_read_witness:
  "\<exists>m'. storage_write 7 one_file None 2 [1, 2, 3] 3 4095 = Inr (3, m') \<and>
     storage_read m' None 2 3 4095 = Inr (3, [1, 2, 3])"
  using storage_write_read [of one_file 2 "[]" 0 "[1, 2, 3]" 4095 10 7] one_file_chain one_file_reserved one_file_free
  by auto

end
