(* ===== verification/StorageDir.thy ===== *)
theory StorageDir
  imports Storage
begin

text \<open>
  Creating and removing objects: what \<open>storage_mknod\<close> and \<open>storage_unlink\<close> of storage.c do to the parent
  directory and to the inode table, on top of the directory and inode lemmas.
\<close>

section \<open>Creating and removing objects\<close>

lemma set_refs_fields:
  assumes "int32 v"
  shows "n_refs (set32 m (node_at j) v) i = (if i = j then v else n_refs m i)" and "n_size (set32 m (node_at j) v) i = n_size m i"
    and "n_mode (set32 m (node_at j) v) i = n_mode m i" and "n_block (set32 m (node_at j) v) i = n_block m i"
    and "n_next (set32 m (node_at j) v) i = n_next m i"
  using assms get_set_field [of v 0 0 m j i] by (simp_all add: node_fields get_set_field0)

lemma set_mode_fields:
  assumes "int32 v"
  shows "n_mode (set32 m (node_at j + 4) v) i = (if i = j then v else n_mode m i)" and "n_size (set32 m (node_at j + 4) v) i = n_size m i"
    and "n_refs (set32 m (node_at j + 4) v) i = n_refs m i" and "n_block (set32 m (node_at j + 4) v) i = n_block m i"
    and "n_next (set32 m (node_at j + 4) v) i = n_next m i"
  using assms by (simp_all add: node_fields get_set_field get_set_field0)

text \<open>A change to the bytes of one inode only.\<close>

definition only_node :: "int \<Rightarrow> img \<Rightarrow> img \<Rightarrow> bool" where
  "only_node i m m' \<longleftrightarrow> (\<forall>a. a < node_at i \<or> node_at i + 40 \<le> a \<longrightarrow> m' a = m a)"

lemma only_node_set32: "0 \<le> k \<Longrightarrow> k + 4 \<le> 40 \<Longrightarrow> only_node i m (set32 m (node_at i + k) v)"
  by (auto simp: only_node_def intro!: set32_other)

lemma only_node_set32_0: "only_node i m (set32 m (node_at i) v)"
  using only_node_set32 [of 0] by simp

lemma only_node_trans: "only_node i m m' \<Longrightarrow> only_node i m' m'' \<Longrightarrow> only_node i m m''"
  by (simp add: only_node_def)

lemma only_nodeD:
  assumes "only_node i m m'" and "inum_ok i"
  shows "j \<noteq> i \<Longrightarrow> same_node m m' j" and "inum_ok j \<Longrightarrow> inode_used m' j = inode_used m j"
    and "0 \<le> b \<Longrightarrow> b < 256 \<Longrightarrow> block_used m' b = block_used m b" and "10752 \<le> a \<Longrightarrow> m' a = m a" and "keeps_use m m'"
proof -
  note nb = node_bounds [OF assms(2)]
  show "same_node m m' j" if "j \<noteq> i"
    using assms(1) node_disjoint [OF that] by (auto simp: same_node_def only_node_def)
  show iu: "inode_used m' j = inode_used m j" if "inum_ok j" for j
  proof -
    have "32 + j div 8 < node_at i" using that nb by (auto simp: inum_ok_def)
    then show ?thesis using assms(1) unfolding inode_used_def by (intro bm_bit_cong) (simp add: only_node_def)
  qed
  show bu: "block_used m' b = block_used m b" if "0 \<le> b" "b < 256" for b
  proof -
    have "0 + b div 8 < node_at i" using that nb by auto
    then show ?thesis using assms(1) unfolding block_used_def by (intro bm_bit_cong) (simp add: only_node_def)
  qed
  show "m' a = m a" if "10752 \<le> a" using that nb assms(1) by (simp add: only_node_def)
  show "keeps_use m m'" using iu bu by (simp add: keeps_use_def)
qed

text \<open>A directory's entries depend on its block only.\<close>

lemma entries_cong:
  assumes "\<And>a. 20480 \<le> a \<Longrightarrow> m' a = m a" and "5 \<le> b"
  shows "ent_filled m' b = ent_filled m b" and "ent_inum m' b = ent_inum m b" and "valid_name s \<Longrightarrow> names m' b s = names m b s"
  using assms by (auto intro!: ext ent_cong simp: slot_def)

lemma free_inode_single:
  assumes i: "inum_ok i" "inode_used m i" and f: "n_refs m i = 0" "n_next m i = -1" "0 \<le> n_size m i" "n_size m i \<le> 4096"
    and b: "0 \<le> n_block m i" "n_block m i < 256"
  shows "\<exists>m'. free_inode m i = Inr m' \<and> \<not> inode_used m' i \<and> \<not> block_used m' (n_block m i) \<and> (\<forall>a. 10752 \<le> a \<longrightarrow> m' a = m a) \<and>
    (\<forall>j. inum_ok j \<longrightarrow> j \<noteq> i \<longrightarrow> same_node m m' j \<and> inode_used m' j = inode_used m j)"
proof -
  let ?m1 = "set32 (set32 m (node_at i + 16) (-1)) (node_at i + 8) 0"
  let ?m2 = "clear_img (put_bit ?m1 0 (n_block m i) False) (node_at i) 40"
  let ?m3 = "put_bit ?m2 32 i False"
  have i': "0 \<le> i" "i < 256" using i(1) by (auto simp: inum_ok_def)
  note fr = set_size_fields [of 0] set_next_fields [of "-1"]
  have on: "only_node i m ?m1" by (rule only_node_trans [of _ _ "set32 m (node_at i + 16) (-1)"]; rule only_node_set32; simp)
  have "free_inode m i = Inr ?m3"
    using i f b i' shrink_inode_last [OF i(1) f(2) refl f(3) order.refl f(4)] mapped_ibit [OF i(1)]
    by (simp add: free_inode_def fr free_block_ok bitmap_put_correct int32_def)
  moreover have "\<not> inode_used ?m3 i" using i' by (simp add: put_bit_used)
  moreover have "\<not> block_used ?m3 (n_block m i)" using i i' b by (simp add: put_bit_used clear_bits)
  moreover have "?m3 a = m a" if "10752 \<le> a" for a
    using that node_bounds [OF i(1)] i' b by (simp add: put_bit_other image_other)
  moreover have "same_node m ?m3 j \<and> inode_used ?m3 j = inode_used m j" if j: "inum_ok j" "j \<noteq> i" for j
  proof
    have "same_node m ?m1 j" using only_nodeD(1) [OF on i(1) j(2)] .
    moreover have "same_node ?m1 (put_bit ?m1 0 (n_block m i) False) j"
      using b j(1) by (intro put_bit_same_node) auto
    moreover have "same_node (put_bit ?m1 0 (n_block m i) False) ?m2 j" using j(2) by (rule clear_same_node)
    moreover have "same_node ?m2 ?m3 j" using i' j(1) by (intro put_bit_same_node) auto
    ultimately show "same_node m ?m3 j" by (simp add: same_node_def)
    have "0 \<le> j" using j(1) by (simp add: inum_ok_def)
    then show "inode_used ?m3 j = inode_used m j"
      using i i' b j only_nodeD(2) [OF on i(1) j(1)] by (simp add: put_bit_used clear_bits)
  qed
  ultimately show ?thesis by blast
qed

lemma dir_at_same:
  assumes "dir_at m (Some (node_at p)) b" and "inum_ok p" and "n_block m' p = n_block m p"
  shows "dir_at m' (Some (node_at p)) b"
  using assms by (auto simp: dir_at_def node_at_def)

lemma storage_mknod_creates:
  assumes p: "inum_ok p" "inode_used m p" and d: "dir_at m (Some (node_at p)) b" and s: "valid_name s" "int32 mode"
    and new: "\<And>k. k < 60 \<Longrightarrow> \<not> names m b s k" and room: "k < 60" "\<not> ent_filled m b k"
    and free: "free_inodes m \<noteq> {}" "free_blocks m \<noteq> {}" and res: "reserved m"
  shows "\<exists>m' i. storage_mknod now m None s p mode = Inr (0, m') \<and> i \<in> free_inodes m \<and>
    directory_lookup m' (Some (node_at p)) s = Inr i \<and> n_refs m' i = 1 \<and> n_mode m' i = mode \<and> fchain m' [i] 0 \<and>
    (\<forall>js sz. fchain m js sz \<longrightarrow> fchain m' js sz) \<and> dir_at m' (Some (node_at p)) b \<and> inode_used m' p"
proof -
  obtain i m1 where al: "alloc_inode now m = Inr (i, m1)" "i \<in> free_inodes m" "node_ok m1 i" "n_next m1 i = -1"
    "keeps_use m m1" "\<And>j. inum_ok j \<Longrightarrow> j \<noteq> i \<Longrightarrow> same_node m m1 j" "\<And>a. 10752 \<le> a \<Longrightarrow> m1 a = m a"
    using grow_alloc [OF p res free, of now] by metis
  have ip: "p \<noteq> i" using al(2) p(2) by (auto simp: free_inodes_def)
  note ii = node_okD [OF al(3)]
  let ?m2 = "set32 m1 (node_at i) 1"
  let ?m3 = "set32 ?m2 (node_at i + 4) mode"
  let ?m4 = "set32 ?m3 (node_at i + 8) 0"
  have z: "int32 0" "int32 1" "int32 i" using ii(1) by (auto simp: int32_def inum_ok_def)
  note fr = set_size_fields [OF z(1)] set_mode_fields [OF s(2)] set_refs_fields [OF z(2)]
  have on: "only_node i m1 ?m4"
    by (rule only_node_trans [OF only_node_trans [OF only_node_set32_0 only_node_set32] only_node_set32]) auto
  note chg = only_nodeD [OF on ii(1)]
  have data: "?m4 a = m a" if "20480 \<le> a" for a using that chg(4) al(7) by simp
  have b5: "5 \<le> b" using dir_atD(4) [OF d] .
  have ents: "ent_filled ?m4 b = ent_filled m b" "names ?m4 b s = names m b s"
    using entries_cong [of ?m4 m b] data b5 s(1) by auto
  have bp: "n_block ?m4 p = n_block m p"
    using same_nodeD(4) [OF al(6) [OF p(1) ip]] same_nodeD(4) [OF chg(1) [OF ip]] by simp
  note d4 = dir_at_same [OF d p(1) bp]
  obtain j where j: "first_slot (\<lambda>k. \<not> ent_filled m b k) 0 = Some j"
    using room first_slot_None [of "\<lambda>k. \<not> ent_filled m b k" 0] by (cases "first_slot (\<lambda>k. \<not> ent_filled m b k) 0") auto
  let ?m5 = "put_ent ?m4 b j s i"
  have none: "first_slot (names m b s) 0 = None" using new by (simp add: first_slot_None)
  have "storage_mknod now m None s p mode = Inr (0, ?m5)"
    using p ii al(1) none j directory_lookup_eq [OF d s(1)] directory_put_eq [OF d4 s(1)] ents(1)
    by (simp add: storage_mknod_def path_inum_def inum_ok_def)
  moreover have "directory_lookup ?m5 (Some (node_at p)) s = Inr i"
    using j ents new by (intro lookup_put [OF d4 s(1) z(3)]) auto
  moreover have m5: "same_meta ?m4 ?m5" using b5 s(1) by (auto simp: same_meta_def slot_def intro!: put_ent_other)
  note sn = same_nodeD [OF same_metaD(1) [OF m5 ii(1)]]
  have "n_refs ?m5 i = 1" "n_mode ?m5 i = mode" using sn fr by simp_all
  moreover have "node_ok ?m4 i" using node_ok_mono [OF al(3) chg(5)] fr by simp
  then have "fchain ?m4 [i] 0" using al(4) fr by (simp add: fchain_def separate_def)
  then have "fchain ?m5 [i] 0" using m5 by (rule same_meta_fchain)
  moreover have "fchain ?m5 js sz" if c: "fchain m js sz" for js sz
  proof -
    have "same_node m ?m4 x" if "x \<in> set js" for x
    proof -
      have "node_ok m x" using c that links_node_ok by (auto simp: fchain_def)
      then have "inum_ok x" "x \<noteq> i" using al(2) by (auto simp: node_ok_def free_inodes_def)
      then show ?thesis using al(6) chg(1) same_node_trans by blast
    qed
    then have "fchain ?m4 js sz" by (rule fchain_mono [OF c keeps_use_trans [OF al(5) chg(5)]])
    then show ?thesis using m5 by (rule same_meta_fchain)
  qed
  moreover have "dir_at ?m5 (Some (node_at p)) b" by (rule dir_at_put_ent [OF d4 s(1)])
  moreover have "inode_used ?m5 p"
    using p keeps_use_trans [OF keeps_use_trans [OF al(5) chg(5)] same_metaD(2) [OF m5]] by (auto simp: keeps_use_def)
  ultimately show ?thesis using al(2) by blast
qed

lemma storage_unlink_last:
  assumes p: "inum_ok p" "inode_used m p" and d: "dir_at m (Some (node_at p)) b" and s: "valid_name s"
    and k: "first_slot (names m b s) 0 = Some k" "ent_inum m b k = i"
    and i: "inum_ok i" "i \<noteq> p" "inode_used m i" "n_refs m i = 1" and f: "fchain m [i] sz"
  shows "\<exists>m'. storage_unlink m None p s = Inr (0, m') \<and> \<not> inode_used m' i \<and> inode_used m' p \<and>
    dir_at m' (Some (node_at p)) b \<and> first_slot (names m' b s) 0 = Some k \<and> ent_inum m' b k = i"
proof -
  let ?m1 = "set32 m (node_at i) 0"
  let ?m2 = "set32 ?m1 (slot b k + 64) 0"
  have z: "int32 0" by (simp add: int32_def)
  note on = only_nodeD [OF only_node_set32_0 [of i m 0] i(1)]
  have b5: "5 \<le> b" and kb: "k < 60" using dir_atD(4) [OF d] k(1) by (auto simp: first_slot_Some)
  have e1: "names ?m1 b s = names m b s" "ent_inum ?m1 b = ent_inum m b"
    using entries_cong [of ?m1 m b] on(4) b5 s by auto
  have d1: "dir_at ?m1 (Some (node_at p)) b"
    by (rule dir_at_same [OF d p(1)]) (use same_nodeD(4) [OF on(1)] i(2) in auto)
  have m2: "same_meta ?m1 ?m2" using b5 by (auto simp: same_meta_def slot_def intro!: set32_other)
  have n2: "names ?m2 b s = names m b s" "ent_inum ?m2 b k = i"
    using clear_filled(2) [OF s, of ?m1 b k 0] clear_filled(1) [of ?m1 b k 0 k] e1 k(2) by auto
  have f2: "n_refs ?m2 i = 0" "n_next ?m2 i = -1" "n_size ?m2 i = sz" "n_block ?m2 i = n_block m i" "0 \<le> sz" "sz \<le> 4096"
    "5 \<le> n_block m i" "n_block m i \<le> 255"
    using f same_nodeD [OF same_metaD(1) [OF m2 i(1)]] set_refs_fields [OF z] by (auto simp: fchain_def node_ok_def)
  have used: "inode_used ?m2 j = inode_used m j" if "inum_ok j" for j
  proof -
    have "inode_used ?m2 j = inode_used ?m1 j"
      using m2 that unfolding inode_used_def inum_ok_def by (intro bm_bit_cong) (auto simp: same_meta_def)
    with on(2) that show ?thesis by simp
  qed
  obtain m' where m': "free_inode ?m2 i = Inr m'" "\<not> inode_used m' i" "\<And>a. 10752 \<le> a \<Longrightarrow> m' a = ?m2 a"
    "\<And>j. inum_ok j \<Longrightarrow> j \<noteq> i \<Longrightarrow> same_node ?m2 m' j \<and> inode_used m' j = inode_used ?m2 j"
    using free_inode_single [OF i(1), of ?m2] used i f2 by auto
  have "storage_unlink m None p s = Inr (0, m')"
    using p i(1,3,4) m'(1) f2(1) k directory_lookup_eq [OF d s] directory_delete_eq [OF d1 s] e1
    by (simp add: storage_unlink_def path_inum_def chk32_def z)
  moreover have "n_block m' p = n_block ?m2 p" using same_nodeD(4) [of ?m2 m' p] m'(4) [OF p(1)] i(2) by simp
  then have "dir_at m' (Some (node_at p)) b" by (rule dir_at_same [OF dir_at_clear [OF d1] p(1)])
  moreover have "names m' b s = names m b s" "ent_inum m' b = ent_inum ?m2 b"
    using entries_cong [of m' ?m2 b] m'(3) b5 s n2(1) by auto
  ultimately show ?thesis using m'(2) m'(4) [OF p(1)] used [OF p(1)] p(2) i(2) k n2(2) by auto
qed

section \<open>Properties\<close>

text \<open>C27: Creating an object in a directory that does not have the name and has a free slot: the name resolves to a
  newly allocated inode with one reference and the given mode that is a well-formed empty file, and
  every existing file stays well formed.\<close>

theorem mknod_creates_file:
  assumes "inum_ok p" and "inode_used m p" and "dir_at m (Some (node_at p)) b" and "valid_name s" and "int32 mode"
    and "\<forall>k < 60. \<not> names m b s k" and "k < 60" and "\<not> ent_filled m b k"
    and "free_inodes m \<noteq> {}" and "free_blocks m \<noteq> {}" and "reserved m"
  shows "\<exists>m' i. storage_mknod now m None s p mode = Inr (0, m') \<and> i \<in> free_inodes m \<and>
    directory_lookup m' (Some (node_at p)) s = Inr i \<and> n_refs m' i = 1 \<and> n_mode m' i = mode \<and> fchain m' [i] 0 \<and>
    (\<forall>js sz. fchain m js sz \<longrightarrow> fchain m' js sz)"
  using storage_mknod_creates [of p m b s mode k now] assms by blast

lemma one_file_ready:
  "inum_ok 2" "inode_used one_file 2" "valid_name ''notes''" "int32 33188" "\<forall>k < 60. \<not> names one_file 5 ''notes'' k"
  "free_inodes one_file \<noteq> {}" "free_blocks one_file \<noteq> {}"
proof -
  show "inum_ok 2" by (simp add: inum_ok_def)
  then show "inode_used one_file 2" by (simp add: one_file_used)
  show "valid_name ''notes''" "int32 33188" by (simp_all add: valid_name_def int32_def)
  show "\<forall>k < 60. \<not> names one_file 5 ''notes'' k" using one_file_dir(3) by simp
  show "free_inodes one_file \<noteq> {}" "free_blocks one_file \<noteq> {}" using one_file_free by auto
qed

theorem mknod_creates_file_witness:
  "\<exists>m' i. storage_mknod 7 one_file None ''notes'' 2 33188 = Inr (0, m') \<and>
     directory_lookup m' (Some (node_at 2)) ''notes'' = Inr i \<and> fchain m' [i] 0"
  using mknod_creates_file [OF one_file_ready(1,2) one_file_dir(1) one_file_ready(3-5) _ one_file_dir(2)
      one_file_ready(6,7) one_file_reserved, of 0 7] by auto

text \<open>C29: Removing the last link to a one-block file frees its inode, but the name stays in the directory: it still
  resolves to the freed inode, so asking for its status dereferences a null pointer and creating the
  name again fails with \<open>EEXIST\<close>.\<close>

theorem unlinked_name_lingers:
  assumes "inum_ok p" and "inode_used m p" and "dir_at m (Some (node_at p)) b" and "valid_name s"
    and "first_slot (names m b s) 0 = Some k" and "ent_inum m b k = i"
    and "inum_ok i" and "i \<noteq> p" and "inode_used m i" and "n_refs m i = 1" and "fchain m [i] sz"
  shows "\<exists>m'. storage_unlink m None p s = Inr (0, m') \<and> directory_lookup m' (Some (node_at p)) s = Inr i \<and>
    storage_stat uid m' None i st = Inl Null_Deref \<and> storage_mknod now m' None s p mode = Inr (- 17, m')"
proof -
  obtain m' where m': "storage_unlink m None p s = Inr (0, m')" "\<not> inode_used m' i" "inode_used m' p"
    "dir_at m' (Some (node_at p)) b" "first_slot (names m' b s) 0 = Some k" "ent_inum m' b k = i"
    using storage_unlink_last [OF assms] by blast
  have l: "directory_lookup m' (Some (node_at p)) s = Inr i" using directory_lookup_eq [OF m'(4) assms(4)] m'(5,6) by simp
  have "storage_stat uid m' None i st = Inl Null_Deref"
    using m'(2) assms(7) by (simp add: storage_stat_def path_inum_def inum_ok_def Let_def)
  moreover have "storage_mknod now m' None s p mode = Inr (- 17, m')"
    using m'(3) l assms(1,7) by (simp add: storage_mknod_def path_inum_def EEXIST_def inum_ok_def)
  ultimately show ?thesis using m'(1) l by blast
qed

theorem unlinked_name_lingers_witness:
  "\<exists>m m' i. directory_lookup m (Some (node_at 2)) ''notes'' = Inr i \<and> storage_unlink m None 2 ''notes'' = Inr (0, m') \<and>
     storage_stat 0 m' None i \<lparr>st_dev = 0, st_ino = 0, st_uid = 0, st_mode = 0, st_nlink = 0, st_size = 0\<rparr> = Inl Null_Deref"
proof -
  obtain m i where m: "i \<in> free_inodes one_file" "directory_lookup m (Some (node_at 2)) ''notes'' = Inr i"
    "n_refs m i = 1" "fchain m [i] 0" "dir_at m (Some (node_at 2)) 5" "inode_used m 2"
    using storage_mknod_creates [OF one_file_ready(1,2) one_file_dir(1) one_file_ready(3,4) _ _ one_file_dir(2)
        one_file_ready(6,7) one_file_reserved, of 0 7] one_file_ready(5) by auto
  have i: "inum_ok i" "i \<noteq> 2" "inode_used m i" "0 < i"
    using m(1,4) one_file_ready(2) by (auto simp: free_inodes_def inum_ok_def fchain_def node_ok_def)
  obtain k where "first_slot (names m 5 ''notes'') 0 = Some k" "ent_inum m 5 k = i"
    using m(2) i(4) directory_lookup_eq [OF m(5) one_file_ready(3)] by (auto split: option.splits)
  from unlinked_name_lingers [OF one_file_ready(1) m(6,5) one_file_ready(3) this i(1-3) m(3,4), of 0 _ 7 33188]
  show ?thesis using m(2) by blast
qed

end
