(* ===== verification/Nufs.thy ===== *)
theory Nufs
  imports StorageDir
begin

text \<open>
  The FUSE callbacks (File System/nufs.c), one definition per callback, over the storage layer. The
  \<open>printf\<close> traces are left out. A callback that never writes the image returns only its result. \<open>uid\<close> is what
  \<open>getuid\<close> returns, \<open>now\<close> what \<open>time\<close> returns, and \<open>st0\<close> the content of an uninitialised \<open>struct stat\<close>.
\<close>

section \<open>The program\<close>

definition nufs_access :: "img \<Rightarrow> string \<Rightarrow> int \<Rightarrow> int res" where
  "nufs_access m path msk =
     bindR (tree_lookup m path) (\<lambda>inum.
     if inum = -1 then Inr (-1)
     else bindR (get_inode m inum) (\<lambda>node. Inr (if node \<noteq> None then 0 else -1)))"

definition nufs_getattr :: "int \<Rightarrow> img \<Rightarrow> string \<Rightarrow> stat_t \<Rightarrow> (int \<times> stat_t) res" where
  "nufs_getattr uid m path st =
     bindR (storage_stat uid m (Some path) (-1) st) (\<lambda>(rv, st).
     if rv < 0 then Inr (- ENOENT, st) else Inr (rv, st))"

text \<open>The inode number of a copied entry.\<close>

definition entry_inum :: "u8 list \<Rightarrow> int" where
  "entry_inum e = get32 (\<lambda>a. e ! nat a) 48"

text \<open>Each round reports the entry of \<open>xs\<close>, unlinks and frees its node and goes on with the next one; the fuel is the
  number of slots of a directory.\<close>

fun readdir_loop :: "nat \<Rightarrow> int \<Rightarrow> img \<Rightarrow> stat_t \<Rightarrow> dheap \<Rightarrow> nat \<Rightarrow> ((u8 list \<times> stat_t) list \<times> dheap) res" where
  "readdir_loop 0 uid m st0 h xs = Inl Out_Of_Fuel"
| "readdir_loop (Suc fuel) uid m st0 h xs =
     (case dh_entries h xs of
        None \<Rightarrow> Inl Bad_Memory
      | Some entry \<Rightarrow>
          bindR (storage_stat uid m None (entry_inum entry) st0) (\<lambda>(rv, st).
          bindR (assertR (rv = 0)) (\<lambda>_.
          let to_del = xs in
          bindR (list_next (dh_links h) xs) (\<lambda>xs.
          bindR (list_del (dh_links h) to_del) (\<lambda>links.
          let h = h\<lparr>dh_links := links(to_del := None), dh_entries := (dh_entries h)(to_del := None)\<rparr> in
          if to_del = xs then Inr ([(c_str entry, st)], h)
          else
            bindR (readdir_loop fuel uid m st0 h xs) (\<lambda>(out, h).
            Inr ((c_str entry, st) # out, h)))))))"

definition nufs_readdir :: "int \<Rightarrow> img \<Rightarrow> string \<Rightarrow> stat_t \<Rightarrow> dheap \<Rightarrow> (int \<times> (u8 list \<times> stat_t) list \<times> dheap) res" where
  "nufs_readdir uid m path st0 h =
     bindR (storage_list m (Some path) (-1) h) (\<lambda>(items, h).
     case items of
       None \<Rightarrow> Inr (0, [], h)
     | Some xs \<Rightarrow> bindR (readdir_loop 60 uid m st0 h xs) (\<lambda>(out, h). Inr (0, out, h)))"

definition nufs_mknod :: "int \<Rightarrow> img \<Rightarrow> string \<Rightarrow> int \<Rightarrow> (int \<times> img) res" where
  "nufs_mknod now m path mode =
     bindR (split_path path True) (\<lambda>(directory, name).
     storage_mknod now m (Some directory) (case name of None \<Rightarrow> [] | Some n \<Rightarrow> n) (-1) mode)"

definition nufs_mkdir :: "int \<Rightarrow> img \<Rightarrow> string \<Rightarrow> int \<Rightarrow> (int \<times> img) res" where
  "nufs_mkdir now m path mode =
     bindR (nufs_mknod now m path (mode OR 16384)) (\<lambda>(rv, m).
     bindR (tree_lookup m path) (\<lambda>inum.
     bindR (get_inode m inum) (\<lambda>node.
     bindR (split_path path False) (\<lambda>(from_parent, _).
     bindR (tree_lookup m from_parent) (\<lambda>parent_inum.
     if 0 \<le> rv then
       bindR (directory_put m node ''.'' inum) (\<lambda>(_, m).
       bindR (directory_put m node ''..'' parent_inum) (\<lambda>(_, m).
       Inr (rv, m)))
     else Inr (rv, m))))))"

definition nufs_unlink :: "img \<Rightarrow> string \<Rightarrow> (int \<times> img) res" where
  "nufs_unlink m path =
     bindR (split_path path True) (\<lambda>(directory, child).
     storage_unlink m (Some directory) (-1) (case child of None \<Rightarrow> [] | Some n \<Rightarrow> n))"

definition nufs_link :: "img \<Rightarrow> string \<Rightarrow> string \<Rightarrow> (int \<times> img) res" where
  "nufs_link m from_path to_path =
     bindR (split_path to_path True) (\<lambda>(to_parent, to_child).
     storage_link m (Some from_path) (-1) (Some to_parent) (-1) (case to_child of None \<Rightarrow> [] | Some n \<Rightarrow> n))"

definition nufs_rmdir :: "img \<Rightarrow> string \<Rightarrow> (int \<times> img) res" where
  "nufs_rmdir m path =
     bindR (tree_lookup m path) (\<lambda>inum.
     bindR (get_inode m inum) (\<lambda>node.
     bindR (deref node) (\<lambda>p.
     bindR (rd32 m (i_mode p)) (\<lambda>mode.
     if mode \<noteq> 16877 then Inr (-1, m) else nufs_unlink m path))))"

definition nufs_rename :: "img \<Rightarrow> string \<Rightarrow> string \<Rightarrow> (int \<times> img) res" where
  "nufs_rename m from_path to_path =
     bindR (split_path from_path True) (\<lambda>(from_parent, from_child).
     bindR (split_path to_path True) (\<lambda>(to_parent, to_child).
     storage_rename m (Some from_parent) (-1) (case from_child of None \<Rightarrow> [] | Some n \<Rightarrow> n)
       (Some to_parent) (-1) (case to_child of None \<Rightarrow> [] | Some n \<Rightarrow> n)))"

definition nufs_chmod :: "img \<Rightarrow> string \<Rightarrow> int \<Rightarrow> (int \<times> img) res" where
  "nufs_chmod m path mode =
     bindR (tree_lookup m path) (\<lambda>inum.
     bindR (get_inode m inum) (\<lambda>node.
     bindR (deref node) (\<lambda>p.
     bindR (rd32 m (i_mode p)) (\<lambda>old.
     if old mod 4294967296 = mode then Inr (0, m)
     else bindR (wr32 m (i_mode p) mode) (\<lambda>m. Inr (0, m))))))"

definition nufs_truncate :: "int \<Rightarrow> img \<Rightarrow> string \<Rightarrow> int \<Rightarrow> (int \<times> img) res" where
  "nufs_truncate now m path sz = storage_truncate now m path sz"

definition nufs_open :: "img \<Rightarrow> string \<Rightarrow> int res" where
  "nufs_open m path = nufs_access m path 0"

definition nufs_read :: "img \<Rightarrow> string \<Rightarrow> int \<Rightarrow> int \<Rightarrow> (int \<times> u8 list) res" where
  "nufs_read m path sz offset = storage_read m (Some path) (-1) sz offset"

definition nufs_write :: "int \<Rightarrow> img \<Rightarrow> string \<Rightarrow> u8 list \<Rightarrow> int \<Rightarrow> int \<Rightarrow> (int \<times> img) res" where
  "nufs_write now m path buf sz offset = storage_write now m (Some path) (-1) buf sz offset"

text \<open>The modification time is stored before the test for a null inode.\<close>

definition nufs_utimens :: "img \<Rightarrow> string \<Rightarrow> int \<Rightarrow> (int \<times> img) res" where
  "nufs_utimens m path tv_sec =
     bindR (tree_lookup m path) (\<lambda>inum.
     bindR (get_inode m inum) (\<lambda>node.
     bindR (deref node) (\<lambda>p.
     bindR (wr64 m (i_mtime p) tv_sec) (\<lambda>m.
     if node = None then Inr (-1, m) else Inr (0, m)))))"

definition nufs_ioctl :: "img \<Rightarrow> string \<Rightarrow> int \<Rightarrow> int res" where
  "nufs_ioctl m path cmd = Inr 0"

section \<open>Lemmas\<close>

lemma path_inum_Some: "path_inum m (Some p) inum = tree_lookup m p"
  by (simp add: path_inum_def)

lemma path_inum_None: "path_inum m None inum = Inr inum"
  by (simp add: path_inum_def)

lemma readdir_loop_correct:
  assumes "dlist h (d # ns) (e # es)" and "length ns < fuel"
    and "\<And>x. x \<in> set (e # es) \<Longrightarrow> \<exists>st. storage_stat uid m None (entry_inum x) st0 = Inr (0, st)"
  shows "\<exists>out h'. readdir_loop fuel uid m st0 h d = Inr (out, h') \<and> map fst out = map c_str (e # es)"
  using assms
proof (induction ns arbitrary: h d e es fuel)
  case Nil
  then obtain f where f: "fuel = Suc f" by (cases fuel) auto
  have r: "ring (dh_links h) [d]" and es: "es = []" "dh_entries h d = Some e" using Nil(1) by (auto simp: dlist_def)
  obtain st where "storage_stat uid m None (entry_inum e) st0 = Inr (0, st)" using Nil(3) by auto
  with list_del_single [OF r] f es show ?case by (auto simp: Let_def)
next
  case (Cons x ns)
  then obtain f where f: "fuel = Suc f" "length ns < f" by (cases fuel) auto
  obtain e' es' where es: "es = e' # es'" using Cons.prems(1) by (cases es) (auto simp: dlist_def)
  have r: "ring (dh_links h) (d # x # ns)" and en: "dh_entries h d = Some e"
    "map (dh_entries h) (x # ns) = map Some (e' # es')" "\<forall>n \<in> set (d # x # ns). n < dh_new h" and dx: "d \<notin> set (x # ns)"
    using Cons.prems(1) es by (auto simp: dlist_def)
  obtain st where st: "storage_stat uid m None (entry_inum e) st0 = Inr (0, st)" using Cons.prems(3) by auto
  obtain l where l: "list_next (dh_links h) d = Inr x" "list_del (dh_links h) d = Inr l" "ring (l(d := None)) (x # ns)"
    using list_del_head [OF r] by blast
  let ?h = "h\<lparr>dh_links := l(d := None), dh_entries := (dh_entries h)(d := None)\<rparr>"
  have "map (dh_entries ?h) (x # ns) = map Some (e' # es')" using en(2) dx by (auto simp: map_eq_conv [symmetric])
  then have "dlist ?h (x # ns) (e' # es')" using l(3) en(3) by (simp add: dlist_def)
  then obtain out h' where "readdir_loop f uid m st0 ?h x = Inr (out, h')" "map fst out = map c_str (e' # es')"
    using Cons.IH [of ?h x e' es' f] f(2) Cons.prems(3) es by auto
  with f(1) en(1) st l dx es show ?case by (auto simp: Let_def)
qed

lemma length_ring_order [simp]: "length (ring_order xs) = length xs"
  by (cases xs) auto

lemma set_ring_order [simp]: "set (ring_order xs) = set xs"
  by (cases xs) auto

lemma length_filled_from: "length (filled_from m b i) \<le> 60"
proof -
  have "length (filter (ent_filled m b) [i..<60]) \<le> length [i..<60]" by (rule length_filter_le)
  then show ?thesis by (simp add: filled_from_def)
qed

text \<open>Path lookup reads the bitmap, the block fields and the data blocks only.\<close>

definition blocks_ok :: "img \<Rightarrow> bool" where
  "blocks_ok m \<longleftrightarrow> (\<forall>j. inum_ok j \<longrightarrow> inode_used m j \<longrightarrow> n_block m j \<in> {5..255})"

definition same_tree :: "img \<Rightarrow> img \<Rightarrow> bool" where
  "same_tree m m' \<longleftrightarrow> (\<forall>a. 20480 \<le> a \<longrightarrow> m' a = m a) \<and>
     (\<forall>j. inum_ok j \<longrightarrow> inode_used m' j = inode_used m j \<and> n_block m' j = n_block m j)"

lemma str_at_same: "same_tree m m' \<Longrightarrow> 20480 \<le> a \<Longrightarrow> str_at m' a s = str_at m a s"
  by (induction s arbitrary: a) (auto simp: rd8_def same_tree_def intro!: bindR_cong)

lemma lookup_loop_same:
  assumes "same_tree m m'" and "5 \<le> b" and "0 \<le> i"
  shows "lookup_loop m' (4096 * b) s i = lookup_loop m (4096 * b) s i"
  using assms(3)
proof (induction "nat (60 - i)" arbitrary: i)
  case 0
  then show ?case by (subst (1 2) lookup_loop.simps) simp
next
  case (Suc n)
  have "str_at m' (d_name (4096 * b + DIRENT_SIZE * i)) s = str_at m (d_name (4096 * b + DIRENT_SIZE * i)) s"
    using assms(2) Suc.prems by (intro str_at_same [OF assms(1)]) (simp add: d_name_def DIRENT_SIZE_def)
  moreover have "get32 m' (d_inum (4096 * b + DIRENT_SIZE * i)) = get32 m (d_inum (4096 * b + DIRENT_SIZE * i))"
    using assms(1,2) Suc.prems
    by (intro get32_cong) (simp add: same_tree_def d_inum_def DIRENT_SIZE_def DIR_NAME_LENGTH_def)
  moreover have "lookup_loop m' (4096 * b) s (i + 1) = lookup_loop m (4096 * b) s (i + 1)"
    using Suc by (intro Suc.hyps(1)) auto
  ultimately show ?case by (subst (1 2) lookup_loop.simps) (simp add: rd32_def cong: if_cong)
qed

lemma tree_walk_same:
  assumes "same_tree m m'" and "blocks_ok m" and "0 \<le> i"
  shows "tree_walk m' i xs = tree_walk m i xs"
  using assms(3)
proof (induction xs arbitrary: i)
  case (Cons x xs)
  show ?case
  proof (cases "inum_ok i")
    case ok: True
    have u: "inode_used m' i = inode_used m i" "n_block m' i = n_block m i" using assms(1) ok by (auto simp: same_tree_def)
    show ?thesis
    proof (cases "inode_used m i")
      case True
      then have "directory_lookup m' (Some (node_at i)) x = directory_lookup m (Some (node_at i)) x"
        using assms(2) ok u lookup_loop_same [OF assms(1), of "n_block m i" 0]
        by (auto simp: directory_lookup_def dir_contents_def blocks_ok_def)
      with Cons ok u True show ?thesis by (auto intro!: bindR_cong)
    next
      case False
      with Cons ok u show ?thesis by (simp add: directory_lookup_def dir_contents_def)
    qed
  next
    case False
    with Cons show ?thesis by (auto simp: inum_ok_def)
  qed
qed simp

lemma tree_lookup_same: "same_tree m m' \<Longrightarrow> blocks_ok m \<Longrightarrow> tree_lookup m' p = tree_lookup m p"
  by (simp add: tree_lookup_def ROOT_INODE_def tree_walk_same inum_ok_def)

end
