(* ===== verification/Mount.thy ===== *)
theory Mount
  imports Nufs
begin

text \<open>
  Mounting: what \<open>storage_init\<close> (\<open>blocks_init\<close> followed by \<open>directory_init\<close>) makes of a blank image, and that mounting an
  image again changes nothing. The mounted blank image is the starting point of the examples. The properties
  of the callbacks of nufs.c are stated here as well.
\<close>

section \<open>The root directory of a blank image\<close>

definition root_bits :: img where
  "root_bits = put_bit (put_bit (put_bit (put_bit (put_bit (put_bit (\<lambda>_. 0)
     0 0 True) 0 1 True) 0 2 True) 0 3 True) 0 4 True) 32 1 True"

definition root_start :: img where
  "root_start = set32 (set32 (set32 (clear_img root_bits (node_at 1) 40) (node_at 1 + 4) 16877) (node_at 1) 1) (node_at 1 + 8) 0"

definition root_node :: "int \<Rightarrow> img" where
  "root_node now =
     set64 (set64 (set32 (set32 (put_bit root_start 0 5 True) (node_at 1 + 12) 5) (node_at 1 + 16) (-1)) (node_at 1 + 24) now)
       (node_at 1 + 32) now"

definition root_image :: "int \<Rightarrow> img" where
  "root_image now = put_ent (put_ent (root_node now) 5 0 ''.'' 1) 5 1 ''..'' 1"

lemma inum_ok_1: "inum_ok 1"
  by (simp add: inum_ok_def)

lemma only_node_set64: "0 \<le> k \<Longrightarrow> k + 8 \<le> 40 \<Longrightarrow> only_node i m (set64 m (node_at i + k) v)"
  by (auto simp: only_node_def intro!: set64_other)

lemma only_node_clear: "only_node i m (clear_img m (node_at i) 40)"
  by (auto simp: only_node_def intro!: clear_img_other)

lemma only_root_start: "only_node 1 root_bits root_start"
  unfolding root_start_def
  by (rule only_node_trans [OF only_node_trans [OF only_node_trans [OF only_node_clear only_node_set32]
        only_node_set32_0] only_node_set32]) auto

lemma only_root_node: "only_node 1 (put_bit root_start 0 5 True) (root_node now)"
  unfolding root_node_def
  by (rule only_node_trans [OF only_node_trans [OF only_node_trans [OF only_node_set32 only_node_set32]
        only_node_set64] only_node_set64]) auto

lemma root_bits_used:
  "0 \<le> b \<Longrightarrow> b < 256 \<Longrightarrow> block_used root_bits b = (b < 5)" "inum_ok i \<Longrightarrow> inode_used root_bits i = (i = 1)"
proof -
  show "block_used root_bits b = (b < 5)" if "0 \<le> b" "b < 256"
  proof -
    have "block_used root_bits b = (b = 4 \<or> b = 3 \<or> b = 2 \<or> b = 1 \<or> b = 0)"
      using that by (simp add: root_bits_def put_bit_used) (simp add: block_used_def bm_bit_def)
    with that show ?thesis by auto
  qed
  show "inode_used root_bits i = (i = 1)" if "inum_ok i"
  proof -
    have "0 \<le> i" "\<not> inode_used (\<lambda>_. 0) i" using that by (simp_all add: inum_ok_def inode_used_def bm_bit_def)
    with that show ?thesis by (simp add: root_bits_def put_bit_used)
  qed
qed

lemma root_node_used:
  "0 \<le> b \<Longrightarrow> b < 256 \<Longrightarrow> block_used (root_node now) b = (b < 6)" "inum_ok i \<Longrightarrow> inode_used (root_node now) i = (i = 1)"
  using only_nodeD(2,3) [OF only_root_node inum_ok_1] only_nodeD(2,3) [OF only_root_start inum_ok_1]
  by (auto simp: put_bit_used root_bits_used)

lemma root_node_fields:
  "n_block (root_node now) 1 = 5" "n_next (root_node now) 1 = -1" "n_mode (root_node now) 1 = 16877"
  "n_refs (root_node now) 1 = 1" "n_size (root_node now) 1 = 0"
proof -
  have b: "n_mode root_start 1 = 16877" "n_refs root_start 1 = 1" "n_size root_start 1 = 0"
    by (simp_all add: root_start_def set_size_fields set_refs_fields set_mode_fields int32_def)
  then have c: "n_mode (put_bit root_start 0 5 True) 1 = 16877" "n_refs (put_bit root_start 0 5 True) 1 = 1"
    "n_size (put_bit root_start 0 5 True) 1 = 0" by (simp_all add: put_bit_fields inum_ok_1)
  have "get32 (root_node now) (node_at 1 + k) = get32 (put_bit root_start 0 5 True) (node_at 1 + k)" if "k + 4 \<le> 12" for k
    using that unfolding root_node_def by (intro get32_cong) (simp add: image_other)
  from this [of 0] this [of 4] this [of 8] c
  show "n_mode (root_node now) 1 = 16877" "n_refs (root_node now) 1 = 1" "n_size (root_node now) 1 = 0"
    by (simp_all add: node_fields)
  show "n_block (root_node now) 1 = 5" "n_next (root_node now) 1 = -1"
    by (simp_all add: node_fields root_node_def get32_set64_other get_set_field int32_def)
qed

lemma root_node_data: "20480 \<le> a \<Longrightarrow> root_node now a = 0"
  using only_nodeD(4) [OF only_root_node inum_ok_1] only_nodeD(4) [OF only_root_start inum_ok_1]
  by (simp add: put_bit_other root_bits_def)

lemma root_node_dir:
  "dir_at (root_node now) (Some (node_at 1)) 5" "\<not> ent_filled (root_node now) 5 i"
proof -
  show "dir_at (root_node now) (Some (node_at 1)) 5"
    by (auto simp: dir_at_def root_node_fields inum_ok_1 intro!: exI [of _ 1])
  show "\<not> ent_filled (root_node now) 5 i" by (simp add: ent_filled_def get32_def root_node_data slot_def)
qed

lemma dot_names: "valid_name ''.''" "valid_name ''..''" "int32 1"
  by (simp_all add: valid_name_def int32_def)

lemma root_puts:
  "directory_put (root_node now) (Some (node_at 1)) ''.'' 1 = Inr (0, put_ent (root_node now) 5 0 ''.'' 1)"
  "directory_put (put_ent (root_node now) 5 0 ''.'' 1) (Some (node_at 1)) ''..'' 1 = Inr (0, root_image now)"
proof -
  have "first_slot (\<lambda>j. \<not> ent_filled (root_node now) 5 j) 0 = Some 0" by (simp add: first_slot_Some root_node_dir)
  then show "directory_put (root_node now) (Some (node_at 1)) ''.'' 1 = Inr (0, put_ent (root_node now) 5 0 ''.'' 1)"
    using directory_put_eq [OF root_node_dir(1) dot_names(1)] by simp
  have "first_slot (\<lambda>j. \<not> ent_filled (put_ent (root_node now) 5 0 ''.'' 1) 5 j) 0 = Some 1"
    using put_ent_fields(2) [OF dot_names(1,3)] put_ent_others(2) [OF dot_names(1)]
    by (auto simp: first_slot_Some root_node_dir)
  then show "directory_put (put_ent (root_node now) 5 0 ''.'' 1) (Some (node_at 1)) ''..'' 1 = Inr (0, root_image now)"
    using directory_put_eq [OF dir_at_put_ent [OF root_node_dir(1) dot_names(1)] dot_names(2)] by (simp add: root_image_def)
qed

lemma mount_blank: "storage_init True True True now (\<lambda>_. 0) = Inr (root_image now)"
proof -
  let ?m0 = "put_bit (put_bit (put_bit (put_bit (put_bit (\<lambda>_. 0) 0 0 True) 0 1 True) 0 2 True) 0 3 True) 0 4 True"
  have unused: "\<not> bm_bit ?m0 32 1"
    using put_bit_used(2) [of _ 1] inum_ok_1 by (simp add: inode_used_def [symmetric]) (simp add: inode_used_def bm_bit_def)
  have used: "inode_used root_bits 1" by (simp add: root_bits_used inum_ok_1)
  have rs: "block_used root_start b = (b < 5)" if "0 \<le> b" "b < 256" for b
    using only_nodeD(3) [OF only_root_start inum_ok_1 that] root_bits_used(1) [OF that] by simp
  have "fresh_block root_start 5" using rs by (auto simp: fresh_block_def first_clear_def block_used_def [symmetric])
  then have al: "alloc_block root_start = Inr (5, put_bit root_start 0 5 True)" by (simp add: alloc_block_fresh take_block_def)
  have "directory_init now ?m0 = Inr (root_image now)"
    using unused used al root_puts mapped_ibit [OF inum_ok_1]
    by (simp add: directory_init_def ROOT_INODE_def bitmap_get_correct bitmap_put_correct root_bits_def [symmetric]
        inum_ok_1 root_start_def [symmetric] root_node_def [symmetric])
  then show ?thesis by (simp add: storage_init_def blocks_init_ok)
qed

lemma root_image_meta: "same_meta (root_node now) (root_image now)"
  by (auto simp: same_meta_def root_image_def slot_def valid_name_def intro!: put_ent_other trans [OF put_ent_other put_ent_other])

lemma root_image_used:
  "0 \<le> b \<Longrightarrow> b < 256 \<Longrightarrow> block_used (root_image now) b = (b < 6)" "inum_ok i \<Longrightarrow> inode_used (root_image now) i = (i = 1)"
proof -
  show "block_used (root_image now) b = (b < 6)" if "0 \<le> b" "b < 256"
    using root_image_meta [of now] root_node_used(1) [OF that, of now] that unfolding block_used_def
    by (subst bm_bit_cong [of _ _ _ "root_node now"]) (auto simp: same_meta_def)
  show "inode_used (root_image now) i = (i = 1)" if "inum_ok i"
    using root_image_meta [of now] root_node_used(2) [OF that, of now] that unfolding inode_used_def inum_ok_def
    by (subst bm_bit_cong [of _ _ _ "root_node now"]) (auto simp: same_meta_def)
qed

lemma root_image_fields:
  "n_block (root_image now) 1 = 5" "n_mode (root_image now) 1 = 16877" "n_refs (root_image now) 1 = 1"
  using same_nodeD [OF same_metaD(1) [OF root_image_meta inum_ok_1], of now] root_node_fields [of now] by simp_all

lemma root_image_dir: "dir_at (root_image now) (Some (node_at 1)) 5"
  unfolding root_image_def by (intro dir_at_put_ent root_node_dir dot_names)

lemma root_image_ents:
  "ent_filled (root_image now) 5 i = (i = 0 \<or> i = 1)" "i = 0 \<or> i = 1 \<Longrightarrow> ent_inum (root_image now) 5 i = 1"
  "valid_name s \<Longrightarrow> s \<noteq> [] \<Longrightarrow> names (root_image now) 5 s i = (i = 0 \<and> s = ''.'' \<or> i = 1 \<and> s = ''..'')"
proof -
  note f = put_ent_fields [OF dot_names(1,3)] put_ent_fields [OF dot_names(2,3)]
  note o = put_ent_others [OF dot_names(1)] put_ent_others [OF dot_names(2)]
  show "ent_filled (root_image now) 5 i = (i = 0 \<or> i = 1)"
    using f(2,5) o(2,5) root_node_dir(2) by (cases "i = 1"; cases "i = 0") (auto simp: root_image_def)
  show "i = 0 \<or> i = 1 \<Longrightarrow> ent_inum (root_image now) 5 i = 1"
    using f(1,4) o(1,4) by (cases "i = 1") (auto simp: root_image_def)
  have "\<not> names (root_node now) 5 s i" if "valid_name s" "s \<noteq> []"
    using that by (cases s) (auto simp: names_def holds_str_Cons root_node_data slot_def valid_name_def dest: sym [of 0])
  then show "names (root_image now) 5 s i = (i = 0 \<and> s = ''.'' \<or> i = 1 \<and> s = ''..'')" if "valid_name s" "s \<noteq> []"
    using that f(3,6) o(3,6) by (cases "i = 1"; cases "i = 0") (auto simp: root_image_def)
qed

lemma root_image_lookup:
  "directory_lookup (root_image now) (Some (node_at 1)) ''.'' = Inr 1"
  "directory_lookup (root_image now) (Some (node_at 1)) ''..'' = Inr 1"
proof -
  have "first_slot (names (root_image now) 5 ''.'') 0 = Some 0" "first_slot (names (root_image now) 5 ''..'') 0 = Some 1"
    by (auto simp: first_slot_Some root_image_ents dot_names)
  then show "directory_lookup (root_image now) (Some (node_at 1)) ''.'' = Inr 1"
    "directory_lookup (root_image now) (Some (node_at 1)) ''..'' = Inr 1"
    using directory_lookup_eq [OF root_image_dir] by (simp_all add: dot_names root_image_ents)
qed

lemma root_image_tree:
  "tree_lookup (root_image now) ''/'' = Inr 1" "tree_lookup (root_image now) ''/.'' = Inr 1"
  "tree_lookup (root_image now) ''/..'' = Inr 1"
  by (simp_all add: tree_lookup_def ROOT_INODE_def inum_ok_1 root_image_used root_image_lookup explode.simps)

lemma root_image_blocks_ok: "blocks_ok (root_image now)"
  by (simp add: blocks_ok_def root_image_used root_image_fields)

lemma root_image_free: "reserved (root_image now)" "free_inodes (root_image now) = {2..63}" "free_blocks (root_image now) = {6..255}"
  by (auto simp: reserved_def free_inodes_def free_blocks_def root_image_used inum_ok_def)

section \<open>Mounting again\<close>

lemma put_bit_idem: "bm_bit m bm i \<Longrightarrow> put_bit m bm i True = m"
proof -
  assume "bm_bit m bm i"
  then have "set_bit (nat (i mod 8)) (m (bm + i div 8)) = m (bm + i div 8)"
    by (intro bit_word_eqI) (auto simp: bm_bit_def bit_set_bit_iff)
  then show ?thesis by (auto simp: put_bit_def Let_def)
qed

lemma remount:
  assumes "reserved m" and "inode_used m 1"
  shows "storage_init True True True now m = Inr m"
proof -
  have "bm_bit m 0 b" if "b \<in> {0..4}" for b using assms(1) that by (auto simp: reserved_def block_used_def)
  then have "blocks_init True True True m = Inr m" by (simp add: blocks_init_ok put_bit_idem)
  moreover have "directory_init now m = Inr m"
    using assms(2) mapped_ibit [OF inum_ok_1]
    by (simp add: directory_init_def ROOT_INODE_def bitmap_get_correct inode_used_def)
  ultimately show ?thesis by (simp add: storage_init_def)
qed

section \<open>Properties\<close>

text \<open>C32: Mounting a blank image gives a file system with just a root directory: \<open>/\<close>, \<open>/.\<close> and \<open>/..\<close> resolve to inode 1, a
  directory with one block, and all other inodes and data blocks are free. Mounting the result again,
  at any time, leaves it as it is.\<close>

theorem mount_fresh:
  "\<exists>m. storage_init True True True now (\<lambda>_. 0) = Inr m \<and> storage_init True True True later m = Inr m \<and>
     tree_lookup m ''/'' = Inr 1 \<and> tree_lookup m ''/.'' = Inr 1 \<and> tree_lookup m ''/..'' = Inr 1 \<and>
     n_mode m 1 = 16877 \<and> n_refs m 1 = 1 \<and> n_block m 1 = 5 \<and>
     reserved m \<and> free_inodes m = {2..63} \<and> free_blocks m = {6..255}"
  using mount_blank [of now] remount [OF root_image_free(1), of now later] root_image_tree [of now] root_image_fields [of now]
    root_image_free [of now] root_image_used(2) [OF inum_ok_1] by (intro exI [of _ "root_image now"]) simp

text \<open>C30: listing a directory whose live entries all have an inode that \<open>storage_stat\<close> reports, as the code asserts, reports the name of every live entry exactly once (the first one, then the others from the
  last to the second) and returns; the list it walks is freed node by node while it is walked.\<close>

theorem readdir_lists_entries:
  assumes "tree_lookup m path = Inr inum" and "get_inode m inum = Inr dd" and "dir_at m dd b"
    and "\<forall>e \<in> set (filled_from m b 0). \<exists>st. storage_stat uid m None (entry_inum e) st0 = Inr (0, st)"
  shows "\<exists>out h'. nufs_readdir uid m path st0 h = Inr (0, out, h') \<and>
    map fst out = map c_str (ring_order (filled_from m b 0))"
proof -
  obtain p h1 ns where l: "list_loop m (4096 * b) 0 None h = Inr (p, h1)"
    "if filled_from m b 0 = [] then p = None else p = Some (hd ns) \<and> dlist h1 ns (ring_order (filled_from m b 0))"
    using list_loop_none [OF dir_atD(2,3) [OF assms(3)], of m 0 h] by auto
  then have sl: "storage_list m (Some path) (-1) h = Inr (p, h1)"
    using assms(1,2) dir_atD(1) [OF assms(3)] by (simp add: storage_list_def directory_list_def)
  show ?thesis
  proof (cases "filled_from m b 0 = []")
    case True
    with l sl show ?thesis by (simp add: nufs_readdir_def)
  next
    case False
    obtain e es where es: "ring_order (filled_from m b 0) = e # es" using False by (cases "filled_from m b 0") auto
    obtain d ds where ns: "ns = d # ds" using l(2) False es by (cases ns) (auto simp: dlist_def)
    have "length ds < 60"
      using l(2) False es ns length_filled_from [of m b 0] length_ring_order [of "filled_from m b 0"]
      by (auto simp: dlist_def dest!: map_eq_imp_length_eq)
    moreover have "set (e # es) = set (filled_from m b 0)" using es by (metis set_ring_order)
    ultimately obtain out h' where "readdir_loop 60 uid m st0 h1 d = Inr (out, h')" "map fst out = map c_str (e # es)"
      using readdir_loop_correct [of h1 d ds e es 60 uid m st0] l(2) False es ns assms(4) by auto
    with sl l(2) False ns es show ?thesis by (simp add: nufs_readdir_def)
  qed
qed

lemma entry_inum_get_bytes: "entry_inum (get_bytes m (slot b j) 68) = ent_inum m b j"
  unfolding entry_inum_def ent_inum_def get32_def get_bytes_def by (simp add: Let_def nth_append add.commute [of "slot b j"])

lemma root_image_stat: "\<exists>st. storage_stat uid (root_image now) None 1 st0 = Inr (0, st)"
  by (simp add: storage_stat_def path_inum_None inum_ok_1 root_image_used Let_def)

theorem readdir_lists_entries_witness:
  "\<exists>out h'. nufs_readdir 0 (root_image 7) ''/'' \<lparr>st_dev = 0, st_ino = 0, st_uid = 0, st_mode = 0, st_nlink = 0, st_size = 0\<rparr>
     \<lparr>dh_links = Map.empty, dh_entries = Map.empty, dh_new = 0\<rparr> = Inr (0, out, h') \<and> length out = 2"
proof -
  have f: "filter (ent_filled (root_image 7) 5) [0..<60] = [0, 1]"
    by (simp add: root_image_ents upt_conv_Cons filter_False del: upt_Suc) 
  then have l: "length (filled_from (root_image 7) 5 0) = 2" by (simp add: filled_from_def)
  have "\<exists>st. storage_stat 0 (root_image 7) None (entry_inum e) st0 = Inr (0, st)"
    if "e \<in> set (filled_from (root_image 7) 5 0)" for e st0
    using that f root_image_stat by (auto simp: filled_from_def entry_inum_get_bytes root_image_ents)
  moreover have "get_inode (root_image 7) 1 = Inr (Some (node_at 1))" by (simp add: inum_ok_1 root_image_used)
  ultimately show ?thesis
    using readdir_lists_entries [OF root_image_tree(1) _ root_image_dir] l by (metis length_map length_ring_order)
qed

text \<open>After \<open>chmod\<close> succeeds on a path, \<open>getattr\<close> of that path reports the new mode, and the lookup of every other path
  is unchanged.\<close>

theorem chmod_getattr:
  assumes "blocks_ok m" and "tree_lookup m path = Inr i" and "inum_ok i" and "inode_used m i" and "0 \<le> mode" and "mode < 2 ^ 31"
  shows "\<exists>m' st'. nufs_chmod m path mode = Inr (0, m') \<and> nufs_getattr uid m' path st = Inr (0, st') \<and>
    st_mode st' = mode \<and> st_ino st' = i \<and> (\<forall>p. tree_lookup m' p = tree_lookup m p)"
proof -
  let ?m = "if n_mode m i mod 4294967296 = mode then m else set32 m (node_at i + 4) mode"
  have v: "int32 mode" using assms(5,6) by (simp add: int32_def)
  have "int32 (n_mode m i)" by (simp add: n_mode_def)
  then have mode: "n_mode ?m i = mode"
    using set_mode_fields(1) [OF v] int32_mod [of "n_mode m i"] assms(5,6) by (auto simp: int32_def split: if_splits)
  have on: "only_node i m ?m" using only_node_set32 [of 4 i m mode] by (simp add: only_node_def)
  have same: "same_tree m ?m"
    using only_nodeD [OF on assms(3)] set_mode_fields(4) [OF v] by (simp add: same_tree_def)
  note tl = tree_lookup_same [OF same assms(1)]
  have "nufs_chmod m path mode = Inr (0, ?m)" using assms(2-4) by (simp add: nufs_chmod_def)
  moreover have "\<exists>st'. nufs_getattr uid ?m path st = Inr (0, st') \<and> st_mode st' = mode \<and> st_ino st' = i"
    using assms(2-4) only_nodeD(2) [OF on assms(3,3)] mode tl
    by (auto simp: nufs_getattr_def storage_stat_def path_inum_Some Let_def inum_ok_def)
  ultimately show ?thesis using tl by blast
qed

theorem chmod_getattr_witness:
  "\<exists>m' st'. nufs_chmod (root_image 7) ''/'' 16832 = Inr (0, m') \<and>
     nufs_getattr 0 m' ''/'' \<lparr>st_dev = 0, st_ino = 0, st_uid = 0, st_mode = 0, st_nlink = 0, st_size = 0\<rparr> = Inr (0, st') \<and>
     st_mode st' = 16832"
proof -
  have "inode_used (root_image 7) 1" by (simp add: inum_ok_1 root_image_used)
  then show ?thesis
    using chmod_getattr [OF root_image_blocks_ok root_image_tree(1) inum_ok_1, of 7 16832 0] by fastforce
qed

text \<open>C31: On a path that does not exist, \<open>access\<close> and \<open>getattr\<close> report the error, while \<open>chmod\<close>, \<open>utimens\<close> and \<open>rmdir\<close> and a read of
  at least one byte dereference the null inode, and \<open>truncate\<close> and \<open>write\<close> fail an assertion.\<close>

theorem missing_path_errors:
  assumes "tree_lookup m path = Inr (-1)" and "n \<noteq> 0" and "0 \<le> off"
  shows "nufs_access m path msk = Inr (-1) \<and> nufs_getattr uid m path st = Inr (-2, st) \<and>
    nufs_chmod m path mode = Inl Null_Deref \<and> nufs_utimens m path t = Inl Null_Deref \<and> nufs_rmdir m path = Inl Null_Deref \<and>
    nufs_read m path n off = Inl Null_Deref \<and> nufs_truncate now m path sz = Inl Assert_Failed \<and>
    nufs_write now m path buf n off = Inl Assert_Failed"
  using assms by (simp add: nufs_access_def nufs_getattr_def nufs_chmod_def nufs_utimens_def nufs_rmdir_def nufs_read_def
    nufs_truncate_def nufs_write_def storage_stat_def storage_read_def storage_truncate_def storage_write_def
    path_inum_Some ENOENT_def)

theorem missing_path_errors_witness:
  "tree_lookup (root_image 7) ''/x'' = Inr (-1) \<and> nufs_utimens (root_image 7) ''/x'' 3 = Inl Null_Deref"
proof -
  have v: "valid_name ''x''" by (simp add: valid_name_def)
  have "first_slot (names (root_image 7) 5 ''x'') 0 = None" by (simp add: first_slot_None root_image_ents v)
  then have "directory_lookup (root_image 7) (Some (node_at 1)) ''x'' = Inr (-2)"
    using directory_lookup_eq [OF root_image_dir v] by simp
  then have "tree_lookup (root_image 7) ''/x'' = Inr (-1)"
    by (simp add: tree_lookup_def ROOT_INODE_def inum_ok_1 root_image_used explode.simps)
  with missing_path_errors [OF this, of 1 0] show ?thesis by simp
qed

end
