(* ===== verification/Tokens.thy ===== *)
theory Tokens
  imports Growable
begin

text \<open>
  The tokenizer of the mini-shell, \<open>Shell/tokens.c\<close>, and the \<open>tokenize\<close> program over it: the
  global token array with its growth, the readers that fill a fixed buffer, the loop that splits a
  line, the stored previous command, and the recursion through which the word \<open>prev\<close> replays it.
  A C string is the list of its characters before the terminating zero, the remaining input after
  a pointer is the rest of that list.
\<close>

section \<open>The token array\<close>

text \<open>A slot of the array is never written, a null pointer or a pointer to a string.\<close>

datatype tok = Undef | Nul | Str string

record tokens_state =
  tokens_size :: nat
  tokens_capacity :: nat
  tokens :: "tok list option"
  is_tokens_initialized :: bool
  prev_command :: string

definition MAX_CAP :: nat where
  "MAX_CAP = 256"

definition MAX_TOKEN_SIZE :: nat where
  "MAX_TOKEN_SIZE = 255"

definition tokens_start :: tokens_state where
  "tokens_start = \<lparr> tokens_size = 0, tokens_capacity = MAX_CAP, tokens = None,
     is_tokens_initialized = False, prev_command = [] \<rparr>"

text \<open>The argument \<open>al\<close> says whether an allocation of so many bytes succeeds.\<close>

definition init_tokens :: "(nat \<Rightarrow> bool) \<Rightarrow> tokens_state \<Rightarrow> tokens_state res" where
  "init_tokens al s =
     (if \<not> is_tokens_initialized s then
        if \<not> al (8 * tokens_capacity s) then Inl (Exit 1)
        else bindR (arr_set (replicate (tokens_capacity s) Undef) 0 Nul) (\<lambda>ts.
          Inr (s \<lparr> tokens := Some ts, is_tokens_initialized := True \<rparr>))
      else Inr s)"

definition grow_tokens :: "(nat \<Rightarrow> bool) \<Rightarrow> tokens_state \<Rightarrow> tokens_state res" where
  "grow_tokens al s =
     bindR (guardR Int_Overflow (tokens_capacity s + MAX_CAP < 2 ^ 31)) (\<lambda>_.
     let new_capacity = tokens_capacity s + MAX_CAP;
         old = (case tokens s of None \<Rightarrow> [] | Some ts \<Rightarrow> ts)
     in if \<not> al (8 * new_capacity) then Inl (Exit 1)
        else Inr (s \<lparr> tokens_capacity := new_capacity,
          tokens := Some (take new_capacity old @ replicate (new_capacity - length old) Undef) \<rparr>))"

definition tokens_full :: "tokens_state \<Rightarrow> bool" where
  "tokens_full s = (int (tokens_size s) \<ge> int (tokens_capacity s) - 1)"

definition add_token :: "(nat \<Rightarrow> bool) \<Rightarrow> tokens_state \<Rightarrow> string \<Rightarrow> tokens_state res" where
  "add_token al s w =
     bindR (if tokens_full s then grow_tokens al s else Inr s) (\<lambda>s.
     case tokens s of
       None \<Rightarrow> Inl Null_Deref
     | Some ts \<Rightarrow>
         bindR (arr_get ts (tokens_size s)) (\<lambda>c.
         if c = Undef then Inl Bad_Memory
         else if \<not> al (length w + 1) then Inl (Exit 1)
         else bindR (arr_set ts (tokens_size s) (Str w)) (\<lambda>ts.
              bindR (arr_set ts (tokens_size s + 1) Nul) (\<lambda>ts.
              Inr (s \<lparr> tokens := Some ts, tokens_size := tokens_size s + 1 \<rparr>)))))"

definition free_tokens :: "tokens_state \<Rightarrow> tokens_state res" where
  "free_tokens s =
     (let done = s \<lparr> tokens := None, tokens_size := 0, tokens_capacity := MAX_CAP,
        is_tokens_initialized := False \<rparr>
      in case tokens s of
           None \<Rightarrow> if 0 < tokens_size s then Inl Null_Deref else Inr done
         | Some ts \<Rightarrow>
             if length ts < tokens_size s then Inl Out_Of_Bounds
             else if Undef \<in> set (take (tokens_size s) ts) then Inl Bad_Memory
             else Inr done)"

definition get_global_tokens :: "tokens_state \<Rightarrow> tok list option" where
  "get_global_tokens s = tokens s"

text \<open>\<open>snprintf\<close> into the 256-byte buffer keeps at most 255 characters.\<close>

definition set_prev_command :: "string \<Rightarrow> tokens_state \<Rightarrow> tokens_state" where
  "set_prev_command cmd s = s \<lparr> prev_command := take 255 cmd \<rparr>"

definition get_prev_command :: "tokens_state \<Rightarrow> string" where
  "get_prev_command s = prev_command s"

section \<open>Reading into a buffer\<close>

text \<open>The characters written so far, and one more into a buffer of \<open>cap\<close> bytes.\<close>

definition buf_put :: "nat \<Rightarrow> string \<Rightarrow> char \<Rightarrow> string res" where
  "buf_put cap buf c = (if length buf < cap then Inr (buf @ [c]) else Inl Out_Of_Bounds)"

definition buf_end :: "nat \<Rightarrow> string \<Rightarrow> string res" where
  "buf_end cap buf = (if length buf < cap then Inr buf else Inl Out_Of_Bounds)"

abbreviation "newline_char \<equiv> CHR 0x0A"
abbreviation "tab_char \<equiv> CHR 0x09"
abbreviation "backslash \<equiv> CHR 0x5C"
abbreviation "dquote \<equiv> CHR 0x22"
abbreviation "squote \<equiv> CHR 0x27"

function read_string_loop :: "nat \<Rightarrow> string \<Rightarrow> string \<Rightarrow> nat \<Rightarrow> bool \<Rightarrow> (string \<times> string \<times> nat \<times> bool) res" where
  "read_string_loop cap [] buf bytes escaped = Inr ([], buf, bytes, escaped)"
| "read_string_loop cap (c # input) buf bytes escaped =
     (if c = dquote then Inr (c # input, buf, bytes, escaped)
      else if escaped then
        bindR (buf_put cap buf (if c = CHR ''n'' then newline_char else c)) (\<lambda>buf.
        read_string_loop cap input buf (bytes + 1) False)
      else if c = backslash then read_string_loop cap (c # input) buf bytes True
      else bindR (buf_put cap buf c) (\<lambda>buf. read_string_loop cap input buf (bytes + 1) False))"
  by pat_completeness auto
termination
  by (relation "measure (\<lambda>(_, input, _, _, escaped). 2 * length input + (if escaped then 0 else 1))") auto

definition read_string :: "nat \<Rightarrow> string \<Rightarrow> (string \<times> nat) res" where
  "read_string cap input =
     bindR (read_string_loop cap input [] 0 False) (\<lambda>(_, buf, bytes, escaped).
     if escaped then Inl (Exit 1)
     else bindR (buf_end cap buf) (\<lambda>buf. Inr (buf, bytes)))"

definition is_delim :: "char \<Rightarrow> bool" where
  "is_delim c = (c = CHR '' '' \<or> c = newline_char \<or> c = tab_char \<or> c = CHR '';'')"

fun read_until_space_loop :: "nat \<Rightarrow> string \<Rightarrow> string \<Rightarrow> nat \<Rightarrow> (string \<times> nat) res" where
  "read_until_space_loop cap [] buf bytes = Inr (buf, bytes)"
| "read_until_space_loop cap (c # input) buf bytes =
     (if is_delim c then Inr (buf, bytes)
      else bindR (buf_put cap buf c) (\<lambda>buf. read_until_space_loop cap input buf (bytes + 1)))"

definition read_until_space :: "nat \<Rightarrow> string \<Rightarrow> (string \<times> nat) res" where
  "read_until_space cap input =
     bindR (read_until_space_loop cap input [] 0) (\<lambda>(buf, bytes).
     bindR (buf_end cap buf) (\<lambda>buf. Inr (buf, bytes)))"

section \<open>Splitting a line\<close>

text \<open>\<open>isspace\<close> of the C locale.\<close>

definition isspace :: "char \<Rightarrow> bool" where
  "isspace c = (c = CHR '' '' \<or> c = tab_char \<or> c = newline_char \<or> c = CHR 0x0B \<or> c = CHR 0x0C \<or> c = CHR 0x0D)"

fun quoted_loop :: "nat \<Rightarrow> char \<Rightarrow> string \<Rightarrow> string \<Rightarrow> (string \<times> string) res" where
  "quoted_loop cap q [] buf = Inr ([], buf)"
| "quoted_loop cap q [c] buf =
     (if c = q then Inr ([c], buf)
      else bindR (buf_put cap buf c) (\<lambda>buf. Inr ([], buf)))"
| "quoted_loop cap q (c # d # line) buf =
     (if c = q then Inr (c # d # line, buf)
      else if c = backslash \<and> d = q then quoted_loop cap q line buf
      else if c = backslash then
        bindR (buf_put cap buf (if d = CHR ''n'' then newline_char else if d = CHR ''t'' then tab_char else d))
          (\<lambda>buf. quoted_loop cap q line buf)
      else bindR (buf_put cap buf c) (\<lambda>buf. quoted_loop cap q (d # line) buf))"

definition next_token :: "string \<Rightarrow> (string \<times> string) res" where
  "next_token line =
     (case line of
        [] \<Rightarrow> Inr ([], [])
      | c # rest \<Rightarrow>
          if c = dquote \<or> c = squote then
            bindR (quoted_loop MAX_TOKEN_SIZE c rest []) (\<lambda>(line, buf).
            let line = (if line \<noteq> [] \<and> hd line = c then tl line else line)
            in bindR (buf_end MAX_TOKEN_SIZE buf) (\<lambda>buf. Inr (buf, line)))
          else if c \<in> set ''();|<>'' then Inr ([c], rest)
          else bindR (read_until_space MAX_TOKEN_SIZE line) (\<lambda>(buf, bytes). Inr (buf, drop bytes line)))"

text \<open>Every round of the splitting loop consumes at least one character.\<close>

lemma quoted_loop_length:
  "quoted_loop cap q line buf = Inr (rest, b) \<Longrightarrow> length rest \<le> length line"
  by (induction cap q line buf rule: quoted_loop.induct)
     (auto split: if_splits elim!: bindR_eq_InrE)

lemma read_until_space_loop_bytes:
  "read_until_space_loop cap input buf bytes = Inr (b, n) \<Longrightarrow> bytes \<le> n"
  by (induction cap input buf bytes rule: read_until_space_loop.induct)
     (fastforce split: if_splits elim!: bindR_eq_InrE)+

lemma next_token_length:
  assumes "next_token line = Inr (w, rest)" and "line \<noteq> []" and "\<not> isspace (hd line)"
  shows "length rest < length line"
proof -
  from assms(2) obtain c r where line: "line = c # r" by (cases line) auto
  consider "c = dquote \<or> c = squote" | "c \<notin> {dquote, squote}" "c \<in> set ''();|<>''"
    | "c \<notin> {dquote, squote}" "c \<notin> set ''();|<>''" by auto
  then show ?thesis
  proof cases
    case 1
    with assms(1) line obtain l b where "quoted_loop MAX_TOKEN_SIZE c r [] = Inr (l, b)"
      and "rest = (if l \<noteq> [] \<and> hd l = c then tl l else l)"
      unfolding next_token_def by (auto elim!: bindR_eq_InrE simp: Let_def)
    with quoted_loop_length [OF this(1)] line show ?thesis by (auto split: if_splits)
  next
    case 2
    with assms(1) line show ?thesis unfolding next_token_def by auto
  next
    case 3
    with assms(1) line obtain b n where "read_until_space MAX_TOKEN_SIZE line = Inr (b, n)"
      and rest: "rest = drop n line"
      unfolding next_token_def by (auto elim!: bindR_eq_InrE)
    then have "read_until_space_loop MAX_TOKEN_SIZE line [] 0 = Inr (b, n)"
      unfolding read_until_space_def buf_end_def by (auto elim!: bindR_eq_InrE split: if_splits)
    moreover have "\<not> is_delim c" using 3 assms(3) line by (auto simp: is_delim_def isspace_def)
    ultimately have "Suc 0 \<le> n"
      using line by (auto elim!: bindR_eq_InrE dest: read_until_space_loop_bytes)
    with rest line show ?thesis by simp
  qed
qed

function (sequential) tokens_loop ::
  "(nat \<Rightarrow> bool) \<Rightarrow> string \<Rightarrow> nat \<Rightarrow> tokens_state \<Rightarrow> (tokens_state \<times> nat) res" where
  "tokens_loop al line found s =
     (let line = dropWhile isspace line in
      if line = [] then Inr (s, found)
      else bindR (next_token line) (\<lambda>(w, rest).
           bindR (add_token al s w) (\<lambda>s. tokens_loop al rest (found + 1) s)))"
  by pat_completeness auto
termination
proof (relation "measure (\<lambda>(_, line, _, _). length line)", goal_cases)
  case (2 al line found s l p w rest s')
  then have "length rest < length (dropWhile isspace line)"
    using next_token_length [of "dropWhile isspace line" w rest] hd_dropWhile [of isspace line] by simp
  also have "\<dots> \<le> length line" by (rule length_dropWhile_le)
  finally show ?case by simp
qed simp

declare tokens_loop.simps [simp del]

text \<open>
  The word \<open>prev\<close> alone on a line makes \<open>get_tokens\<close> call itself on the stored command. Nothing in
  the code bounds that recursion; \<open>fuel\<close> counts the calls.
\<close>

fun get_tokens :: "(nat \<Rightarrow> bool) \<Rightarrow> nat \<Rightarrow> string \<Rightarrow> tokens_state \<Rightarrow> (nat \<times> tokens_state) res" where
  "get_tokens al 0 line s = Inl Out_Of_Fuel"
| "get_tokens al (Suc fuel) line s =
     bindR (if \<not> is_tokens_initialized s then init_tokens al s else Inr s) (\<lambda>s.
     bindR (tokens_loop al line 0 s) (\<lambda>(s, tokens_found).
     if tokens_size s = 1 \<and> (case tokens s of Some (t # _) \<Rightarrow> t = Str ''prev'' | _ \<Rightarrow> False) then
       bindR (free_tokens s) (\<lambda>s.
       let prev_cmd = get_prev_command s
       in if prev_cmd \<noteq> [] then get_tokens al fuel prev_cmd s else Inr (0, s))
     else Inr (tokens_found, s)))"

section \<open>The tokenize program\<close>

text \<open>\<open>fgets\<close> of \<open>n\<close> bytes: at most \<open>n - 1\<close> characters, up to and including a newline.\<close>

fun fgets_take :: "nat \<Rightarrow> string \<Rightarrow> string \<times> string" where
  "fgets_take 0 inp = ([], inp)"
| "fgets_take (Suc n) [] = ([], [])"
| "fgets_take (Suc n) (c # inp) =
     (if c = newline_char then ([c], inp)
      else let (l, r) = fgets_take n inp in (c # l, r))"

definition fgets :: "nat \<Rightarrow> string \<Rightarrow> (string \<times> string) option" where
  "fgets n inp = (if inp = [] then None else Some (fgets_take (n - 1) inp))"

fun print_tokens :: "tok list \<Rightarrow> string res" where
  "print_tokens [] = Inl Out_Of_Bounds"
| "print_tokens (Undef # ts) = Inl Bad_Memory"
| "print_tokens (Nul # ts) = Inr []"
| "print_tokens (Str w # ts) = bindR (print_tokens ts) (\<lambda>out. Inr (w @ [newline_char] @ out))"

text \<open>At the end of the input the buffer is read without having been written.\<close>

definition tokenize_main :: "(nat \<Rightarrow> bool) \<Rightarrow> nat \<Rightarrow> string \<Rightarrow> string res" where
  "tokenize_main al fuel inp =
     (case fgets 256 inp of
        None \<Rightarrow> Inl Bad_Memory
      | Some (input, _) \<Rightarrow>
          bindR (init_tokens al tokens_start) (\<lambda>s.
          bindR (get_tokens al fuel input s) (\<lambda>(_, s).
          case get_global_tokens s of
            None \<Rightarrow> Inl Assert_Failed
          | Some ts \<Rightarrow>
              bindR (print_tokens ts) (\<lambda>out.
              bindR (free_tokens s) (\<lambda>_. Inr out)))))"

section \<open>The array holds the tokens\<close>

fun strs :: "tok list \<Rightarrow> string list" where
  "strs (Str w # ts) = w # strs ts"
| "strs _ = []"

definition token_strings :: "tokens_state \<Rightarrow> string list" where
  "token_strings s = (case tokens s of None \<Rightarrow> [] | Some ts \<Rightarrow> strs ts)"

text \<open>
  The array in use: the strings, a null pointer after them, then slots of any content; one slot at
  least is left for the null pointer.
\<close>

definition tokens_inv :: "tokens_state \<Rightarrow> bool" where
  "tokens_inv s \<longleftrightarrow> is_tokens_initialized s \<and>
     (\<exists>ws rest. tokens s = Some (map Str ws @ Nul # rest) \<and> tokens_size s = length ws \<and>
        tokens_capacity s = length ws + 1 + length rest)"

lemma strs_map [simp]: "strs (map Str ws @ Nul # rest) = ws"
  by (induction ws) auto

lemma tokens_invE:
  assumes "tokens_inv s"
  obtains rest where "is_tokens_initialized s"
    and "tokens s = Some (map Str (token_strings s) @ Nul # rest)"
    and "tokens_size s = length (token_strings s)"
    and "tokens_capacity s = length (token_strings s) + 1 + length rest"
  using assms unfolding tokens_inv_def token_strings_def by fastforce

lemma init_tokens_start:
  "\<exists>s. init_tokens (\<lambda>_. True) (tokens_start \<lparr> prev_command := p \<rparr>) = Inr s \<and> tokens_inv s \<and>
     token_strings s = [] \<and> prev_command s = p"
proof -
  have "(replicate MAX_CAP Undef)[0 := Nul] = map Str [] @ Nul # replicate 255 Undef"
    by (simp add: MAX_CAP_def del: replicate_numeral) (simp add: numeral_eq_Suc)
  then show ?thesis
    by (auto simp: init_tokens_def tokens_start_def tokens_inv_def token_strings_def MAX_CAP_def
      simp del: replicate_numeral)
qed

lemma add_token_room:
  assumes "tokens_inv s" and "Suc (length (token_strings s)) < tokens_capacity s"
  shows "\<exists>s'. add_token (\<lambda>_. True) s w = Inr s' \<and> tokens_inv s' \<and>
    token_strings s' = token_strings s @ [w] \<and> prev_command s' = prev_command s"
proof -
  from assms(1) obtain rest where s: "is_tokens_initialized s"
    "tokens s = Some (map Str (token_strings s) @ Nul # rest)"
    "tokens_size s = length (token_strings s)"
    "tokens_capacity s = length (token_strings s) + 1 + length rest" by (rule tokens_invE)
  define ws where "ws = token_strings s"
  from assms(2) s(4) obtain r rest' where rest: "rest = r # rest'" by (cases rest) auto
  let ?ts = "map Str (ws @ [w]) @ Nul # rest'"
  have "(map Str ws @ Nul # rest)[length ws := Str w, Suc (length ws) := Nul] = ?ts"
    by (simp add: rest list_update_append)
  then have "add_token (\<lambda>_. True) s w = Inr (s \<lparr> tokens := Some ?ts, tokens_size := length ws + 1 \<rparr>)"
    using s assms(2) by (simp add: add_token_def tokens_full_def ws_def [symmetric] rest nth_append)
  moreover have "tokens_inv (s \<lparr> tokens := Some ?ts, tokens_size := length ws + 1 \<rparr>)"
    unfolding tokens_inv_def using s
    by (auto simp: ws_def [symmetric] rest intro!: exI [of _ "ws @ [w]"])
  moreover have "token_strings (s \<lparr> tokens := Some ?ts, tokens_size := length ws + 1 \<rparr>) = ws @ [w]"
    unfolding token_strings_def by (simp del: map_append)
  ultimately show ?thesis by (simp add: ws_def)
qed

lemma grow_tokens_inv:
  assumes "tokens_inv s" and "tokens_capacity s + MAX_CAP < 2 ^ 31"
  shows "\<exists>s'. grow_tokens (\<lambda>_. True) s = Inr s' \<and> tokens_inv s' \<and> token_strings s' = token_strings s \<and>
    tokens_capacity s' = tokens_capacity s + MAX_CAP \<and> prev_command s' = prev_command s"
proof -
  from assms(1) obtain rest where s: "is_tokens_initialized s"
    "tokens s = Some (map Str (token_strings s) @ Nul # rest)"
    "tokens_size s = length (token_strings s)"
    "tokens_capacity s = length (token_strings s) + 1 + length rest" by (rule tokens_invE)
  define ws where "ws = token_strings s"
  let ?s = "s \<lparr> tokens_capacity := tokens_capacity s + MAX_CAP,
    tokens := Some (map Str ws @ Nul # rest @ replicate MAX_CAP Undef) \<rparr>"
  have "grow_tokens (\<lambda>_. True) s = Inr ?s"
    using s assms(2) by (simp add: grow_tokens_def Let_def ws_def [symmetric])
  moreover have "tokens_inv ?s"
    unfolding tokens_inv_def using s
    by (auto simp: ws_def [symmetric] intro!: exI [of _ ws])
  moreover have "token_strings ?s = ws" unfolding token_strings_def by simp
  ultimately show ?thesis by (simp add: ws_def)
qed

lemma add_token_inv:
  assumes "tokens_inv s" and "length (token_strings s) < 2 ^ 31 - 257"
  shows "\<exists>s'. add_token (\<lambda>_. True) s w = Inr s' \<and> tokens_inv s' \<and>
    token_strings s' = token_strings s @ [w] \<and> prev_command s' = prev_command s"
proof (cases "tokens_full s")
  case False
  from assms(1) have "tokens_size s = length (token_strings s)" by (rule tokens_invE)
  with False have "Suc (length (token_strings s)) < tokens_capacity s" by (auto simp: tokens_full_def)
  with assms(1) show ?thesis by (rule add_token_room)
next
  case True
  from assms(1) have "tokens_size s = length (token_strings s)" "length (token_strings s) < tokens_capacity s"
    by (auto elim: tokens_invE)
  with True have cap: "tokens_capacity s = Suc (length (token_strings s))" by (auto simp: tokens_full_def)
  then have "tokens_capacity s + MAX_CAP < 2 ^ 31" using assms(2) by (simp add: MAX_CAP_def)
  from grow_tokens_inv [OF assms(1) this] obtain s' where s': "grow_tokens (\<lambda>_. True) s = Inr s'"
    "tokens_inv s'" "token_strings s' = token_strings s" "tokens_capacity s' = tokens_capacity s + MAX_CAP"
    "prev_command s' = prev_command s" by auto
  have room: "Suc (length (token_strings s')) < tokens_capacity s'" using s'(3,4) cap by (simp add: MAX_CAP_def)
  moreover from s'(2) have "tokens_size s' = length (token_strings s')" by (rule tokens_invE)
  ultimately have "\<not> tokens_full s'" by (simp add: tokens_full_def)
  then have "add_token (\<lambda>_. True) s w = add_token (\<lambda>_. True) s' w"
    using True s'(1) by (simp add: add_token_def)
  with add_token_room [OF s'(2) room, of w] s' show ?thesis by simp
qed

interpretation tk: appendable tokens_inv token_strings "add_token (\<lambda>_. True)" "2 ^ 31 - 257"
  by unfold_locales (use add_token_inv in blast)

lemma add_all_prev:
  "tokens_inv s \<Longrightarrow> length (token_strings s) + length ws \<le> 2 ^ 31 - 257 \<Longrightarrow>
   add_all (add_token (\<lambda>_. True)) s ws = Inr s' \<Longrightarrow> prev_command s' = prev_command s"
proof (induction ws arbitrary: s)
  case (Cons w ws)
  from Cons.prems(2) have "length (token_strings s) < 2 ^ 31 - 257" by simp
  from add_token_inv [OF Cons.prems(1) this, of w] obtain s1 where
    "add_token (\<lambda>_. True) s w = Inr s1" "tokens_inv s1" "token_strings s1 = token_strings s @ [w]"
    "prev_command s1 = prev_command s" by auto
  with Cons.IH [of s1] Cons.prems show ?case by simp
qed simp

section \<open>Words separated by blanks\<close>

definition plain :: "string \<Rightarrow> bool" where
  "plain w \<longleftrightarrow> w \<noteq> [] \<and> hd w \<notin> set (dquote # squote # ''();|<>'') \<and>
     list_all (\<lambda>c. \<not> isspace c \<and> c \<noteq> CHR '';'') w"

definition blanks :: "string \<Rightarrow> bool" where
  "blanks sp = list_all (\<lambda>c. c = CHR '' '' \<or> c = tab_char \<or> c = newline_char) sp"

fun well_spaced :: "(string \<times> string) list \<Rightarrow> bool" where
  "well_spaced [] = True"
| "well_spaced [(w, sp)] = (plain w \<and> length w < MAX_TOKEN_SIZE \<and> blanks sp)"
| "well_spaced ((w, sp) # p # ps) =
     (plain w \<and> length w < MAX_TOKEN_SIZE \<and> blanks sp \<and> sp \<noteq> [] \<and> well_spaced (p # ps))"

definition spaced :: "(string \<times> string) list \<Rightarrow> string" where
  "spaced ps = concat (map (\<lambda>(w, sp). w @ sp) ps)"

lemma spaced_simps [simp]: "spaced [] = []" "spaced ((w, sp) # ps) = w @ sp @ spaced ps"
  by (simp_all add: spaced_def)

lemma not_delim: "\<not> isspace c \<Longrightarrow> c \<noteq> CHR '';'' \<Longrightarrow> \<not> is_delim c"
  by (auto simp: isspace_def is_delim_def)

lemma blanks_isspace: "blanks sp \<Longrightarrow> list_all isspace sp"
  by (auto simp: blanks_def isspace_def list_all_iff)

lemma read_until_space_loop_word:
  "list_all (\<lambda>c. \<not> is_delim c) w \<Longrightarrow> rest = [] \<or> is_delim (hd rest) \<Longrightarrow>
   read_until_space_loop cap (w @ rest) buf n =
     (if length buf + length w \<le> cap \<or> w = [] then Inr (buf @ w, n + length w) else Inl Out_Of_Bounds)"
proof (induction w arbitrary: buf n)
  case Nil
  then show ?case by (cases rest) auto
next
  case (Cons c w)
  then show ?case by (auto simp: buf_put_def)
qed

lemma next_token_word:
  assumes "plain w" and "rest = [] \<or> is_delim (hd rest)"
  shows "next_token (w @ rest) = (if length w < MAX_TOKEN_SIZE then Inr (w, rest) else Inl Out_Of_Bounds)"
proof -
  from assms(1) obtain c v where w: "w = c # v" by (cases w) (auto simp: plain_def)
  have nd: "list_all (\<lambda>c. \<not> is_delim c) w" using assms(1) not_delim by (auto simp: plain_def list_all_iff)
  have c: "c \<noteq> dquote" "c \<noteq> squote" "c \<notin> set ''();|<>''" using assms(1) w by (auto simp: plain_def)
  have "read_until_space MAX_TOKEN_SIZE (w @ rest) =
    (if length w < MAX_TOKEN_SIZE then Inr (w, length w) else Inl Out_Of_Bounds)"
    unfolding read_until_space_def read_until_space_loop_word [OF nd assms(2)]
    by (auto simp: buf_end_def)
  then show ?thesis using c unfolding next_token_def w by (auto simp: w)
qed

lemma dropWhile_blanks: "blanks sp \<Longrightarrow> dropWhile isspace (sp @ l) = dropWhile isspace l"
  using blanks_isspace [of sp] by (simp add: dropWhile_append list_all_iff)

lemma dropWhile_plain: "plain w \<Longrightarrow> dropWhile isspace (w @ l) = w @ l"
  by (cases w) (auto simp: plain_def)

text \<open>On a spaced line the splitting loop adds exactly the words.\<close>

lemma tokens_loop_spaced:
  "well_spaced ps \<Longrightarrow> blanks sp0 \<Longrightarrow>
   tokens_loop al (sp0 @ spaced ps) found s =
     bindR (add_all (add_token al) s (map fst ps)) (\<lambda>s'. Inr (s', found + length ps))"
proof (induction ps arbitrary: sp0 found s)
  case Nil
  then show ?case using dropWhile_blanks [of sp0 "[]"] by (subst tokens_loop.simps) simp
next
  case (Cons p ps)
  obtain w sp where p: "p = (w, sp)" by (cases p)
  have w: "plain w" "length w < MAX_TOKEN_SIZE" "blanks sp" "well_spaced ps" "sp = [] \<Longrightarrow> ps = []"
    using Cons.prems(1) by (cases ps; auto simp: p)+
  have "sp @ spaced ps = [] \<or> is_delim (hd (sp @ spaced ps))"
    using w(3,5) by (cases sp) (auto simp: blanks_def is_delim_def)
  from next_token_word [OF w(1) this] w(2)
  have nt: "next_token (w @ sp @ spaced ps) = Inr (w, sp @ spaced ps)" by simp
  have "w \<noteq> []" using w(1) by (simp add: plain_def)
  have "tokens_loop al (sp0 @ spaced (p # ps)) found s =
    bindR (add_token al s w) (\<lambda>s'. tokens_loop al (sp @ spaced ps) (found + 1) s')"
    using Cons.prems(2) w(1) nt \<open>w \<noteq> []\<close>
    by (subst tokens_loop.simps) (simp add: p dropWhile_blanks dropWhile_plain)
  also have "\<dots> = bindR (add_token al s w) (\<lambda>s'.
    bindR (add_all (add_token al) s' (map fst ps)) (\<lambda>s'. Inr (s', found + 1 + length ps)))"
    using Cons.IH [OF w(4,3)] by simp
  finally show ?case by (simp add: p bindR_assoc)
qed

lemma tokens_loop_words:
  assumes "tokens_inv s" and "well_spaced ps" and "length (token_strings s) + length ps \<le> 2 ^ 31 - 257"
  shows "\<exists>s'. tokens_loop (\<lambda>_. True) (spaced ps) n s = Inr (s', n + length ps) \<and> tokens_inv s' \<and>
    token_strings s' = token_strings s @ map fst ps \<and> prev_command s' = prev_command s"
proof -
  from tk.add_all_items [OF assms(1), of "map fst ps"] assms(3) obtain s' where
    s': "add_all (add_token (\<lambda>_. True)) s (map fst ps) = Inr s'" "tokens_inv s'"
    "token_strings s' = token_strings s @ map fst ps" by auto
  moreover have "prev_command s' = prev_command s"
    using add_all_prev [OF assms(1) _ s'(1)] assms(3) by simp
  ultimately show ?thesis
    using tokens_loop_spaced [OF assms(2), of "[]" "\<lambda>_. True" n s] by (simp add: blanks_def)
qed

lemma first_token:
  assumes "tokens_inv s"
  shows "(tokens_size s = 1 \<and> (case tokens s of Some (t # _) \<Rightarrow> t = Str v | _ \<Rightarrow> False)) \<longleftrightarrow>
    token_strings s = [v]"
proof -
  from assms obtain rest where "tokens s = Some (map Str (token_strings s) @ Nul # rest)"
    "tokens_size s = length (token_strings s)" by (rule tokens_invE)
  then show ?thesis by (cases "token_strings s") auto
qed

lemma free_tokens_inv:
  assumes "tokens_inv s"
  shows "free_tokens s = Inr (tokens_start \<lparr> prev_command := prev_command s \<rparr>)"
proof -
  from assms obtain rest where "tokens s = Some (map Str (token_strings s) @ Nul # rest)"
    "tokens_size s = length (token_strings s)" by (rule tokens_invE)
  then show ?thesis by (auto simp: free_tokens_def Let_def tokens_start_def)
qed

text \<open>One call, from the state between two lines: a lone \<open>prev\<close> replays, anything else is split.\<close>

lemma get_tokens_split:
  assumes "well_spaced ps" and "length ps \<le> 2 ^ 31 - 257"
  shows "\<exists>s. tokens_inv s \<and> token_strings s = map fst ps \<and> prev_command s = p \<and>
    get_tokens (\<lambda>_. True) (Suc fuel) (spaced ps) (tokens_start \<lparr> prev_command := p \<rparr>) =
      (if map fst ps = [''prev''] then
         if p \<noteq> [] then get_tokens (\<lambda>_. True) fuel p (tokens_start \<lparr> prev_command := p \<rparr>)
         else Inr (0, tokens_start \<lparr> prev_command := p \<rparr>)
       else Inr (length ps, s))"
proof -
  let ?st = "tokens_start \<lparr> prev_command := p \<rparr>"
  from init_tokens_start [of p] obtain s0 where
    s0: "init_tokens (\<lambda>_. True) ?st = Inr s0" "tokens_inv s0" "token_strings s0 = []" "prev_command s0 = p"
    by auto
  from tokens_loop_words [OF s0(2) assms(1), of 0] s0(3,4) assms(2) obtain s where
    s: "tokens_loop (\<lambda>_. True) (spaced ps) 0 s0 = Inr (s, length ps)" "tokens_inv s"
    "token_strings s = map fst ps" "prev_command s = p" by auto
  have "\<not> is_tokens_initialized ?st" by (simp add: tokens_start_def)
  then have "get_tokens (\<lambda>_. True) (Suc fuel) (spaced ps) ?st =
     (if token_strings s = [''prev''] then
       bindR (free_tokens s) (\<lambda>s.
       let prev_cmd = get_prev_command s
       in if prev_cmd \<noteq> [] then get_tokens (\<lambda>_. True) fuel prev_cmd s else Inr (0, s))
     else Inr (length ps, s))"
    using s0(1) s(1) by (simp only: get_tokens.simps if_True simp_thms bindR_Inr split first_token [OF s(2)])
  with s free_tokens_inv [OF s(2)] show ?thesis
    by (intro exI [of _ s]) (simp add: get_prev_command_def)
qed

declare get_tokens.simps [simp del]

text \<open>A line of plain words separated by blanks, the last one possibly at its end, is split
  into exactly these words in order: the call returns their number and the null-terminated token
  array holds them.\<close>

theorem get_tokens_words:
  assumes "well_spaced ps" and "map fst ps \<noteq> [''prev'']" and "length ps \<le> 2 ^ 31 - 257"
  shows "\<exists>s. get_tokens (\<lambda>_. True) (Suc fuel) (spaced ps) (tokens_start \<lparr> prev_command := p \<rparr>) =
    Inr (length ps, s) \<and> tokens_inv s \<and> token_strings s = map fst ps"
  using get_tokens_split [OF assms(1,3), of p fuel] assms(2) by auto

theorem get_tokens_words_witness:
  "\<exists>s. get_tokens (\<lambda>_. True) (Suc 0) ''ls  -l a.txt'' (tokens_start \<lparr> prev_command := [] \<rparr>) = Inr (3, s) \<and>
    tokens_inv s \<and> token_strings s = [''ls'', ''-l'', ''a.txt'']"
proof -
  have "well_spaced [(''ls'', ''  ''), (''-l'', '' ''), (''a.txt'', [])]"
    by (simp add: plain_def blanks_def isspace_def MAX_TOKEN_SIZE_def)
  from get_tokens_words [OF this, of 0 "[]"] show ?thesis by (simp add: numeral_3_eq_3)
qed

text \<open>Once the stored command is the word \<open>prev\<close> itself, asking for it never returns: the
  recursion of \<open>get_tokens\<close> exhausts every bound on its depth.\<close>

lemma get_tokens_prev_diverges:
  "get_tokens (\<lambda>_. True) fuel ''prev'' (tokens_start \<lparr> prev_command := ''prev'' \<rparr>) = Inl Out_Of_Fuel"
proof (induction fuel)
  case (Suc fuel)
  have "well_spaced [(''prev'', [])]"
    by (simp add: plain_def blanks_def isspace_def MAX_TOKEN_SIZE_def)
  from get_tokens_split [OF this, of "''prev''" fuel] Suc show ?case
    by (auto simp: set_prev_command_def)
qed (simp add: get_tokens.simps)

text \<open>
  The buffer of one token has 255 bytes: a word of 254 characters is accepted, a longer one is
  written past the end of the buffer, although the line buffers of both programs hold 255
  characters.
\<close>

text \<open>C39: a line that is one plain word overruns the token buffer exactly when the word has 255
  characters or more.\<close>

theorem token_buffer_limit:
  assumes "plain w"
  shows "get_tokens (\<lambda>_. True) (Suc fuel) w tokens_start = Inl Out_Of_Bounds \<longleftrightarrow> 255 \<le> length w"
proof (cases "length w < MAX_TOKEN_SIZE")
  case True
  have start: "tokens_start = tokens_start \<lparr> prev_command := [] \<rparr>" by (simp add: tokens_start_def)
  from True assms have "well_spaced [(w, [])]" by (simp add: blanks_def)
  from get_tokens_split [OF this, of "[]" fuel] True show ?thesis
    by (subst start) (auto simp: MAX_TOKEN_SIZE_def split: if_splits)
next
  case False
  have start: "tokens_start = tokens_start \<lparr> prev_command := [] \<rparr>" by (simp add: tokens_start_def)
  from init_tokens_start [of "[]"] obtain s0 where s0: "init_tokens (\<lambda>_. True) tokens_start = Inr s0"
    by (auto simp: start [symmetric])
  from next_token_word [OF assms, of "[]"] False have "next_token w = Inl Out_Of_Bounds" by simp
  then have "tokens_loop (\<lambda>_. True) w 0 s0 = Inl Out_Of_Bounds"
    using dropWhile_plain [OF assms, of "[]"] assms
    by (subst tokens_loop.simps) (simp add: plain_def)
  moreover have "\<not> is_tokens_initialized tokens_start" by (simp add: tokens_start_def)
  ultimately show ?thesis using s0 False by (simp add: get_tokens.simps MAX_TOKEN_SIZE_def)
qed

theorem token_buffer_limit_witness:
  "get_tokens (\<lambda>_. True) (Suc 0) (replicate 255 CHR ''a'') tokens_start = Inl Out_Of_Bounds"
proof -
  have "plain (replicate 255 CHR ''a'')"
    by (simp add: plain_def isspace_def list_all_iff del: replicate_numeral)
  from token_buffer_limit [OF this, of 0] show ?thesis by (simp del: replicate_numeral)
qed

section \<open>Reading a quoted string\<close>

text \<open>
  The escape handling of \<open>read_string\<close> has no effect: the backslash is not skipped when the flag is
  set, so the flagged character is the backslash itself.
\<close>

lemma read_string_loop_takeWhile:
  "length buf + length (takeWhile (\<lambda>c. c \<noteq> dquote) input) \<le> cap \<Longrightarrow>
   read_string_loop cap input buf n False =
     Inr (dropWhile (\<lambda>c. c \<noteq> dquote) input, buf @ takeWhile (\<lambda>c. c \<noteq> dquote) input,
       n + length (takeWhile (\<lambda>c. c \<noteq> dquote) input), False)"
proof (induction input arbitrary: buf n)
  case (Cons c input)
  then show ?case by (cases "c = dquote"; cases "c = backslash") (auto simp: buf_put_def)
qed simp

lemma read_string_copies:
  assumes "length (takeWhile (\<lambda>c. c \<noteq> dquote) input) < cap"
  shows "read_string cap input =
    Inr (takeWhile (\<lambda>c. c \<noteq> dquote) input, length (takeWhile (\<lambda>c. c \<noteq> dquote) input))"
  using read_string_loop_takeWhile [of "[]" input cap 0] assms
  by (simp add: read_string_def buf_end_def)

end
