(* ===== verification/Shell.thy ===== *)
theory Shell
  imports Tokens
begin

text \<open>
  The mini-shell, \<open>Shell/shell.c\<close>, over the tokenizer. The system calls of the shell process are
  recorded in a trace, each with its arguments; a call to \<open>fork\<close> carries the operations the child
  performs, so that redirections and pipes are visible in it. What the kernel answers is an
  argument of every definition: a function of the calls so far and of the call.
\<close>

section \<open>System calls\<close>

datatype fd = Opened | Pipe_Read | Pipe_Write

text \<open>
  The child of a \<open>fork\<close> is a straight line: opening a file for reading or for writing (created or
  truncated), duplicating a descriptor onto a standard one, ending with status 1 after \<open>perror\<close> if
  the last \<open>open\<close> failed, closing, replacing itself by a program, and, when that returns, reporting
  and ending.
\<close>

datatype child_op =
    C_Open_Read "string option"
  | C_Open_Write "string option"
  | C_Dup2 fd nat
  | C_Exit_If_Open_Failed string
  | C_Close fd
  | C_Execvp "string list"
  | C_Perror string
  | C_Exit int

datatype sysc =
    Sys_Fork "child_op list"
  | Sys_Wait
  | Sys_Waitpid int
  | Sys_Pipe
  | Sys_Close fd
  | Sys_Chdir string
  | Sys_Mkdir string nat
  | Sys_Getcwd
  | Sys_Out string
  | Sys_Err string

text \<open>
  The kernel: the result of a call (for \<open>mkdir\<close> the error number, 0 on success; for \<open>waitpid\<close> the
  status it stores) and the working directory \<open>getcwd\<close> delivers, if any.
\<close>

record os =
  answer :: "sysc list \<Rightarrow> sysc \<Rightarrow> int"
  cwd :: "sysc list \<Rightarrow> string option"

definition STDIN_FILENO :: nat where "STDIN_FILENO = 0"
definition STDOUT_FILENO :: nat where "STDOUT_FILENO = 1"
definition EEXIST :: int where "EEXIST = 17"

definition is_str :: "string \<Rightarrow> tok \<Rightarrow> bool" where
  "is_str w t = (t = Str w)"

text \<open>The argument vector at a pointer into the token array: the strings before the null pointer.\<close>

fun argv :: "tok list \<Rightarrow> string list res" where
  "argv [] = Inl Out_Of_Bounds"
| "argv (Undef # ts) = Inl Bad_Memory"
| "argv (Nul # ts) = Inr []"
| "argv (Str w # ts) = bindR (argv ts) (\<lambda>ws. Inr (w # ws))"

text \<open>The string a slot points to, null for a null pointer.\<close>

definition tok_string :: "tok list \<Rightarrow> nat \<Rightarrow> string option res" where
  "tok_string ts i = bindR (arr_get ts i) (\<lambda>t.
     case t of Undef \<Rightarrow> Inl Bad_Memory | Nul \<Rightarrow> Inr None | Str w \<Rightarrow> Inr (Some w))"

section \<open>Finding special tokens\<close>

fun find_special_loop :: "tok list \<Rightarrow> string \<Rightarrow> nat \<Rightarrow> nat option res" where
  "find_special_loop [] special i = Inl Out_Of_Bounds"
| "find_special_loop (Undef # ts) special i = Inl Bad_Memory"
| "find_special_loop (Nul # ts) special i = Inr None"
| "find_special_loop (Str w # ts) special i =
     (if w = special then Inr (Some i) else find_special_loop ts special (i + 1))"

definition find_special_token :: "tok list \<Rightarrow> string \<Rightarrow> nat option res" where
  "find_special_token ts special = find_special_loop ts special 0"

text \<open>The loops of \<open>execute_with_redirect\<close> and \<open>execute_with_pipe\<close> compare first characters.\<close>

fun find_lead :: "tok list \<Rightarrow> char \<Rightarrow> nat \<Rightarrow> nat option res" where
  "find_lead [] d i = Inl Out_Of_Bounds"
| "find_lead (Undef # ts) d i = Inl Bad_Memory"
| "find_lead (Nul # ts) d i = Inr None"
| "find_lead (Str w # ts) d i =
     (if w \<noteq> [] \<and> hd w = d then Inr (Some i) else find_lead ts d (i + 1))"

section \<open>Redirection\<close>

definition execute_with_redirect :: "os \<Rightarrow> tok list \<Rightarrow> char \<Rightarrow> sysc list \<Rightarrow> (int \<times> sysc list) res" where
  "execute_with_redirect k ts direction tr =
     bindR (find_lead ts direction 0) (\<lambda>f.
     case f of
       None \<Rightarrow> Inr (- 1, tr)
     | Some i \<Rightarrow>
         bindR (arr_set ts i Nul) (\<lambda>ts.
         bindR (tok_string ts (i + 1)) (\<lambda>filename.
         bindR (argv ts) (\<lambda>args.
         let opening =
               (if direction = CHR ''>'' then [C_Open_Write filename, C_Dup2 Opened STDOUT_FILENO]
                else if direction = CHR ''<'' then [C_Open_Read filename, C_Dup2 Opened STDIN_FILENO]
                else []);
             child = opening @ [C_Exit_If_Open_Failed ''open failed'', C_Close Opened, C_Execvp args,
               C_Perror ''execvp failed'', C_Exit 1];
             pid = answer k tr (Sys_Fork child);
             tr = tr @ [Sys_Fork child]
         in Inr (0, tr @ [Sys_Waitpid pid])))))"

section \<open>Pipes\<close>

definition execute_with_pipe_and_redirect :: "os \<Rightarrow> tok list \<Rightarrow> sysc list \<Rightarrow> (int \<times> sysc list) res" where
  "execute_with_pipe_and_redirect k ts tr =
     (let piped = answer k tr Sys_Pipe; tr = tr @ [Sys_Pipe] in
      if piped = - 1 then Inr (- 1, tr @ [Sys_Err ''pipe''])
      else
        bindR (find_special_token ts ''|'') (\<lambda>p.
        case p of
          None \<Rightarrow> Inr (- 1, tr @ [Sys_Err ''Syntax error: expected a pipe '|' symbol.''])
        | Some p \<Rightarrow>
            bindR (arr_set ts p Nul) (\<lambda>ts.
            bindR (find_special_token ts ''<'') (\<lambda>rin.
            bindR (case rin of None \<Rightarrow> Inr ts | Some i \<Rightarrow> arr_set ts i Nul) (\<lambda>ts.
            bindR (find_special_token (drop (p + 1) ts) ''>'') (\<lambda>rout.
            bindR (case rout of None \<Rightarrow> Inr ts | Some i \<Rightarrow> arr_set ts (p + 1 + i) Nul) (\<lambda>ts.
            bindR (case rin of None \<Rightarrow> Inr []
                   | Some i \<Rightarrow> bindR (tok_string ts (i + 1)) (\<lambda>f.
                       Inr [C_Open_Read f, C_Exit_If_Open_Failed ''open'', C_Dup2 Opened STDIN_FILENO, C_Close Opened]))
              (\<lambda>redir_in.
            bindR (argv ts) (\<lambda>left.
            let child1 = redir_in @ [C_Dup2 Pipe_Write STDOUT_FILENO, C_Close Pipe_Read, C_Close Pipe_Write,
                  C_Execvp left, C_Perror ''execvp left command'', C_Exit 1];
                pid1 = answer k tr (Sys_Fork child1);
                tr = tr @ [Sys_Fork child1]
            in
            bindR (case rout of None \<Rightarrow> Inr []
                   | Some i \<Rightarrow> bindR (tok_string ts (p + 1 + i + 1)) (\<lambda>f.
                       Inr [C_Open_Write f, C_Exit_If_Open_Failed ''open'', C_Dup2 Opened STDOUT_FILENO, C_Close Opened]))
              (\<lambda>redir_out.
            bindR (argv (drop (p + 1) ts)) (\<lambda>right.
            let child2 = [C_Dup2 Pipe_Read STDIN_FILENO, C_Close Pipe_Read, C_Close Pipe_Write] @ redir_out @
                  [C_Execvp right, C_Perror ''execvp right command'', C_Exit 1];
                pid2 = answer k tr (Sys_Fork child2);
                tr = tr @ [Sys_Fork child2]
            in Inr (0, tr @ [Sys_Close Pipe_Read, Sys_Close Pipe_Write, Sys_Waitpid pid1, Sys_Waitpid pid2]))))))))))))"

definition exec_child :: "string \<Rightarrow> string list \<Rightarrow> child_op list" where
  "exec_child msg args = [C_Execvp args, C_Perror msg, C_Exit 1]"

text \<open>
  Unlike its sibling, \<open>execute_with_pipe\<close> does not look at the result of \<open>pipe\<close>: when it fails, the shell
  and its children go on with two descriptors that were never written.
\<close>

definition execute_with_pipe :: "os \<Rightarrow> tok list \<Rightarrow> sysc list \<Rightarrow> (int \<times> sysc list) res" where
  "execute_with_pipe k ts tr =
     bindR (find_lead ts (CHR ''|'') 0) (\<lambda>p.
     case p of
       None \<Rightarrow> Inr (- 1, tr)
     | Some p \<Rightarrow>
         bindR (arr_set ts p Nul) (\<lambda>ts.
         bindR (argv ts) (\<lambda>left.
         bindR (argv (drop (p + 1) ts)) (\<lambda>right.
         if answer k tr Sys_Pipe = - 1 then Inl Bad_Memory
         else Inr (0, tr @ [Sys_Pipe,
           Sys_Fork ([C_Close Pipe_Read, C_Dup2 Pipe_Write STDOUT_FILENO, C_Close Pipe_Write] @
             exec_child ''Failed to execute command'' left),
           Sys_Fork ([C_Close Pipe_Write, C_Dup2 Pipe_Read STDIN_FILENO, C_Close Pipe_Read] @
             exec_child ''Failed to execute command'' right),
           Sys_Close Pipe_Read, Sys_Close Pipe_Write, Sys_Wait, Sys_Wait])))))"

section \<open>Sequences\<close>

function (sequential) execute_sequential_loop ::
  "tok list \<Rightarrow> nat \<Rightarrow> nat \<Rightarrow> sysc list \<Rightarrow> (tok list \<times> nat \<times> sysc list) res" where
  "execute_sequential_loop ts command_start i tr =
     (if length ts \<le> i then Inl Out_Of_Bounds
      else case ts ! i of
        Undef \<Rightarrow> Inl Bad_Memory
      | Nul \<Rightarrow> Inr (ts, command_start, tr)
      | Str w \<Rightarrow>
          if w = '';'' then
            bindR (argv (drop command_start (ts[i := Nul]))) (\<lambda>args.
            execute_sequential_loop (ts[i := Nul]) (i + 1) (i + 1)
              (tr @ [Sys_Fork (exec_child ''Failed to execute command'' args), Sys_Wait]))
          else execute_sequential_loop ts command_start (i + 1) tr)"
  by pat_completeness auto
termination
  by (relation "measure (\<lambda>(ts, _, i, _). length ts - i)") auto

definition execute_sequential_commands :: "tok list \<Rightarrow> sysc list \<Rightarrow> (int \<times> sysc list) res" where
  "execute_sequential_commands ts tr =
     bindR (execute_sequential_loop ts 0 0 tr) (\<lambda>(ts, command_start, tr).
     bindR (tok_string ts command_start) (\<lambda>t.
     if t \<noteq> None then
       bindR (argv (drop command_start ts)) (\<lambda>args.
       Inr (0, tr @ [Sys_Fork (exec_child ''Failed to execute command'' args), Sys_Wait]))
     else Inr (0, tr)))"

section \<open>Simple commands\<close>

fun mkdir_loop :: "os \<Rightarrow> bool \<Rightarrow> string list \<Rightarrow> sysc list \<Rightarrow> int \<times> sysc list" where
  "mkdir_loop k parents [] tr = (0, tr)"
| "mkdir_loop k parents (d # ds) tr =
     (if parents then
        let c = Sys_Mkdir d 0x1FF; r = answer k tr c; tr = tr @ [c]
        in if r \<noteq> 0 \<and> r \<noteq> EEXIST then (- 1, tr @ [Sys_Err ''mkdir failed''])
           else mkdir_loop k parents ds tr
      else
        let c = Sys_Mkdir d 0x1C0; r = answer k tr c; tr = tr @ [c]
        in if r \<noteq> 0 then (- 1, tr @ [Sys_Err ''mkdir failed''])
           else mkdir_loop k parents ds tr)"

fun echo_escapes :: "string \<Rightarrow> string" where
  "echo_escapes [] = []"
| "echo_escapes [c] = [c]"
| "echo_escapes (c # d # p) =
     (if c = backslash then
        (if d = CHR ''n'' then [newline_char]
         else if d = CHR ''t'' then [tab_char]
         else if d = backslash then [backslash]
         else [backslash, d]) @ echo_escapes p
      else c # echo_escapes (d # p))"

fun echo_args :: "bool \<Rightarrow> string list \<Rightarrow> string" where
  "echo_args esc [] = []"
| "echo_args esc [a] = (if esc then echo_escapes a else a)"
| "echo_args esc (a # b # as) = (if esc then echo_escapes a else a) @ '' '' @ echo_args esc (b # as)"

definition execute_simple_command :: "os \<Rightarrow> tok list \<Rightarrow> sysc list \<Rightarrow> (int \<times> sysc list) res" where
  "execute_simple_command k ts tr =
     bindR (argv ts) (\<lambda>args.
     case args of
       [] \<Rightarrow> Inl Null_Deref
     | cmd # rest \<Rightarrow>
         if cmd = ''cd'' then
           (case rest of
              [] \<Rightarrow> Inr (- 1, tr @ [Sys_Err ''cd: expected argument''])
            | d # _ \<Rightarrow>
                let c = Sys_Chdir d; r = answer k tr c; tr = tr @ [c]
                in if r \<noteq> 0 then Inr (- 1, tr @ [Sys_Err ''cd failed'']) else Inr (0, tr))
         else if cmd = ''pwd'' then
           (case cwd k tr of
              Some d \<Rightarrow> Inr (0, tr @ [Sys_Getcwd, Sys_Out (d @ [newline_char])])
            | None \<Rightarrow> Inr (- 1, tr @ [Sys_Getcwd, Sys_Err ''pwd failed'']))
         else if cmd = ''mkdir'' then
           let parents = (rest \<noteq> [] \<and> hd rest = ''-p'');
               dirs = (if parents then tl rest else rest)
           in if dirs = [] then Inr (- 1, tr @ [Sys_Err ''mkdir: missing operand''])
              else Inr (mkdir_loop k parents dirs tr)
         else if cmd = ''echo'' then
           let interpret_escapes = (rest \<noteq> [] \<and> hd rest = ''-e'');
               words = (if interpret_escapes then tl rest else rest)
           in Inr (0, tr @ [Sys_Out (echo_args interpret_escapes words @ [newline_char])])
         else
           let c = Sys_Fork (exec_child cmd args); pid = answer k tr c; tr = tr @ [c]
           in if pid = - 1 then Inr (- 1, tr @ [Sys_Err ''fork failed''])
              else let w = Sys_Waitpid pid in Inr (answer k tr w, tr @ [w]))"

section \<open>Running a line\<close>

text \<open>
  The loop over \<open>;\<close>: the pointer moves past each terminated command. The result is the status when
  a \<open>fork\<close> fails, otherwise the tokens of the last command.
\<close>

function (sequential) shell_seq_loop ::
  "os \<Rightarrow> tok list \<Rightarrow> nat \<Rightarrow> sysc list \<Rightarrow> ((int + tok list) \<times> sysc list) res" where
  "shell_seq_loop k ts i tr =
     (if length ts \<le> i then Inl Out_Of_Bounds
      else case ts ! i of
        Undef \<Rightarrow> Inl Bad_Memory
      | Nul \<Rightarrow> Inr (Inr ts, tr)
      | Str w \<Rightarrow>
          if w = '';'' then
            bindR (argv (ts[i := Nul])) (\<lambda>args.
            let c = Sys_Fork (exec_child ''execvp'' args); pid = answer k tr c; tr = tr @ [c]
            in if pid < 0 then Inr (Inl (- 1), tr @ [Sys_Err ''fork''])
               else shell_seq_loop k (drop (i + 1) ts) 0 (tr @ [Sys_Waitpid pid]))
          else shell_seq_loop k ts (i + 1) tr)"
  by pat_completeness auto
termination
  by (relation "measures [\<lambda>(_, ts, _, _). length ts, \<lambda>(_, ts, i, _). length ts - i]") auto

declare execute_sequential_loop.simps [simp del] and shell_seq_loop.simps [simp del]

definition shell_run :: "os \<Rightarrow> tok list \<Rightarrow> sysc list \<Rightarrow> (int \<times> sysc list) res" where
  "shell_run k ts tr =
     bindR (shell_seq_loop k ts 0 tr) (\<lambda>(r, tr).
     case r of
       Inl status \<Rightarrow> Inr (status, tr)
     | Inr ts \<Rightarrow>
         bindR (find_special_token ts ''|'') (\<lambda>pipe_token.
         bindR (find_special_token ts ''<'') (\<lambda>redirect_in_token.
         bindR (find_special_token ts ''>'') (\<lambda>redirect_out_token.
         if pipe_token \<noteq> None then
           if redirect_in_token \<noteq> None \<or> redirect_out_token \<noteq> None
           then execute_with_pipe_and_redirect k ts tr
           else execute_with_pipe k ts tr
         else if redirect_in_token \<noteq> None \<or> redirect_out_token \<noteq> None then
           execute_with_redirect k ts (if redirect_in_token \<noteq> None then CHR ''<'' else CHR ''>'') tr
         else execute_simple_command k ts tr))))"

section \<open>The main loop\<close>

lemma fgets_take_length:
  "snd (fgets_take n inp) = drop (length (fst (fgets_take n inp))) inp"
  by (induction n inp rule: fgets_take.induct) (auto simp: split_beta)

lemma fgets_take_pos: "inp \<noteq> [] \<Longrightarrow> 0 < n \<Longrightarrow> fst (fgets_take n inp) \<noteq> []"
  by (cases "(n, inp)" rule: fgets_take.cases) (auto simp: split_beta)

lemma fgets_shorter:
  assumes "fgets n inp = Some (l, r)" and "1 < n"
  shows "length r < length inp"
proof -
  have inp: "inp \<noteq> []" and lr: "fgets_take (n - 1) inp = (l, r)"
    using assms(1) by (auto simp: fgets_def split: if_splits)
  have "r = drop (length l) inp" using fgets_take_length [of "n - 1" inp] lr by simp
  moreover have "l \<noteq> []" using fgets_take_pos [OF inp, of "n - 1"] assms(2) lr by simp
  ultimately show ?thesis using inp by simp
qed

text \<open>
  One line after its newline is cut off. The result says whether the loop goes on; a token array
  that \<open>get_tokens\<close> left null is dereferenced.
\<close>

definition shell_line ::
  "(nat \<Rightarrow> bool) \<Rightarrow> os \<Rightarrow> nat \<Rightarrow> string \<Rightarrow> tokens_state \<Rightarrow> sysc list \<Rightarrow> (bool \<times> tokens_state \<times> sysc list) res" where
  "shell_line al k fuel input s tr =
     bindR (get_tokens al fuel input s) (\<lambda>(_, s).
     case get_global_tokens s of
       None \<Rightarrow> Inl Null_Deref
     | Some ts \<Rightarrow>
         bindR (tok_string ts 0) (\<lambda>t0.
         if t0 = None then bindR (free_tokens s) (\<lambda>s. Inr (True, s, tr))
         else if t0 = Some ''exit'' then Inr (False, s, tr @ [Sys_Out (''Bye bye.'' @ [newline_char])])
         else if t0 = Some ''prev'' then
           let prev_cmd = get_prev_command s in
           if prev_cmd \<noteq> [] \<and> prev_cmd \<noteq> ''prev'' then
             bindR (get_tokens al fuel prev_cmd s) (\<lambda>(_, s).
             case get_global_tokens s of
               None \<Rightarrow> Inl Null_Deref
             | Some prev_tokens \<Rightarrow>
                 bindR (shell_run k prev_tokens tr) (\<lambda>(_, tr).
                 bindR (free_tokens s) (\<lambda>s.
                 bindR (free_tokens s) (\<lambda>s. Inr (True, s, tr)))))
           else bindR (free_tokens s) (\<lambda>s. Inr (True, s, tr))
         else
           let s = set_prev_command input s in
           bindR (shell_run k ts tr) (\<lambda>(_, tr).
           bindR (free_tokens s) (\<lambda>s. Inr (True, s, tr)))))"

function (sequential) shell_loop ::
  "(nat \<Rightarrow> bool) \<Rightarrow> os \<Rightarrow> nat \<Rightarrow> string \<Rightarrow> tokens_state \<Rightarrow> sysc list \<Rightarrow> (tokens_state \<times> sysc list) res" where
  "shell_loop al k fuel inp s tr =
     (let tr = tr @ [Sys_Out ''shell $ ''] in
      case fgets 256 inp of
        None \<Rightarrow> Inr (s, tr)
      | Some (input, inp') \<Rightarrow>
          let input = takeWhile (\<lambda>c. c \<noteq> newline_char) input in
          if input = [] then shell_loop al k fuel inp' s tr
          else bindR (shell_line al k fuel input s tr) (\<lambda>(more, s, tr).
               if more then shell_loop al k fuel inp' s tr else Inr (s, tr)))"
  by pat_completeness auto
termination
  by (relation "measure (\<lambda>(_, _, _, inp, _, _). length inp)") (auto dest: fgets_shorter)

declare shell_loop.simps [simp del]

definition shell_main :: "(nat \<Rightarrow> bool) \<Rightarrow> os \<Rightarrow> nat \<Rightarrow> string \<Rightarrow> (int \<times> sysc list) res" where
  "shell_main al k fuel inp =
     bindR (init_tokens al tokens_start) (\<lambda>s.
     bindR (shell_loop al k fuel inp s [Sys_Out (''Welcome to mini-shell.'' @ [newline_char])]) (\<lambda>(s, tr).
     bindR (free_tokens s) (\<lambda>_. Inr (0, tr))))"

section \<open>Token arrays that hold a list of words\<close>

abbreviation cells :: "string list \<Rightarrow> tok list \<Rightarrow> tok list" where
  "cells ws rest \<equiv> map Str ws @ Nul # rest"

lemma argv_cells [simp]: "argv (cells ws rest) = Inr ws"
  by (induction ws) auto

lemma find_special_absent: "w \<notin> set ws \<Longrightarrow> find_special_loop (cells ws rest) w i = Inr None"
  by (induction ws arbitrary: i) auto

lemma find_special_first:
  "w \<notin> set us \<Longrightarrow> find_special_loop (cells (us @ w # vs) rest) w i = Inr (Some (i + length us))"
  by (induction us arbitrary: i) auto

lemma find_lead_first:
  "list_all (\<lambda>u. u = [] \<or> hd u \<noteq> d) us \<Longrightarrow> w \<noteq> [] \<Longrightarrow> hd w = d \<Longrightarrow>
   find_lead (cells (us @ w # vs) rest) d i = Inr (Some (i + length us))"
  by (induction us arbitrary: i) auto

lemma find_special_token_absent [simp]:
  "w \<notin> set ws \<Longrightarrow> find_special_token (cells ws rest) w = Inr None"
  by (simp add: find_special_token_def find_special_absent)

lemma find_special_token_present:
  "w \<notin> set us \<Longrightarrow> find_special_token (cells (us @ w # vs) rest) w = Inr (Some (length us))"
  by (simp add: find_special_token_def find_special_first del: map_append)

lemma cells_cut:
  "(cells (us @ w # vs) rest)[length us := Nul] = cells us (cells vs rest)"
  by (simp add: list_update_append)

lemma cells_cut_drop:
  "drop (Suc (length us)) (cells us (cells vs rest)) = cells vs rest"
  by simp

lemma seq_loop_skip:
  "'';'' \<notin> set us \<Longrightarrow> i \<le> length us \<Longrightarrow>
   shell_seq_loop k (map Str us @ ts) i tr = shell_seq_loop k (map Str us @ ts) (length us) tr"
proof (induction "length us - i" arbitrary: i)
  case (Suc n)
  then have i: "i < length us" by simp
  with Suc.prems(1) have "us ! i \<noteq> '';''" by (metis nth_mem)
  with i have "shell_seq_loop k (map Str us @ ts) i tr = shell_seq_loop k (map Str us @ ts) (i + 1) tr"
    by (subst shell_seq_loop.simps) (simp add: nth_append)
  with Suc i show ?case by simp
qed simp

lemma seq_loop_end:
  assumes "'';'' \<notin> set ws"
  shows "shell_seq_loop k (cells ws rest) 0 tr = Inr (Inr (cells ws rest), tr)"
  using seq_loop_skip [OF assms, of 0 k "Nul # rest" tr]
  by (simp, subst shell_seq_loop.simps) (simp add: nth_append)

lemma seq_loop_semicolon:
  assumes "'';'' \<notin> set us" and "answer k tr (Sys_Fork (exec_child ''execvp'' us)) = pid" and "0 \<le> pid"
  shows "shell_seq_loop k (cells (us @ '';'' # vs) rest) 0 tr =
    shell_seq_loop k (cells vs rest) 0 (tr @ [Sys_Fork (exec_child ''execvp'' us), Sys_Waitpid pid])"
proof -
  have args: "argv ((cells (us @ '';'' # vs) rest)[length us := Nul]) = Inr us"
    by (subst cells_cut) simp
  have at: "cells (us @ '';'' # vs) rest ! length us = Str '';''" by (simp add: nth_append)
  have "shell_seq_loop k (cells (us @ '';'' # vs) rest) (length us) tr =
    shell_seq_loop k (cells vs rest) 0 (tr @ [Sys_Fork (exec_child ''execvp'' us), Sys_Waitpid pid])"
    by (subst shell_seq_loop.simps)
       (use args at assms(2,3) in \<open>simp add: Let_def not_less del: list_update_append\<close>)
  then show ?thesis
    using seq_loop_skip [OF assms(1), of 0 k "map Str ('';'' # vs) @ Nul # rest" tr] by simp
qed

section \<open>What the shell does with a line\<close>

text \<open>C38: of two commands joined by \<open>;\<close> the first is handed to \<open>execvp\<close> in a child, as it stands and
  without regard to pipes, redirections and built-in commands in it, and is waited for; then the
  rest of the line is run.\<close>

theorem shell_run_sequence:
  assumes "'';'' \<notin> set us" and "0 \<le> answer k tr (Sys_Fork (exec_child ''execvp'' us))"
  shows "shell_run k (cells (us @ '';'' # vs) rest) tr =
    shell_run k (cells vs rest) (tr @ [Sys_Fork (exec_child ''execvp'' us),
      Sys_Waitpid (answer k tr (Sys_Fork (exec_child ''execvp'' us)))])"
  unfolding shell_run_def seq_loop_semicolon [OF assms(1) refl assms(2), of vs rest] ..

theorem shell_run_sequence_witness:
  "shell_run \<lparr> answer = \<lambda>_ _. 7, cwd = \<lambda>_. None \<rparr> (cells [''ls'', ''-l'', '';'', ''pwd''] []) [] =
    shell_run \<lparr> answer = \<lambda>_ _. 7, cwd = \<lambda>_. None \<rparr> (cells [''pwd''] [])
      [Sys_Fork [C_Execvp [''ls'', ''-l''], C_Perror ''execvp'', C_Exit 1], Sys_Waitpid 7]"
  using shell_run_sequence [of "[''ls'', ''-l'']" "\<lparr> answer = \<lambda>_ _. 7, cwd = \<lambda>_. None \<rparr>" "[]" "[''pwd'']" "[]"]
  by (simp add: exec_child_def)

lemma shell_run_trailing_semicolon:
  assumes "'';'' \<notin> set us" and "0 \<le> answer k tr (Sys_Fork (exec_child ''execvp'' us))"
  shows "shell_run k (cells (us @ ['';'']) rest) tr = Inl Null_Deref"
proof -
  have "shell_seq_loop k (cells [] rest) 0 tr' = Inr (Inr (cells [] rest), tr')" for tr'
    by (rule seq_loop_end) simp
  moreover have "find_special_token (cells [] rest) w = Inr None" for w
    by (rule find_special_token_absent) simp
  ultimately show ?thesis
    using seq_loop_semicolon [OF assms(1) refl assms(2), of "[]" rest]
    by (simp add: shell_run_def execute_simple_command_def)
qed

lemma shell_pipe_calls:
  assumes "set (us @ vs) \<inter> {'';'', ''<'', ''>''} = {}"
    and "list_all (\<lambda>u. u = [] \<or> hd u \<noteq> CHR ''|'') us"
  shows "shell_run k (cells (us @ ''|'' # vs) rest) tr =
    (if answer k tr Sys_Pipe = - 1 then Inl Bad_Memory
     else Inr (0, tr @ [Sys_Pipe,
      Sys_Fork [C_Close Pipe_Read, C_Dup2 Pipe_Write 1, C_Close Pipe_Write,
        C_Execvp us, C_Perror ''Failed to execute command'', C_Exit 1],
      Sys_Fork [C_Close Pipe_Write, C_Dup2 Pipe_Read 0, C_Close Pipe_Read,
        C_Execvp vs, C_Perror ''Failed to execute command'', C_Exit 1],
      Sys_Close Pipe_Read, Sys_Close Pipe_Write, Sys_Wait, Sys_Wait]))"
proof -
  let ?ws = "us @ ''|'' # vs" and ?ts = "cells (us @ ''|'' # vs) rest"
  have no: "'';'' \<notin> set ?ws" "''<'' \<notin> set ?ws" "''>'' \<notin> set ?ws" using assms(1) by auto
  have nus: "''|'' \<notin> set us" using assms(2) by (auto simp: list_all_iff)
  have lead: "find_lead ?ts (CHR ''|'') 0 = Inr (Some (length us))"
    using find_lead_first [OF assms(2), of "''|''" vs rest 0] by simp
  have set': "arr_set ?ts (length us) Nul = Inr (cells us (cells vs rest))"
    by (simp only: arr_set_def cells_cut) simp
  have "shell_run k ?ts tr = execute_with_pipe k ?ts tr"
    unfolding shell_run_def seq_loop_end [OF no(1)]
    by (simp only: bindR_Inr split sum.case find_special_token_present [OF nus]
      find_special_token_absent no not_False_eq_True) simp
  then show ?thesis
    unfolding execute_with_pipe_def lead
    by (simp only: bindR_Inr option.case set' argv_cells cells_cut_drop Suc_eq_plus1 [symmetric])
       (simp add: exec_child_def STDIN_FILENO_def STDOUT_FILENO_def)
qed

section \<open>Descriptors\<close>

text \<open>
  What calls do to the descriptors of a process: which object a descriptor stands for, under its
  symbolic name or as a standard descriptor. The effects of a series of calls are the programs that are
  started, with the descriptors they get, and the waits, with the descriptors the shell has open
  meanwhile. The standard descriptors of the shell are taken to be open, so that a pipe or a file
  does not get one of their numbers.
\<close>

datatype fobj = Inherited nat | Read_End | Write_End | A_File "string option"

type_synonym fdtab = "fd + nat \<Rightarrow> fobj option"

datatype effect = Runs "string list" fdtab | Waits fdtab

fun child_effects :: "child_op list \<Rightarrow> fdtab \<Rightarrow> effect list" where
  "child_effects [] f = []"
| "child_effects (C_Execvp args # ops) f = [Runs args f]"
| "child_effects (C_Open_Read name # ops) f = child_effects ops (f(Inl Opened \<mapsto> A_File name))"
| "child_effects (C_Open_Write name # ops) f = child_effects ops (f(Inl Opened \<mapsto> A_File name))"
| "child_effects (C_Dup2 d n # ops) f = child_effects ops (f(Inr n := f (Inl d)))"
| "child_effects (C_Close d # ops) f = child_effects ops (f(Inl d := None))"
| "child_effects (_ # ops) f = child_effects ops f"

fun effects :: "os \<Rightarrow> sysc list \<Rightarrow> fdtab \<Rightarrow> sysc list \<Rightarrow> effect list" where
  "effects k tr f [] = []"
| "effects k tr f (c # cs) =
     (case c of
        Sys_Fork ops \<Rightarrow> (if answer k tr c = - 1 then [] else child_effects ops f) @ effects k (tr @ [c]) f cs
      | Sys_Pipe \<Rightarrow>
          effects k (tr @ [c])
            (if answer k tr c = - 1 then f else f(Inl Pipe_Read \<mapsto> Read_End, Inl Pipe_Write \<mapsto> Write_End)) cs
      | Sys_Close d \<Rightarrow> effects k (tr @ [c]) (f(Inl d := None)) cs
      | Sys_Wait \<Rightarrow> Waits f # effects k (tr @ [c]) f cs
      | Sys_Waitpid _ \<Rightarrow> Waits f # effects k (tr @ [c]) f cs
      | _ \<Rightarrow> effects k (tr @ [c]) f cs)"

text \<open>C37: a line with a pipe and no redirection, when the kernel grants the pipe and the two processes,
  starts the left command with the write end of the pipe as its standard output and the right one with the
  read end as its standard input. Apart from that both have the descriptors of the shell, and no end of the pipe
  besides; the shell has closed both ends when it waits for the two, so that the reader sees the end of the data.
  When \<open>pipe\<close> fails, the descriptors that are used were never written.\<close>

theorem shell_run_pipe:
  assumes "set (us @ vs) \<inter> {'';'', ''<'', ''>''} = {}"
    and "list_all (\<lambda>u. u = [] \<or> hd u \<noteq> CHR ''|'') us"
    and "\<And>h ops. answer k h (Sys_Fork ops) \<noteq> - 1"
    and "f (Inl Pipe_Read) = None" and "f (Inl Pipe_Write) = None"
  shows "if answer k tr Sys_Pipe = - 1 then shell_run k (cells (us @ ''|'' # vs) rest) tr = Inl Bad_Memory
    else \<exists>calls. shell_run k (cells (us @ ''|'' # vs) rest) tr = Inr (0, tr @ calls) \<and>
      effects k tr f calls =
        [Runs us (f(Inr STDOUT_FILENO \<mapsto> Write_End)), Runs vs (f(Inr STDIN_FILENO \<mapsto> Read_End)), Waits f, Waits f]"
proof (cases "answer k tr Sys_Pipe = - 1")
  case True
  then show ?thesis using shell_pipe_calls [OF assms(1,2)] by simp
next
  case False
  then show ?thesis
    using assms(3) unfolding shell_pipe_calls [OF assms(1,2)]
    by (simp add: STDIN_FILENO_def STDOUT_FILENO_def) (use assms(4,5) in \<open>auto simp: fun_eq_iff\<close>)
qed

theorem shell_run_pipe_witness:
  "\<exists>calls. shell_run \<lparr> answer = \<lambda>_ _. 7, cwd = \<lambda>_. None \<rparr> (cells [''ls'', ''|'', ''wc''] []) [] = Inr (0, calls) \<and>
    effects \<lparr> answer = \<lambda>_ _. 7, cwd = \<lambda>_. None \<rparr> [] [Inr 0 \<mapsto> Inherited 0, Inr 1 \<mapsto> Inherited 1] calls =
      [Runs [''ls''] [Inr 0 \<mapsto> Inherited 0, Inr 1 \<mapsto> Write_End], Runs [''wc''] [Inr 0 \<mapsto> Inherited 0, Inr 1 \<mapsto> Inherited 1, Inr 0 \<mapsto> Read_End],
       Waits [Inr 0 \<mapsto> Inherited 0, Inr 1 \<mapsto> Inherited 1], Waits [Inr 0 \<mapsto> Inherited 0, Inr 1 \<mapsto> Inherited 1]]"
  using shell_run_pipe [of "[''ls'']" "[''wc'']" "\<lparr> answer = \<lambda>_ _. 7, cwd = \<lambda>_. None \<rparr>" "[Inr 0 \<mapsto> Inherited 0, Inr 1 \<mapsto> Inherited 1]" "[]" "[]"]
  by (simp add: STDIN_FILENO_def STDOUT_FILENO_def)

section \<open>Replaying the previous command\<close>

text \<open>The state between two lines, with the stored command.\<close>

abbreviation between :: "string \<Rightarrow> tokens_state" where
  "between p \<equiv> tokens_start \<lparr> prev_command := p \<rparr>"

lemma get_tokens_init:
  assumes "init_tokens al s = Inr s0" and "\<not> is_tokens_initialized s"
  shows "get_tokens al fuel line s0 = get_tokens al fuel line s"
proof (cases fuel)
  case (Suc n)
  have "is_tokens_initialized s0"
    using assms by (auto simp: init_tokens_def split: if_splits elim!: bindR_eq_InrE)
  with assms Suc show ?thesis by (simp add: get_tokens.simps)
qed (simp add: get_tokens.simps)

lemma shell_line_init:
  assumes "init_tokens al s = Inr s0" and "\<not> is_tokens_initialized s"
  shows "shell_line al k fuel input s0 tr = shell_line al k fuel input s tr"
  by (simp add: shell_line_def get_tokens_init [OF assms])

lemma shell_line_command:
  assumes "well_spaced ps" and "length ps \<le> 2 ^ 31 - 257" and "map fst ps = w # ws"
    and "w \<noteq> ''exit''" and "w \<noteq> ''prev''"
  shows "\<exists>rest. shell_line (\<lambda>_. True) k (Suc fuel) (spaced ps) (between p) tr =
    bindR (shell_run k (cells (w # ws) rest) tr) (\<lambda>(_, tr). Inr (True, between (take 255 (spaced ps)), tr))"
proof -
  from get_tokens_split [OF assms(1,2), of p fuel] assms(3,5) obtain s where
    s: "tokens_inv s" "token_strings s = w # ws"
    "get_tokens (\<lambda>_. True) (Suc fuel) (spaced ps) (between p) = Inr (length ps, s)" by auto
  from s(1) obtain rest where rest: "tokens s = Some (cells (w # ws) rest)"
    unfolding s(2) [symmetric] by (rule tokens_invE)
  have inv: "tokens_inv (set_prev_command c s)" for c
    using s(1) by (simp add: tokens_inv_def set_prev_command_def)
  have free: "free_tokens (set_prev_command c s) = Inr (between (take 255 c))" for c
    using free_tokens_inv [OF inv [of c]] by (simp add: set_prev_command_def)
  show ?thesis
    using assms(4,5) s(3) rest
    by (intro exI [of _ rest])
       (simp add: shell_line_def get_global_tokens_def tok_string_def arr_get_def Let_def free)
qed

lemma shell_line_replay:
  assumes "well_spaced ps" and "length ps \<le> 2 ^ 31 - 257" and "map fst ps = w # ws"
    and "w \<noteq> ''exit''" and "w \<noteq> ''prev''" and "spaced ps \<noteq> []"
  shows "\<exists>rest. shell_line (\<lambda>_. True) k (Suc (Suc fuel)) ''prev'' (between (spaced ps)) tr =
    bindR (shell_run k (cells (w # ws) rest) tr) (\<lambda>(_, tr). Inr (True, between ''prev'', tr))"
proof -
  have "well_spaced [(''prev'', [])]"
    by (simp add: plain_def blanks_def isspace_def MAX_TOKEN_SIZE_def)
  from get_tokens_split [OF this, of "spaced ps" "Suc fuel"] assms(6)
  have prev: "get_tokens (\<lambda>_. True) (Suc (Suc fuel)) ''prev'' (between (spaced ps)) =
    get_tokens (\<lambda>_. True) (Suc fuel) (spaced ps) (between (spaced ps))" by auto
  from get_tokens_split [OF assms(1,2), of "spaced ps" fuel] assms(3,5) obtain s where
    s: "tokens_inv s" "token_strings s = w # ws"
    "get_tokens (\<lambda>_. True) (Suc fuel) (spaced ps) (between (spaced ps)) = Inr (length ps, s)" by auto
  from s(1) obtain rest where rest: "tokens s = Some (cells (w # ws) rest)"
    unfolding s(2) [symmetric] by (rule tokens_invE)
  have inv: "tokens_inv (set_prev_command c s)" for c
    using s(1) by (simp add: tokens_inv_def set_prev_command_def)
  have free: "free_tokens (set_prev_command c s) = Inr (between (take 255 c))" for c
    using free_tokens_inv [OF inv [of c]] by (simp add: set_prev_command_def)
  show ?thesis
    using assms(4,5) s(3) rest prev
    by (intro exI [of _ rest])
       (simp add: shell_line_def get_global_tokens_def tok_string_def arr_get_def Let_def free)
qed

text \<open>Asking for the previous command before there is one ends the shell: \<open>get_tokens\<close> leaves
  the token array null and the main loop dereferences it.\<close>

theorem shell_prev_first:
  "shell_main (\<lambda>_. True) k (Suc fuel) (''prev'' @ newline_char # inp) = Inl Null_Deref"
proof -
  have start: "tokens_start = between []" by (simp add: tokens_start_def)
  from init_tokens_start [of "[]"] obtain s0 where s0: "init_tokens (\<lambda>_. True) (between []) = Inr s0" by auto
  have "\<not> is_tokens_initialized (between [])" by (simp add: tokens_start_def)
  note eq = shell_line_init [OF s0 this]
  have "well_spaced [(''prev'', [])]"
    by (simp add: plain_def blanks_def isspace_def MAX_TOKEN_SIZE_def)
  from get_tokens_split [OF this, of "[]" fuel]
  have "get_tokens (\<lambda>_. True) (Suc fuel) ''prev'' (between []) = Inr (0, between [])" by auto
  then have line: "shell_line (\<lambda>_. True) k (Suc fuel) ''prev'' s0 tr = Inl Null_Deref" for tr
    by (simp add: eq) (simp add: shell_line_def get_global_tokens_def tokens_start_def)
  have "shell_loop (\<lambda>_. True) k (Suc fuel) (''prev'' @ newline_char # inp) s0 tr = Inl Null_Deref" for tr
    by (subst shell_loop.simps) (simp add: fgets_def numeral_eq_Suc line)
  then show ?thesis unfolding shell_main_def by (subst start) (simp add: s0)
qed

lemma shell_run_ls: "\<exists>st tr'. shell_run k (cells [''ls''] rest) tr = Inr (st, tr')"
proof -
  have none: "find_special_token (cells [''ls''] rest) w = Inr None" if "w \<noteq> ''ls''" for w
    using that by (intro find_special_token_absent) simp
  have "shell_run k (cells [''ls''] rest) tr = execute_simple_command k (cells [''ls''] rest) tr"
    unfolding shell_run_def by (subst seq_loop_end) (simp_all add: none del: list.map append.simps)
  then show ?thesis
    using argv_cells [of "[''ls'']" rest] by (simp add: execute_simple_command_def Let_def)
qed

lemma ls_spaced: "well_spaced [(''ls'', [])]"
  by (simp add: plain_def blanks_def isspace_def MAX_TOKEN_SIZE_def)

lemma shell_line_ls:
  "\<exists>tr'. shell_line (\<lambda>_. True) k (Suc fuel) ''ls'' (between p) tr = Inr (True, between ''ls'', tr')"
proof -
  from shell_line_command [OF ls_spaced, of "''ls''" "[]" k fuel p tr] obtain rest where
    "shell_line (\<lambda>_. True) k (Suc fuel) ''ls'' (between p) tr =
      bindR (shell_run k (cells [''ls''] rest) tr) (\<lambda>(_, tr). Inr (True, between ''ls'', tr))" by auto
  with shell_run_ls [of k rest tr] show ?thesis by auto
qed

lemma shell_line_prev_ls:
  "(\<exists>tr'. shell_line (\<lambda>_. True) k (Suc fuel) ''prev'' (between ''ls'') tr = Inr (True, between ''prev'', tr')) \<or>
   shell_line (\<lambda>_. True) k (Suc fuel) ''prev'' (between ''ls'') tr = Inl Out_Of_Fuel"
proof (cases fuel)
  case 0
  have "well_spaced [(''prev'', [])]"
    by (simp add: plain_def blanks_def isspace_def MAX_TOKEN_SIZE_def)
  from get_tokens_split [OF this, of "''ls''" 0]
  have "get_tokens (\<lambda>_. True) (Suc 0) ''prev'' (between ''ls'') = Inl Out_Of_Fuel"
    by (auto simp: get_tokens.simps(1))
  with 0 show ?thesis by (simp add: shell_line_def)
next
  case (Suc n)
  from shell_line_replay [OF ls_spaced, of "''ls''" "[]" k n tr] obtain rest where
    "shell_line (\<lambda>_. True) k (Suc (Suc n)) ''prev'' (between ''ls'') tr =
      bindR (shell_run k (cells [''ls''] rest) tr) (\<lambda>(_, tr). Inr (True, between ''prev'', tr))" by auto
  with shell_run_ls [of k rest tr] Suc show ?thesis by auto
qed

lemma shell_loop_step:
  assumes "l \<noteq> []" and "newline_char \<notin> set l" and "length l \<le> 254"
  shows "shell_loop al k fuel (l @ newline_char # inp) s tr =
    bindR (shell_line al k fuel l s (tr @ [Sys_Out ''shell $ ''])) (\<lambda>(more, s, tr).
      if more then shell_loop al k fuel inp s tr else Inr (s, tr))"
proof -
  have "newline_char \<notin> set l \<Longrightarrow> length l < n \<Longrightarrow>
    fgets_take n (l @ newline_char # inp) = (l @ [newline_char], inp)" for n
  proof (induction l arbitrary: n)
    case Nil
    then show ?case by (cases n) auto
  next
    case (Cons c l)
    then show ?case by (cases n) auto
  qed
  then have "fgets 256 (l @ newline_char # inp) = Some (l @ [newline_char], inp)"
    using assms by (simp add: fgets_def)
  moreover have "takeWhile (\<lambda>c. c \<noteq> newline_char) (l @ [newline_char]) = l"
    using assms(2) by (induction l) auto
  ultimately show ?thesis using assms(1) by (subst shell_loop.simps) (simp add: Let_def)
qed

text \<open>C40: after a command, asking twice in a row for the previous one makes the shell recurse
  without end, whatever the kernel answers: the first request stores the word \<open>prev\<close> itself as
  the previous command, and \<open>get_tokens\<close> exhausts every bound on its depth.\<close>

theorem shell_prev_twice_diverges:
  "shell_main (\<lambda>_. True) k fuel
    (''ls'' @ newline_char # ''prev'' @ newline_char # ''prev'' @ newline_char # inp) = Inl Out_Of_Fuel"
proof -
  have start: "tokens_start = between []" by (simp add: tokens_start_def)
  from init_tokens_start [of "[]"] obtain s0 where s0: "init_tokens (\<lambda>_. True) (between []) = Inr s0" by auto
  have "\<not> is_tokens_initialized (between [])" by (simp add: tokens_start_def)
  note eq = shell_line_init [OF s0 this]
  let ?in3 = "''prev'' @ newline_char # inp"
  let ?in2 = "''prev'' @ newline_char # ?in3"
  let ?in1 = "''ls'' @ newline_char # ?in2"
  have l3: "shell_loop (\<lambda>_. True) k fuel ?in3 (between ''prev'') tr = Inl Out_Of_Fuel" for tr
    by (subst shell_loop_step) (simp_all add: shell_line_def get_tokens_prev_diverges)
  have l1: "shell_loop (\<lambda>_. True) k fuel ?in1 s0 tr = Inl Out_Of_Fuel" for tr
  proof (cases fuel)
    case 0
    then show ?thesis by (subst shell_loop_step) (simp_all add: shell_line_def get_tokens.simps(1))
  next
    case (Suc n)
    have l2: "shell_loop (\<lambda>_. True) k fuel ?in2 (between ''ls'') tr = Inl Out_Of_Fuel" for tr
    proof -
      have "shell_loop (\<lambda>_. True) k fuel ?in2 (between ''ls'') tr =
        bindR (shell_line (\<lambda>_. True) k fuel ''prev'' (between ''ls'') (tr @ [Sys_Out ''shell $ '']))
          (\<lambda>(more, s, tr). if more then shell_loop (\<lambda>_. True) k fuel ?in3 s tr else Inr (s, tr))"
        by (rule shell_loop_step) simp_all
      then show ?thesis using l3 shell_line_prev_ls [of k n "tr @ [Sys_Out ''shell $ '']"] Suc by auto
    qed
    have "shell_loop (\<lambda>_. True) k fuel ?in1 s0 tr =
      bindR (shell_line (\<lambda>_. True) k fuel ''ls'' s0 (tr @ [Sys_Out ''shell $ '']))
        (\<lambda>(more, s, tr). if more then shell_loop (\<lambda>_. True) k fuel ?in2 s tr else Inr (s, tr))"
      by (rule shell_loop_step) simp_all
    then show ?thesis using l2 shell_line_ls [of k n "[]" "tr @ [Sys_Out ''shell $ '']"] Suc eq by auto
  qed
  then show ?thesis unfolding shell_main_def by (subst start) (simp add: s0)
qed

end
