(* ===== verification/XvShell.thy ===== *)
theory XvShell
  imports Prelude
begin

text \<open>
  The user shell of xv6, \<open>xv6/sh.c\<close>: the recursive-descent parser over a command buffer, the pass
  that terminates the words in place, and the evaluator. A position is an index into the buffer;
  the string argument \<open>b\<close> is the content of the buffer before its terminating zero, so that the
  pointer \<open>es\<close> of the code is \<open>length b\<close>. Allocation of command nodes is taken to succeed.
\<close>

section \<open>Commands\<close>

definition MAXARGS :: nat where
  "MAXARGS = 10"

definition O_RDONLY :: int where "O_RDONLY = 0"
definition O_WRONLY :: int where "O_WRONLY = 1"
definition O_RDWR :: int where "O_RDWR = 2"
definition O_CREATE :: int where "O_CREATE = 0x200"

text \<open>The slots of \<open>EXEC\<close> hold the pointers of \<open>argv\<close> and \<open>eargv\<close>, null when empty.\<close>

datatype cmd =
    EXEC "(nat \<times> nat) option list"
  | REDIR cmd nat nat int nat
  | PIPE cmd cmd
  | LIST cmd cmd
  | BACK cmd

definition execcmd :: cmd where
  "execcmd = EXEC (replicate MAXARGS None)"

definition redircmd :: "cmd \<Rightarrow> nat \<Rightarrow> nat \<Rightarrow> int \<Rightarrow> nat \<Rightarrow> cmd" where
  "redircmd subcmd file efile mode fd = REDIR subcmd file efile mode fd"

definition pipecmd :: "cmd \<Rightarrow> cmd \<Rightarrow> cmd" where
  "pipecmd left right = PIPE left right"

definition listcmd :: "cmd \<Rightarrow> cmd \<Rightarrow> cmd" where
  "listcmd left right = LIST left right"

definition backcmd :: "cmd \<Rightarrow> cmd" where
  "backcmd subcmd = BACK subcmd"

lemmas cmd_constructors = execcmd_def redircmd_def pipecmd_def listcmd_def backcmd_def

section \<open>Tokens\<close>

abbreviation "NUL \<equiv> CHR 0x00"

definition whitespace :: string where
  "whitespace = [CHR '' '', CHR 0x09, CHR 0x0D, CHR 0x0A, CHR 0x0B]"

definition symbols :: string where
  "symbols = ''<|>&;()''"

text \<open>Every read of the parser: a character of the line or its terminator, and nothing behind it.\<close>

definition char_at :: "string \<Rightarrow> nat \<Rightarrow> char res" where
  "char_at b s = arr_get (b @ [NUL]) s"

function (sequential) skip_ws :: "string \<Rightarrow> nat \<Rightarrow> nat res" where
  "skip_ws b s =
     (if s < length b then
        bindR (char_at b s) (\<lambda>c. if c \<in> set whitespace then skip_ws b (s + 1) else Inr s)
      else Inr s)"
  by pat_completeness auto
termination
  by (relation "measure (\<lambda>(b, s). length b - s)") auto

function (sequential) word_end :: "string \<Rightarrow> nat \<Rightarrow> nat res" where
  "word_end b s =
     (if s < length b then
        bindR (char_at b s) (\<lambda>c.
        if c \<notin> set whitespace \<and> c \<notin> set symbols then word_end b (s + 1) else Inr s)
      else Inr s)"
  by pat_completeness auto
termination
  by (relation "measure (\<lambda>(b, s). length b - s)") auto

declare skip_ws.simps [simp del] and word_end.simps [simp del]

text \<open>The kind of the token, its start and end, and the position after it and the blanks behind it.\<close>

definition gettoken :: "string \<Rightarrow> nat \<Rightarrow> (char \<times> nat \<times> nat \<times> nat) res" where
  "gettoken b ps =
     bindR (skip_ws b ps) (\<lambda>q.
     bindR (char_at b q) (\<lambda>c.
     bindR (if c = NUL then Inr (c, q)
            else if c \<in> set ''|();&<'' then Inr (c, q + 1)
            else if c = CHR ''>'' then
              bindR (char_at b (q + 1)) (\<lambda>d.
              Inr (if d = CHR ''>'' then (CHR ''+'', q + 2) else (c, q + 1)))
            else bindR (word_end b q) (\<lambda>e. Inr (CHR ''a'', e))) (\<lambda>(ret, eq).
     bindR (skip_ws b eq) (\<lambda>s. Inr (ret, q, eq, s)))))"

definition peek :: "string \<Rightarrow> nat \<Rightarrow> string \<Rightarrow> (bool \<times> nat) res" where
  "peek b ps toks =
     bindR (skip_ws b ps) (\<lambda>s.
     bindR (char_at b s) (\<lambda>c. Inr (c \<noteq> NUL \<and> c \<in> set toks, s)))"

text \<open>The position after a token that is only skipped, \<open>gettoken(ps, es, 0, 0)\<close>.\<close>

definition skip_token :: "string \<Rightarrow> nat \<Rightarrow> nat res" where
  "skip_token b ps = bindR (gettoken b ps) (\<lambda>(_, _, _, s). Inr s)"

section \<open>What the scanner returns\<close>

text \<open>Where a run of blanks and a run of word characters ends.\<close>

function (sequential) blanks :: "string \<Rightarrow> nat \<Rightarrow> nat" where
  "blanks b s = (if s < length b \<and> b ! s \<in> set whitespace then blanks b (s + 1) else s)"
  by pat_completeness auto
termination
  by (relation "measure (\<lambda>(b, s). length b - s)") auto

function (sequential) letters :: "string \<Rightarrow> nat \<Rightarrow> nat" where
  "letters b s =
     (if s < length b \<and> b ! s \<notin> set whitespace \<and> b ! s \<notin> set symbols then letters b (s + 1) else s)"
  by pat_completeness auto
termination
  by (relation "measure (\<lambda>(b, s). length b - s)") auto

declare blanks.simps [simp del] and letters.simps [simp del]

definition buf_char :: "string \<Rightarrow> nat \<Rightarrow> char" where
  "buf_char b s = (if s < length b then b ! s else NUL)"

lemma char_at_eq: "char_at b s = (if s \<le> length b then Inr (buf_char b s) else Inl Out_Of_Bounds)"
  by (auto simp: char_at_def arr_get_def buf_char_def nth_append)

lemma skip_ws_eq [simp]: "skip_ws b s = Inr (blanks b s)"
proof (induction b s rule: blanks.induct)
  case (1 b s)
  then show ?case by (subst skip_ws.simps, subst blanks.simps) (simp add: char_at_eq buf_char_def)
qed

lemma word_end_eq [simp]: "word_end b s = Inr (letters b s)"
proof (induction b s rule: letters.induct)
  case (1 b s)
  then show ?case by (subst word_end.simps, subst letters.simps) (auto simp: char_at_eq buf_char_def)
qed

lemma blanks_ge: "s \<le> blanks b s"
proof (induction b s rule: blanks.induct)
  case (1 b s)
  then show ?case by (subst blanks.simps) auto
qed

lemma blanks_le: "s \<le> length b \<Longrightarrow> blanks b s \<le> length b"
proof (induction b s rule: blanks.induct)
  case (1 b s)
  then show ?case by (subst blanks.simps) auto
qed

lemma blanks_stop: "blanks b s < length b \<Longrightarrow> b ! blanks b s \<notin> set whitespace"
proof (induction b s rule: blanks.induct)
  case (1 b s)
  show ?case
  proof (cases "s < length b \<and> b ! s \<in> set whitespace")
    case True
    then have "blanks b s = blanks b (s + 1)" by (subst blanks.simps) simp
    with 1 True show ?thesis by simp
  next
    case False
    then have "blanks b s = s" by (subst blanks.simps) auto
    with 1 False show ?thesis by auto
  qed
qed

lemma blanks_idem [simp]: "blanks b (blanks b s) = blanks b s"
  using blanks_stop [of b s] by (subst blanks.simps) auto

lemma letters_ge: "s \<le> letters b s"
proof (induction b s rule: letters.induct)
  case (1 b s)
  then show ?case by (subst letters.simps) auto
qed

lemma letters_le: "s \<le> length b \<Longrightarrow> letters b s \<le> length b"
proof (induction b s rule: letters.induct)
  case (1 b s)
  then show ?case by (subst letters.simps) auto
qed

lemma letters_step:
  "s < length b \<Longrightarrow> b ! s \<notin> set whitespace \<Longrightarrow> b ! s \<notin> set symbols \<Longrightarrow> s < letters b s"
  using letters_ge [of "s + 1" b] by (subst letters.simps) auto

text \<open>The token at a position, and that a call from within the line returns it without a read outside.\<close>

definition token_end :: "string \<Rightarrow> nat \<Rightarrow> char \<times> nat" where
  "token_end b q =
     (let c = buf_char b q in
      if c = NUL then (c, q)
      else if c \<in> set ''|();&<'' then (c, q + 1)
      else if c = CHR ''>'' then
        (if buf_char b (q + 1) = CHR ''>'' then (CHR ''+'', q + 2) else (c, q + 1))
      else (CHR ''a'', letters b q))"

lemma buf_char_less: "buf_char b q \<noteq> NUL \<Longrightarrow> q < length b"
  by (simp add: buf_char_def split: if_splits)

lemma gettoken_eq:
  "gettoken b ps =
     (if ps \<le> length b then
        let q = blanks b ps; (ret, eq) = token_end b q in Inr (ret, q, eq, blanks b eq)
      else Inl Out_Of_Bounds)"
proof (cases "ps \<le> length b")
  case True
  then have "blanks b ps \<le> length b" by (rule blanks_le)
  with True buf_char_less [of b "blanks b ps"] show ?thesis by (auto simp: gettoken_def char_at_eq token_end_def Let_def)
next
  case False
  then show ?thesis using blanks_ge [of ps b] by (simp add: gettoken_def char_at_eq)
qed

lemma peek_eq:
  "peek b ps toks =
     (if ps \<le> length b then Inr (buf_char b (blanks b ps) \<noteq> NUL \<and> buf_char b (blanks b ps) \<in> set toks, blanks b ps)
      else Inl Out_Of_Bounds)"
  using blanks_le [of ps b] blanks_ge [of ps b] by (auto simp: peek_def char_at_eq)

text \<open>A token other than the end moves the position forward, and never past the end.\<close>

lemma token_end_progress:
  assumes "token_end b q = (ret, eq)" and "q < length b \<Longrightarrow> b ! q \<notin> set whitespace" and "ret \<noteq> NUL"
  shows "q < eq \<and> eq \<le> length b"
proof -
  have c: "buf_char b q \<noteq> NUL" using assms(1,3) by (auto simp: token_end_def Let_def split: if_splits)
  then have q: "q < length b" by (rule buf_char_less)
  show ?thesis
  proof (cases "buf_char b q \<in> set symbols")
    case True
    then show ?thesis
      using assms(1) q c buf_char_less [of b "q + 1"] by (auto simp: token_end_def Let_def symbols_def split: if_splits)
  next
    case False
    then have "eq = letters b q" using assms(1) c by (auto simp: token_end_def Let_def symbols_def split: if_splits)
    with False q assms(2) letters_step [of q b] letters_le [of q b] show ?thesis by (auto simp: buf_char_def)
  qed
qed

lemma gettoken_progress:
  assumes "gettoken b ps = Inr (ret, q, eq, s)" and "ret \<noteq> NUL"
  shows "ps \<le> q \<and> q < eq \<and> eq \<le> length b \<and> eq \<le> s \<and> s \<le> length b"
proof -
  have t: "q = blanks b ps" "token_end b q = (ret, eq)" "s = blanks b eq"
    using assms(1) by (auto simp: gettoken_eq Let_def split: if_splits prod.splits)
  have "q < eq \<and> eq \<le> length b" using token_end_progress [OF t(2) _ assms(2)] blanks_stop t(1) by blast
  then show ?thesis using t blanks_ge [of ps b] blanks_ge [of eq b] blanks_le [of eq b] by auto
qed

lemma gettoken_ok:
  assumes "ps \<le> length b"
  obtains ret q eq s where "gettoken b ps = Inr (ret, q, eq, s)" "ps \<le> s" "s \<le> length b"
proof -
  obtain ret q eq s where g: "gettoken b ps = Inr (ret, q, eq, s)"
    using assms by (cases "token_end b (blanks b ps)") (auto simp: gettoken_eq Let_def)
  have "ps \<le> s \<and> s \<le> length b"
  proof (cases "ret = NUL")
    case True
    then have "q = blanks b ps" "eq = q" "s = blanks b q"
      using g assms by (auto simp: gettoken_eq token_end_def Let_def split: if_splits)
    with assms blanks_ge [of ps b] blanks_le [of ps b] show ?thesis by simp
  next
    case False
    with gettoken_progress [OF g] show ?thesis by simp
  qed
  with g that show thesis by blast
qed

lemma peek_pos: "peek b ps toks = Inr (t, s) \<Longrightarrow> ps \<le> s \<and> s \<le> length b"
  using blanks_ge [of ps b] blanks_le [of ps b] by (auto simp: peek_eq split: if_splits)

lemma peek_ok:
  assumes "ps \<le> length b"
  obtains t s where "peek b ps toks = Inr (t, s)" "ps \<le> s" "s \<le> length b"
  using assms blanks_ge [of ps b] blanks_le [of ps b] by (auto simp: peek_eq)

text \<open>What \<open>peek\<close> found, \<open>gettoken\<close> consumes.\<close>

lemma peek_gettoken:
  assumes "peek b ps toks = Inr (True, s)" and "gettoken b s = Inr (ret, q, eq, s')"
  shows "s < s' \<and> s' \<le> length b"
proof -
  have "buf_char b (blanks b s) \<noteq> NUL" using assms(1) by (auto simp: peek_eq split: if_splits)
  then have "ret \<noteq> NUL" using assms(2) by (auto simp: gettoken_eq token_end_def Let_def split: if_splits)
  then show ?thesis using gettoken_progress [OF assms(2)] by auto
qed

lemma peek_skip_token:
  assumes "peek b ps toks = Inr (t, s)" and t
  obtains s' where "skip_token b s = Inr s'" "s < s'" "s' \<le> length b"
proof -
  obtain ret q eq s' where g: "gettoken b s = Inr (ret, q, eq, s')"
    using gettoken_ok peek_pos [OF assms(1)] by metis
  then have "skip_token b s = Inr s'" by (simp add: skip_token_def)
  moreover have "peek b ps toks = Inr (True, s)" using assms by simp
  ultimately show thesis using peek_gettoken [OF _ g] that by blast
qed

section \<open>The parser\<close>

lemma redirs_progress:
  assumes "peek b ps toks = Inr (True, s)" and "gettoken b s = Inr (tok, x, y, s1)"
    and "gettoken b s1 = Inr (CHR ''a'', q, eq, s2)"
  shows "length b - s2 < length b - ps"
proof -
  have "ps \<le> s" using peek_pos [OF assms(1)] by simp
  also have "s < s1" using peek_gettoken [OF assms(1,2)] by simp
  also have "s1 \<le> s2" "s2 \<le> length b" using gettoken_progress [OF assms(3)] by auto
  ultimately show ?thesis by linarith
qed

lemma args_progress:
  assumes "peek b ps toks = Inr (f, s)" and "gettoken b s = Inr (CHR ''a'', q, eq, s1)" and "s1 \<le> s2"
  shows "length b - s2 < length b - ps"
proof -
  have "ps \<le> s" using peek_pos [OF assms(1)] by simp
  also have "s < s1" "s1 \<le> length b" using gettoken_progress [OF assms(2)] by auto
  ultimately show ?thesis using assms(3) by linarith
qed

function (sequential) parseredirs :: "string \<Rightarrow> cmd \<Rightarrow> nat \<Rightarrow> (cmd \<times> nat) res" where
  "parseredirs b c ps =
     bindR (peek b ps ''<>'') (\<lambda>(more, s).
     if more then
       bindR (gettoken b s) (\<lambda>(tok, _, _, s).
       bindR (gettoken b s) (\<lambda>(kind, q, eq, s).
       if kind \<noteq> CHR ''a'' then Inl (Panic ''missing file for redirection'')
       else if tok = CHR ''<'' then parseredirs b (redircmd c q eq O_RDONLY 0) s
       else if tok = CHR ''>'' then parseredirs b (redircmd c q eq (O_WRONLY OR O_CREATE) 1) s
       else if tok = CHR ''+'' then parseredirs b (redircmd c q eq (O_WRONLY OR O_CREATE) 1) s
       else parseredirs b c s))
     else Inr (c, s))"
  by pat_completeness auto
termination
  by (relation "measure (\<lambda>(b, _, ps). length b - ps)") (auto intro: redirs_progress)

declare parseredirs.simps [simp del]

text \<open>A word of the buffer: maximal to the right, so that the position after it is no part of a word.\<close>

definition word_char :: "char \<Rightarrow> bool" where
  "word_char c \<longleftrightarrow> c \<notin> set whitespace \<and> c \<notin> set symbols"

definition word_tok :: "string \<Rightarrow> nat \<times> nat \<Rightarrow> bool" where
  "word_tok b t = (case t of (q, eq) \<Rightarrow> q < eq \<and> eq \<le> length b \<and>
     (\<forall>i \<in> {q..<eq}. word_char (b ! i)) \<and> (eq < length b \<longrightarrow> \<not> word_char (b ! eq)))"

lemma letters_chars:
  "(\<forall>i \<in> {s..<letters b s}. word_char (b ! i)) \<and> (letters b s < length b \<longrightarrow> \<not> word_char (b ! letters b s))"
proof (induction b s rule: letters.induct)
  case (1 b s)
  show ?case
  proof (cases "s < length b \<and> b ! s \<notin> set whitespace \<and> b ! s \<notin> set symbols")
    case True
    then have "letters b s = letters b (s + 1)" by (subst letters.simps) simp
    moreover have "word_char (b ! s)" using True by (simp add: word_char_def)
    ultimately show ?thesis using 1 True by (metis (no_types, lifting) Suc_eq_plus1 atLeastLessThan_iff le_antisym not_less_eq_eq)
  next
    case False
    then have "letters b s = s" by (subst letters.simps) auto
    with False show ?thesis by (auto simp: word_char_def)
  qed
qed

lemma gettoken_word:
  assumes "gettoken b ps = Inr (CHR ''a'', q, eq, s)"
  shows "word_tok b (q, eq)"
proof -
  have "q < eq" "eq \<le> length b" using gettoken_progress [OF assms] by auto
  moreover have "eq = letters b q"
    using assms by (auto simp: gettoken_eq token_end_def Let_def split: if_splits)
  ultimately show ?thesis using letters_chars [of q b] by (simp add: word_tok_def)
qed

text \<open>
  \<open>parseredirs\<close> stays within the buffer, wraps the command in redirections to words, and fails
  only by \<open>panic\<close>.
\<close>

lemma parseredirs_result:
  "ps \<le> length b \<Longrightarrow> Q c \<Longrightarrow> (\<And>c q eq m f. Q c \<Longrightarrow> word_tok b (q, eq) \<Longrightarrow> Q (REDIR c q eq m f)) \<Longrightarrow>
   case parseredirs b c ps of Inl e \<Rightarrow> \<exists>m. e = Panic m | Inr (c', s) \<Rightarrow> ps \<le> s \<and> s \<le> length b \<and> Q c'"
proof (induction b c ps rule: parseredirs.induct)
  case (1 b c ps)
  obtain more s1 where p: "peek b ps ''<>'' = Inr (more, s1)" "ps \<le> s1" "s1 \<le> length b"
    using peek_ok [OF "1.prems"(1)] by blast
  obtain tok x y s2 where g: "gettoken b s1 = Inr (tok, x, y, s2)" "s1 \<le> s2" "s2 \<le> length b"
    using gettoken_ok [OF p(3)] by blast
  obtain kind q eq s3 where g': "gettoken b s2 = Inr (kind, q, eq, s3)" "s2 \<le> s3" "s3 \<le> length b"
    using gettoken_ok [OF g(3)] by blast
  show ?case
  proof (cases "more \<and> kind = CHR ''a''")
    case False
    then show ?thesis using "1.prems" p by (subst parseredirs.simps) (auto simp: g(1) g'(1))
  next
    case True
    then have m: more and kind: "\<not> kind \<noteq> CHR ''a''" by auto
    have ge: "ps \<le> s3" using p(2) g(2) g'(2) by linarith
    have w: "word_tok b (q, eq)" using gettoken_word g'(1) kind by simp
    note IH = "1.IH" [OF p(1) refl m g(1) refl refl refl g'(1) refl refl refl kind]
    have Q': "Q (redircmd c q eq mo f)" for mo f
      using "1.prems"(3) [OF "1.prems"(2) w] by (simp add: redircmd_def)
    define R where "R = (\<lambda>r :: (cmd \<times> nat) res. case r of Inl e \<Rightarrow> \<exists>m. e = Panic m
      | Inr (c', s) \<Rightarrow> s3 \<le> s \<and> s \<le> length b \<and> Q c')"
    have "R (parseredirs b c ps)"
      by (subst parseredirs.simps)
         (use IH kind m g'(3) Q' "1.prems"(2,3) in \<open>auto simp: p(1) g(1) g'(1) R_def\<close>)
    then show ?thesis using ge by (auto simp: R_def split: sum.splits prod.splits)
  qed
qed

lemma parseredirs_pos:
  assumes "parseredirs b c ps = Inr (c', s)" and "ps \<le> length b"
  shows "ps \<le> s \<and> s \<le> length b"
  using parseredirs_result [OF assms(2), of "\<lambda>_. True" c] assms(1) by simp

text \<open>The \<open>EXEC\<close> node that \<open>parseexec\<close> keeps a pointer to lies under the redirections wrapped around it.\<close>

fun set_arg :: "cmd \<Rightarrow> nat \<Rightarrow> (nat \<times> nat) option \<Rightarrow> cmd res" where
  "set_arg (EXEC as) i a = bindR (arr_set as i a) (\<lambda>as. Inr (EXEC as))"
| "set_arg (REDIR c q eq m f) i a = bindR (set_arg c i a) (\<lambda>c. Inr (REDIR c q eq m f))"
| "set_arg _ i a = Inl Assert_Failed"

function (sequential) parseexec_loop :: "string \<Rightarrow> cmd \<Rightarrow> nat \<Rightarrow> nat \<Rightarrow> (cmd \<times> nat \<times> nat) res" where
  "parseexec_loop b ret argc ps =
     bindR (peek b ps ''|)&;'') (\<lambda>(stop, s).
     if stop then Inr (ret, argc, s)
     else
       bindR (gettoken b s) (\<lambda>(tok, q, eq, s).
       if tok = NUL then Inr (ret, argc, s)
       else if tok \<noteq> CHR ''a'' then Inl (Panic ''syntax'')
       else
         bindR (set_arg ret argc (Some (q, eq))) (\<lambda>ret.
         let argc = argc + 1 in
         if argc \<ge> MAXARGS then Inl (Panic ''too many args'')
         else bindR (parseredirs b ret s) (\<lambda>(ret, s). parseexec_loop b ret argc s))))"
  by pat_completeness auto
termination
proof (relation "measure (\<lambda>(b, _, _, ps). length b - ps)", goal_cases)
  case (2 b ret argc ps x stop s x1 tok y1 q y2 eq s1 ret1 argc1 x2 ret2 s2)
  then have g: "gettoken b s = Inr (CHR ''a'', q, eq, s1)" by simp
  then have "s1 \<le> s2" using gettoken_progress [OF g] parseredirs_pos [of b ret1 s1 ret2 s2] 2 by simp
  with args_progress [of b ps "''|)&;''" stop s q eq s1 s2] g 2 show ?case by simp
qed simp

declare parseexec_loop.simps [simp del]

function (sequential) back_loop :: "string \<Rightarrow> cmd \<Rightarrow> nat \<Rightarrow> (cmd \<times> nat) res" where
  "back_loop b c ps =
     bindR (peek b ps ''&'') (\<lambda>(more, s).
     if more then bindR (skip_token b s) (\<lambda>s. back_loop b (backcmd c) s) else Inr (c, s))"
  by pat_completeness auto
termination
proof (relation "measure (\<lambda>(b, _, ps). length b - ps)", goal_cases)
  case (2 b c ps x more s s1)
  then have p: "peek b ps ''&'' = Inr (True, s)" by simp
  obtain s' where "skip_token b s = Inr s'" "s < s'" "s' \<le> length b" using peek_skip_token [OF p] by blast
  with peek_pos [OF p] 2 show ?case by simp
qed simp

declare back_loop.simps [simp del]

text \<open>
  The mutually recursive part. The fuel counts nested calls; \<open>parsecmd\<close> starts with four per
  character and four more, which is always enough.
\<close>

fun parseline :: "string \<Rightarrow> nat \<Rightarrow> nat \<Rightarrow> (cmd \<times> nat) res"
and parsepipe :: "string \<Rightarrow> nat \<Rightarrow> nat \<Rightarrow> (cmd \<times> nat) res"
and parseexec :: "string \<Rightarrow> nat \<Rightarrow> nat \<Rightarrow> (cmd \<times> nat) res"
and parseblock :: "string \<Rightarrow> nat \<Rightarrow> nat \<Rightarrow> (cmd \<times> nat) res" where
  "parseline b 0 ps = Inl Out_Of_Fuel"
| "parseline b (Suc fuel) ps =
     bindR (parsepipe b fuel ps) (\<lambda>(c, s).
     bindR (back_loop b c s) (\<lambda>(c, s).
     bindR (peek b s '';'') (\<lambda>(more, s).
     if more then
       bindR (skip_token b s) (\<lambda>s.
       bindR (parseline b fuel s) (\<lambda>(r, s). Inr (listcmd c r, s)))
     else Inr (c, s))))"
| "parsepipe b 0 ps = Inl Out_Of_Fuel"
| "parsepipe b (Suc fuel) ps =
     bindR (parseexec b fuel ps) (\<lambda>(c, s).
     bindR (peek b s ''|'') (\<lambda>(more, s).
     if more then
       bindR (skip_token b s) (\<lambda>s.
       bindR (parsepipe b fuel s) (\<lambda>(r, s). Inr (pipecmd c r, s)))
     else Inr (c, s)))"
| "parseexec b 0 ps = Inl Out_Of_Fuel"
| "parseexec b (Suc fuel) ps =
     bindR (peek b ps ''('') (\<lambda>(block, s).
     if block then parseblock b fuel s
     else
       bindR (parseredirs b execcmd s) (\<lambda>(ret, s).
       bindR (parseexec_loop b ret 0 s) (\<lambda>(ret, argc, s).
       bindR (set_arg ret argc None) (\<lambda>ret. Inr (ret, s)))))"
| "parseblock b 0 ps = Inl Out_Of_Fuel"
| "parseblock b (Suc fuel) ps =
     bindR (peek b ps ''('') (\<lambda>(opening, s).
     if \<not> opening then Inl (Panic ''parseblock'')
     else
       bindR (skip_token b s) (\<lambda>s.
       bindR (parseline b fuel s) (\<lambda>(c, s).
       bindR (peek b s '')'') (\<lambda>(closing, s).
       if \<not> closing then Inl (Panic ''syntax - missing )'')
       else bindR (skip_token b s) (\<lambda>s. parseredirs b c s)))))"

text \<open>Writing the zeros behind the words. The buffer now includes its terminator.\<close>

fun nul_args :: "string \<Rightarrow> (nat \<times> nat) option list \<Rightarrow> string res" where
  "nul_args buf [] = Inl Out_Of_Bounds"
| "nul_args buf (None # as) = Inr buf"
| "nul_args buf (Some (q, eq) # as) = bindR (arr_set buf eq NUL) (\<lambda>buf. nul_args buf as)"

fun nulterminate :: "string \<Rightarrow> cmd \<Rightarrow> string res" where
  "nulterminate buf (EXEC as) = nul_args buf as"
| "nulterminate buf (REDIR c q eq m f) = bindR (nulterminate buf c) (\<lambda>buf. arr_set buf eq NUL)"
| "nulterminate buf (PIPE l r) = bindR (nulterminate buf l) (\<lambda>buf. nulterminate buf r)"
| "nulterminate buf (LIST l r) = bindR (nulterminate buf l) (\<lambda>buf. nulterminate buf r)"
| "nulterminate buf (BACK c) = nulterminate buf c"

definition parsecmd :: "string \<Rightarrow> (cmd \<times> string) res" where
  "parsecmd b =
     bindR (parseline b (4 * length b + 4) 0) (\<lambda>(c, s).
     bindR (peek b s []) (\<lambda>(_, s).
     if s \<noteq> length b then Inl (Panic ''syntax'')
     else bindR (nulterminate (b @ [NUL]) c) (\<lambda>buf. Inr (c, buf))))"

section \<open>What the parser builds\<close>

text \<open>
  A well-formed command: every \<open>EXEC\<close> node has its words in front, fewer than \<open>MAXARGS\<close> of them, and
  null pointers behind; all words are words of the buffer.
\<close>

definition slots :: "(nat \<times> nat) list \<Rightarrow> (nat \<times> nat) option list" where
  "slots ts = map Some ts @ replicate (MAXARGS - length ts) None"

fun wf_cmd :: "string \<Rightarrow> cmd \<Rightarrow> bool" where
  "wf_cmd b (EXEC as) \<longleftrightarrow> (\<exists>ts. as = slots ts \<and> length ts < MAXARGS \<and> list_all (word_tok b) ts)"
| "wf_cmd b (REDIR c q eq m f) \<longleftrightarrow> wf_cmd b c \<and> word_tok b (q, eq)"
| "wf_cmd b (PIPE l r) \<longleftrightarrow> wf_cmd b l \<and> wf_cmd b r"
| "wf_cmd b (LIST l r) \<longleftrightarrow> wf_cmd b l \<and> wf_cmd b r"
| "wf_cmd b (BACK c) \<longleftrightarrow> wf_cmd b c"

text \<open>A command under construction in \<open>parseexec\<close>: redirections around a node with \<open>n\<close> words.\<close>

fun exec_spine :: "string \<Rightarrow> nat \<Rightarrow> cmd \<Rightarrow> bool" where
  "exec_spine b n (EXEC as) \<longleftrightarrow> (\<exists>ts. as = slots ts \<and> length ts = n \<and> list_all (word_tok b) ts)"
| "exec_spine b n (REDIR c q eq m f) \<longleftrightarrow> exec_spine b n c \<and> word_tok b (q, eq)"
| "exec_spine b n _ \<longleftrightarrow> False"

lemma exec_spine_wf: "exec_spine b n c \<Longrightarrow> n < MAXARGS \<Longrightarrow> wf_cmd b c"
  by (induction b n c rule: exec_spine.induct) auto

lemma slots_set:
  "length ts < MAXARGS \<Longrightarrow> arr_set (slots ts) (length ts) (Some t) = Inr (slots (ts @ [t]))"
proof -
  assume a: "length ts < MAXARGS"
  then have "replicate (MAXARGS - length ts) None = None # replicate (MAXARGS - Suc (length ts)) (None :: (nat \<times> nat) option)"
    by (metis Suc_diff_Suc replicate_Suc)
  with a show ?thesis by (simp add: arr_set_def slots_def list_update_append)
qed

lemma slots_clear:
  "length ts < MAXARGS \<Longrightarrow> arr_set (slots ts) (length ts) None = Inr (slots ts)"
proof -
  assume a: "length ts < MAXARGS"
  then have "replicate (MAXARGS - length ts) None = None # replicate (MAXARGS - Suc (length ts)) (None :: (nat \<times> nat) option)"
    by (metis Suc_diff_Suc replicate_Suc)
  with a show ?thesis by (simp add: arr_set_def slots_def list_update_append)
qed

lemma set_arg_Some:
  "exec_spine b n c \<Longrightarrow> n < MAXARGS \<Longrightarrow> word_tok b t \<Longrightarrow>
   \<exists>c'. set_arg c n (Some t) = Inr c' \<and> exec_spine b (n + 1) c'"
proof (induction b n c rule: exec_spine.induct)
  case (1 b n as)
  then obtain ts where "as = slots ts" "length ts = n" "list_all (word_tok b) ts" by auto
  with 1 slots_set [of ts t] show ?case by (auto intro!: exI [of _ "ts @ [t]"])
qed auto

lemma set_arg_None:
  "exec_spine b n c \<Longrightarrow> n < MAXARGS \<Longrightarrow> set_arg c n None = Inr c"
  by (induction b n c rule: exec_spine.induct) (auto simp: slots_clear)

lemma exec_spine_start: "exec_spine b 0 execcmd"
  by (auto simp: execcmd_def slots_def)

lemma parseredirs_spine:
  "ps \<le> length b \<Longrightarrow> exec_spine b n c \<Longrightarrow>
   case parseredirs b c ps of Inl e \<Rightarrow> \<exists>m. e = Panic m
   | Inr (c', s) \<Rightarrow> ps \<le> s \<and> s \<le> length b \<and> exec_spine b n c'"
  by (rule parseredirs_result) auto

lemma parseexec_loop_result:
  "ps \<le> length b \<Longrightarrow> exec_spine b argc ret \<Longrightarrow> argc < MAXARGS \<Longrightarrow>
   case parseexec_loop b ret argc ps of Inl e \<Rightarrow> \<exists>m. e = Panic m
   | Inr (c', n, s) \<Rightarrow> ps \<le> s \<and> s \<le> length b \<and> exec_spine b n c' \<and> n < MAXARGS"
proof (induction b ret argc ps rule: parseexec_loop.induct)
  case (1 b ret argc ps)
  obtain stop s where p: "peek b ps ''|)&;'' = Inr (stop, s)" and s: "ps \<le> s" "s \<le> length b"
    using peek_ok [OF "1.prems"(1)] by blast
  obtain tok q eq s1 where g: "gettoken b s = Inr (tok, q, eq, s1)" and s1: "s \<le> s1" "s1 \<le> length b"
    using gettoken_ok [OF s(2)] by blast
  show ?case
  proof (cases "\<not> stop \<and> tok = CHR ''a''")
    case False
    then show ?thesis using "1.prems" s s1 by (subst parseexec_loop.simps) (auto simp: p g)
  next
    case True
    then have st: "\<not> stop" and tok: "\<not> tok \<noteq> CHR ''a''" "tok \<noteq> NUL" by auto
    from tok g gettoken_word have w: "word_tok b (q, eq)" by simp
    from set_arg_Some [OF "1.prems"(2,3) w] obtain ret' where
      ret': "set_arg ret argc (Some (q, eq)) = Inr ret'" "exec_spine b (argc + 1) ret'" by auto
    note eqn = parseexec_loop.simps [of b ret argc ps, unfolded p g bindR_Inr split Let_def]
    show ?thesis
    proof (cases "MAXARGS \<le> argc + 1 \<or> (\<exists>e. parseredirs b ret' s1 = Inl e)")
      case True
      then show ?thesis using st tok ret' parseredirs_spine [OF s1(2) ret'(2)] by (auto simp: eqn)
    next
      case False
      then obtain c2 s2 where r: "parseredirs b ret' s1 = Inr (c2, s2)" and n: "\<not> argc + 1 \<ge> MAXARGS"
        by (cases "parseredirs b ret' s1") auto
      have c2: "s1 \<le> s2" "s2 \<le> length b" "exec_spine b (argc + 1) c2"
        using parseredirs_spine [OF s1(2) ret'(2)] by (auto simp: r)
      have IH: "case parseexec_loop b c2 (argc + 1) s2 of Inl e \<Rightarrow> \<exists>m. e = Panic m
        | Inr (c', n, s) \<Rightarrow> s2 \<le> s \<and> s \<le> length b \<and> exec_spine b n c' \<and> n < MAXARGS"
        using "1.IH" [OF p refl st g refl refl refl tok(2,1) ret'(1) refl n r refl] c2 n
        by simp
      have "parseexec_loop b ret argc ps = parseexec_loop b c2 (argc + 1) s2"
        using st tok ret'(1) n r by (simp add: eqn)
      then show ?thesis using IH s s1 c2(1) by (auto split: sum.splits)
    qed
  qed
qed

lemma back_loop_result:
  "ps \<le> length b \<Longrightarrow> wf_cmd b c \<Longrightarrow>
   \<exists>c' s. back_loop b c ps = Inr (c', s) \<and> ps \<le> s \<and> s \<le> length b \<and> wf_cmd b c'"
proof (induction b c ps rule: back_loop.induct)
  case (1 b c ps)
  obtain more s where p: "peek b ps ''&'' = Inr (more, s)" "ps \<le> s" "s \<le> length b"
    using peek_ok [OF "1.prems"(1)] by blast
  show ?case
  proof (cases more)
    case True
    obtain s1 where a: "skip_token b s = Inr s1" "s < s1" "s1 \<le> length b"
      using peek_skip_token [OF p(1) True] by blast
    have "wf_cmd b (backcmd c)" using "1.prems"(2) by (simp add: backcmd_def)
    from "1.IH" [OF p(1) refl True a(1,3) this] a p(2) True show ?thesis
      by (subst back_loop.simps) (auto simp: p(1))
  next
    case False
    then show ?thesis using "1.prems" p by (subst back_loop.simps) auto
  qed
qed

definition outcome :: "string \<Rightarrow> nat \<Rightarrow> nat \<Rightarrow> nat \<Rightarrow> (cmd \<times> nat) res \<Rightarrow> bool" where
  "outcome b fuel need ps r =
     (case r of Inl e \<Rightarrow> e = Out_Of_Fuel \<and> fuel < need \<or> (\<exists>m. e = Panic m)
      | Inr (c, s) \<Rightarrow> ps \<le> s \<and> s \<le> length b \<and> wf_cmd b c)"

lemma outcome_Inl [simp]: "outcome b fuel need ps (Inl e) \<longleftrightarrow> e = Out_Of_Fuel \<and> fuel < need \<or> (\<exists>m. e = Panic m)"
  by (simp add: outcome_def)

lemma outcome_Inr [simp]: "outcome b fuel need ps (Inr (c, s)) \<longleftrightarrow> ps \<le> s \<and> s \<le> length b \<and> wf_cmd b c"
  by (simp add: outcome_def)

lemma outcome_bind:
  assumes "outcome b fuel need ps m" and "fuel < need \<longrightarrow> fuel' < need'"
    and "\<And>c s. m = Inr (c, s) \<Longrightarrow> ps \<le> s \<Longrightarrow> s \<le> length b \<Longrightarrow> wf_cmd b c \<Longrightarrow> outcome b fuel' need' ps' (k (c, s))"
  shows "outcome b fuel' need' ps' (bindR m k)"
  using assms by (cases m) (auto split: prod.splits)

lemma parse_simple_outcome:
  assumes "s \<le> length b"
  shows "outcome b fuel need s
    (bindR (parseredirs b execcmd s) (\<lambda>(ret, s).
     bindR (parseexec_loop b ret 0 s) (\<lambda>(ret, argc, s).
     bindR (set_arg ret argc None) (\<lambda>ret. Inr (ret, s)))))"
proof (cases "parseredirs b execcmd s")
  case (Inl e)
  with parseredirs_spine [OF assms exec_spine_start] show ?thesis by simp
next
  case (Inr cs)
  then obtain c1 s1 where r: "parseredirs b execcmd s = Inr (c1, s1)" by (cases cs) simp
  with parseredirs_spine [OF assms exec_spine_start] have c1: "s \<le> s1" "s1 \<le> length b" "exec_spine b 0 c1"
    by auto
  have "0 < MAXARGS" by (simp add: MAXARGS_def)
  from parseexec_loop_result [OF c1(2,3) this] c1(1) show ?thesis
    by (cases "parseexec_loop b c1 0 s1") (auto simp: r set_arg_None exec_spine_wf)
qed

text \<open>After a token that was seen, the rest of the line is shorter.\<close>

lemma outcome_peek:
  assumes "s \<le> length b" and "ps \<le> s"
    and "\<And>s1 s2. s \<le> s1 \<Longrightarrow> skip_token b s1 = Inr s2 \<Longrightarrow> s1 < s2 \<Longrightarrow> s2 \<le> length b \<Longrightarrow> outcome b fuel need ps (yes s1)"
    and "\<And>s1. s \<le> s1 \<Longrightarrow> s1 \<le> length b \<Longrightarrow> outcome b fuel need ps (no s1)"
  shows "outcome b fuel need ps (bindR (peek b s toks) (\<lambda>(more, s). if more then yes s else no s))"
proof -
  obtain more s1 where p: "peek b s toks = Inr (more, s1)" "s \<le> s1" "s1 \<le> length b" using peek_ok [OF assms(1)] by blast
  show ?thesis
  proof (cases more)
    case True
    obtain s2 where "skip_token b s1 = Inr s2" "s1 < s2" "s2 \<le> length b" using peek_skip_token [OF p(1) True] by blast
    then show ?thesis using assms(3) [OF p(2)] p(1) True by simp
  qed (use assms(4) p in simp)
qed

lemma parser_outcome:
  "ps \<le> length b \<Longrightarrow> outcome b fuel (4 * (length b - ps) + 4) ps (parseline b fuel ps)"
  "ps \<le> length b \<Longrightarrow> outcome b fuel (4 * (length b - ps) + 3) ps (parsepipe b fuel ps)"
  "ps \<le> length b \<Longrightarrow> outcome b fuel (4 * (length b - ps) + 2) ps (parseexec b fuel ps)"
  "ps \<le> length b \<Longrightarrow> outcome b fuel (4 * (length b - ps) + 1) ps (parseblock b fuel ps)"
proof (induction fuel arbitrary: ps)
  case 0
  { case 1 show ?case by simp }
  { case 2 show ?case by simp }
  { case 3 show ?case by simp }
  { case 4 show ?case by simp }
next
  case (Suc fuel)
  { case 1
    show ?case unfolding parseline.simps
    proof (rule outcome_bind [OF Suc.IH(2) [OF 1]], goal_cases)
      case (2 c s)
      obtain c1 s1 where b: "back_loop b c s = Inr (c1, s1)" and c1: "s \<le> s1" "s1 \<le> length b" "wf_cmd b c1"
        using back_loop_result [OF 2(3,4)] by blast
      show ?case unfolding b bindR_Inr split
      proof (rule outcome_peek [OF c1(2)], goal_cases)
        case (2 s2 s3)
        show ?case unfolding 2(2) bindR_Inr
          by (rule outcome_bind [OF Suc.IH(1) [OF 2(4)]]) (use 2 c1 \<open>ps \<le> s\<close> in \<open>auto simp: listcmd_def\<close>)
      qed (use c1 2 in auto)
    qed simp }
  { case 2
    show ?case unfolding parsepipe.simps
    proof (rule outcome_bind [OF Suc.IH(3) [OF 2]], goal_cases)
      case (2 c s)
      show ?case unfolding split
      proof (rule outcome_peek [OF 2(3)], goal_cases)
        case (2 s2 s3)
        show ?case unfolding 2(2) bindR_Inr
          by (rule outcome_bind [OF Suc.IH(2) [OF 2(4)]]) (use 2 \<open>ps \<le> s\<close> \<open>wf_cmd b c\<close> in \<open>auto simp: pipecmd_def\<close>)
      qed (use 2 in auto)
    qed simp }
  { case 3
    show ?case unfolding parseexec.simps
    proof (rule outcome_peek [OF 3], goal_cases)
      case (2 s s1)
      then have "s \<le> length b" by simp
      from Suc.IH(4) [OF this] 2(1) show ?case by (cases "parseblock b fuel s") (auto split: prod.splits)
    next
      case (3 s)
      with parse_simple_outcome [OF 3(2), of "Suc fuel" "4 * (length b - ps) + 2"] show ?case
        by (auto simp: outcome_def split: sum.splits)
    qed simp }
  { case 4
    obtain op s where p: "peek b ps ''('' = Inr (op, s)" "ps \<le> s" "s \<le> length b" using peek_ok [OF 4] by blast
    show ?case
    proof (cases op)
      case True
      obtain s1 where a: "skip_token b s = Inr s1" "s < s1" "s1 \<le> length b" using peek_skip_token [OF p(1) True] by blast
      show ?thesis
        unfolding parseblock.simps p(1) bindR_Inr split a(1) using True
      proof (simp only: not_True_eq_False if_False, intro outcome_bind [OF Suc.IH(1) [OF a(3)]], goal_cases)
        case (2 c s2)
        obtain cl s3 where p2: "peek b s2 '')'' = Inr (cl, s3)" "s2 \<le> s3" using peek_ok [OF \<open>s2 \<le> length b\<close>] by blast
        show ?case
        proof (cases cl)
          case True
          obtain s4 where a2: "skip_token b s3 = Inr s4" "s3 < s4" "s4 \<le> length b" using peek_skip_token [OF p2(1) True] by blast
          from parseredirs_result [OF a2(3), of "wf_cmd b" c] 2 a a2 p p2 True show ?thesis
            by (cases "parseredirs b c s4") (auto simp: p2(1))
        qed (simp add: p2(1))
      qed (use a p in linarith)
    qed (simp add: p(1)) }
qed

section \<open>Terminating the words\<close>

definition cstr :: "string \<Rightarrow> nat \<Rightarrow> string" where
  "cstr buf q = takeWhile (\<lambda>c. c \<noteq> NUL) (drop q buf)"

text \<open>The words of a command.\<close>

fun cmd_words :: "cmd \<Rightarrow> (nat \<times> nat) list" where
  "cmd_words (EXEC as) = map the (takeWhile (\<lambda>a. a \<noteq> None) as)"
| "cmd_words (REDIR c q eq m f) = cmd_words c @ [(q, eq)]"
| "cmd_words (PIPE l r) = cmd_words l @ cmd_words r"
| "cmd_words (LIST l r) = cmd_words l @ cmd_words r"
| "cmd_words (BACK c) = cmd_words c"

lemma words_of_slots: "map the (takeWhile (\<lambda>a. a \<noteq> None) (map Some ts @ replicate n None)) = ts"
  by (induction ts) (auto simp: takeWhile_replicate)

lemma cmd_words_slots [simp]: "cmd_words (EXEC (slots ts)) = ts"
  unfolding cmd_words.simps slots_def by (rule words_of_slots)

text \<open>
  \<open>nulterminate\<close> has the effect of zeroing the ends of the words, in whatever order.
\<close>

definition zero_at :: "nat list \<Rightarrow> string \<Rightarrow> string" where
  "zero_at ps buf = fold (\<lambda>p buf. buf[p := NUL]) ps buf"

lemma length_zero_at [simp]: "length (zero_at ps buf) = length buf"
  by (induction ps arbitrary: buf) (auto simp: zero_at_def)

lemma zero_at_nth:
  "i < length buf \<Longrightarrow> zero_at ps buf ! i = (if i \<in> set ps then NUL else buf ! i)"
  by (induction ps arbitrary: buf) (auto simp: zero_at_def nth_list_update)

lemma zero_at_single: "zero_at [p] buf = buf[p := NUL]"
  by (simp add: zero_at_def)

lemma zero_at_append: "zero_at (ps @ qs) buf = zero_at qs (zero_at ps buf)"
  by (simp add: zero_at_def)

lemma nul_args_slots:
  "list_all (\<lambda>(q, eq). eq < length buf) ts \<Longrightarrow> length ts < n \<Longrightarrow>
   nul_args buf (map Some ts @ replicate (n - length ts) None) = Inr (zero_at (map snd ts) buf)"
proof (induction ts arbitrary: buf n)
  case Nil
  then show ?case by (cases n) (auto simp: zero_at_def)
next
  case (Cons t ts)
  obtain q eq where t: "t = (q, eq)" by (cases t)
  have "list_all (\<lambda>(q, e). e < length (buf[eq := NUL])) ts" using Cons.prems(1) by simp
  from Cons.IH [OF this, of "n - 1"] Cons.prems t show ?case by (simp add: zero_at_def arr_set_def)
qed

lemma nulterminate_wf:
  "wf_cmd b c \<Longrightarrow> length buf = Suc (length b) \<Longrightarrow>
   nulterminate buf c = Inr (zero_at (map snd (cmd_words c)) buf)"
proof (induction c arbitrary: buf)
  case (EXEC as)
  then obtain ts where ts: "as = slots ts" "length ts < MAXARGS" "list_all (word_tok b) ts" by auto
  have "list_all (\<lambda>(q, eq). eq < length buf) ts"
    using ts(3) EXEC.prems(2) by (fastforce simp: list_all_iff word_tok_def)
  with nul_args_slots [OF this ts(2)] ts(1) show ?case by (simp add: slots_def [symmetric] del: cmd_words.simps)
next
  case (REDIR c q eq m f)
  then show ?case by (auto simp: zero_at_append zero_at_single word_tok_def arr_set_def)
next
  case (PIPE l r)
  from PIPE.prems have "length (zero_at (map snd (cmd_words l)) buf) = Suc (length b)" by simp
  with PIPE show ?case by (simp add: zero_at_append)
next
  case (LIST l r)
  from LIST.prems have "length (zero_at (map snd (cmd_words l)) buf) = Suc (length b)" by simp
  with LIST show ?case by (simp add: zero_at_append)
qed auto

lemma wf_cmd_words: "wf_cmd b c \<Longrightarrow> t \<in> set (cmd_words c) \<Longrightarrow> word_tok b t"
proof (induction c)
  case (EXEC as)
  then obtain ts where "as = slots ts" "list_all (word_tok b) ts" by auto
  with EXEC.prems(2) show ?case by (auto simp: list_all_iff simp del: cmd_words.simps)
qed auto

lemma takeWhile_seg:
  assumes "q \<le> e" and "e < length buf" and "buf ! e = NUL" and "\<forall>i \<in> {q..<e}. buf ! i \<noteq> NUL"
  shows "takeWhile (\<lambda>c. c \<noteq> NUL) (drop q buf) = take (e - q) (drop q buf)"
proof (rule takeWhile_eq_take_P_nth)
  show "e - q < length (drop q buf) \<Longrightarrow> \<not> drop q buf ! (e - q) \<noteq> NUL" using assms by simp
qed (use assms in auto)

lemma terminated_word:
  assumes "NUL \<notin> set b" and "\<forall>t \<in> set ts. word_tok b t" and "(q, e) \<in> set ts"
  shows "cstr (zero_at (map snd ts) (b @ [NUL])) q = take (e - q) (drop q b)"
proof -
  let ?z = "zero_at (map snd ts) (b @ [NUL])"
  from assms(2,3) have t: "q < e" "e \<le> length b" "\<forall>i \<in> {q..<e}. word_char (b ! i)" by (auto simp: word_tok_def)
  have keep: "?z ! i = b ! i" if "i \<in> {q..<e}" for i
  proof -
    from that t have i: "i < length b" "word_char (b ! i)" by auto
    have "i \<notin> set (map snd ts)" using assms(2) i by (auto simp: word_tok_def)
    with i show ?thesis by (simp add: zero_at_nth nth_append)
  qed
  have "\<forall>i \<in> {q..<e}. ?z ! i \<noteq> NUL" using keep t assms(1) by (auto simp: in_set_conv_nth)
  moreover have "?z ! e = NUL" using assms(3) t by (force simp: zero_at_nth)
  ultimately have "cstr ?z q = take (e - q) (drop q ?z)"
    unfolding cstr_def using t by (intro takeWhile_seg) auto
  also have "\<dots> = take (e - q) (drop q b)"
    using t keep by (intro nth_equalityI) auto
  finally show ?thesis .
qed

lemma parsecmd_result:
  "case parsecmd b of Inl e \<Rightarrow> \<exists>m. e = Panic m
   | Inr (c, buf) \<Rightarrow> wf_cmd b c \<and> buf = zero_at (map snd (cmd_words c)) (b @ [NUL])"
proof -
  have "outcome b (4 * length b + 4) (4 * length b + 4) 0 (parseline b (4 * length b + 4) 0)"
    using parser_outcome(1) [of 0 b "4 * length b + 4"] by simp
  then show ?thesis
    by (cases "parseline b (4 * length b + 4) 0")
       (auto simp: parsecmd_def nulterminate_wf peek_eq split: prod.splits)
qed

text \<open>C22: the parser returns on every line: it builds a command or stops with one of its own
  \<open>panic\<close> messages; it never runs out of the depth given to the recursion. As every read of the line, by
  \<open>char_at\<close>, and every write, by \<open>arr_set\<close>, fails outside of the line with its terminator or outside of the
  argument slots, none of them is out of bounds.\<close>

theorem parsecmd_total:
  "(\<exists>c buf. parsecmd b = Inr (c, buf) \<and> length buf = length b + 1) \<or> (\<exists>m. parsecmd b = Inl (Panic m))"
  using parsecmd_result [of b] by (auto split: sum.splits)

text \<open>C12: in the buffer that \<open>parsecmd\<close> leaves, every word of the parsed command, read up to the next
  zero, is exactly the text between its two pointers, although the zeros were written over the
  line itself.\<close>

theorem parsecmd_words:
  assumes "NUL \<notin> set b" and "parsecmd b = Inr (c, buf)" and "(q, e) \<in> set (cmd_words c)"
  shows "cstr buf q = take (e - q) (drop q b) \<and> q < e \<and> e \<le> length b \<and> list_all word_char (cstr buf q)"
proof -
  from parsecmd_result [of b] assms(2) have wf: "wf_cmd b c"
    and buf: "buf = zero_at (map snd (cmd_words c)) (b @ [NUL])" by auto
  have ts: "\<forall>t \<in> set (cmd_words c). word_tok b t" using wf_cmd_words [OF wf] by blast
  from terminated_word [OF assms(1) ts assms(3)] have "cstr buf q = take (e - q) (drop q b)" by (simp add: buf)
  moreover from ts assms(3) have "q < e" "e \<le> length b" "\<forall>i \<in> {q..<e}. word_char (b ! i)"
    by (auto simp: word_tok_def)
  ultimately show ?thesis by (auto simp: list_all_length)
qed

lemma parse_example:
  "parsecmd ''ls -l|wc'' = Inr (PIPE (EXEC ([Some (0, 2), Some (3, 5)] @ replicate 8 None))
     (EXEC (Some (6, 8) # replicate 9 None)), [CHR ''l'', CHR ''s'', NUL, CHR ''-'', CHR ''l'', NUL, CHR ''w'', CHR ''c'', NUL])"
  by code_simp

theorem parsecmd_words_witness:
  "\<exists>c buf. parsecmd ''ls -l|wc'' = Inr (c, buf) \<and> (3, 5) \<in> set (cmd_words c) \<and> cstr buf 3 = ''-l''"
proof -
  let ?c = "PIPE (EXEC ([Some (0, 2), Some (3, 5)] @ replicate 8 None)) (EXEC (Some (6, 8) # replicate 9 None))"
  have w: "(3, 5) \<in> set (cmd_words ?c)" by simp
  have nz: "NUL \<notin> set ''ls -l|wc''" by simp
  from parsecmd_words [OF nz parse_example w]
  have "cstr [CHR ''l'', CHR ''s'', NUL, CHR ''-'', CHR ''l'', NUL, CHR ''w'', CHR ''c'', NUL] 3 = ''-l''" by simp
  with parse_example w show ?thesis by blast
qed

section \<open>The evaluator\<close>

text \<open>
  What a process of the shell does, as the list of its system calls up to its end; a \<open>fork\<close> carries
  what the child does. The kernel's answer to a call, an argument of the evaluator, may depend on
  everything the process did before, its parent's calls included.
\<close>

datatype xfd = FD nat | Pipe0 | Pipe1

datatype xop =
    X_Close xfd
  | X_Dup xfd
  | X_Open string int
  | X_Pipe
  | X_Fork "xop list"
  | X_In_Child
  | X_Wait
  | X_Exec "string list"
  | X_Chdir string
  | X_Printf nat string
  | X_Exit

type_synonym xkernel = "xop list \<Rightarrow> xop \<Rightarrow> int"

definition xpanic :: "string \<Rightarrow> xop list" where
  "xpanic s = [X_Printf 2 (s @ [CHR 0x0A]), X_Exit]"

text \<open>\<open>fork1\<close>: the child's calls, then those of the parent after it, unless the fork failed.\<close>

definition fork1 :: "xkernel \<Rightarrow> xop list \<Rightarrow> xop list \<Rightarrow> (xop list \<Rightarrow> xop list) \<Rightarrow> xop list" where
  "fork1 k h child parent =
     (let f = X_Fork child in
      if k h f = - 1 then f # xpanic ''fork'' else f # parent (h @ [f]))"

definition exec_args :: "string \<Rightarrow> (nat \<times> nat) option list \<Rightarrow> string list" where
  "exec_args buf as = map (\<lambda>a. cstr buf (fst (the a))) (takeWhile (\<lambda>a. a \<noteq> None) as)"

fun runcmd :: "xkernel \<Rightarrow> string \<Rightarrow> xop list \<Rightarrow> cmd \<Rightarrow> xop list" where
  "runcmd k buf h (EXEC as) =
     (case exec_args buf as of
        [] \<Rightarrow> [X_Exit]
      | a # args \<Rightarrow>
          let e = X_Exec (a # args) in
          if k h e < 0 then [e, X_Printf 2 (''exec '' @ a @ '' failed'' @ [CHR 0x0A]), X_Exit] else [e])"
| "runcmd k buf h (REDIR c q eq m f) =
     (let file = cstr buf q; cl = X_Close (FD f); op = X_Open file m in
      if k (h @ [cl]) op < 0
      then [cl, op, X_Printf 2 (''open '' @ file @ '' failed'' @ [CHR 0x0A]), X_Exit]
      else [cl, op] @ runcmd k buf (h @ [cl, op]) c)"
| "runcmd k buf h (LIST l r) =
     fork1 k h (runcmd k buf (h @ [X_In_Child]) l) (\<lambda>h.
       X_Wait # runcmd k buf (h @ [X_Wait]) r)"
| "runcmd k buf h (PIPE l r) =
     (if k h X_Pipe < 0 then X_Pipe # xpanic ''pipe''
      else
        let h = h @ [X_Pipe];
            wl = [X_Close (FD 1), X_Dup Pipe1, X_Close Pipe0, X_Close Pipe1];
            wr = [X_Close (FD 0), X_Dup Pipe0, X_Close Pipe0, X_Close Pipe1]
        in X_Pipe # fork1 k h (wl @ runcmd k buf (h @ [X_In_Child] @ wl) l) (\<lambda>h.
             fork1 k h (wr @ runcmd k buf (h @ [X_In_Child] @ wr) r) (\<lambda>_.
             [X_Close Pipe0, X_Close Pipe1, X_Wait, X_Wait, X_Exit])))"
| "runcmd k buf h (BACK c) =
     fork1 k h (runcmd k buf (h @ [X_In_Child]) c) (\<lambda>_. [X_Exit])"

text \<open>\<open>gets\<close>: at most \<open>n - 1\<close> characters, up to and including a newline or a carriage return.\<close>

fun gets_loop :: "nat \<Rightarrow> string \<Rightarrow> string \<times> string" where
  "gets_loop 0 inp = ([], inp)"
| "gets_loop (Suc room) [] = ([], [])"
| "gets_loop (Suc room) (c # inp) =
     (if c = CHR 0x0A \<or> c = CHR 0x0D then ([c], inp)
      else let (l, r) = gets_loop room inp in (c # l, r))"

definition gets :: "string \<Rightarrow> nat \<Rightarrow> string \<times> string" where
  "gets inp n = gets_loop (n - 1) inp"

text \<open>\<open>getcmd\<close> fails when the line it read is empty.\<close>

definition getcmd :: "string \<Rightarrow> nat \<Rightarrow> (string \<times> string) option" where
  "getcmd inp nbuf = (let (buf, inp) = gets inp nbuf in if cstr buf 0 = [] then None else Some (cstr buf 0, inp))"

lemma gets_loop_drop: "snd (gets_loop n inp) = drop (length (fst (gets_loop n inp))) inp"
  by (induction n inp rule: gets_loop.induct) (auto simp: split_beta)

lemma getcmd_shorter:
  assumes "getcmd inp n = Some (buf, inp')"
  shows "length inp' < length inp"
proof -
  obtain l r where g: "gets inp n = (l, r)" by (cases "gets inp n")
  with assms have l: "l \<noteq> []" and r: "inp' = r" by (auto simp: getcmd_def cstr_def split: if_splits)
  have "r = drop (length l) inp" using gets_loop_drop [of "n - 1" inp] g by (simp add: gets_def)
  moreover have "inp \<noteq> []" using g l by (cases "n - 1") (auto simp: gets_def)
  ultimately show ?thesis using l r by simp
qed

text \<open>The child of one line; a parser \<open>panic\<close> ends it.\<close>

definition run_line :: "xkernel \<Rightarrow> xop list \<Rightarrow> string \<Rightarrow> xop list" where
  "run_line k h b =
     (case parsecmd b of
        Inr (c, buf) \<Rightarrow> runcmd k buf h c
      | Inl (Panic m) \<Rightarrow> xpanic m
      | Inl _ \<Rightarrow> [X_Exit])"

text \<open>The loop that opens the console until three descriptors exist; \<open>fuel\<close> bounds its rounds.\<close>

fun open_console :: "xkernel \<Rightarrow> nat \<Rightarrow> xop list \<Rightarrow> xop list res" where
  "open_console k 0 h = Inl Out_Of_Fuel"
| "open_console k (Suc fuel) h =
     (let op = X_Open ''console'' O_RDWR; fd = k h op; h = h @ [op] in
      if fd < 0 then Inr h
      else if 3 \<le> fd then Inr (h @ [X_Close (FD (nat fd))])
      else open_console k fuel h)"

function (sequential) sh_loop :: "xkernel \<Rightarrow> string \<Rightarrow> xop list \<Rightarrow> xop list" where
  "sh_loop k inp h =
     (let h = h @ [X_Printf 2 ''$ ''] in
      case getcmd inp 100 of
        None \<Rightarrow> h @ [X_Exit]
      | Some (buf, inp') \<Rightarrow>
          if take 3 buf = ''cd '' then
            let dir = drop 3 (butlast buf); c = X_Chdir dir in
            if k h c < 0 then sh_loop k inp' (h @ [c, X_Printf 2 (''cannot cd '' @ dir @ [CHR 0x0A])])
            else sh_loop k inp' (h @ [c])
          else
            let f = X_Fork (run_line k (h @ [X_In_Child]) buf) in
            if k h f = - 1 then h @ f # xpanic ''fork''
            else sh_loop k inp' (h @ [f, X_Wait]))"
  by pat_completeness auto
termination
  by (relation "measure (\<lambda>(_, inp, _). length inp)") (auto dest: getcmd_shorter)

definition sh_main :: "xkernel \<Rightarrow> nat \<Rightarrow> string \<Rightarrow> xop list res" where
  "sh_main k fuel inp = bindR (open_console k fuel []) (\<lambda>h. Inr (sh_loop k inp h))"

text \<open>
  A process comes to its end: its last call is \<open>exit\<close> or an \<open>exec\<close> that replaced it, it makes no
  call after \<open>exit\<close>, and the same holds of every process it forks.
\<close>

fun ends :: "xop list \<Rightarrow> bool" where
  "ends [] = False"
| "ends [x] = (case x of X_Exit \<Rightarrow> True | X_Exec _ \<Rightarrow> True | _ \<Rightarrow> False)"
| "ends (x # y # ops) = (x \<noteq> X_Exit \<and> (case x of X_Fork c \<Rightarrow> ends c | _ \<Rightarrow> True) \<and> ends (y # ops))"

lemma ends_Cons: "ends ops \<Longrightarrow> ends (x # ops) \<longleftrightarrow> x \<noteq> X_Exit \<and> (case x of X_Fork c \<Rightarrow> ends c | _ \<Rightarrow> True)"
  by (cases ops) auto

lemma ends_xpanic [simp]: "ends (xpanic m)"
  by (simp add: xpanic_def)

lemma ends_fork1: "ends child \<Longrightarrow> (\<And>h. ends (parent h)) \<Longrightarrow> ends (fork1 k h child parent)"
  by (simp add: fork1_def Let_def ends_Cons)

text \<open>C23: no process of a command line returns into the shell: whatever the kernel answers, the
  evaluator and every child it forks end in \<open>exit\<close> or in a program they became.\<close>

theorem runcmd_ends: "ends (runcmd k buf h c)"
proof (induction c arbitrary: h)
  case (EXEC as)
  then show ?case by (simp add: Let_def split: list.split)
next
  case (PIPE l r)
  then show ?case by (simp add: Let_def ends_Cons ends_fork1)
qed (auto simp: Let_def ends_Cons intro!: ends_fork1)

end
