(* ===== verification/XvUtils.thy ===== *)
theory XvUtils
  imports Prelude
begin

text \<open>
  Text utilities of xv6 user space: \<open>grep\<close> with its pattern matcher, \<open>wc\<close> and \<open>cat\<close>. An open file
  is the list of the pieces that \<open>read\<close> delivers, in any cutting of its content; a piece longer
  than the room offered is delivered in parts. A text holds no zero bytes. What a program writes is
  recorded with the descriptor.
\<close>

section \<open>Reading\<close>

type_synonym pieces = "string list"

text \<open>One \<open>read\<close> of at most \<open>room\<close> bytes; an empty result is the end of the file.\<close>

fun read_piece :: "nat \<Rightarrow> pieces \<Rightarrow> string \<times> pieces" where
  "read_piece room [] = ([], [])"
| "read_piece room (p # ps) =
     (take room p, if length p \<le> room then ps else drop room p # ps)"

lemma read_piece_less:
  "(d, ps') = read_piece room ps \<Longrightarrow> d \<noteq> [] \<Longrightarrow>
   length ps' + length (concat ps') < length ps + length (concat ps)"
  by (cases ps) (auto split: if_splits)

abbreviation "nl \<equiv> CHR 0x0A"

section \<open>The pattern matcher of grep\<close>

function (sequential) matchhere :: "string \<Rightarrow> string \<Rightarrow> bool"
and matchstar :: "char \<Rightarrow> string \<Rightarrow> string \<Rightarrow> bool" where
  "matchhere re txt' =
     (case re of
        [] \<Rightarrow> True
      | c # re' \<Rightarrow>
          if re' \<noteq> [] \<and> hd re' = CHR ''*'' then matchstar c (tl re') txt'
          else if c = CHR ''$'' \<and> re' = [] then txt' = []
          else (case txt' of
                  [] \<Rightarrow> False
                | x # xs \<Rightarrow> if c = CHR ''.'' \<or> c = x then matchhere re' xs else False))"
| "matchstar c re txt' =
     (if matchhere re txt' then True
      else case txt' of
        [] \<Rightarrow> False
      | x # xs \<Rightarrow> if x = c \<or> c = CHR ''.'' then matchstar c re xs else False)"
  by pat_completeness auto
termination
  by (relation "measures [\<lambda>p. case p of Inl (re, t) \<Rightarrow> length re + length t | Inr (c, re, t) \<Rightarrow> length re + length t,
        \<lambda>p. case p of Inl _ \<Rightarrow> 0 | Inr _ \<Rightarrow> 1]") (auto simp: neq_Nil_conv)

declare matchhere.simps [simp del] and matchstar.simps [simp del]

fun match_from :: "string \<Rightarrow> string \<Rightarrow> bool" where
  "match_from re [] = matchhere re []"
| "match_from re (x # xs) = (if matchhere re (x # xs) then True else match_from re xs)"

definition match :: "string \<Rightarrow> string \<Rightarrow> bool" where
  "match re t =
     (if re \<noteq> [] \<and> hd re = CHR ''^'' then matchhere (tl re) t else match_from re t)"

subsection \<open>The meaning of a pattern\<close>

text \<open>
  A pattern without its leading \<open>^\<close> is a sequence of items, each one character or a repetition of
  one character, where \<open>.\<close> stands for any; a single \<open>$\<close> at its end anchors it.
\<close>

datatype item = One char | Star char

fun items :: "string \<Rightarrow> item list" where
  "items [] = []"
| "items [c] = (if c = CHR ''$'' then [] else [One c])"
| "items (c # d # re) = (if d = CHR ''*'' then Star c # items re else One c # items (d # re))"

fun anchored :: "string \<Rightarrow> bool" where
  "anchored [] = False"
| "anchored [c] = (c = CHR ''$'')"
| "anchored (c # d # re) = (if d = CHR ''*'' then anchored re else anchored (d # re))"

definition fits :: "char \<Rightarrow> char \<Rightarrow> bool" where
  "fits c x \<longleftrightarrow> c = CHR ''.'' \<or> c = x"

fun in_lang :: "item list \<Rightarrow> string \<Rightarrow> bool" where
  "in_lang [] w \<longleftrightarrow> w = []"
| "in_lang (One c # is) w \<longleftrightarrow> (\<exists>x w'. w = x # w' \<and> fits c x \<and> in_lang is w')"
| "in_lang (Star c # is) w \<longleftrightarrow> (\<exists>u v. w = u @ v \<and> list_all (fits c) u \<and> in_lang is v)"

definition prefix_in :: "string \<Rightarrow> string \<Rightarrow> bool" where
  "prefix_in re t \<longleftrightarrow> (\<exists>u v. t = u @ v \<and> in_lang (items re) u \<and> (anchored re \<longrightarrow> v = []))"

lemma prefix_in_Nil: "prefix_in [] t"
  by (simp add: prefix_in_def)

lemma prefix_in_dollar: "prefix_in ''$'' t \<longleftrightarrow> t = []"
  by (auto simp: prefix_in_def)

lemma prefix_in_star:
  "prefix_in (c # CHR ''*'' # re) t \<longleftrightarrow> (\<exists>u v. t = u @ v \<and> list_all (fits c) u \<and> prefix_in re v)"
  by (simp add: prefix_in_def) (metis append.assoc)

lemma prefix_in_star_step:
  "prefix_in (c # CHR ''*'' # re) t \<longleftrightarrow>
     prefix_in re t \<or> (\<exists>x xs. t = x # xs \<and> fits c x \<and> prefix_in (c # CHR ''*'' # re) xs)"
  unfolding prefix_in_star
proof (intro iffI)
  assume "\<exists>u v. t = u @ v \<and> list_all (fits c) u \<and> prefix_in re v"
  then obtain u v where "t = u @ v" "list_all (fits c) u" "prefix_in re v" by auto
  then show "prefix_in re t \<or>
    (\<exists>x xs. t = x # xs \<and> fits c x \<and> (\<exists>u v. xs = u @ v \<and> list_all (fits c) u \<and> prefix_in re v))"
    by (cases u) auto
next
  assume "prefix_in re t \<or>
    (\<exists>x xs. t = x # xs \<and> fits c x \<and> (\<exists>u v. xs = u @ v \<and> list_all (fits c) u \<and> prefix_in re v))"
  then show "\<exists>u v. t = u @ v \<and> list_all (fits c) u \<and> prefix_in re v"
  proof (elim disjE exE conjE)
    assume "prefix_in re t"
    then show ?thesis by (intro exI [of _ "[]"] exI [of _ t]) simp
  next
    fix x xs u v
    assume "t = x # xs" "fits c x" "xs = u @ v" "list_all (fits c) u" "prefix_in re v"
    then show ?thesis by (intro exI [of _ "x # u"] exI [of _ v]) simp
  qed
qed

lemma prefix_in_one:
  assumes "re' = [] \<or> hd re' \<noteq> CHR ''*''" and "\<not> (c = CHR ''$'' \<and> re' = [])"
  shows "prefix_in (c # re') t \<longleftrightarrow> (\<exists>x xs. t = x # xs \<and> fits c x \<and> prefix_in re' xs)"
proof -
  have "items (c # re') = One c # items re'" "anchored (c # re') = anchored re'"
    using assms by (cases re'; auto)+
  then show ?thesis unfolding prefix_in_def by (simp, intro iffI; elim exE conjE; metis append_Cons)
qed

lemma matchhere_matchstar:
  "matchhere re t \<longleftrightarrow> prefix_in re t"
  "matchstar c re t \<longleftrightarrow> prefix_in (c # CHR ''*'' # re) t"
proof (induction re t and c re t rule: matchhere_matchstar.induct)
  case (1 re t)
  show ?case
  proof (cases re)
    case Nil
    then show ?thesis by (simp add: matchhere.simps prefix_in_Nil)
  next
    case (Cons c re')
    consider "re' \<noteq> [] \<and> hd re' = CHR ''*''" | "c = CHR ''$''" "re' = []"
      | "re' = [] \<or> hd re' \<noteq> CHR ''*''" "\<not> (c = CHR ''$'' \<and> re' = [])" by auto
    then show ?thesis
    proof cases
      case 1
      then obtain r where "re' = CHR ''*'' # r" by (cases re') auto
      with Cons "1.IH"(1) [OF Cons 1] 1 show ?thesis by (subst matchhere.simps) simp
    next
      case 2
      with Cons show ?thesis by (subst matchhere.simps) (simp add: prefix_in_dollar)
    next
      case 3
      with Cons "1.IH"(2) [OF Cons] show ?thesis
        by (subst matchhere.simps) (auto simp: prefix_in_one fits_def split: list.split)
    qed
  qed
next
  case (2 c re t)
  show ?case
    using 2 by (subst matchstar.simps, subst prefix_in_star_step) (auto simp: fits_def split: list.split)
qed

lemma match_from_iff: "match_from re t \<longleftrightarrow> (\<exists>p s. t = p @ s \<and> prefix_in re s)"
proof (induction t)
  case Nil
  then show ?case by (simp add: matchhere_matchstar)
next
  case (Cons x t)
  then show ?case
    by (auto simp: matchhere_matchstar) (metis append_Cons append_Nil, metis Cons_eq_append_conv)
qed

text \<open>C13: the recursive matcher decides exactly the intended meaning of a pattern: some part of the
  line, starting at its beginning under \<open>^\<close> and ending at its end under \<open>$\<close>, is a sequence of
  characters and repetitions as the pattern prescribes.\<close>

theorem match_correct:
  "match re t \<longleftrightarrow>
     (let caret = (re \<noteq> [] \<and> hd re = CHR ''^''); body = (if caret then tl re else re) in
      \<exists>p u s. t = p @ u @ s \<and> in_lang (items body) u \<and> (caret \<longrightarrow> p = []) \<and> (anchored body \<longrightarrow> s = []))"
  by (auto simp: match_def matchhere_matchstar match_from_iff prefix_in_def Let_def)

theorem match_correct_witness:
  "\<exists>p u s. ''xabbc'' = p @ u @ s \<and> in_lang (items ''ab*c$'') u \<and> (anchored ''ab*c$'' \<longrightarrow> s = [])"
proof -
  have "match ''ab*c$'' ''xabbc''" by code_simp
  then show ?thesis using match_correct [of "''ab*c$''" "''xabbc''"] by (auto simp: Let_def)
qed

section \<open>grep\<close>

text \<open>
  The inner loop: the complete lines of the buffer, each written if it matches, and what is left
  behind the last newline.
\<close>

function (sequential) grep_lines :: "string \<Rightarrow> string \<Rightarrow> string list \<times> string" where
  "grep_lines re p =
     (if nl \<in> set p then
        let l = takeWhile (\<lambda>c. c \<noteq> nl) p;
            (outs, rest) = grep_lines re (drop (length l + 1) p)
        in (if match re l then (l @ [nl]) # outs else outs, rest)
      else ([], p))"
  by pat_completeness auto
termination
  by (relation "measure (\<lambda>(_, p). length p)") (auto dest: length_pos_if_in_set)

declare grep_lines.simps [simp del]

text \<open>
  The outer loop, with the unfinished line \<open>m\<close> at the start of the buffer. When a round found no
  newline at all, the code empties the buffer.
\<close>

function (sequential) grep :: "string \<Rightarrow> string \<Rightarrow> pieces \<Rightarrow> string list" where
  "grep re m ps =
     (let (d, ps') = read_piece (1024 - length m - 1) ps in
      if d = [] then []
      else
        let buf = m @ d;
            (outs, p) = grep_lines re buf
        in outs @ grep re (if length p = length buf then [] else p) ps')"
  by pat_completeness auto
termination
  by (relation "measure (\<lambda>(_, _, ps). length ps + length (concat ps))") (auto intro: read_piece_less)

declare grep.simps [simp del]

text \<open>The files a program can open, and what it writes.\<close>

type_synonym files = "string \<Rightarrow> pieces option"
type_synonym written = "(nat \<times> string) list"

fun grep_files :: "files \<Rightarrow> string \<Rightarrow> string list \<Rightarrow> written" where
  "grep_files fs re [] = []"
| "grep_files fs re (f # args) =
     (case fs f of
        None \<Rightarrow> [(1, ''grep: cannot open '' @ f @ [nl])]
      | Some ps \<Rightarrow> map (Pair 1) (grep re [] ps) @ grep_files fs re args)"

definition grep_main :: "files \<Rightarrow> pieces \<Rightarrow> string list \<Rightarrow> written" where
  "grep_main fs stdin argv =
     (case argv of
        re # [] \<Rightarrow> map (Pair 1) (grep re [] stdin)
      | re # args \<Rightarrow> grep_files fs re args
      | [] \<Rightarrow> [(2, ''usage: grep pattern [file ...]'' @ [nl])])"

lemma grep_lines_line:
  "nl \<notin> set l \<Longrightarrow> grep_lines re (l @ nl # r) =
     (let (outs, rest) = grep_lines re r in (if match re l then (l @ [nl]) # outs else outs, rest))"
proof -
  assume "nl \<notin> set l"
  then have "takeWhile (\<lambda>c. c \<noteq> nl) (l @ nl # r) = l" by (induction l) auto
  then show ?thesis by (subst grep_lines.simps) (simp add: Let_def)
qed

lemma grep_lines_nonl: "nl \<notin> set r \<Longrightarrow> grep_lines re r = ([], r)"
  by (subst grep_lines.simps) simp

definition terminated :: "string list \<Rightarrow> string" where
  "terminated ls = concat (map (\<lambda>l. l @ [nl]) ls)"

lemma grep_lines_terminated:
  "\<forall>l \<in> set ls. nl \<notin> set l \<Longrightarrow> nl \<notin> set r \<Longrightarrow>
   grep_lines re (terminated ls @ r) = (map (\<lambda>l. l @ [nl]) (filter (match re) ls), r)"
  by (induction ls) (auto simp: terminated_def grep_lines_line grep_lines_nonl)

text \<open>On input delivered in pieces of whole lines, as the console delivers it, \<open>grep\<close> writes
  exactly the matching lines, in order and complete.\<close>

theorem grep_filters_lines:
  assumes "\<forall>ls \<in> set lss. ls \<noteq> [] \<and> length (terminated ls) \<le> 1023 \<and> (\<forall>l \<in> set ls. nl \<notin> set l)"
  shows "grep re [] (map terminated lss) = map (\<lambda>l. l @ [nl]) (filter (match re) (concat lss))"
  using assms
proof (induction lss)
  case Nil
  then show ?case by (subst grep.simps) simp
next
  case (Cons ls lss)
  then have ls: "ls \<noteq> []" "length (terminated ls) \<le> 1023" "\<forall>l \<in> set ls. nl \<notin> set l" by auto
  then have ne: "terminated ls \<noteq> []" by (auto simp: terminated_def)
  from grep_lines_terminated [OF ls(3), of "[]" re]
  have "grep_lines re (terminated ls) = (map (\<lambda>l. l @ [nl]) (filter (match re) ls), [])" by simp
  with Cons ls(2) ne show ?case by (subst grep.simps) simp
qed

theorem grep_filters_lines_witness:
  "grep ''^a'' [] [terminated [''ab'', ''ba''], terminated [''ac'']] = [''ab'' @ [nl], ''ac'' @ [nl]]"
  using grep_filters_lines [of "[[''ab'', ''ba''], [''ac'']]" "''^a''"]
  by (simp add: terminated_def match_def matchhere.simps)

text \<open>
  A line that arrives in two pieces with no newline before it in the buffer loses its first part:
  the buffer is emptied although the line is not finished.
\<close>

lemma grep_loses_split_line:
  "grep ''abc'' [] [''ab'', ''c'' @ [nl]] = [] \<and> grep ''^c'' [] [''ab'', ''c'' @ [nl]] = [''c'' @ [nl]]"
  by code_simp

text \<open>A last line without newline is never looked at.\<close>

lemma grep_ignores_last_line:
  assumes "nl \<notin> set l" and "length l \<le> 1023" and "l \<noteq> []"
  shows "grep re [] [l] = []"
proof -
  have "grep re m [] = []" for m by (subst grep.simps) simp
  with assms show ?thesis by (subst grep.simps) (simp add: grep_lines_nonl)
qed

section \<open>wc\<close>

record counts =
  lines_c :: int
  words_c :: int
  chars_c :: int
  inword :: bool

definition wc_blank :: "char \<Rightarrow> bool" where
  "wc_blank c \<longleftrightarrow> c \<in> set [CHR '' '', CHR 0x0D, CHR 0x09, nl, CHR 0x0B]"

definition wc_char :: "char \<Rightarrow> counts \<Rightarrow> counts" where
  "wc_char x s =
     (let s = s \<lparr> chars_c := chars_c s + 1 \<rparr>;
          s = (if x = nl then s \<lparr> lines_c := lines_c s + 1 \<rparr> else s)
      in if wc_blank x then s \<lparr> inword := False \<rparr>
         else if \<not> inword s then s \<lparr> words_c := words_c s + 1, inword := True \<rparr>
         else s)"

function (sequential) wc_loop :: "pieces \<Rightarrow> counts \<Rightarrow> counts" where
  "wc_loop ps s =
     (let (d, ps') = read_piece 512 ps in
      if d = [] then s else wc_loop ps' (fold wc_char d s))"
  by pat_completeness auto
termination
  by (relation "measure (\<lambda>(ps, _). length ps + length (concat ps))") (auto intro: read_piece_less)

declare wc_loop.simps [simp del]

text \<open>The counts of one file. A read error ends the program, as the result \<open>None\<close>.\<close>

definition wc :: "pieces option \<Rightarrow> (int \<times> int \<times> int) option" where
  "wc f = (case f of
     None \<Rightarrow> None
   | Some ps \<Rightarrow>
       let s = wc_loop ps \<lparr> lines_c = 0, words_c = 0, chars_c = 0, inword = False \<rparr>
       in Some (lines_c s, words_c s, chars_c s))"

text \<open>The number of places where a word begins, after a blank or at the start.\<close>

fun word_starts :: "bool \<Rightarrow> string \<Rightarrow> nat" where
  "word_starts w [] = 0"
| "word_starts w (x # xs) =
     (if wc_blank x then word_starts False xs else (if w then 0 else 1) + word_starts True xs)"

lemma wc_fold:
  "lines_c (fold wc_char d s) = lines_c s + int (length (filter (\<lambda>x. x = nl) d)) \<and>
   words_c (fold wc_char d s) = words_c s + int (word_starts (inword s) d) \<and>
   chars_c (fold wc_char d s) = chars_c s + int (length d)"
  by (induction d arbitrary: s) (auto simp: wc_char_def Let_def wc_blank_def)

lemma read_piece_concat:
  assumes "[] \<notin> set ps" and "0 < room" and "read_piece room ps = (d, ps')"
  shows "concat ps = d @ concat ps' \<and> [] \<notin> set ps' \<and> (d = [] \<longleftrightarrow> ps = [])"
  using assms by (cases ps) (auto split: if_splits)

lemma wc_loop_concat: "[] \<notin> set ps \<Longrightarrow> wc_loop ps s = fold wc_char (concat ps) s"
proof (induction ps s rule: wc_loop.induct)
  case (1 ps s)
  obtain d ps' where r: "read_piece 512 ps = (d, ps')" by (cases "read_piece 512 ps")
  note rp = read_piece_concat [OF "1.prems" _ r, simplified]
  show ?case
  proof (cases "d = []")
    case True
    with rp show ?thesis by (subst wc_loop.simps) (simp add: r)
  next
    case False
    with "1.IH" [OF r [symmetric] refl False] rp show ?thesis by (subst wc_loop.simps) (simp add: r)
  qed
qed

text \<open>However the file is cut into reads, \<open>wc\<close> counts its newlines, the places where a word
  begins, and its characters.\<close>

theorem wc_counts:
  assumes "[] \<notin> set ps"
  shows "wc (Some ps) = Some (int (length (filter (\<lambda>x. x = nl) (concat ps))),
    int (word_starts False (concat ps)), int (length (concat ps)))"
  using wc_fold [of "concat ps" "\<lparr> lines_c = 0, words_c = 0, chars_c = 0, inword = False \<rparr>"]
  by (simp add: wc_def Let_def wc_loop_concat [OF assms])

theorem wc_counts_witness: "wc (Some [''ab c'', ''d'' @ [nl]]) = Some (1, 2, 6)"
  using wc_counts [of "[''ab c'', ''d'' @ [nl]]"] by (simp add: wc_blank_def)

section \<open>cat\<close>

text \<open>
  The outcome of each \<open>write\<close> is an argument: a write that does not take everything ends the
  program after a message.
\<close>

function (sequential) cat :: "(string \<Rightarrow> bool) \<Rightarrow> pieces \<Rightarrow> written \<times> bool" where
  "cat wr ps =
     (let (d, ps') = read_piece 512 ps in
      if d = [] then ([], True)
      else if \<not> wr d then ([(1, d), (1, ''cat: write error'' @ [nl])], False)
      else let (out, ok) = cat wr ps' in ((1, d) # out, ok))"
  by pat_completeness auto
termination
  by (relation "measure (\<lambda>(_, ps). length ps + length (concat ps))") (auto intro: read_piece_less)

declare cat.simps [simp del]

fun cat_files :: "(string \<Rightarrow> bool) \<Rightarrow> files \<Rightarrow> string list \<Rightarrow> written" where
  "cat_files wr fs [] = []"
| "cat_files wr fs (f # args) =
     (case fs f of
        None \<Rightarrow> [(1, ''cat: cannot open '' @ f @ [nl])]
      | Some ps \<Rightarrow> let (out, ok) = cat wr ps in out @ (if ok then cat_files wr fs args else []))"

definition cat_main :: "(string \<Rightarrow> bool) \<Rightarrow> files \<Rightarrow> pieces \<Rightarrow> string list \<Rightarrow> written" where
  "cat_main wr fs stdin args = (if args = [] then fst (cat wr stdin) else cat_files wr fs args)"

lemma cat_copies: "[] \<notin> set ps \<Longrightarrow> concat (map snd (fst (cat (\<lambda>_. True) ps))) = concat ps \<and> snd (cat (\<lambda>_. True) ps)"
proof (induction "\<lambda>_ :: string. True" ps rule: cat.induct)
  case (1 ps)
  obtain d ps' where r: "read_piece 512 ps = (d, ps')" by (cases "read_piece 512 ps")
  note rp = read_piece_concat [OF "1.prems" _ r, simplified]
  show ?case
  proof (cases "d = []")
    case True
    with rp show ?thesis by (subst (1 2) cat.simps) (simp add: r)
  next
    case False
    with "1.hyps" [OF r [symmetric] refl False] rp show ?thesis
      by (subst (1 2) cat.simps) (simp add: r split_beta)
  qed
qed

end
