(* ===== verification/XvLib.thy ===== *)
theory XvLib
  imports Prelude
begin

text \<open>
  The C library routines of xv6: \<open>xv6/string.c\<close> of the kernel, \<open>xv6/ulib.c\<close> and \<open>xv6/printf.c\<close> of
  user space. Routines that write memory work on a map from addresses to bytes; routines that
  only read a string work on the list of bytes from the pointer on, which must contain the zero
  they look for. Blocks are taken not to wrap around the address space.
\<close>

section \<open>Memory\<close>

type_synonym mem = "nat \<Rightarrow> u8"

text \<open>\<open>rep stosb\<close> and \<open>rep stosl\<close>.\<close>

fun stosb :: "mem \<Rightarrow> nat \<Rightarrow> u8 \<Rightarrow> nat \<Rightarrow> mem" where
  "stosb m a c 0 = m"
| "stosb m a c (Suc n) = stosb (m(a := c)) (a + 1) c n"

definition put32 :: "mem \<Rightarrow> nat \<Rightarrow> u32 \<Rightarrow> mem" where
  "put32 m a w = m(a := ucast w, a + 1 := ucast (drop_bit 8 w), a + 2 := ucast (drop_bit 16 w),
     a + 3 := ucast (drop_bit 24 w))"

fun stosl :: "mem \<Rightarrow> nat \<Rightarrow> u32 \<Rightarrow> nat \<Rightarrow> mem" where
  "stosl m a w 0 = m"
| "stosl m a w (Suc n) = stosl (put32 m a w) (a + 4) w n"

definition memset :: "mem \<Rightarrow> nat \<Rightarrow> u32 \<Rightarrow> nat \<Rightarrow> mem" where
  "memset m dst c n =
     (if dst mod 4 = 0 \<and> n mod 4 = 0 then
        let c = c AND 0xFF
        in stosl m dst (push_bit 24 c OR push_bit 16 c OR push_bit 8 c OR c) (n div 4)
      else stosb m dst (ucast c) n)"

text \<open>The two copying loops.\<close>

fun copy_up :: "mem \<Rightarrow> nat \<Rightarrow> nat \<Rightarrow> nat \<Rightarrow> mem" where
  "copy_up m d s 0 = m"
| "copy_up m d s (Suc n) = copy_up (m(d := m s)) (d + 1) (s + 1) n"

fun copy_down :: "mem \<Rightarrow> nat \<Rightarrow> nat \<Rightarrow> nat \<Rightarrow> mem" where
  "copy_down m d s 0 = m"
| "copy_down m d s (Suc n) = copy_down (m(d - 1 := m (s - 1))) (d - 1) (s - 1) n"

definition memmove :: "mem \<Rightarrow> nat \<Rightarrow> nat \<Rightarrow> nat \<Rightarrow> mem" where
  "memmove m dst src n =
     (if src < dst \<and> dst < src + n then copy_down m (dst + n) (src + n) n else copy_up m dst src n)"

definition memcpy :: "mem \<Rightarrow> nat \<Rightarrow> nat \<Rightarrow> nat \<Rightarrow> mem" where
  "memcpy m dst src n = memmove m dst src n"

text \<open>\<open>memmove\<close> of user space, \<open>ulib.c\<close>, always copies upwards; a negative count copies nothing.\<close>

definition ulib_memmove :: "mem \<Rightarrow> nat \<Rightarrow> nat \<Rightarrow> int \<Rightarrow> mem" where
  "ulib_memmove m dst src n = copy_up m dst src (nat n)"

fun memcmp :: "u8 list \<Rightarrow> u8 list \<Rightarrow> nat \<Rightarrow> int res" where
  "memcmp s1 s2 0 = Inr 0"
| "memcmp (a # s1) (b # s2) (Suc n) = (if a \<noteq> b then Inr (uint a - uint b) else memcmp s1 s2 n)"
| "memcmp _ _ _ = Inl Out_Of_Bounds"

section \<open>Strings\<close>

fun strlen :: "u8 list \<Rightarrow> int res" where
  "strlen [] = Inl Out_Of_Bounds"
| "strlen (c # s) = (if c = 0 then Inr 0 else bindR (strlen s) (\<lambda>n. Inr (n + 1)))"

fun strcmp :: "u8 list \<Rightarrow> u8 list \<Rightarrow> int res" where
  "strcmp (a # p) (b # q) = (if a \<noteq> 0 \<and> a = b then strcmp p q else Inr (uint a - uint b))"
| "strcmp _ _ = Inl Out_Of_Bounds"

fun strncmp :: "u8 list \<Rightarrow> u8 list \<Rightarrow> nat \<Rightarrow> int res" where
  "strncmp p q 0 = Inr 0"
| "strncmp (a # p) (b # q) (Suc n) =
     (if a \<noteq> 0 \<and> a = b then strncmp p q n else Inr (uint a - uint b))"
| "strncmp _ _ _ = Inl Out_Of_Bounds"

text \<open>The position of a character, counted from the pointer; zero is never found.\<close>

fun strchr_from :: "u8 list \<Rightarrow> u8 \<Rightarrow> nat \<Rightarrow> nat option res" where
  "strchr_from [] c i = Inl Out_Of_Bounds"
| "strchr_from (a # s) c i =
     (if a = 0 then Inr None else if a = c then Inr (Some i) else strchr_from s c (i + 1))"

definition strchr :: "u8 list \<Rightarrow> u8 \<Rightarrow> nat option res" where
  "strchr s c = strchr_from s c 0"

text \<open>
  \<open>strncpy\<close>: the first loop stops after a zero or when the count is used up, the second pads.
  \<open>safestrcpy\<close> keeps the last byte for a zero. \<open>strcpy\<close> copies until it has copied a zero; its
  fuel is the number of bytes it may look at.
\<close>

fun strncpy :: "mem \<Rightarrow> nat \<Rightarrow> nat \<Rightarrow> nat \<Rightarrow> mem" where
  "strncpy m s t 0 = m"
| "strncpy m s t (Suc n) =
     (if m t \<noteq> 0 then strncpy (m(s := m t)) (s + 1) (t + 1) n
      else stosb (m(s := m t)) (s + 1) 0 n)"

fun safestrcpy_loop :: "mem \<Rightarrow> nat \<Rightarrow> nat \<Rightarrow> nat \<Rightarrow> mem \<times> nat" where
  "safestrcpy_loop m s t 0 = (m, s)"
| "safestrcpy_loop m s t (Suc n) =
     (if m t \<noteq> 0 then safestrcpy_loop (m(s := m t)) (s + 1) (t + 1) n
      else (m(s := m t), s + 1))"

definition safestrcpy :: "mem \<Rightarrow> nat \<Rightarrow> nat \<Rightarrow> int \<Rightarrow> mem" where
  "safestrcpy m s t n =
     (if n \<le> 0 then m else let (m, s) = safestrcpy_loop m s t (nat n - 1) in m(s := 0))"

fun strcpy :: "mem \<Rightarrow> nat \<Rightarrow> nat \<Rightarrow> nat \<Rightarrow> mem res" where
  "strcpy m s t 0 = Inl Out_Of_Fuel"
| "strcpy m s t (Suc fuel) =
     (if m t \<noteq> 0 then strcpy (m(s := m t)) (s + 1) (t + 1) fuel else Inr (m(s := m t)))"

section \<open>Numbers\<close>

text \<open>\<open>atoi\<close> wraps like the machine does.\<close>

fun atoi_loop :: "u8 list \<Rightarrow> u32 \<Rightarrow> u32 res" where
  "atoi_loop [] n = Inl Out_Of_Bounds"
| "atoi_loop (c # s) n =
     (if 48 \<le> c \<and> c \<le> 57 then atoi_loop s (n * 10 + ucast c - 48) else Inr n)"

definition atoi :: "u8 list \<Rightarrow> u32 res" where
  "atoi s = atoi_loop s 0"

section \<open>Formatted output\<close>

definition digits :: "u8 list" where
  "digits = [48, 49, 50, 51, 52, 53, 54, 55, 56, 57, 65, 66, 67, 68, 69, 70]"

text \<open>The 16-byte buffer is filled from the last digit on and written out backwards.\<close>

definition put16 :: "u8 list \<Rightarrow> u8 \<Rightarrow> u8 list res" where
  "put16 buf c = (if length buf < 16 then Inr (buf @ [c]) else Inl Out_Of_Bounds)"

function (sequential) printint_loop :: "u32 \<Rightarrow> u32 \<Rightarrow> u8 list \<Rightarrow> u8 list res" where
  "printint_loop x base buf =
     bindR (put16 buf (digits ! unat (x mod base))) (\<lambda>buf.
     if x div base \<noteq> 0 then printint_loop (x div base) base buf else Inr buf)"
  by pat_completeness auto
termination
  by (relation "measure (\<lambda>(_, _, buf). 17 - length buf)") (auto simp: put16_def split: if_splits)

declare printint_loop.simps [simp del]

definition printint :: "u32 \<Rightarrow> u32 \<Rightarrow> bool \<Rightarrow> u8 list res" where
  "printint xx base signed_p =
     (let neg = (signed_p \<and> sint xx < 0);
          x = (if neg then - xx else xx)
      in bindR (printint_loop x base []) (\<lambda>buf.
         bindR (if neg then put16 buf 45 else Inr buf) (\<lambda>buf.
         Inr (rev buf))))"

datatype parg = Num u32 | Strp "u8 list option"

text \<open>What \<open>printf\<close> writes, from the rest of the format, whether a percent sign was just read, and
  the arguments not yet used.\<close>

fun printf :: "u8 list \<Rightarrow> bool \<Rightarrow> parg list \<Rightarrow> u8 list res" where
  "printf [] st ap = Inr []"
| "printf (c # fmt) False ap =
     (if c = 37 then printf fmt True ap
      else bindR (printf fmt False ap) (\<lambda>out. Inr (c # out)))"
| "printf (c # fmt) True ap =
     (if c = 100 \<or> c = 120 \<or> c = 112 \<or> c = 115 \<or> c = 99 then
        (case ap of
           [] \<Rightarrow> Inl Out_Of_Bounds
         | Num w # ap \<Rightarrow>
             bindR (if c = 100 then printint w 10 True
                    else if c = 120 \<or> c = 112 then printint w 16 False
                    else if c = 99 then Inr [ucast w]
                    else Inl Bad_Memory) (\<lambda>t.
             bindR (printf fmt False ap) (\<lambda>out. Inr (t @ out)))
         | Strp s # ap \<Rightarrow>
             bindR (if c = 115 then Inr (case s of None \<Rightarrow> [40, 110, 117, 108, 108, 41] | Some t \<Rightarrow> t)
                    else Inl Bad_Memory) (\<lambda>t.
             bindR (printf fmt False ap) (\<lambda>out. Inr (t @ out))))
      else if c = 37 then bindR (printf fmt False ap) (\<lambda>out. Inr (c # out))
      else bindR (printf fmt False ap) (\<lambda>out. Inr (37 # c # out)))"

section \<open>Filling and moving\<close>

lemma stosb_eq: "stosb m a c n = (\<lambda>x. if a \<le> x \<and> x < a + n then c else m x)"
  by (induction n arbitrary: m a) (auto simp: fun_eq_iff)

lemma rep_bytes:
  fixes c0 :: u32
  defines "c \<equiv> c0 AND 0xFF"
  defines "w \<equiv> push_bit 24 c OR push_bit 16 c OR push_bit 8 c OR c"
  shows "(ucast w :: u8) = ucast c0" and "(ucast (drop_bit 8 w) :: u8) = ucast c0"
    and "(ucast (drop_bit 16 w) :: u8) = ucast c0" and "(ucast (drop_bit 24 w) :: u8) = ucast c0"
proof -
  have c: "bit c n \<longleftrightarrow> bit c0 n \<and> n < 8" for n
    unfolding c_def using bit_mask_iff [where 'a = u32, of 8 n] by (auto simp: bit_and_iff mask_eq_exp_minus_1)
  show "(ucast w :: u8) = ucast c0" "(ucast (drop_bit 8 w) :: u8) = ucast c0"
    "(ucast (drop_bit 16 w) :: u8) = ucast c0" "(ucast (drop_bit 24 w) :: u8) = ucast c0"
    by (rule bit_word_eqI; simp add: w_def bit_simps c)+
qed

lemma stosl_eq:
  assumes "\<And>m a. put32 m a w = stosb m a c 4"
  shows "stosl m a w n = stosb m a c (4 * n)"
proof (induction n arbitrary: m a)
  case (Suc n)
  then show ?case by (simp add: assms stosb_eq fun_eq_iff)
qed simp

text \<open>On both of its paths, the one that stores words included, \<open>memset\<close> sets exactly the given
  bytes to the low byte of its argument.\<close>

theorem memset_fills:
  "memset m dst c n = (\<lambda>x. if dst \<le> x \<and> x < dst + n then ucast c else m x)"
proof (cases "dst mod 4 = 0 \<and> n mod 4 = 0")
  case True
  let ?c = "c AND 0xFF"
  have "put32 m a (push_bit 24 ?c OR push_bit 16 ?c OR push_bit 8 ?c OR ?c) = stosb m a (ucast c) 4" for m a
    by (simp only: put32_def rep_bytes) (auto simp: stosb_eq fun_eq_iff)
  then have "stosl m dst (push_bit 24 ?c OR push_bit 16 ?c OR push_bit 8 ?c OR ?c) (n div 4) =
    stosb m dst (ucast c) (4 * (n div 4))" by (rule stosl_eq)
  moreover have "4 * (n div 4) = n" using True by auto
  ultimately show ?thesis using True by (simp add: memset_def Let_def stosb_eq)
next
  case False
  show ?thesis unfolding memset_def if_not_P [OF False] stosb_eq ..
qed

lemma copy_up_eq:
  "d \<le> s \<or> s + n \<le> d \<Longrightarrow> copy_up m d s n = (\<lambda>x. if d \<le> x \<and> x < d + n then m (s + (x - d)) else m x)"
proof (induction n arbitrary: m d s)
  case (Suc n)
  then have "d + 1 \<le> s + 1 \<or> s + 1 + n \<le> d + 1" by auto
  from Suc.IH [OF this] Suc.prems show ?case by (auto simp: fun_eq_iff Suc_diff_Suc)
qed (auto simp: fun_eq_iff)

lemma copy_down_eq:
  "s \<le> d \<Longrightarrow> copy_down m (d + n) (s + n) n = (\<lambda>x. if d \<le> x \<and> x < d + n then m (s + (x - d)) else m x)"
proof (induction n arbitrary: m)
  case (Suc n)
  from Suc.IH [OF Suc.prems] Suc.prems show ?case by (auto simp: fun_eq_iff not_less le_less)
qed (auto simp: fun_eq_iff)

lemma memmove_eq:
  "memmove m dst src n = (\<lambda>x. if dst \<le> x \<and> x < dst + n then m (src + (x - dst)) else m x)"
  using copy_up_eq [of dst src n m] copy_down_eq [of src dst m n] by (auto simp: memmove_def)

text \<open>\<open>memmove\<close> of the kernel delivers the old content of the source in the destination,
  however the two areas overlap, and changes nothing else.\<close>

theorem memmove_moves:
  "memmove m dst src n = (\<lambda>x. if dst \<le> x \<and> x < dst + n then m (src + (x - dst)) else m x)"
  by (rule memmove_eq)

text \<open>The upward copy of user space is right for areas that do not overlap or overlap downwards, and
  only for these: one byte repeats when the destination lies one above the source.\<close>

lemma ulib_memmove_moves:
  "dst \<le> src \<or> src + nat n \<le> dst \<Longrightarrow>
   ulib_memmove m dst src n = memmove m dst src (nat n)"
  by (simp add: ulib_memmove_def memmove_eq copy_up_eq)

lemma ulib_memmove_smears:
  "n \<le> k \<Longrightarrow> ulib_memmove m (src + 1) src (int k) (src + n) = m src"
proof -
  have "copy_up m (src + 1) src k = (\<lambda>x. if src < x \<and> x \<le> src + k then m src else m x)" for m src
    by (induction k arbitrary: m src) (auto simp: fun_eq_iff)
  then show "n \<le> k \<Longrightarrow> ?thesis" by (simp add: ulib_memmove_def)
qed

section \<open>Bounded string copies\<close>

text \<open>A zero-terminated string in memory.\<close>

definition string_at :: "mem \<Rightarrow> nat \<Rightarrow> u8 list \<Rightarrow> bool" where
  "string_at m a w \<longleftrightarrow> (\<forall>i < length w. m (a + i) = w ! i) \<and> m (a + length w) = 0 \<and> 0 \<notin> set w"

lemma string_at_Nil: "string_at m a [] \<longleftrightarrow> m a = 0"
  by (simp add: string_at_def)

lemma string_at_Cons: "string_at m a (c # w) \<longleftrightarrow> m a = c \<and> c \<noteq> 0 \<and> string_at m (a + 1) w"
  by (auto simp: string_at_def nth_Cons less_Suc_eq_0_disj split: nat.splits)

lemma string_at_upd: "s < a \<or> a + length w < s \<Longrightarrow> string_at (m(s := x)) a w \<longleftrightarrow> string_at m a w"
proof -
  assume "s < a \<or> a + length w < s"
  then have "(m(s := x)) (a + i) = m (a + i)" if "i \<le> length w" for i using that by auto
  then show ?thesis unfolding string_at_def by (simp del: fun_upd_apply)
qed

lemma safestrcpy_loop_string:
  "string_at m t w \<Longrightarrow> s + n < t \<or> t + length w < s \<Longrightarrow>
   case safestrcpy_loop m s t n of (m', s') \<Rightarrow>
     string_at (m'(s' := 0)) s (take n w) \<and> s \<le> s' \<and> s' \<le> s + n \<and>
     (\<forall>x. x < s \<or> s + n < x \<longrightarrow> (m'(s' := 0)) x = m x)"
proof (induction n arbitrary: m s t w)
  case 0
  then show ?case by (auto simp: string_at_Nil)
next
  case (Suc n)
  show ?case
  proof (cases w)
    case Nil
    with Suc.prems show ?thesis by (auto simp: string_at_Nil)
  next
    case (Cons c v)
    with Suc.prems have t: "m t = c" "c \<noteq> 0" "string_at m (t + 1) v" by (auto simp: string_at_Cons)
    have far: "s + 1 + n < t + 1 \<or> t + 1 + length v < s + 1" using Suc.prems(2) Cons by auto
    have v: "string_at (m(s := c)) (t + 1) v"
      using t(3) Suc.prems(2) Cons by (subst string_at_upd) auto
    obtain m' s' where l: "safestrcpy_loop (m(s := c)) (s + 1) (t + 1) n = (m', s')" by fastforce
    from Suc.IH [OF v far] have IH: "string_at (m'(s' := 0)) (s + 1) (take n v)" "s + 1 \<le> s'" "s' \<le> s + 1 + n"
      "\<forall>x. x < s + 1 \<or> s + 1 + n < x \<longrightarrow> (m'(s' := 0)) x = (m(s := c)) x" unfolding l split by blast+
    have eq: "safestrcpy_loop m s t (Suc n) = (m', s')" using t l by simp
    have "(m'(s' := 0)) s = c" using spec [OF IH(4), of s] by simp
    then have "string_at (m'(s' := 0)) s (take (Suc n) w)"
      using IH(1) t(2) unfolding Cons take_Suc_Cons string_at_Cons by blast
    moreover have "(m'(s' := 0)) x = m x" if "x < s \<or> s + Suc n < x" for x
    proof -
      from that have "x < s + 1 \<or> s + 1 + n < x" and "x \<noteq> s" by auto
      with spec [OF IH(4), of x] show ?thesis by (metis fun_upd_other)
    qed
    ultimately show ?thesis unfolding eq split using IH(2,3) by simp
  qed
qed

text \<open>\<open>safestrcpy\<close> leaves in its destination a zero-terminated string that is the source cut to
  one byte less than the size given, and writes nothing outside these bytes.\<close>

theorem safestrcpy_terminates_string:
  assumes "string_at m t w" and "0 < n" and "s + nat n \<le> t \<or> t + length w < s"
  shows "string_at (safestrcpy m s t n) s (take (nat n - 1) w) \<and>
    (\<forall>x. x < s \<or> s + nat n \<le> x \<longrightarrow> safestrcpy m s t n x = m x)"
proof -
  have far: "s + (nat n - 1) < t \<or> t + length w < s" using assms(2,3) by auto
  obtain m' s' where l: "safestrcpy_loop m s t (nat n - 1) = (m', s')" by fastforce
  from safestrcpy_loop_string [OF assms(1) far] assms(2) show ?thesis
    by (auto simp: safestrcpy_def l)
qed

theorem safestrcpy_terminates_string_witness:
  "string_at (safestrcpy ((\<lambda>_. 0)(10 := 97, 11 := 98, 12 := 99)) 0 10 3) 0 [97, 98]"
proof -
  have "string_at ((\<lambda>_. 0)(10 := 97, 11 := 98, 12 := 99)) 10 [97, 98, 99]"
    by (simp add: string_at_Cons string_at_Nil)
  from safestrcpy_terminates_string [OF this, of 3 0] show ?thesis by simp
qed

section \<open>Printing and reading a number\<close>

fun dig :: "nat \<Rightarrow> nat list" where
  "dig x = x mod 10 # (if x div 10 = 0 then [] else dig (x div 10))"

declare dig.simps [simp del]

lemma dig_length: "x < 10 ^ Suc k \<Longrightarrow> length (dig x) \<le> Suc k"
proof (induction k arbitrary: x)
  case 0
  then show ?case by (subst dig.simps) simp
next
  case (Suc k)
  then have "x div 10 < 10 ^ Suc k" by (simp add: less_mult_imp_div_less)
  from Suc.IH [OF this] show ?case by (subst dig.simps) simp
qed

lemma dig_less: "d \<in> set (dig x) \<Longrightarrow> d < 10"
proof (induction x rule: dig.induct)
  case (1 x)
  then show ?case by (subst (asm) (2) dig.simps) (auto split: if_splits)
qed

lemma printint_loop_dig:
  "length buf + length (dig (unat x)) \<le> 16 \<Longrightarrow>
   printint_loop x 10 buf = Inr (buf @ map ((!) digits) (dig (unat x)))"
proof (induction "unat x" arbitrary: x buf rule: dig.induct)
  case 1
  have d: "unat (x mod 10) = unat x mod 10" "unat (x div 10) = unat x div 10"
    by (simp_all add: unat_mod unat_div)
  have z: "x div 10 = 0 \<longleftrightarrow> unat x div 10 = 0" using d(2) by (metis unat_eq_zero)
  have dg: "dig (unat x) = unat x mod 10 # (if unat x div 10 = 0 then [] else dig (unat x div 10))"
    by (rule dig.simps)
  have put: "put16 buf (digits ! (unat x mod 10)) = Inr (buf @ [digits ! (unat x mod 10)])"
    using "1.prems" by (simp add: put16_def dg)
  show ?case
  proof (cases "x div 10 = 0")
    case True
    then have "unat x div 10 = 0" using z by simp
    with True show ?thesis
      by (subst printint_loop.simps) (simp only: d(1) put bindR_Inr dg simp_thms if_True if_False list.map)
  next
    case False
    then have nz: "unat x div 10 \<noteq> 0" using z by simp
    have "length (buf @ [digits ! (unat x mod 10)]) + length (dig (unat (x div 10))) \<le> 16"
      using "1.prems" nz by (simp add: dg d)
    from "1.hyps" [OF nz, of "x div 10" "buf @ [digits ! (unat x mod 10)]", OF d(2) [symmetric] this]
    show ?thesis using False nz by (subst printint_loop.simps) (simp add: put dg d)
  qed
qed

lemma digit_byte:
  assumes "d < 10"
  shows "48 \<le> digits ! d" and "digits ! d \<le> 57" and "ucast (digits ! d) - 48 = (of_nat d :: u32)"
proof -
  from assms have "d = 0 \<or> d = 1 \<or> d = 2 \<or> d = 3 \<or> d = 4 \<or> d = 5 \<or> d = 6 \<or> d = 7 \<or> d = 8 \<or> d = 9" by arith
  then show "48 \<le> digits ! d" "digits ! d \<le> 57" "ucast (digits ! d) - 48 = (of_nat d :: u32)"
    by (elim disjE; simp add: digits_def)+
qed

lemma atoi_loop_dig:
  "atoi_loop (map ((!) digits) (rev (dig x)) @ r) 0 = atoi_loop r (of_nat x)"
proof (induction x arbitrary: r rule: dig.induct)
  case (1 x)
  have m: "x mod 10 < 10" by simp
  note b = digit_byte [OF m]
  have w: "of_nat (x div 10) * 10 + ucast (digits ! (x mod 10)) - 48 = (of_nat x :: u32)"
  proof -
    have "of_nat (x div 10) * 10 + ucast (digits ! (x mod 10)) - 48 =
      (of_nat (x div 10) * 10 + of_nat (x mod 10) :: u32)" using b(3) by (simp add: add_diff_eq [symmetric])
    also have "\<dots> = of_nat (x div 10 * 10 + x mod 10)" by (simp only: of_nat_add of_nat_mult of_nat_numeral)
    finally show ?thesis by (simp only: div_mult_mod_eq)
  qed
  show ?case
  proof (cases "x div 10 = 0")
    case True
    with w b(1,2) show ?thesis by (subst dig.simps) simp
  next
    case False
    from 1 [OF False, of "digits ! (x mod 10) # r"] w b(1,2) False show ?thesis
      by (subst dig.simps) simp
  qed
qed

text \<open>What \<open>printint\<close> writes for a number in decimal, \<open>atoi\<close> reads back as the same number, for
  every number that a signed integer holds and is not negative; the digit buffer always suffices.\<close>

theorem atoi_printint:
  assumes "0 \<le> sint xx"
  shows "\<exists>out. printint xx 10 True = Inr out \<and> atoi (out @ [0]) = Inr xx"
proof -
  have "unat xx < 2 ^ 32" using unsigned_less [of xx] by simp
  then have "length (dig (unat xx)) \<le> Suc 9" by (intro dig_length) simp
  then have "printint_loop xx 10 [] = Inr (map ((!) digits) (dig (unat xx)))"
    using printint_loop_dig [of "[]" xx] by simp
  then have "printint xx 10 True = Inr (map ((!) digits) (rev (dig (unat xx))))"
    using assms by (simp add: printint_def Let_def rev_map)
  moreover have "atoi (map ((!) digits) (rev (dig (unat xx))) @ [0]) = Inr xx"
    unfolding atoi_def atoi_loop_dig by simp
  ultimately show ?thesis by blast
qed

theorem atoi_printint_witness:
  "\<exists>out. printint 2025 10 True = Inr out \<and> atoi (out @ [0]) = Inr 2025"
  by (rule atoi_printint) simp

end
