(* ===== verification/XvLog.thy ===== *)
theory XvLog
  imports XvLib
begin

text \<open>
  The write-ahead log of the xv6 file system, \<open>xv6/log.c\<close>, over the buffer cache. A block is its
  bytes; the cache holds the blocks in memory, the disk those that survive a crash, and a ghost
  field lists the disk writes in order, so that a crash is a point between two of them.
\<close>

section \<open>Words in a block\<close>

type_synonym block = mem

definition get32 :: "block \<Rightarrow> nat \<Rightarrow> u32" where
  "get32 b a = ucast (b a) OR push_bit 8 (ucast (b (a + 1))) OR push_bit 16 (ucast (b (a + 2))) OR
     push_bit 24 (ucast (b (a + 3)))"

lemma get32_put32_same [simp]: "get32 (put32 b a w) a = w"
proof (rule bit_word_eqI)
  fix n
  assume "n < LENGTH(32)"
  then have n: "n < 32" by simp
  have "get32 (put32 b a w) a = ucast (ucast w :: u8) OR push_bit 8 (ucast (ucast (drop_bit 8 w) :: u8)) OR
    push_bit 16 (ucast (ucast (drop_bit 16 w) :: u8)) OR push_bit 24 (ucast (ucast (drop_bit 24 w) :: u8))"
    by (simp add: get32_def put32_def)
  then show "bit (get32 (put32 b a w) a) n \<longleftrightarrow> bit w n"
    using n by (cases "n < 8"; cases "n < 16"; cases "n < 24") (auto simp: bit_simps not_less)
qed

lemma get32_put32_other [simp]: "a + 4 \<le> c \<or> c + 4 \<le> a \<Longrightarrow> get32 (put32 b a w) c = get32 b c"
  by (auto simp: get32_def put32_def)

section \<open>The state\<close>

definition MAXOPBLOCKS :: nat where "MAXOPBLOCKS = 10"
definition LOGSIZE :: nat where "LOGSIZE = 30"

record lsys =
  disk :: "nat \<Rightarrow> block"
  cache :: "nat \<Rightarrow> block option"
  writes :: "(nat \<times> block) list"
  dirty :: "nat set"
  start :: nat
  lsize :: nat
  outstanding :: int
  committing :: bool
  lh_n :: int
  lh_block :: "nat list"

text \<open>The buffer cache as its clients see it.\<close>

definition bread :: "lsys \<Rightarrow> nat \<Rightarrow> block \<times> lsys" where
  "bread s b = (case cache s b of
     Some d \<Rightarrow> (d, s)
   | None \<Rightarrow> (disk s b, s \<lparr> cache := (cache s)(b \<mapsto> disk s b) \<rparr>))"

definition bset :: "lsys \<Rightarrow> nat \<Rightarrow> block \<Rightarrow> lsys" where
  "bset s b d = s \<lparr> cache := (cache s)(b \<mapsto> d) \<rparr>"

text \<open>Writing a buffer to the disk clears its dirty flag.\<close>

definition bwrite :: "lsys \<Rightarrow> nat \<Rightarrow> lsys" where
  "bwrite s b =
     (let d = fst (bread s b) in
      s \<lparr> disk := (disk s)(b := d), writes := writes s @ [(b, d)], dirty := dirty s - {b} \<rparr>)"

section \<open>Operations\<close>

fun install_loop :: "nat \<Rightarrow> nat \<Rightarrow> lsys \<Rightarrow> lsys res" where
  "install_loop tail 0 s = Inr s"
| "install_loop tail (Suc k) s =
     (let (lbuf, s) = bread s (start s + tail + 1) in
      bindR (arr_get (lh_block s) tail) (\<lambda>b.
      let (dbuf, s) = bread s b;
          s = bset s b lbuf
      in install_loop (tail + 1) k (bwrite s b)))"

definition install_trans :: "lsys \<Rightarrow> lsys res" where
  "install_trans s = install_loop 0 (nat (lh_n s)) s"

fun read_head_loop :: "block \<Rightarrow> nat \<Rightarrow> nat \<Rightarrow> nat list \<Rightarrow> nat list res" where
  "read_head_loop lh i 0 bs = Inr bs"
| "read_head_loop lh i (Suc k) bs =
     bindR (arr_set bs i (unat (get32 lh (4 + 4 * i)))) (\<lambda>bs. read_head_loop lh (i + 1) k bs)"

definition read_head :: "lsys \<Rightarrow> lsys res" where
  "read_head s =
     (let (buf, s) = bread s (start s);
          n = sint (get32 buf 0)
      in bindR (read_head_loop buf 0 (nat n) (lh_block s)) (\<lambda>bs.
         Inr (s \<lparr> lh_n := n, lh_block := bs \<rparr>)))"

fun write_head_loop :: "nat list \<Rightarrow> nat \<Rightarrow> nat \<Rightarrow> block \<Rightarrow> block res" where
  "write_head_loop bs i 0 hb = Inr hb"
| "write_head_loop bs i (Suc k) hb =
     bindR (arr_get bs i) (\<lambda>b. write_head_loop bs (i + 1) k (put32 hb (4 + 4 * i) (of_nat b)))"

definition write_head :: "lsys \<Rightarrow> lsys res" where
  "write_head s =
     (let (buf, s) = bread s (start s) in
      bindR (write_head_loop (lh_block s) 0 (nat (lh_n s)) (put32 buf 0 (of_int (lh_n s)))) (\<lambda>hb.
      Inr (bwrite (bset s (start s) hb) (start s))))"

definition recover_from_log :: "lsys \<Rightarrow> lsys res" where
  "recover_from_log s =
     bindR (read_head s) (\<lambda>s.
     bindR (install_trans s) (\<lambda>s.
     write_head (s \<lparr> lh_n := 0 \<rparr>)))"

text \<open>\<open>initlog\<close>: the superblock gives the place and the size of the log.\<close>

definition initlog :: "nat \<Rightarrow> nat \<Rightarrow> lsys \<Rightarrow> lsys res" where
  "initlog logstart nlog s =
     (if 4 * (LOGSIZE + 1) \<ge> 512 then Inl (Panic ''initlog: too big logheader'')
      else recover_from_log (s \<lparr> start := logstart, lsize := nlog \<rparr>))"

text \<open>\<open>begin_op\<close> waits (\<open>None\<close>) during a commit and when the log might not suffice.\<close>

definition begin_op :: "lsys \<Rightarrow> lsys option" where
  "begin_op s =
     (if committing s then None
      else if lh_n s + (outstanding s + 1) * int MAXOPBLOCKS > int LOGSIZE then None
      else Some (s \<lparr> outstanding := outstanding s + 1 \<rparr>))"

fun write_log_loop :: "nat \<Rightarrow> nat \<Rightarrow> lsys \<Rightarrow> lsys res" where
  "write_log_loop tail 0 s = Inr s"
| "write_log_loop tail (Suc k) s =
     (let (_, s) = bread s (start s + tail + 1) in
      bindR (arr_get (lh_block s) tail) (\<lambda>b.
      let (from', s) = bread s b;
          s = bset s (start s + tail + 1) from'
      in write_log_loop (tail + 1) k (bwrite s (start s + tail + 1))))"

definition write_log :: "lsys \<Rightarrow> lsys res" where
  "write_log s = write_log_loop 0 (nat (lh_n s)) s"

definition commit :: "lsys \<Rightarrow> lsys res" where
  "commit s =
     (if lh_n s > 0 then
        bindR (write_log s) (\<lambda>s.
        bindR (write_head s) (\<lambda>s.
        bindR (install_trans s) (\<lambda>s.
        write_head (s \<lparr> lh_n := 0 \<rparr>))))
      else Inr s)"

definition end_op :: "lsys \<Rightarrow> lsys res" where
  "end_op s =
     (let s = s \<lparr> outstanding := outstanding s - 1 \<rparr> in
      if committing s then Inl (Panic ''log.committing'')
      else if outstanding s = 0 then
        bindR (commit (s \<lparr> committing := True \<rparr>)) (\<lambda>s. Inr (s \<lparr> committing := False \<rparr>))
      else Inr s)"

text \<open>The place of a block in the log, the end if it is new (absorption).\<close>

fun find_block :: "nat list \<Rightarrow> nat \<Rightarrow> nat \<Rightarrow> nat \<Rightarrow> nat" where
  "find_block bs b i 0 = i"
| "find_block bs b i (Suc k) = (if bs ! i = b then i else find_block bs b (i + 1) k)"

definition log_write :: "lsys \<Rightarrow> nat \<Rightarrow> lsys res" where
  "log_write s b =
     (if lh_n s \<ge> int LOGSIZE \<or> lh_n s \<ge> int (lsize s) - 1 then Inl (Panic ''too big a transaction'')
      else if outstanding s < 1 then Inl (Panic ''log_write outside of trans'')
      else
        let i = find_block (lh_block s) b 0 (nat (lh_n s)) in
        bindR (arr_set (lh_block s) i b) (\<lambda>bs.
        Inr (s \<lparr> lh_block := bs, lh_n := (if int i = lh_n s then lh_n s + 1 else lh_n s),
          dirty := insert b (dirty s) \<rparr>)))"

section \<open>What the operations write\<close>

text \<open>The content of a block as the running system sees it, and a series of updates.\<close>

definition view :: "lsys \<Rightarrow> nat \<Rightarrow> block" where
  "view s b = fst (bread s b)"

definition upds :: "(nat \<times> block) list \<Rightarrow> (nat \<Rightarrow> block) \<Rightarrow> nat \<Rightarrow> block" where
  "upds ws f = fold (\<lambda>(b, d) f. f(b := d)) ws f"

lemma upds_Nil [simp]: "upds [] f = f"
  by (simp add: upds_def)

lemma upds_Cons [simp]: "upds ((b, d) # ws) f = upds ws (f(b := d))"
  by (simp add: upds_def)

lemma upds_append: "upds (vs @ ws) f = upds ws (upds vs f)"
  by (simp add: upds_def)

lemma upds_other: "b \<notin> fst ` set ws \<Longrightarrow> upds ws f b = f b"
  by (induction ws arbitrary: f) auto

lemma upds_hit:
  "distinct (map fst ws) \<Longrightarrow> (b, d) \<in> set ws \<Longrightarrow> upds ws f b = d"
proof (induction ws arbitrary: f)
  case (Cons w ws)
  show ?case
  proof (cases "w = (b, d)")
    case True
    with Cons.prems(1) show ?thesis by (simp add: upds_other)
  next
    case False
    with Cons show ?thesis by (cases w) auto
  qed
qed simp

text \<open>
  A step that writes: the disk and the view change by the same series of updates, the series is
  recorded, and the rest of the log state stays.
\<close>

definition wrote :: "(nat \<times> block) list \<Rightarrow> lsys \<Rightarrow> lsys \<Rightarrow> bool" where
  "wrote ws s t \<longleftrightarrow> disk t = upds ws (disk s) \<and> view t = upds ws (view s) \<and> writes t = writes s @ ws \<and>
     start t = start s \<and> lsize t = lsize s \<and> lh_n t = lh_n s \<and> lh_block t = lh_block s"

lemma bread_view [simp]: "fst (bread s b) = view s b"
  by (simp add: view_def)

lemma bread_state:
  "disk (snd (bread s b)) = disk s" "view (snd (bread s b)) = view s" "writes (snd (bread s b)) = writes s"
  "start (snd (bread s b)) = start s" "lsize (snd (bread s b)) = lsize s" "lh_n (snd (bread s b)) = lh_n s"
  "lh_block (snd (bread s b)) = lh_block s"
proof -
  show "view (snd (bread s b)) = view s"
    by (rule ext) (simp add: view_def bread_def split: option.split)
qed (simp_all add: bread_def split: option.splits)

lemma view_fields [simp]:
  "view (s \<lparr> lh_n := n \<rparr>) = view s" "view (s \<lparr> lh_block := bs \<rparr>) = view s"
  "view (s \<lparr> start := st, lsize := sz \<rparr>) = view s" "view (s \<lparr> committing := c \<rparr>) = view s"
  "view (s \<lparr> outstanding := i \<rparr>) = view s"
  by (simp_all add: fun_eq_iff view_def bread_def split: option.split)

lemma bset_bwrite: "wrote [(b, d)] s (bwrite (bset s b d) b)"
proof -
  have "view (bwrite (bset s b d) b) = (view s)(b := d)"
    by (rule ext) (simp add: view_def bread_def bwrite_def bset_def Let_def split: option.split)
  then show ?thesis by (simp add: wrote_def) (simp add: bwrite_def bset_def Let_def bread_def)
qed

lemma wrote_refl: "wrote [] s s"
  by (simp add: wrote_def)

lemma wrote_trans: "wrote vs s t \<Longrightarrow> wrote ws t u \<Longrightarrow> wrote (vs @ ws) s u"
  by (auto simp: wrote_def upds_append)

lemma wrote_bread: "wrote ws s t \<longleftrightarrow> wrote ws (snd (bread s b)) t"
  by (simp add: wrote_def bread_state)

lemma install_loop_wrote:
  assumes "lh_block s = bs" and "tail + k \<le> length bs"
    and "\<forall>i < tail + k. \<forall>j < tail + k. bs ! i \<noteq> start s + j + 1"
  shows "\<exists>t. install_loop tail k s = Inr t \<and>
    wrote (map (\<lambda>i. (bs ! i, view s (start s + i + 1))) [tail..<tail + k]) s t"
  using assms
proof (induction k arbitrary: tail s)
  case 0
  then show ?case by (simp add: wrote_refl)
next
  case (Suc k)
  define b where "b = bs ! tail"
  define d where "d = view s (start s + tail + 1)"
  define s1 where "s1 = snd (bread s (start s + tail + 1))"
  define s2 where "s2 = snd (bread s1 b)"
  define u where "u = bwrite (bset s2 b d) b"
  have r1: "bread s (start s + tail + 1) = (d, s1)" by (simp add: d_def s1_def prod_eq_iff)
  have r2: "bread s1 b = (view s1 b, s2)" by (simp add: s2_def prod_eq_iff)
  have lb: "lh_block s1 = bs" by (simp add: s1_def bread_state Suc.prems(1))
  have u: "wrote [(b, d)] s u"
    using bset_bwrite [of b d s2] by (simp add: u_def s2_def s1_def wrote_bread [symmetric])
  have step: "install_loop tail (Suc k) s = install_loop (tail + 1) k u"
    using Suc.prems(2) r1 r2 by (simp add: lb u_def b_def)
  have u': "lh_block u = bs" "start u = start s" "view u = (view s)(b := d)"
    using u Suc.prems(1) by (auto simp: wrote_def)
  have vu: "view u (start u + i + 1) = view s (start s + i + 1)" if "i < tail + Suc k" for i
  proof -
    have "tail < tail + Suc k" by simp
    with Suc.prems(3) that have "b \<noteq> start s + i + 1" unfolding b_def by blast
    then show ?thesis by (simp add: u')
  qed
  have "\<exists>t. install_loop (tail + 1) k u = Inr t \<and>
    wrote (map (\<lambda>i. (bs ! i, view u (start u + i + 1))) [tail + 1..<tail + 1 + k]) u t"
    by (rule Suc.IH) (use Suc.prems in \<open>simp_all add: u'\<close>)
  then obtain t where t: "install_loop (tail + 1) k u = Inr t"
    "wrote (map (\<lambda>i. (bs ! i, view u (start u + i + 1))) [tail + 1..<tail + 1 + k]) u t" by blast
  have "map (\<lambda>i. (bs ! i, view u (start u + i + 1))) [tail + 1..<tail + 1 + k] =
    map (\<lambda>i. (bs ! i, view s (start s + i + 1))) [Suc tail..<tail + Suc k]"
    by (intro map_cong) (use vu in \<open>auto simp del: upt_Suc\<close>)
  then have "wrote ([(b, d)] @ map (\<lambda>i. (bs ! i, view s (start s + i + 1))) [Suc tail..<tail + Suc k]) s t"
    using wrote_trans [OF u t(2)] by (simp only:)
  moreover have "[(b, d)] @ map (\<lambda>i. (bs ! i, view s (start s + i + 1))) [Suc tail..<tail + Suc k] =
    map (\<lambda>i. (bs ! i, view s (start s + i + 1))) [tail..<tail + Suc k]"
    by (simp add: b_def d_def upt_conv_Cons del: upt_Suc)
  ultimately have w: "wrote (map (\<lambda>i. (bs ! i, view s (start s + i + 1))) [tail..<tail + Suc k]) s t"
    by (simp only:)
  have "install_loop tail (Suc k) s = Inr t" using step t(1) by (simp only:)
  then show ?case using w by (intro exI conjI)
qed

lemma write_log_loop_wrote:
  assumes "lh_block s = bs" and "tail + k \<le> length bs"
    and "\<forall>i < tail + k. \<forall>j < tail + k. bs ! i \<noteq> start s + j + 1"
  shows "\<exists>t. write_log_loop tail k s = Inr t \<and>
    wrote (map (\<lambda>i. (start s + i + 1, view s (bs ! i))) [tail..<tail + k]) s t"
  using assms
proof (induction k arbitrary: tail s)
  case 0
  then show ?case by (simp add: wrote_refl)
next
  case (Suc k)
  define l where "l = start s + tail + 1"
  define d where "d = view s (bs ! tail)"
  define s1 where "s1 = snd (bread s l)"
  define s2 where "s2 = snd (bread s1 (bs ! tail))"
  define u where "u = bwrite (bset s2 l d) l"
  have r1: "bread s l = (view s l, s1)" by (simp add: s1_def prod_eq_iff)
  have r2: "bread s1 (bs ! tail) = (d, s2)" by (simp add: s2_def s1_def d_def prod_eq_iff bread_state)
  have lb: "lh_block s1 = bs" "start s2 = start s" by (simp_all add: s1_def s2_def bread_state Suc.prems(1))
  have st: "start (bset s2 l d) = start s" by (simp add: bset_def lb)
  have u: "wrote [(l, d)] s u"
    using bset_bwrite [of l d s2] by (simp add: u_def s2_def s1_def wrote_bread [symmetric])
  have step: "write_log_loop tail (Suc k) s = write_log_loop (tail + 1) k u"
    using Suc.prems(2) r1 r2 st by (simp add: lb u_def l_def Let_def)
  have u': "lh_block u = bs" "start u = start s" "view u = (view s)(l := d)"
    using u Suc.prems(1) by (auto simp: wrote_def)
  have vu: "view u (bs ! i) = view s (bs ! i)" if "i < tail + Suc k" for i
  proof -
    have "tail < tail + Suc k" by simp
    with Suc.prems(3) that have "bs ! i \<noteq> l" unfolding l_def by blast
    then show ?thesis by (simp add: u')
  qed
  have "\<exists>t. write_log_loop (tail + 1) k u = Inr t \<and>
    wrote (map (\<lambda>i. (start u + i + 1, view u (bs ! i))) [tail + 1..<tail + 1 + k]) u t"
    by (rule Suc.IH) (use Suc.prems in \<open>simp_all add: u'\<close>)
  then obtain t where t: "write_log_loop (tail + 1) k u = Inr t"
    "wrote (map (\<lambda>i. (start u + i + 1, view u (bs ! i))) [tail + 1..<tail + 1 + k]) u t" by blast
  have "map (\<lambda>i. (start u + i + 1, view u (bs ! i))) [tail + 1..<tail + 1 + k] =
    map (\<lambda>i. (start s + i + 1, view s (bs ! i))) [Suc tail..<tail + Suc k]"
    by (intro map_cong) (use vu in \<open>auto simp: u'(2) simp del: upt_Suc\<close>)
  then have "wrote ([(l, d)] @ map (\<lambda>i. (start s + i + 1, view s (bs ! i))) [Suc tail..<tail + Suc k]) s t"
    using wrote_trans [OF u t(2)] by (simp only:)
  moreover have "[(l, d)] @ map (\<lambda>i. (start s + i + 1, view s (bs ! i))) [Suc tail..<tail + Suc k] =
    map (\<lambda>i. (start s + i + 1, view s (bs ! i))) [tail..<tail + Suc k]"
    by (simp add: l_def d_def upt_conv_Cons del: upt_Suc)
  ultimately have w: "wrote (map (\<lambda>i. (start s + i + 1, view s (bs ! i))) [tail..<tail + Suc k]) s t"
    by (simp only:)
  have "write_log_loop tail (Suc k) s = Inr t" using step t(1) by (simp only:)
  then show ?case using w by (intro exI conjI)
qed

text \<open>A header block on disk that lists the blocks \<open>bs\<close>.\<close>

definition header :: "block \<Rightarrow> nat list \<Rightarrow> bool" where
  "header hb bs \<longleftrightarrow> sint (get32 hb 0) = int (length bs) \<and>
     (\<forall>j < length bs. unat (get32 hb (4 + 4 * j)) = bs ! j)"

lemma write_head_loop_ok:
  "i + k \<le> length bs \<Longrightarrow> \<exists>hb'. write_head_loop bs i k hb = Inr hb' \<and> get32 hb' 0 = get32 hb 0 \<and>
     (\<forall>j. i \<le> j \<longrightarrow> j < i + k \<longrightarrow> get32 hb' (4 + 4 * j) = of_nat (bs ! j)) \<and>
     (\<forall>j < i. get32 hb' (4 + 4 * j) = get32 hb (4 + 4 * j))"
proof (induction k arbitrary: i hb)
  case 0
  then show ?case by simp
next
  case (Suc k)
  let ?hb = "put32 hb (4 + 4 * i) (of_nat (bs ! i))"
  have "i + 1 + k \<le> length bs" using Suc.prems by simp
  from Suc.IH [OF this, of ?hb] obtain hb' where hb': "write_head_loop bs (i + 1) k ?hb = Inr hb'"
    "get32 hb' 0 = get32 ?hb 0" "\<forall>j. i + 1 \<le> j \<longrightarrow> j < i + 1 + k \<longrightarrow> get32 hb' (4 + 4 * j) = of_nat (bs ! j)"
    "\<forall>j < i + 1. get32 hb' (4 + 4 * j) = get32 ?hb (4 + 4 * j)" by blast
  have "get32 hb' (4 + 4 * j) = of_nat (bs ! j)" if "i \<le> j" "j < i + Suc k" for j
  proof (cases "j = i")
    case True
    with hb'(4) show ?thesis by simp
  next
    case False
    with hb'(3) that show ?thesis by simp
  qed
  moreover have "get32 hb' (4 + 4 * j) = get32 hb (4 + 4 * j)" if "j < i" for j
    using hb'(4) that by simp
  moreover have "get32 hb' 0 = get32 hb 0" using hb'(2) by simp
  moreover have "write_head_loop bs i (Suc k) hb = Inr hb'" using hb'(1) Suc.prems by simp
  ultimately show ?case by blast
qed

lemma write_head_wrote:
  assumes "lh_n s = int n" and "n \<le> length (lh_block s)" and "n \<le> LOGSIZE"
    and "\<forall>j < n. lh_block s ! j < 2 ^ 32"
  shows "\<exists>hb t. write_head s = Inr t \<and> wrote [(start s, hb)] s t \<and> header hb (take n (lh_block s))"
proof -
  define b where "b = start s"
  define s1 where "s1 = snd (bread s b)"
  let ?hb0 = "put32 (view s b) 0 (of_int (lh_n s))"
  have r: "bread s b = (view s b, s1)" by (simp add: s1_def prod_eq_iff)
  have s1: "lh_block s1 = lh_block s" "lh_n s1 = lh_n s" "start s1 = b" by (simp_all add: s1_def b_def bread_state)
  from write_head_loop_ok [of 0 n "lh_block s" ?hb0] assms(2) obtain hb where
    hb: "write_head_loop (lh_block s) 0 n ?hb0 = Inr hb" "get32 hb 0 = get32 ?hb0 0"
    "\<forall>j < n. get32 hb (4 + 4 * j) = of_nat (lh_block s ! j)" by auto
  have "write_head s = Inr (bwrite (bset s1 b hb) b)"
    using hb(1) by (simp add: write_head_def b_def [symmetric] r s1 assms(1))
  moreover have "wrote [(b, hb)] s (bwrite (bset s1 b hb) b)"
    using bset_bwrite [of b hb s1] by (simp add: s1_def wrote_bread [symmetric])
  moreover have "sint (get32 hb 0) = int n"
    using hb(2) assms(1,3) by (simp add: LOGSIZE_def signed_of_nat signed_take_bit_int_eq_self)
  moreover have "unat (get32 hb (4 + 4 * j)) = lh_block s ! j" if "j < n" for j
    using hb(3) assms(4) that by (simp add: unsigned_of_nat take_bit_nat_eq_self)
  ultimately show ?thesis using assms(2) by (auto simp: header_def b_def)
qed

lemma read_head_loop_ok:
  "i + k \<le> length bs \<Longrightarrow> \<exists>bs'. read_head_loop lh i k bs = Inr bs' \<and> length bs' = length bs \<and>
     (\<forall>j. i \<le> j \<longrightarrow> j < i + k \<longrightarrow> bs' ! j = unat (get32 lh (4 + 4 * j))) \<and> (\<forall>j < i. bs' ! j = bs ! j)"
proof (induction k arbitrary: i bs)
  case 0
  then show ?case by simp
next
  case (Suc k)
  let ?bs = "bs[i := unat (get32 lh (4 + 4 * i))]"
  have "i + 1 + k \<le> length ?bs" using Suc.prems by simp
  from Suc.IH [OF this] obtain bs' where bs': "read_head_loop lh (i + 1) k ?bs = Inr bs'" "length bs' = length ?bs"
    "\<forall>j. i + 1 \<le> j \<longrightarrow> j < i + 1 + k \<longrightarrow> bs' ! j = unat (get32 lh (4 + 4 * j))" "\<forall>j < i + 1. bs' ! j = ?bs ! j" by blast
  have "bs' ! j = unat (get32 lh (4 + 4 * j))" if "i \<le> j" "j < i + Suc k" for j
  proof (cases "j = i")
    case True
    with bs'(4) Suc.prems show ?thesis by simp
  next
    case False
    with bs'(3) that show ?thesis by simp
  qed
  moreover have "bs' ! j = bs ! j" if "j < i" for j using bs'(4) that by simp
  moreover have "read_head_loop lh i (Suc k) bs = Inr bs'" using bs'(1) Suc.prems by simp
  ultimately show ?case using bs'(2) by auto
qed

lemma read_head_ok:
  assumes "header (view s (start s)) bs" and "length bs \<le> LOGSIZE" and "length (lh_block s) = LOGSIZE"
  shows "\<exists>t. read_head s = Inr t \<and> lh_n t = int (length bs) \<and> take (length bs) (lh_block t) = bs \<and>
    length (lh_block t) = LOGSIZE \<and> disk t = disk s \<and> view t = view s \<and> writes t = writes s \<and>
    start t = start s \<and> lsize t = lsize s"
proof -
  define s1 where "s1 = snd (bread s (start s))"
  have r: "bread s (start s) = (view s (start s), s1)" by (simp add: s1_def prod_eq_iff)
  have lb: "lh_block s1 = lh_block s" by (simp add: s1_def bread_state)
  have n: "sint (get32 (view s (start s)) 0) = int (length bs)" using assms(1) by (simp add: header_def)
  from read_head_loop_ok [of 0 "length bs" "lh_block s" "view s (start s)"] assms(2,3) obtain bs' where
    bs': "read_head_loop (view s (start s)) 0 (length bs) (lh_block s) = Inr bs'" "length bs' = LOGSIZE"
    "\<forall>j < length bs. bs' ! j = unat (get32 (view s (start s)) (4 + 4 * j))" by auto
  have "take (length bs) bs' = bs"
    using bs'(2,3) assms(1,2) by (intro nth_equalityI) (auto simp: header_def)
  moreover have "read_head s = Inr (s1 \<lparr> lh_n := int (length bs), lh_block := bs' \<rparr>)"
    using bs'(1) by (simp add: read_head_def r n lb)
  moreover have "view (s1 \<lparr> lh_n := int (length bs), lh_block := bs' \<rparr>) = view s"
    using bread_state(2) [of s "start s"] by (simp add: s1_def)
  ultimately show ?thesis using bs'(2) by (auto simp: s1_def bread_state)
qed

section \<open>Recovery\<close>

text \<open>The blocks of a transaction lie outside the log and are numbered like blocks.\<close>

definition txn_blocks :: "nat \<Rightarrow> nat \<Rightarrow> nat list \<Rightarrow> bool" where
  "txn_blocks st sz bs \<longleftrightarrow> distinct bs \<and> length bs \<le> LOGSIZE \<and> length bs < sz \<and>
     (\<forall>b \<in> set bs. (b < st \<or> st + sz \<le> b) \<and> b < 2 ^ 32)"

lemma txn_blocks_apart:
  assumes "txn_blocks st sz bs" and "i < length bs" and "j < length bs"
  shows "bs ! i \<noteq> st + j + 1" and "bs ! i \<noteq> st" and "bs ! i < 2 ^ 32"
proof -
  from assms have "bs ! i < st \<or> st + sz \<le> bs ! i" "bs ! i < 2 ^ 32" "length bs < sz"
    by (auto simp: txn_blocks_def dest: nth_mem)
  then show "bs ! i \<noteq> st + j + 1" "bs ! i \<noteq> st" "bs ! i < 2 ^ 32" using assms(3) by auto
qed

text \<open>The home writes of a transaction whose logged blocks are \<open>f (st + i + 1)\<close>.\<close>

definition home_writes :: "nat \<Rightarrow> nat list \<Rightarrow> (nat \<Rightarrow> block) \<Rightarrow> (nat \<times> block) list" where
  "home_writes st bs f = map (\<lambda>i. (bs ! i, f (st + i + 1))) [0..<length bs]"

lemma install_trans_wrote:
  assumes "txn_blocks (start s) (lsize s) bs" and "lh_n s = int (length bs)"
    and "take (length bs) (lh_block s) = bs" and "length (lh_block s) = LOGSIZE"
  shows "\<exists>t. install_trans s = Inr t \<and> wrote (home_writes (start s) bs (view s)) s t"
proof -
  have n: "length bs \<le> LOGSIZE" using assms(1) by (simp add: txn_blocks_def)
  have nth: "lh_block s ! i = bs ! i" if "i < length bs" for i using assms(3) that by (metis nth_take)
  have "map (\<lambda>i. (lh_block s ! i, view s (start s + i + 1))) [0..<length bs] = home_writes (start s) bs (view s)"
    using nth by (simp add: home_writes_def)
  moreover have "\<forall>i < 0 + length bs. \<forall>j < 0 + length bs. lh_block s ! i \<noteq> start s + j + 1"
    using txn_blocks_apart [OF assms(1)] nth by auto
  ultimately show ?thesis
    using install_loop_wrote [of s "lh_block s" 0 "length bs"] n assms(2,4) by (simp add: install_trans_def)
qed

lemma clear_head_wrote:
  "\<exists>hb t. write_head (s \<lparr> lh_n := 0 \<rparr>) = Inr t \<and> disk t = (disk s)(start s := hb) \<and>
     writes t = writes s @ [(start s, hb)] \<and> header hb []"
proof -
  from write_head_wrote [of "s \<lparr> lh_n := 0 \<rparr>" 0] obtain hb t where
    "write_head (s \<lparr> lh_n := 0 \<rparr>) = Inr t" "wrote [(start s, hb)] (s \<lparr> lh_n := 0 \<rparr>) t" "header hb []"
    by (auto simp: LOGSIZE_def)
  then show ?thesis by (auto simp: wrote_def)
qed

lemma recover_writes:
  assumes "header (view s (start s)) bs" and "txn_blocks (start s) (lsize s) bs"
    and "length (lh_block s) = LOGSIZE"
  shows "\<exists>hb t. recover_from_log s = Inr t \<and> header hb [] \<and>
    writes t = writes s @ home_writes (start s) bs (view s) @ [(start s, hb)] \<and>
    disk t = upds (home_writes (start s) bs (view s) @ [(start s, hb)]) (disk s)"
proof -
  have n: "length bs \<le> LOGSIZE" using assms(2) by (simp add: txn_blocks_def)
  from read_head_ok [OF assms(1) n assms(3)] obtain t1 where
    t1: "read_head s = Inr t1" "lh_n t1 = int (length bs)" "take (length bs) (lh_block t1) = bs"
    "length (lh_block t1) = LOGSIZE" "disk t1 = disk s" "view t1 = view s" "writes t1 = writes s"
    "start t1 = start s" "lsize t1 = lsize s" by auto
  from install_trans_wrote [of t1 bs] assms(2) t1 obtain t2 where
    t2: "install_trans t1 = Inr t2" "wrote (home_writes (start s) bs (view s)) t1 t2" by auto
  from clear_head_wrote [of t2] obtain hb t where
    t: "write_head (t2 \<lparr> lh_n := 0 \<rparr>) = Inr t" "disk t = (disk t2)(start t2 := hb)"
    "writes t = writes t2 @ [(start t2, hb)]" "header hb []" by blast
  have "start t2 = start s" "disk t2 = upds (home_writes (start s) bs (view s)) (disk s)"
    "writes t2 = writes s @ home_writes (start s) bs (view s)"
    using t2(2) t1 by (auto simp: wrote_def)
  with t t1(1) t2(1) show ?thesis by (auto simp: recover_from_log_def upds_append)
qed

section \<open>Atomic commit\<close>

text \<open>The machine after a crash or a reset: the disk, and memory as it is cleared.\<close>

definition boot :: "(nat \<Rightarrow> block) \<Rightarrow> lsys" where
  "boot d = \<lparr> disk = d, cache = (\<lambda>_. None), writes = [], dirty = {}, start = 0, lsize = 0,
     outstanding = 0, committing = False, lh_n = 0, lh_block = replicate LOGSIZE 0 \<rparr>"

lemma recover_boot:
  assumes "header (d st) bs" and "txn_blocks st sz bs"
  shows "\<exists>hb t. initlog st sz (boot d) = Inr t \<and> header hb [] \<and>
    writes t = home_writes st bs d @ [(st, hb)] \<and> disk t = upds (home_writes st bs d @ [(st, hb)]) d"
proof -
  let ?s = "boot d \<lparr> start := st, lsize := sz \<rparr>"
  have v: "view ?s = d" by (simp add: fun_eq_iff view_def bread_def boot_def)
  from recover_writes [of ?s bs] assms v show ?thesis
    by (auto simp: initlog_def LOGSIZE_def boot_def)
qed

text \<open>
  A transaction about to be committed: the blocks \<open>bs\<close> are logged in memory, and the log on disk is
  empty.
\<close>

definition log_ready :: "lsys \<Rightarrow> nat list \<Rightarrow> bool" where
  "log_ready s bs \<longleftrightarrow> lh_n s = int (length bs) \<and> take (length bs) (lh_block s) = bs \<and>
     length (lh_block s) = LOGSIZE \<and> txn_blocks (start s) (lsize s) bs \<and> header (disk s (start s)) []"

definition log_copies :: "lsys \<Rightarrow> nat list \<Rightarrow> (nat \<times> block) list" where
  "log_copies s bs = map (\<lambda>i. (start s + i + 1, view s (bs ! i))) [0..<length bs]"

definition installs :: "lsys \<Rightarrow> nat list \<Rightarrow> (nat \<times> block) list" where
  "installs s bs = map (\<lambda>b. (b, view s b)) bs"

lemma map_nth_upt: "map (\<lambda>i. f (bs ! i)) [0..<length bs] = map f bs"
  by (metis map_map map_nth comp_def map_cong)

lemma log_copies_keys: "fst ` set (log_copies s bs) = {start s + 1..start s + length bs}"
proof (intro equalityI subsetI)
  fix x
  assume "x \<in> {start s + 1..start s + length bs}"
  then have "x = start s + (x - start s - 1) + 1" and "x - start s - 1 < length bs" by auto
  then show "x \<in> fst ` set (log_copies s bs)" by (force simp: log_copies_def)
qed (auto simp: log_copies_def)

lemma log_copies_hit: "i < length bs \<Longrightarrow> upds (log_copies s bs) f (start s + i + 1) = view s (bs ! i)"
  by (rule upds_hit) (auto simp: log_copies_def comp_def distinct_map inj_on_def)

lemma commit_writes:
  assumes "log_ready s bs" and "bs \<noteq> []"
  shows "\<exists>hb hb0 t. commit s = Inr t \<and> header hb bs \<and> header hb0 [] \<and>
    writes t = writes s @ log_copies s bs @ [(start s, hb)] @ installs s bs @ [(start s, hb0)]"
proof -
  let ?n = "length bs"
  from assms(1) have r: "lh_n s = int ?n" "take ?n (lh_block s) = bs" "length (lh_block s) = LOGSIZE"
    "txn_blocks (start s) (lsize s) bs" "header (disk s (start s)) []" by (auto simp: log_ready_def)
  have n: "?n \<le> LOGSIZE" using r(4) by (simp add: txn_blocks_def)
  have nth: "lh_block s ! i = bs ! i" if "i < ?n" for i using r(2) that by (metis nth_take)
  have copies: "map (\<lambda>i. (start s + i + 1, view s (lh_block s ! i))) [0..<?n] = log_copies s bs"
    using nth by (simp add: log_copies_def)
  have "\<forall>i < 0 + ?n. \<forall>j < 0 + ?n. lh_block s ! i \<noteq> start s + j + 1"
    using txn_blocks_apart [OF r(4)] nth by auto
  with write_log_loop_wrote [of s "lh_block s" 0 ?n] n r(1,3) copies obtain t1 where
    t1: "write_log s = Inr t1" "wrote (log_copies s bs) s t1" by (auto simp: write_log_def)
  have t1': "lh_n t1 = int ?n" "lh_block t1 = lh_block s" "start t1 = start s" "lsize t1 = lsize s"
    "view t1 = upds (log_copies s bs) (view s)" "writes t1 = writes s @ log_copies s bs"
    using t1(2) r(1) by (auto simp: wrote_def)
  have "\<forall>j < ?n. lh_block t1 ! j < 2 ^ 32" using txn_blocks_apart(3) [OF r(4)] nth t1'(2) by auto
  with write_head_wrote [of t1 ?n] t1' n r(2,3) obtain hb t2 where
    t2: "write_head t1 = Inr t2" "wrote [(start s, hb)] t1 t2" "header hb bs" by auto
  have t2': "lh_n t2 = int ?n" "lh_block t2 = lh_block s" "start t2 = start s" "lsize t2 = lsize s"
    "view t2 = (view t1)(start s := hb)" "writes t2 = writes t1 @ [(start s, hb)]"
    using t2(2) t1' by (auto simp: wrote_def)
  from install_trans_wrote [of t2 bs] t2' r obtain t3 where
    t3: "install_trans t2 = Inr t3" "wrote (home_writes (start s) bs (view t2)) t2 t3" by auto
  have "view t2 (start s + i + 1) = view s (bs ! i)" if "i < ?n" for i
    using log_copies_hit [OF that, of s "view s"] by (simp add: t2' t1')
  then have "home_writes (start s) bs (view t2) = map (\<lambda>i. (bs ! i, view s (bs ! i))) [0..<?n]"
    by (simp add: home_writes_def)
  also have "\<dots> = installs s bs" unfolding installs_def by (rule map_nth_upt)
  finally have hw: "home_writes (start s) bs (view t2) = installs s bs" .
  have t3': "start t3 = start s" "writes t3 = writes t2 @ installs s bs"
    using t3(2) unfolding hw by (auto simp: wrote_def t2'(3))
  from clear_head_wrote [of t3] t3' obtain hb0 t where
    t: "write_head (t3 \<lparr> lh_n := 0 \<rparr>) = Inr t" "writes t = writes t3 @ [(start s, hb0)]" "header hb0 []" by auto
  have "lh_n s > 0" using assms(2) r(1) by simp
  then have "commit s = Inr t" using t1(1) t2(1) t3(1) t(1) by (simp add: commit_def)
  moreover have "writes t = writes s @ log_copies s bs @ [(start s, hb)] @ installs s bs @ [(start s, hb0)]"
    using t(2) t3'(2) t2'(6) t1'(6) by simp
  ultimately show ?thesis using t2(3) t(3) by blast
qed

text \<open>The blocks outside the log.\<close>

definition home :: "lsys \<Rightarrow> nat \<Rightarrow> bool" where
  "home s b \<longleftrightarrow> b < start s \<or> start s + lsize s \<le> b"

lemma crash_before_header:
  assumes "log_ready s bs" and "k \<le> length bs"
  shows "\<exists>t. initlog (start s) (lsize s) (boot (upds (take k (log_copies s bs)) (disk s))) = Inr t \<and>
    (\<forall>b. home s b \<longrightarrow> disk t b = disk s b)"
proof -
  let ?d = "upds (take k (log_copies s bs)) (disk s)"
  have sz: "length bs < lsize s" and tx: "txn_blocks (start s) (lsize s) []"
    using assms(1) by (auto simp: log_ready_def txn_blocks_def)
  have keys: "fst ` set (take k (log_copies s bs)) \<subseteq> {start s + 1..start s + length bs}"
    using log_copies_keys [of s bs] by (auto dest: in_set_takeD)
  have st: "?d (start s) = disk s (start s)" using keys by (intro upds_other) auto
  have h: "header (?d (start s)) []" using assms(1) st by (simp add: log_ready_def)
  from recover_boot [of ?d "start s" "[]" "lsize s", OF h tx] obtain hb t where
    t: "initlog (start s) (lsize s) (boot ?d) = Inr t" "disk t = ?d(start s := hb)"
    by (auto simp: home_writes_def)
  have "disk t b = disk s b" if "home s b" for b
  proof -
    have "b \<noteq> start s" using that sz by (auto simp: home_def)
    moreover have "?d b = disk s b" using that sz keys by (intro upds_other) (auto simp: home_def)
    ultimately show ?thesis using t(2) by simp
  qed
  with t(1) show ?thesis by blast
qed

lemma installs_keys: "fst ` set (installs s bs) = set bs"
  by (auto simp: installs_def image_image)

lemma crash_after_header:
  assumes "log_ready s bs" and "header hb bs"
  shows "\<exists>t. initlog (start s) (lsize s)
      (boot (upds (log_copies s bs @ [(start s, hb)] @ take j (installs s bs)) (disk s))) = Inr t \<and>
    (\<forall>b. home s b \<longrightarrow> disk t b = (if b \<in> set bs then view s b else disk s b))"
proof -
  let ?d0 = "upds (log_copies s bs) (disk s)"
  define D where "D = upds (log_copies s bs @ [(start s, hb)] @ take j (installs s bs)) (disk s)"
  have tx: "txn_blocks (start s) (lsize s) bs" using assms(1) by (simp add: log_ready_def)
  have sz: "length bs < lsize s" using tx by (simp add: txn_blocks_def)
  have d: "D = upds (take j (installs s bs)) (?d0(start s := hb))" by (simp add: D_def upds_append)
  have keys: "fst ` set (take j (installs s bs)) \<subseteq> set bs"
    using installs_keys [of s bs] by (auto dest: in_set_takeD)
  have apart: "home s b" if "b \<in> set bs" for b using tx that by (auto simp: txn_blocks_def home_def)
  have logd: "D l = (?d0(start s := hb)) l" if "\<not> home s l" for l
    unfolding d using that keys apart by (intro upds_other) auto
  have "\<not> home s (start s)" using sz by (simp add: home_def)
  then have st: "D (start s) = hb" using logd by simp
  have cp: "D (start s + i + 1) = view s (bs ! i)" if "i < length bs" for i
  proof -
    have "\<not> home s (start s + i + 1)" using that sz by (simp add: home_def)
    then show ?thesis using logd log_copies_hit [OF that, of s "disk s"] by simp
  qed
  have hw: "home_writes (start s) bs D = installs s bs"
  proof -
    have "home_writes (start s) bs D = map (\<lambda>i. (bs ! i, view s (bs ! i))) [0..<length bs]"
      using cp by (simp add: home_writes_def)
    also have "\<dots> = installs s bs" unfolding installs_def by (rule map_nth_upt)
    finally show ?thesis .
  qed
  have h: "header (D (start s)) bs" unfolding st by (rule assms(2))
  from recover_boot [of D "start s" bs "lsize s", OF h tx] obtain hb0 t where
    t: "initlog (start s) (lsize s) (boot D) = Inr t" "disk t = upds (installs s bs @ [(start s, hb0)]) D"
    unfolding hw by blast
  have "disk t b = (if b \<in> set bs then view s b else disk s b)" if hb: "home s b" for b
  proof -
    have ne: "b \<noteq> start s" using hb sz by (auto simp: home_def)
    then have tb: "disk t b = upds (installs s bs) D b" using t(2) by (simp add: upds_append)
    show ?thesis
    proof (cases "b \<in> set bs")
      case True
      have "distinct bs" using tx by (simp add: txn_blocks_def)
      then have "upds (installs s bs) D b = view s b"
        using True by (intro upds_hit) (auto simp: installs_def comp_def)
      with tb True show ?thesis by simp
    next
      case False
      have "D b = ?d0 b" unfolding d using False keys ne by (subst upds_other) auto
      also have "\<dots> = disk s b" using hb sz log_copies_keys [of s bs] by (intro upds_other) (auto simp: home_def)
      finally have "D b = disk s b" .
      with tb False installs_keys [of s bs] show ?thesis by (simp add: upds_other)
    qed
  qed
  with t(1) show ?thesis unfolding D_def by blast
qed

lemma crash_after_commit:
  assumes "log_ready s bs" and "header hb0 []"
  shows "\<exists>t. initlog (start s) (lsize s)
      (boot (upds (log_copies s bs @ [(start s, hb)] @ installs s bs @ [(start s, hb0)]) (disk s))) = Inr t \<and>
    (\<forall>b. home s b \<longrightarrow> disk t b = (if b \<in> set bs then view s b else disk s b))"
proof -
  let ?d0 = "upds (log_copies s bs) (disk s)"
  define D where "D = upds (log_copies s bs @ [(start s, hb)] @ installs s bs @ [(start s, hb0)]) (disk s)"
  have tx: "txn_blocks (start s) (lsize s) bs" "txn_blocks (start s) (lsize s) []"
    using assms(1) by (auto simp: log_ready_def txn_blocks_def)
  have sz: "length bs < lsize s" using tx by (simp add: txn_blocks_def)
  have d: "D = (upds (installs s bs) (?d0(start s := hb)))(start s := hb0)" by (simp add: D_def upds_append)
  have h: "header (D (start s)) []" using assms(2) by (simp add: d)
  from recover_boot [of D "start s" "[]" "lsize s", OF h tx(2)] obtain hb1 t where
    t: "initlog (start s) (lsize s) (boot D) = Inr t" "disk t = D(start s := hb1)" by (auto simp: home_writes_def)
  have "disk t b = (if b \<in> set bs then view s b else disk s b)" if hb: "home s b" for b
  proof -
    have ne: "b \<noteq> start s" using hb sz by (auto simp: home_def)
    then have tb: "disk t b = upds (installs s bs) (?d0(start s := hb)) b" using t(2) by (simp add: d)
    show ?thesis
    proof (cases "b \<in> set bs")
      case True
      have "distinct bs" using tx by (simp add: txn_blocks_def)
      then have "upds (installs s bs) (?d0(start s := hb)) b = view s b"
        using True by (intro upds_hit) (auto simp: installs_def comp_def)
      with tb True show ?thesis by simp
    next
      case False
      have "?d0 b = disk s b" using hb sz log_copies_keys [of s bs] by (intro upds_other) (auto simp: home_def)
      with tb False ne installs_keys [of s bs] show ?thesis by (simp add: upds_other)
    qed
  qed
  with t(1) show ?thesis unfolding D_def by blast
qed

text \<open>C1: committing is atomic under crashes. The commit of a transaction makes a sequence of disk
  writes; wherever the machine stops in it, recovery at the next start succeeds and leaves the
  blocks outside the log all as they were before the transaction, up to the write of the log
  header, or all as the transaction left them, from there on.\<close>

theorem log_commit_atomic:
  assumes "log_ready s bs" and "bs \<noteq> []"
  shows "\<exists>t ws. commit s = Inr t \<and> writes t = writes s @ ws \<and> length ws = 2 * length bs + 2 \<and>
    (\<forall>k \<le> length ws. \<exists>u. initlog (start s) (lsize s) (boot (upds (take k ws) (disk s))) = Inr u \<and>
      (\<forall>b. home s b \<longrightarrow> disk u b = (if length bs < k \<and> b \<in> set bs then view s b else disk s b)))"
proof -
  from commit_writes [OF assms] obtain hb hb0 t where
    t: "commit s = Inr t" "header hb bs" "header hb0 []"
    "writes t = writes s @ log_copies s bs @ [(start s, hb)] @ installs s bs @ [(start s, hb0)]" by blast
  define ws where "ws = log_copies s bs @ [(start s, hb)] @ installs s bs @ [(start s, hb0)]"
  have len: "length (log_copies s bs) = length bs" "length (installs s bs) = length bs"
    by (simp_all add: log_copies_def installs_def)
  have "\<exists>u. initlog (start s) (lsize s) (boot (upds (take k ws) (disk s))) = Inr u \<and>
      (\<forall>b. home s b \<longrightarrow> disk u b = (if length bs < k \<and> b \<in> set bs then view s b else disk s b))"
    if k: "k \<le> length ws" for k
  proof -
    consider "k \<le> length bs" | "length bs < k" "k < length ws" | "k = length ws" "length bs < k"
      using k len by (fastforce simp: ws_def)
    then show ?thesis
    proof cases
      case 1
      then have "take k ws = take k (log_copies s bs)" by (simp add: ws_def len)
      with crash_before_header [OF assms(1) 1] 1 show ?thesis by simp
    next
      case 2
      then have "take k ws = log_copies s bs @ [(start s, hb)] @ take (k - length bs - 1) (installs s bs)"
        by (simp add: ws_def len take_Cons')
      with crash_after_header [OF assms(1) t(2), of "k - length bs - 1"] 2 show ?thesis by simp
    next
      case 3
      then have "take k ws = ws" by simp
      with crash_after_commit [OF assms(1) t(3), of hb] 3 show ?thesis by (simp add: ws_def)
    qed
  qed
  moreover have "length ws = 2 * length bs + 2" by (simp add: ws_def len)
  ultimately show ?thesis using t(1,4) by (auto simp: ws_def)
qed

text \<open>Block 5 modified in memory, with the log in blocks 2 to 4.\<close>

definition sample_log :: lsys where
  "sample_log = \<lparr> disk = (\<lambda>_ _. 0), cache = (\<lambda>_. None)(5 \<mapsto> (\<lambda>_. 1)), writes = [], dirty = {5}, start = 2,
     lsize = 3, outstanding = 0, committing = True, lh_n = 1, lh_block = 5 # replicate 29 0 \<rparr>"

lemma sample_log_ready: "log_ready sample_log [5]"
  by (simp add: log_ready_def sample_log_def txn_blocks_def LOGSIZE_def header_def get32_def)

theorem log_commit_atomic_witness:
  "\<exists>t ws. commit sample_log = Inr t \<and> writes t = ws \<and> length ws = 4 \<and>
    (\<forall>k \<le> 4. \<exists>u. initlog 2 3 (boot (upds (take k ws) (\<lambda>_ _. 0))) = Inr u \<and>
      disk u 5 = (if 1 < k then (\<lambda>_. 1) else (\<lambda>_. 0)))"
proof -
  have v: "view sample_log 5 = (\<lambda>_. 1)" by (simp add: view_def bread_def sample_log_def)
  have s: "start sample_log = 2" "lsize sample_log = 3" "disk sample_log = (\<lambda>_ _. 0)" "writes sample_log = []"
    by (simp_all add: sample_log_def)
  from log_commit_atomic [OF sample_log_ready] obtain t ws where
    t: "commit sample_log = Inr t" "writes t = ws" "length ws = 4"
    "\<forall>k \<le> 4. \<exists>u. initlog 2 3 (boot (upds (take k ws) (disk sample_log))) = Inr u \<and>
      (\<forall>b. home sample_log b \<longrightarrow> disk u b = (if 1 < k \<and> b \<in> {5} then view sample_log b else disk sample_log b))"
    by (auto simp: s(1,2,4))
  have h: "home sample_log 5" by (simp add: home_def s)
  have "\<exists>u. initlog 2 3 (boot (upds (take k ws) (disk sample_log))) = Inr u \<and>
    disk u 5 = (if 1 < k then view sample_log 5 else disk sample_log 5)" if "k \<le> 4" for k
    using t(4) that h by fastforce
  then show ?thesis using t(1,2,3) unfolding v s(3) by blast
qed

lemma home_writes_keys: "fst ` set (home_writes st bs d) = set bs"
proof -
  have "map fst (home_writes st bs d) = bs" by (simp add: home_writes_def comp_def map_nth)
  then show ?thesis by (metis set_map)
qed

lemma home_writes_value:
  assumes "distinct bs" and "i < length bs"
  shows "upds (home_writes st bs d) f (bs ! i) = d (st + i + 1)"
  using assms by (intro upds_hit) (auto simp: home_writes_def comp_def map_nth)

text \<open>C14: recovery may itself be cut short by a crash, at any of its writes and any number of times:
  starting it again ends with the same blocks outside the log.\<close>

theorem log_recovery_restartable:
  assumes "header (d st) bs" and "txn_blocks st sz bs"
  shows "\<exists>t. initlog st sz (boot d) = Inr t \<and>
    (\<forall>k \<le> length (writes t). \<exists>u. initlog st sz (boot (upds (take k (writes t)) d)) = Inr u \<and>
      (\<forall>b. b < st \<or> st + sz \<le> b \<longrightarrow> disk u b = disk t b))"
proof -
  from recover_boot [of d st bs sz, OF assms] obtain hb t where
    t: "initlog st sz (boot d) = Inr t" "header hb []" "writes t = home_writes st bs d @ [(st, hb)]"
    "disk t = (upds (home_writes st bs d) d)(st := hb)" by (auto simp: upds_append)
  have len: "length (home_writes st bs d) = length bs" by (simp add: home_writes_def)
  have sz: "length bs < sz" and dist: "distinct bs" and tx0: "txn_blocks st sz []"
    using assms(2) by (auto simp: txn_blocks_def)
  have bs: "b < st \<or> st + sz \<le> b" if "b \<in> set bs" for b using assms(2) that by (simp add: txn_blocks_def)
  have "\<exists>u. initlog st sz (boot (upds (take k (writes t)) d)) = Inr u \<and>
      (\<forall>b. b < st \<or> st + sz \<le> b \<longrightarrow> disk u b = disk t b)" if k: "k \<le> length (writes t)" for k
  proof (cases "k \<le> length bs")
    case True
    define D where "D = upds (take k (home_writes st bs d)) d"
    have keys: "fst ` set (take k (home_writes st bs d)) \<subseteq> set bs"
      using home_writes_keys [of st bs d] by (auto dest: in_set_takeD)
    have logd: "D l = d l" if "st \<le> l" "l < st + sz" for l
      unfolding D_def using keys bs that by (intro upds_other) force
    have "header (D st) bs" using assms(1) logd [of st] sz by simp
    from recover_boot [of D st bs sz, OF this assms(2)] obtain hb1 u where
      u: "initlog st sz (boot D) = Inr u" "disk u = (upds (home_writes st bs D) D)(st := hb1)"
      by (auto simp: upds_append)
    have hw: "home_writes st bs D = home_writes st bs d"
      using logd sz by (simp add: home_writes_def)
    have "disk u b = disk t b" if "b < st \<or> st + sz \<le> b" for b
    proof (cases "b \<in> set bs")
      case True
      then obtain i where "i < length bs" "b = bs ! i" by (auto simp: in_set_conv_nth)
      with home_writes_value [OF dist, of i st d] bs [OF True] that sz u(2) t(4) show ?thesis by (auto simp: hw)
    next
      case False
      with home_writes_keys [of st bs d] have "upds (home_writes st bs d) f b = f b" for f
        by (intro upds_other) simp
      moreover have "D b = d b" unfolding D_def using keys False by (intro upds_other) auto
      ultimately show ?thesis using that sz u(2) t(4) by (auto simp: hw)
    qed
    moreover have "take k (writes t) = take k (home_writes st bs d)" using True by (simp add: t(3) len)
    ultimately show ?thesis using u(1) by (auto simp: D_def)
  next
    case False
    then have tk: "take k (writes t) = writes t" using k by (simp add: t(3) len)
    define D where "D = upds (writes t) d"
    have D: "D = (upds (home_writes st bs d) d)(st := hb)" by (simp add: D_def t(3) upds_append)
    have "header (D st) []" using t(2) by (simp add: D)
    from recover_boot [of D st "[]" sz, OF this tx0] obtain hb1 u where
      u: "initlog st sz (boot D) = Inr u" "disk u = D(st := hb1)" by (auto simp: home_writes_def)
    have "disk u b = disk t b" if "b < st \<or> st + sz \<le> b" for b
      using that sz u(2) t(4) by (auto simp: D)
    with u(1) show ?thesis unfolding tk by (auto simp: D_def)
  qed
  with t(1) show ?thesis by blast
qed

text \<open>A disk with one committed block, number 5, in its log.\<close>

definition committed_disk :: "nat \<Rightarrow> block" where
  "committed_disk = (\<lambda>_ _. 0)(2 := put32 (put32 (\<lambda>_. 0) 0 1) 4 5, 3 := (\<lambda>_. 1))"

theorem log_recovery_restartable_witness:
  "\<exists>t. initlog 2 3 (boot committed_disk) = Inr t \<and>
    (\<forall>k \<le> length (writes t). \<exists>u. initlog 2 3 (boot (upds (take k (writes t)) committed_disk)) = Inr u \<and>
      (\<forall>b. b < 2 \<or> 2 + 3 \<le> b \<longrightarrow> disk u b = disk t b))"
proof (rule log_recovery_restartable)
  show "header (committed_disk 2) [5]" by (simp add: header_def committed_disk_def)
  show "txn_blocks 2 3 [5]" by (simp add: txn_blocks_def LOGSIZE_def MAXOPBLOCKS_def)
qed

section \<open>Recording a block\<close>

lemma find_block_spec:
  "i + k \<le> length bs \<Longrightarrow> find_block bs b i k \<le> i + k \<and> i \<le> find_block bs b i k \<and>
     (find_block bs b i k < i + k \<longrightarrow> bs ! find_block bs b i k = b) \<and>
     (find_block bs b i k = i + k \<longrightarrow> (\<forall>j. i \<le> j \<longrightarrow> j < i + k \<longrightarrow> bs ! j \<noteq> b))"
proof (induction k arbitrary: i)
  case (Suc k)
  show ?case
  proof (cases "bs ! i = b")
    case False
    define f where "f = find_block bs b (i + 1) k"
    have f: "f \<le> i + Suc k" "i + 1 \<le> f" "f < i + Suc k \<longrightarrow> bs ! f = b"
      "f = i + Suc k \<longrightarrow> (\<forall>j. i + 1 \<le> j \<longrightarrow> j < i + Suc k \<longrightarrow> bs ! j \<noteq> b)"
      using Suc.IH [of "i + 1"] Suc.prems by (auto simp: f_def)
    have "bs ! j \<noteq> b" if "f = i + Suc k" "i \<le> j" "j < i + Suc k" for j
      using f(4) that False by (cases "j = i") auto
    moreover have "find_block bs b i (Suc k) = f" using False by (simp add: f_def)
    ultimately show ?thesis using f(1,2,3) by auto
  qed simp
qed simp

text \<open>Inside a transaction \<open>log_write\<close> adds the block to those to be committed, once: a block
  that is already there is absorbed. The transaction stays ready to be committed, or the call
  panics because the log is full.\<close>

theorem log_write_records:
  assumes "log_ready s bs" and "1 \<le> outstanding s" and "home s b" and "b < 2 ^ 32"
  shows "log_write s b =
     (if length bs \<ge> LOGSIZE \<or> length bs + 1 \<ge> lsize s then Inl (Panic ''too big a transaction'')
      else Inr (s \<lparr> lh_n := int (length (if b \<in> set bs then bs else bs @ [b])),
        lh_block := (if b \<in> set bs then lh_block s else (lh_block s)[length bs := b]), dirty := insert b (dirty s) \<rparr>)) \<and>
    (\<forall>t. log_write s b = Inr t \<longrightarrow> log_ready t (if b \<in> set bs then bs else bs @ [b]))"
proof -
  let ?n = "length bs"
  from assms(1) have r: "lh_n s = int ?n" "take ?n (lh_block s) = bs" "length (lh_block s) = LOGSIZE"
    "txn_blocks (start s) (lsize s) bs" "header (disk s (start s)) []" by (auto simp: log_ready_def)
  have nth: "lh_block s ! i = bs ! i" if "i < ?n" for i using r(2) that by (metis nth_take)
  define i where "i = find_block (lh_block s) b 0 ?n"
  show ?thesis
  proof (cases "?n \<ge> LOGSIZE \<or> ?n + 1 \<ge> lsize s")
    case True
    then have "log_write s b = Inl (Panic ''too big a transaction'')" using r(1) by (auto simp: log_write_def)
    with True show ?thesis by simp
  next
    case False
    have i: "i \<le> ?n" "i < ?n \<longrightarrow> lh_block s ! i = b" "i = ?n \<longrightarrow> (\<forall>j < ?n. lh_block s ! j \<noteq> b)"
      using find_block_spec [of 0 ?n "lh_block s" b] False r(3) by (auto simp: i_def)
    have mem: "b \<in> set bs \<longleftrightarrow> i < ?n" using i nth by (auto simp: in_set_conv_nth)
    have upd: "(lh_block s)[i := b] = (if b \<in> set bs then lh_block s else (lh_block s)[?n := b])"
      using mem i by (auto simp: list_update_same_conv r(3) False)
    let ?bs = "if b \<in> set bs then bs else bs @ [b]"
    let ?lb = "if b \<in> set bs then lh_block s else (lh_block s)[?n := b]"
    let ?t = "s \<lparr> lh_n := int (length ?bs), lh_block := ?lb, dirty := insert b (dirty s) \<rparr>"
    have w: "log_write s b = Inr ?t"
      using False r(1,3) assms(2) i(1) mem upd by (auto simp: log_write_def Let_def i_def [symmetric])
    have "take (length ?bs) ?lb = ?bs" using False r(2,3) by (auto simp: take_Suc_conv_app_nth)
    moreover have "txn_blocks (start s) (lsize s) ?bs"
      using False r(4) assms(3,4) by (auto simp: txn_blocks_def home_def)
    ultimately have "log_ready ?t ?bs" using r(3,5) by (simp add: log_ready_def)
    then show ?thesis using w False by simp
  qed
qed

theorem log_write_records_witness:
  "\<exists>t. log_write (sample_log \<lparr> lh_n := 0, outstanding := 1, committing := False \<rparr>) 5 = Inr t \<and> log_ready t [5]"
proof -
  let ?s = "sample_log \<lparr> lh_n := 0, outstanding := 1, committing := False \<rparr>"
  have "log_ready ?s []" by (simp add: log_ready_def sample_log_def txn_blocks_def LOGSIZE_def header_def get32_def)
  moreover have "1 \<le> outstanding ?s" "home ?s 5" by (simp_all add: home_def sample_log_def)
  ultimately show ?thesis
    using log_write_records [of ?s "[]" 5] by (simp add: LOGSIZE_def) (simp add: sample_log_def)
qed

end
