(* ===== verification/XvFs.thy ===== *)
theory XvFs
  imports XvLog
begin

text \<open>
  The file system layer of xv6, \<open>xv6/fs.c\<close>, over the log: block allocation, the inode cache,
  file contents through direct and indirect blocks, directories and path names. One call runs at a
  time; waiting for a sleep lock that is held is not returning, \<open>Out_Of_Fuel\<close>. User memory is a
  list of bytes, and the device table is an argument.
\<close>

section \<open>Layout\<close>

definition BSIZE :: nat where "BSIZE = 512"
definition ROOTDEV :: nat where "ROOTDEV = 1"
definition ROOTINO :: nat where "ROOTINO = 1"
definition NDIRECT :: nat where "NDIRECT = 12"
definition NINDIRECT :: nat where "NINDIRECT = 128"
definition MAXFILE :: nat where "MAXFILE = NDIRECT + NINDIRECT"
definition IPB :: nat where "IPB = 8"
definition BPB :: nat where "BPB = 4096"
definition DIRSIZ :: nat where "DIRSIZ = 14"
definition NINODE :: nat where "NINODE = 50"
definition NDEV :: nat where "NDEV = 10"

definition T_DIR :: "16 word" where "T_DIR = 1"
definition T_FILE :: "16 word" where "T_FILE = 2"
definition T_DEV :: "16 word" where "T_DEV = 3"

text \<open>Short integers in a block.\<close>

definition get16 :: "block \<Rightarrow> nat \<Rightarrow> 16 word" where
  "get16 b a = ucast (b a) OR push_bit 8 (ucast (b (a + 1)))"

definition put16s :: "block \<Rightarrow> nat \<Rightarrow> 16 word \<Rightarrow> block" where
  "put16s b a w = b(a := ucast w, a + 1 := ucast (drop_bit 8 w))"

record superblock =
  sb_size :: nat
  sb_nblocks :: nat
  sb_ninodes :: nat
  sb_nlog :: nat
  sb_logstart :: nat
  sb_inodestart :: nat
  sb_bmapstart :: nat

record inode =
  ip_dev :: nat
  ip_inum :: nat
  ip_ref :: int
  ip_lock :: bool
  ip_valid :: bool
  ip_type :: "16 word"
  ip_major :: "16 word"
  ip_minor :: "16 word"
  ip_nlink :: "16 word"
  ip_sz :: nat
  ip_addrs :: "nat list"

record fsys =
  lg :: lsys
  sb :: superblock
  icache :: "inode list"

text \<open>The device switch: what \<open>read\<close> and \<open>write\<close> of a device number deliver, if it has them.\<close>

record devsw =
  dev_read :: "nat \<Rightarrow> (nat \<Rightarrow> int \<times> u8 list) option"
  dev_write :: "nat \<Rightarrow> (u8 list \<Rightarrow> int) option"

definition IBLOCK :: "nat \<Rightarrow> superblock \<Rightarrow> nat" where
  "IBLOCK i s = i div IPB + sb_inodestart s"

definition BBLOCK :: "nat \<Rightarrow> superblock \<Rightarrow> nat" where
  "BBLOCK b s = b div BPB + sb_bmapstart s"

section \<open>Blocks\<close>

text \<open>Reading a block, and modifying one under the log.\<close>

definition fs_bread :: "fsys \<Rightarrow> nat \<Rightarrow> block \<times> fsys" where
  "fs_bread s b = (let (d, l) = bread (lg s) b in (d, s \<lparr> lg := l \<rparr>))"

definition fs_log_write :: "fsys \<Rightarrow> nat \<Rightarrow> block \<Rightarrow> fsys res" where
  "fs_log_write s b d = bindR (log_write (bset (lg s) b d) b) (\<lambda>l. Inr (s \<lparr> lg := l \<rparr>))"

definition readsb :: "fsys \<Rightarrow> fsys" where
  "readsb s =
     (let (d, s) = fs_bread s 1; w = (\<lambda>i. unat (get32 d (4 * i))) in
      s \<lparr> sb := \<lparr> sb_size = w 0, sb_nblocks = w 1, sb_ninodes = w 2, sb_nlog = w 3, sb_logstart = w 4,
        sb_inodestart = w 5, sb_bmapstart = w 6 \<rparr> \<rparr>)"

definition bzero :: "fsys \<Rightarrow> nat \<Rightarrow> fsys res" where
  "bzero s bno = (let (d, s) = fs_bread s bno in fs_log_write s bno (memset d 0 0 BSIZE))"

text \<open>The bit of a block in a block of the free map.\<close>

definition map_bit :: "block \<Rightarrow> nat \<Rightarrow> bool" where
  "map_bit d bi \<longleftrightarrow> d (bi div 8) AND push_bit (bi mod 8) 1 \<noteq> 0"

fun balloc_scan :: "block \<Rightarrow> nat \<Rightarrow> nat \<Rightarrow> nat option" where
  "balloc_scan d bi 0 = None"
| "balloc_scan d bi (Suc k) = (if \<not> map_bit d bi then Some bi else balloc_scan d (bi + 1) k)"

function (sequential) balloc_loop :: "nat \<Rightarrow> fsys \<Rightarrow> (nat \<times> fsys) res" where
  "balloc_loop b s =
     (if b < sb_size (sb s) then
        let bb = BBLOCK b (sb s);
            (d, s') = fs_bread s bb
        in case balloc_scan d 0 (min BPB (sb_size (sb s) - b)) of
             Some bi \<Rightarrow>
               bindR (fs_log_write s' bb (d(bi div 8 := d (bi div 8) OR push_bit (bi mod 8) 1))) (\<lambda>s.
               bindR (bzero s (b + bi)) (\<lambda>s. Inr (b + bi, s)))
           | None \<Rightarrow> balloc_loop (b + BPB) s'
      else Inl (Panic ''balloc: out of blocks''))"
  by pat_completeness auto

lemma fs_bread_sb [simp]: "sb (snd (fs_bread s b)) = sb s"
  by (simp add: fs_bread_def split: prod.split)

termination balloc_loop
proof (relation "measure (\<lambda>(b, s). sb_size (sb s) - b)", goal_cases)
  case (2 b s bb p d s')
  then have "sb s' = sb s" by (metis fs_bread_sb snd_conv)
  with 2 show ?case by (simp add: BPB_def)
qed simp

definition balloc :: "fsys \<Rightarrow> (nat \<times> fsys) res" where
  "balloc s = balloc_loop 0 s"

definition bfree :: "fsys \<Rightarrow> nat \<Rightarrow> fsys res" where
  "bfree s b =
     (let bb = BBLOCK b (sb s);
          (d, s) = fs_bread s bb;
          bi = b mod BPB
      in if \<not> map_bit d bi then Inl (Panic ''freeing free block'')
         else fs_log_write s bb (d(bi div 8 := d (bi div 8) AND NOT (push_bit (bi mod 8) 1))))"

section \<open>Inodes\<close>

text \<open>The disk inode: type, major, minor and link count as shorts, the size, and the addresses.\<close>

definition dinode_off :: "nat \<Rightarrow> nat" where
  "dinode_off inum = 64 * (inum mod IPB)"

fun put_addrs :: "block \<Rightarrow> nat \<Rightarrow> nat list \<Rightarrow> block" where
  "put_addrs d a [] = d"
| "put_addrs d a (x # xs) = put_addrs (put32 d a (of_nat x)) (a + 4) xs"

definition put_dinode :: "block \<Rightarrow> inode \<Rightarrow> block" where
  "put_dinode d ip =
     (let o' = dinode_off (ip_inum ip);
          d = put16s d o' (ip_type ip);
          d = put16s d (o' + 2) (ip_major ip);
          d = put16s d (o' + 4) (ip_minor ip);
          d = put16s d (o' + 6) (ip_nlink ip);
          d = put32 d (o' + 8) (of_nat (ip_sz ip))
      in put_addrs d (o' + 12) (ip_addrs ip))"

definition get_dinode :: "block \<Rightarrow> inode \<Rightarrow> inode" where
  "get_dinode d ip =
     (let o' = dinode_off (ip_inum ip) in
      ip \<lparr> ip_type := get16 d o', ip_major := get16 d (o' + 2), ip_minor := get16 d (o' + 4),
        ip_nlink := get16 d (o' + 6), ip_sz := unat (get32 d (o' + 8)),
        ip_addrs := map (\<lambda>i. unat (get32 d (o' + 12 + 4 * i))) [0..<NDIRECT + 1] \<rparr>)"

definition set_ip :: "fsys \<Rightarrow> nat \<Rightarrow> inode \<Rightarrow> fsys" where
  "set_ip s i ip = s \<lparr> icache := (icache s)[i := ip] \<rparr>"

abbreviation get_ip :: "fsys \<Rightarrow> nat \<Rightarrow> inode" where
  "get_ip s i \<equiv> icache s ! i"

definition iupdate :: "fsys \<Rightarrow> nat \<Rightarrow> fsys res" where
  "iupdate s i =
     (let ip = get_ip s i;
          bb = IBLOCK (ip_inum ip) (sb s);
          (d, s) = fs_bread s bb
      in fs_log_write s bb (put_dinode d ip))"

text \<open>The cache entry of an inode: a referenced entry for it, else the first unreferenced one.\<close>

fun find_inode :: "inode list \<Rightarrow> nat \<Rightarrow> nat \<Rightarrow> nat \<Rightarrow> nat option" where
  "find_inode [] dev inum i = None"
| "find_inode (ip # ips) dev inum i =
     (if ip_ref ip > 0 \<and> ip_dev ip = dev \<and> ip_inum ip = inum then Some i
      else find_inode ips dev inum (i + 1))"

fun find_empty :: "inode list \<Rightarrow> nat \<Rightarrow> nat option" where
  "find_empty [] i = None"
| "find_empty (ip # ips) i = (if ip_ref ip = 0 then Some i else find_empty ips (i + 1))"

definition iget :: "fsys \<Rightarrow> nat \<Rightarrow> nat \<Rightarrow> (nat \<times> fsys) res" where
  "iget s dev inum =
     (case find_inode (icache s) dev inum 0 of
        Some i \<Rightarrow> Inr (i, set_ip s i (get_ip s i \<lparr> ip_ref := ip_ref (get_ip s i) + 1 \<rparr>))
      | None \<Rightarrow>
          (case find_empty (icache s) 0 of
             None \<Rightarrow> Inl (Panic ''iget: no inodes'')
           | Some i \<Rightarrow> Inr (i, set_ip s i (get_ip s i \<lparr> ip_dev := dev, ip_inum := inum, ip_ref := 1, ip_valid := False \<rparr>))))"

definition idup :: "fsys \<Rightarrow> nat \<Rightarrow> fsys" where
  "idup s i = set_ip s i (get_ip s i \<lparr> ip_ref := ip_ref (get_ip s i) + 1 \<rparr>)"

fun ialloc_loop :: "nat \<Rightarrow> nat \<Rightarrow> nat \<Rightarrow> 16 word \<Rightarrow> fsys \<Rightarrow> (nat \<times> fsys) res" where
  "ialloc_loop inum 0 dev ty s = Inl (Panic ''ialloc: no inodes'')"
| "ialloc_loop inum (Suc k) dev ty s =
     (let bb = IBLOCK inum (sb s);
          (d, s) = fs_bread s bb;
          o' = dinode_off inum
      in if get16 d o' = 0 then
           bindR (fs_log_write s bb (put16s (memset d o' 0 64) o' ty)) (\<lambda>s. iget s dev inum)
         else ialloc_loop (inum + 1) k dev ty s)"

definition ialloc :: "fsys \<Rightarrow> nat \<Rightarrow> 16 word \<Rightarrow> (nat \<times> fsys) res" where
  "ialloc s dev ty = ialloc_loop 1 (sb_ninodes (sb s) - 1) dev ty s"

definition ilock :: "fsys \<Rightarrow> nat \<Rightarrow> fsys res" where
  "ilock s i =
     (if ip_ref (get_ip s i) < 1 then Inl (Panic ''ilock'')
      else if ip_lock (get_ip s i) then Inl Out_Of_Fuel
      else
        let s = set_ip s i (get_ip s i \<lparr> ip_lock := True \<rparr>) in
        if \<not> ip_valid (get_ip s i) then
          let (d, s) = fs_bread s (IBLOCK (ip_inum (get_ip s i)) (sb s));
              ip = get_dinode d (get_ip s i) \<lparr> ip_valid := True \<rparr>;
              s = set_ip s i ip
          in if ip_type ip = 0 then Inl (Panic ''ilock: no type'') else Inr s
        else Inr s)"

definition iunlock :: "fsys \<Rightarrow> nat \<Rightarrow> fsys res" where
  "iunlock s i =
     (if \<not> ip_lock (get_ip s i) \<or> ip_ref (get_ip s i) < 1 then Inl (Panic ''iunlock'')
      else Inr (set_ip s i (get_ip s i \<lparr> ip_lock := False \<rparr>)))"

section \<open>Contents\<close>

definition bmap :: "fsys \<Rightarrow> nat \<Rightarrow> nat \<Rightarrow> (nat \<times> fsys) res" where
  "bmap s i bn =
     (if bn < NDIRECT then
        let addr = ip_addrs (get_ip s i) ! bn in
        if addr = 0 then
          bindR (balloc s) (\<lambda>(addr, s).
          Inr (addr, set_ip s i (get_ip s i \<lparr> ip_addrs := (ip_addrs (get_ip s i))[bn := addr] \<rparr>)))
        else Inr (addr, s)
      else
        let bn = bn - NDIRECT in
        if bn < NINDIRECT then
          bindR (let addr = ip_addrs (get_ip s i) ! NDIRECT in
                 if addr = 0 then
                   bindR (balloc s) (\<lambda>(addr, s).
                   Inr (addr, set_ip s i (get_ip s i \<lparr> ip_addrs := (ip_addrs (get_ip s i))[NDIRECT := addr] \<rparr>)))
                 else Inr (addr, s)) (\<lambda>(ind, s).
          let (a, s) = fs_bread s ind;
              addr = unat (get32 a (4 * bn))
          in if addr = 0 then
               bindR (balloc s) (\<lambda>(addr, s).
               let (a, s) = fs_bread s ind in
               bindR (fs_log_write s ind (put32 a (4 * bn) (of_nat addr))) (\<lambda>s. Inr (addr, s)))
             else Inr (addr, s))
        else Inl (Panic ''bmap: out of range''))"

fun free_direct :: "nat \<Rightarrow> nat \<Rightarrow> nat \<Rightarrow> fsys \<Rightarrow> fsys res" where
  "free_direct i n 0 s = Inr s"
| "free_direct i n (Suc k) s =
     (let addr = ip_addrs (get_ip s i) ! n in
      if addr \<noteq> 0 then
        bindR (bfree s addr) (\<lambda>s.
        free_direct i (n + 1) k (set_ip s i (get_ip s i \<lparr> ip_addrs := (ip_addrs (get_ip s i))[n := 0] \<rparr>)))
      else free_direct i (n + 1) k s)"

fun free_indirect :: "block \<Rightarrow> nat \<Rightarrow> nat \<Rightarrow> fsys \<Rightarrow> fsys res" where
  "free_indirect a j 0 s = Inr s"
| "free_indirect a j (Suc k) s =
     (let addr = unat (get32 a (4 * j)) in
      bindR (if addr \<noteq> 0 then bfree s addr else Inr s) (\<lambda>s. free_indirect a (j + 1) k s))"

definition itrunc :: "fsys \<Rightarrow> nat \<Rightarrow> fsys res" where
  "itrunc s i =
     bindR (free_direct i 0 NDIRECT s) (\<lambda>s.
     let ind = ip_addrs (get_ip s i) ! NDIRECT in
     bindR (if ind \<noteq> 0 then
              let (a, s) = fs_bread s ind in
              bindR (free_indirect a 0 NINDIRECT s) (\<lambda>s.
              bindR (bfree s ind) (\<lambda>s.
              Inr (set_ip s i (get_ip s i \<lparr> ip_addrs := (ip_addrs (get_ip s i))[NDIRECT := 0] \<rparr>))))
            else Inr s) (\<lambda>s.
     iupdate (set_ip s i (get_ip s i \<lparr> ip_sz := 0 \<rparr>)) i))"

definition iput :: "fsys \<Rightarrow> nat \<Rightarrow> fsys res" where
  "iput s i =
     (if ip_lock (get_ip s i) then Inl Out_Of_Fuel
      else
        bindR (if ip_valid (get_ip s i) \<and> ip_nlink (get_ip s i) = 0 \<and> ip_ref (get_ip s i) = 1 then
                 bindR (itrunc s i) (\<lambda>s.
                 bindR (iupdate (set_ip s i (get_ip s i \<lparr> ip_type := 0 \<rparr>)) i) (\<lambda>s.
                 Inr (set_ip s i (get_ip s i \<lparr> ip_valid := False \<rparr>))))
               else Inr s) (\<lambda>s.
        Inr (set_ip s i (get_ip s i \<lparr> ip_ref := ip_ref (get_ip s i) - 1 \<rparr>))))"

definition iunlockput :: "fsys \<Rightarrow> nat \<Rightarrow> fsys res" where
  "iunlockput s i = bindR (iunlock s i) (\<lambda>s. iput s i)"

record stat =
  st_dev :: nat
  st_ino :: nat
  st_type :: "16 word"
  st_nlink :: "16 word"
  st_size :: nat

definition stati :: "inode \<Rightarrow> stat" where
  "stati ip = \<lparr> st_dev = ip_dev ip, st_ino = ip_inum ip, st_type = ip_type ip, st_nlink = ip_nlink ip, st_size = ip_sz ip \<rparr>"

text \<open>The return value of a function of type \<open>int\<close> that returns an unsigned number.\<close>

definition to_int :: "nat \<Rightarrow> int" where
  "to_int n = sint (of_nat n :: u32)"

function (sequential) readi_loop :: "nat \<Rightarrow> nat \<Rightarrow> nat \<Rightarrow> nat \<Rightarrow> u8 list \<Rightarrow> fsys \<Rightarrow> (u8 list \<times> fsys) res" where
  "readi_loop i tot n off dst s =
     (if tot < n then
        bindR (bmap s i (off div BSIZE)) (\<lambda>(b, s).
        let (d, s) = fs_bread s b;
            m = min (n - tot) (BSIZE - off mod BSIZE)
        in readi_loop i (tot + m) n (off + m) (dst @ map d [off mod BSIZE..<off mod BSIZE + m]) s)
      else Inr (dst, s))"
  by pat_completeness auto

lemma readi_progress: "tot < n \<Longrightarrow> n - (tot + min (n - tot) (BSIZE - off mod BSIZE)) < n - tot"
proof -
  assume "tot < n"
  moreover have "off mod BSIZE < BSIZE" by (simp add: BSIZE_def)
  ultimately show ?thesis by simp
qed

termination readi_loop
  by (relation "measure (\<lambda>(i, tot, n, off, dst, s). n - tot)") (auto intro: readi_progress)

declare readi_loop.simps [simp del]

definition readi :: "devsw \<Rightarrow> fsys \<Rightarrow> nat \<Rightarrow> nat \<Rightarrow> nat \<Rightarrow> (int \<times> u8 list \<times> fsys) res" where
  "readi dv s i off n =
     (let ip = get_ip s i in
      if ip_type ip = T_DEV then
        if sint (ip_major ip) < 0 \<or> sint (ip_major ip) \<ge> int NDEV then Inr (-1, [], s)
        else (case dev_read dv (unat (ip_major ip)) of
                None \<Rightarrow> Inr (-1, [], s)
              | Some f \<Rightarrow> let (r, bytes) = f n in Inr (r, bytes, s))
      else if off > ip_sz ip \<or> (off + n) mod 2 ^ 32 < off then Inr (-1, [], s)
      else
        let n = (if off + n > ip_sz ip then ip_sz ip - off else n) in
        bindR (readi_loop i 0 n off [] s) (\<lambda>(dst, s). Inr (to_int n, dst, s)))"

function (sequential) writei_loop :: "nat \<Rightarrow> nat \<Rightarrow> u8 list \<Rightarrow> nat \<Rightarrow> fsys \<Rightarrow> (nat \<times> fsys) res" where
  "writei_loop i tot src off s =
     (if tot < length src then
        bindR (bmap s i (off div BSIZE)) (\<lambda>(b, s).
        let (d, s) = fs_bread s b;
            m = min (length src - tot) (BSIZE - off mod BSIZE)
        in bindR (fs_log_write s b (\<lambda>k. if off mod BSIZE \<le> k \<and> k < off mod BSIZE + m
                    then src ! (tot + (k - off mod BSIZE)) else d k)) (\<lambda>s.
           writei_loop i (tot + m) src (off + m) s))
      else Inr (off, s))"
  by pat_completeness auto

termination writei_loop
  by (relation "measure (\<lambda>(i, tot, src, off, s). length src - tot)") (auto intro: readi_progress)

declare writei_loop.simps [simp del]

definition writei :: "devsw \<Rightarrow> fsys \<Rightarrow> nat \<Rightarrow> u8 list \<Rightarrow> nat \<Rightarrow> (int \<times> fsys) res" where
  "writei dv s i src off =
     (let ip = get_ip s i; n = length src in
      if ip_type ip = T_DEV then
        if sint (ip_major ip) < 0 \<or> sint (ip_major ip) \<ge> int NDEV then Inr (-1, s)
        else (case dev_write dv (unat (ip_major ip)) of
                None \<Rightarrow> Inr (-1, s)
              | Some f \<Rightarrow> Inr (f src, s))
      else if off > ip_sz ip \<or> (off + n) mod 2 ^ 32 < off then Inr (-1, s)
      else if off + n > MAXFILE * BSIZE then Inr (-1, s)
      else
        bindR (writei_loop i 0 src off s) (\<lambda>(off, s).
        bindR (if n > 0 \<and> off > ip_sz (get_ip s i)
               then iupdate (set_ip s i (get_ip s i \<lparr> ip_sz := off \<rparr>)) i else Inr s) (\<lambda>s.
        Inr (to_int n, s))))"

section \<open>Directories\<close>

text \<open>
  A name is at most \<open>DIRSIZ\<close> bytes; it is compared up to its terminator, so it stands for its
  first \<open>DIRSIZ\<close> bytes before a zero.
\<close>

definition cname :: "u8 list \<Rightarrow> u8 list" where
  "cname bs = takeWhile (\<lambda>c. c \<noteq> 0) (take DIRSIZ bs)"

definition namecmp :: "u8 list \<Rightarrow> u8 list \<Rightarrow> bool" where
  "namecmp s t \<longleftrightarrow> cname s = cname t"

definition de_inum :: "u8 list \<Rightarrow> nat" where
  "de_inum de = unat (de ! 0) + 256 * unat (de ! 1)"

definition de_name :: "u8 list \<Rightarrow> u8 list" where
  "de_name de = drop 2 de"

definition mk_dirent :: "u8 list \<Rightarrow> nat \<Rightarrow> u8 list" where
  "mk_dirent name inum =
     [of_nat inum, of_nat (inum div 256)] @ cname name @ replicate (DIRSIZ - length (cname name)) 0"

function (sequential) dirlookup_loop ::
  "devsw \<Rightarrow> nat \<Rightarrow> u8 list \<Rightarrow> nat \<Rightarrow> nat \<Rightarrow> fsys \<Rightarrow> ((nat \<times> nat) option \<times> fsys) res" where
  "dirlookup_loop dv dp name sz off s =
     (if off < sz then
        bindR (readi dv s dp off 16) (\<lambda>(r, de, s).
        if r \<noteq> 16 then Inl (Panic ''dirlookup read'')
        else if de_inum de \<noteq> 0 \<and> namecmp name (de_name de) then
          bindR (iget s (ip_dev (get_ip s dp)) (de_inum de)) (\<lambda>(ip, s). Inr (Some (ip, off), s))
        else dirlookup_loop dv dp name sz (off + 16) s)
      else Inr (None, s))"
  by pat_completeness auto

termination dirlookup_loop
  by (relation "measure (\<lambda>(dv, dp, name, sz, off, s). sz - off)") auto

declare dirlookup_loop.simps [simp del]

definition dirlookup :: "devsw \<Rightarrow> fsys \<Rightarrow> nat \<Rightarrow> u8 list \<Rightarrow> ((nat \<times> nat) option \<times> fsys) res" where
  "dirlookup dv s dp name =
     (if ip_type (get_ip s dp) \<noteq> T_DIR then Inl (Panic ''dirlookup not DIR'')
      else dirlookup_loop dv dp name (ip_sz (get_ip s dp)) 0 s)"

function (sequential) dirlink_loop :: "devsw \<Rightarrow> nat \<Rightarrow> nat \<Rightarrow> nat \<Rightarrow> fsys \<Rightarrow> (nat \<times> fsys) res" where
  "dirlink_loop dv dp sz off s =
     (if off < sz then
        bindR (readi dv s dp off 16) (\<lambda>(r, de, s).
        if r \<noteq> 16 then Inl (Panic ''dirlink read'')
        else if de_inum de = 0 then Inr (off, s)
        else dirlink_loop dv dp sz (off + 16) s)
      else Inr (off, s))"
  by pat_completeness auto

termination dirlink_loop
  by (relation "measure (\<lambda>(dv, dp, sz, off, s). sz - off)") auto

declare dirlink_loop.simps [simp del]

definition dirlink :: "devsw \<Rightarrow> fsys \<Rightarrow> nat \<Rightarrow> u8 list \<Rightarrow> nat \<Rightarrow> (int \<times> fsys) res" where
  "dirlink dv s dp name inum =
     bindR (dirlookup dv s dp name) (\<lambda>(found, s).
     case found of
       Some (ip, _) \<Rightarrow> bindR (iput s ip) (\<lambda>s. Inr (-1, s))
     | None \<Rightarrow>
         bindR (dirlink_loop dv dp (ip_sz (get_ip s dp)) 0 s) (\<lambda>(off, s).
         bindR (writei dv s dp (mk_dirent name inum) off) (\<lambda>(r, s).
         if r \<noteq> 16 then Inl (Panic ''dirlink'') else Inr (0, s))))"

section \<open>Paths\<close>

text \<open>\<open>skipelem\<close>: the rest of the path and the name, or nothing; \<open>47\<close> is the slash.\<close>

definition skipelem :: "u8 list \<Rightarrow> (u8 list \<times> u8 list) option" where
  "skipelem path =
     (let path = dropWhile (\<lambda>c. c = 47) path in
      if path = [] then None
      else
        let s = takeWhile (\<lambda>c. c \<noteq> 47) path;
            path = dropWhile (\<lambda>c. c \<noteq> 47) path
        in Some (dropWhile (\<lambda>c. c = 47) path, take DIRSIZ s))"

lemma skipelem_shorter: "skipelem path = Some (rest, name) \<Longrightarrow> length rest < length path"
proof -
  assume s: "skipelem path = Some (rest, name)"
  define p where "p = dropWhile (\<lambda>c. c = 47) path"
  from s have p: "p \<noteq> []" and r: "rest = dropWhile (\<lambda>c. c = 47) (dropWhile (\<lambda>c. c \<noteq> 47) p)"
    by (auto simp: skipelem_def p_def Let_def split: if_splits)
  then obtain c cs where c: "p = c # cs" by (cases p) auto
  then have "c \<noteq> 47" unfolding p_def by (metis (mono_tags) dropWhile_eq_Cons_conv)
  with r c have "rest = dropWhile (\<lambda>c. c = 47) (dropWhile (\<lambda>c. c \<noteq> 47) cs)" by simp
  then have "length rest \<le> length cs" by (metis length_dropWhile_le order_trans)
  moreover have "length p \<le> length path" unfolding p_def by (rule length_dropWhile_le)
  ultimately show ?thesis using c by simp
qed

text \<open>The walk; the result is the inode, if any, with the last name taken.\<close>

function (sequential) namex_loop ::
  "devsw \<Rightarrow> bool \<Rightarrow> u8 list \<Rightarrow> u8 list \<Rightarrow> nat \<Rightarrow> fsys \<Rightarrow> ((nat \<times> u8 list) option \<times> fsys) res" where
  "namex_loop dv par path name ip s =
     (case skipelem path of
        None \<Rightarrow> if par then bindR (iput s ip) (\<lambda>s. Inr (None, s)) else Inr (Some (ip, name), s)
      | Some (path, name) \<Rightarrow>
          bindR (ilock s ip) (\<lambda>s.
          if ip_type (get_ip s ip) \<noteq> T_DIR then bindR (iunlockput s ip) (\<lambda>s. Inr (None, s))
          else if par \<and> path = [] then bindR (iunlock s ip) (\<lambda>s. Inr (Some (ip, name), s))
          else
            bindR (dirlookup dv s ip name) (\<lambda>(found, s).
            case found of
              None \<Rightarrow> bindR (iunlockput s ip) (\<lambda>s. Inr (None, s))
            | Some (nxt, _) \<Rightarrow> bindR (iunlockput s ip) (\<lambda>s. namex_loop dv par path name nxt s))))"
  by pat_completeness auto

termination namex_loop
  by (relation "measure (\<lambda>(dv, par, path, name, ip, s). length path)") (auto dest: skipelem_shorter)

declare namex_loop.simps [simp del]

definition namex :: "devsw \<Rightarrow> nat \<Rightarrow> bool \<Rightarrow> u8 list \<Rightarrow> fsys \<Rightarrow> ((nat \<times> u8 list) option \<times> fsys) res" where
  "namex dv cwd par path s =
     bindR (case path of c # _ \<Rightarrow> if c = 47 then iget s ROOTDEV ROOTINO else Inr (cwd, idup s cwd)
            | [] \<Rightarrow> Inr (cwd, idup s cwd)) (\<lambda>(ip, s).
     namex_loop dv par path [] ip s)"

definition namei :: "devsw \<Rightarrow> nat \<Rightarrow> u8 list \<Rightarrow> fsys \<Rightarrow> (nat option \<times> fsys) res" where
  "namei dv cwd path s = bindR (namex dv cwd False path s) (\<lambda>(r, s). Inr (map_option fst r, s))"

definition nameiparent :: "devsw \<Rightarrow> nat \<Rightarrow> u8 list \<Rightarrow> fsys \<Rightarrow> ((nat \<times> u8 list) option \<times> fsys) res" where
  "nameiparent dv cwd path s = namex dv cwd True path s"

end
