(* ===== verification/XvInode.thy ===== *)
theory XvInode
  imports XvFs
begin

text \<open>
  What the block and inode operations of \<open>xv6/fs.c\<close> promise: a file is the array of bytes its direct
  and indirect blocks hold, allocation takes a free block and touches nothing that is in use, and
  \<open>readi\<close> and \<open>writei\<close> are reads and writes of that array.
\<close>

section \<open>Steps under the log\<close>

definition fview :: "fsys \<Rightarrow> nat \<Rightarrow> block" where
  "fview s = view (lg s)"

text \<open>A transaction is open and the log takes \<open>k\<close> more blocks.\<close>

definition room :: "nat \<Rightarrow> fsys \<Rightarrow> bool" where
  "room k s \<longleftrightarrow> 0 \<le> lh_n (lg s) \<and> lh_n (lg s) + int k \<le> int LOGSIZE \<and> lh_n (lg s) + int k \<le> int (lsize (lg s)) - 1 \<and>
     outstanding (lg s) \<ge> 1 \<and> length (lh_block (lg s)) = LOGSIZE"

text \<open>A step that leaves the blocks \<open>V\<close> and logs at most \<open>k\<close> of them.\<close>

definition fsteps :: "nat \<Rightarrow> (nat \<Rightarrow> block) \<Rightarrow> fsys \<Rightarrow> fsys \<Rightarrow> bool" where
  "fsteps k V s t \<longleftrightarrow> fview t = V \<and> sb t = sb s \<and> icache t = icache s \<and> (\<forall>j. room (j + k) s \<longrightarrow> room j t)"

lemma stepsD:
  assumes "fsteps k V s t"
  shows "fview t = V" "sb t = sb s" "icache t = icache s" "room (j + k) s \<Longrightarrow> room j t"
  using assms by (auto simp: fsteps_def)

lemma steps_trans: "fsteps k V s t \<Longrightarrow> fsteps l W t u \<Longrightarrow> fsteps (k + l) W s u"
  by (simp add: fsteps_def) (metis add.commute add.left_commute)

lemma steps_bread: "fsteps 0 V s t \<Longrightarrow> fsteps k W t u \<Longrightarrow> fsteps k W s u"
  using steps_trans [of 0 V s t k W u] by simp

lemma room_mono: "room k s \<Longrightarrow> j \<le> k \<Longrightarrow> room j s"
  by (auto simp: room_def)

lemma fs_bread_steps: "\<exists>t. fs_bread s b = (fview s b, t) \<and> fsteps 0 (fview s) s t"
proof -
  have "outstanding (snd (bread (lg s) b)) = outstanding (lg s)"
    by (simp add: bread_def split: option.split)
  moreover have "fs_bread s b = (fview s b, s \<lparr> lg := snd (bread (lg s) b) \<rparr>)"
    by (simp add: fs_bread_def fview_def split_beta)
  ultimately show ?thesis
    by (intro exI conjI) (auto simp: fsteps_def fview_def room_def bread_state)
qed

lemma find_block_le: "find_block bs b i k \<le> i + k"
proof (induction k arbitrary: i)
  case (Suc k)
  show ?case using Suc.IH [of "Suc i"] by simp
qed simp

lemma fs_log_write_steps:
  assumes "room (Suc j) s"
  shows "\<exists>t. fs_log_write s b d = Inr t \<and> fsteps 1 ((fview s)(b := d)) s t"
proof -
  define l where "l = bset (lg s) b d"
  define i where "i = find_block (lh_block l) b 0 (nat (lh_n l))"
  have l: "lh_n l = lh_n (lg s)" "lh_block l = lh_block (lg s)" "outstanding l = outstanding (lg s)"
    "lsize l = lsize (lg s)"
    by (simp_all add: l_def bset_def)
  have r: "0 \<le> lh_n l" "lh_n l < int LOGSIZE" "lh_n l < int (lsize l) - 1" "1 \<le> outstanding l"
    "length (lh_block l) = LOGSIZE"
    using assms by (auto simp: room_def l)
  have i: "i \<le> nat (lh_n l)" using find_block_le [of "lh_block l" b 0 "nat (lh_n l)"] by (simp add: i_def)
  with r have "i < length (lh_block l)" by simp
  then have w: "log_write l b = Inr (l \<lparr> lh_block := (lh_block l)[i := b],
      lh_n := (if int i = lh_n l then lh_n l + 1 else lh_n l), dirty := insert b (dirty l) \<rparr>)" (is "_ = Inr ?l")
    using r by (simp add: log_write_def Let_def i_def [symmetric])
  have "view ?l = (view (lg s))(b := d)"
    by (rule ext) (simp add: view_def bread_def l_def bset_def split: option.split)
  with w r show ?thesis
    by (intro exI [of _ "s \<lparr> lg := ?l \<rparr>"])
      (auto simp: fs_log_write_def l_def [symmetric] fsteps_def fview_def room_def l)
qed

section \<open>The free map\<close>

lemma map_bit_bit: "map_bit d bi \<longleftrightarrow> bit (d (bi div 8)) (bi mod 8)"
  by (simp add: map_bit_def bit_iff_and_push_bit_not_eq_0)

definition mark :: "block \<Rightarrow> nat \<Rightarrow> block" where
  "mark d bi = d(bi div 8 := d (bi div 8) OR push_bit (bi mod 8) 1)"

lemma map_bit_mark: "map_bit (mark d bi) bj \<longleftrightarrow> bj = bi \<or> map_bit d bj"
proof (cases "bj div 8 = bi div 8")
  case True
  have "bj = bi \<longleftrightarrow> bj mod 8 = bi mod 8" using True by (metis div_mult_mod_eq)
  with True show ?thesis by (auto simp: map_bit_bit mark_def bit_simps)
next
  case False
  then show ?thesis by (auto simp: map_bit_bit mark_def)
qed

definition used :: "fsys \<Rightarrow> nat \<Rightarrow> bool" where
  "used s b \<longleftrightarrow> map_bit (fview s (BBLOCK b (sb s))) (b mod BPB)"

definition free :: "fsys \<Rightarrow> nat set" where
  "free s = {b. b < sb_size (sb s) \<and> \<not> used s b}"

lemma free_finite [simp]: "finite (free s)"
  by (simp add: free_def)

text \<open>The blocks after an allocation: the bit is set, and the block is zero.\<close>

definition alloc_view :: "fsys \<Rightarrow> nat \<Rightarrow> nat \<Rightarrow> block" where
  "alloc_view s c =
     (let V = (fview s)(BBLOCK c (sb s) := mark (fview s (BBLOCK c (sb s))) (c mod BPB)) in
      V(c := memset (V c) 0 0 BSIZE))"

lemma balloc_scan_Some: "balloc_scan d bi k = Some x \<Longrightarrow> bi \<le> x \<and> x < bi + k \<and> \<not> map_bit d x"
  by (induction k arbitrary: bi) (fastforce split: if_splits)+

lemma balloc_scan_None: "balloc_scan d bi k = None \<Longrightarrow> bi \<le> x \<Longrightarrow> x < bi + k \<Longrightarrow> map_bit d x"
proof (induction k arbitrary: bi)
  case (Suc k)
  then show ?case by (cases "x = bi") (auto split: if_splits)
qed simp

lemma bitmap_place:
  "BPB dvd b \<Longrightarrow> bi < BPB \<Longrightarrow> BBLOCK (b + bi) x = BBLOCK b x \<and> (b + bi) mod BPB = bi"
  by (auto simp: BBLOCK_def BPB_def elim!: dvdE)

declare balloc_loop.simps [simp del]

lemma steps_free: "fsteps 0 (fview s) s t \<Longrightarrow> free t = free s \<and> alloc_view t = alloc_view s"
  by (auto simp: free_def used_def fun_eq_iff [where g = "alloc_view s"] alloc_view_def fsteps_def)

lemma balloc_take:
  assumes "room 2 s" and "bb = BBLOCK c (sb s)"
  shows "\<exists>t. bindR (fs_log_write s bb (mark (fview s bb) (c mod BPB))) (\<lambda>s. bindR (bzero s c) (\<lambda>s. Inr (c, s))) = Inr (c, t) \<and>
    fsteps 2 (alloc_view s c) s t"
proof -
  have "room (Suc 1) s" using assms(1) by (simp add: numeral_2_eq_2)
  then obtain t where t: "fs_log_write s bb (mark (fview s bb) (c mod BPB)) = Inr t"
    "fsteps 1 ((fview s)(bb := mark (fview s bb) (c mod BPB))) s t"
    using fs_log_write_steps by blast
  obtain u where u: "fs_bread t c = (fview t c, u)" "fsteps 0 (fview t) t u" using fs_bread_steps by blast
  have "room (0 + 1) t" by (rule stepsD(4) [OF t(2)]) (use assms in \<open>simp add: numeral_2_eq_2\<close>)
  then have "room (Suc 0) u" using stepsD(4) [OF u(2), of "Suc 0"] by simp
  then obtain v where v: "fs_log_write u c (memset (fview t c) 0 0 BSIZE) = Inr v"
    "fsteps 1 ((fview u)(c := memset (fview t c) 0 0 BSIZE)) u v"
    using fs_log_write_steps by blast
  have "fsteps (1 + (0 + 1)) ((fview u)(c := memset (fview t c) 0 0 BSIZE)) s v"
    by (rule steps_trans [OF t(2) steps_trans [OF u(2) v(2)]])
  moreover have "(fview u)(c := memset (fview t c) 0 0 BSIZE) = alloc_view s c"
    using stepsD(1) [OF t(2)] stepsD(1) [OF u(2)] assms(2) by (simp add: alloc_view_def Let_def)
  ultimately show ?thesis
    using t(1) u(1) v(1) by (intro exI [of _ v]) (simp add: bzero_def numeral_2_eq_2)
qed

lemma balloc_loop_ok:
  assumes "room 2 s" and "BPB dvd b" and "c \<in> free s" and "b \<le> c"
  shows "\<exists>c t. balloc_loop b s = Inr (c, t) \<and> c \<in> free s \<and> fsteps 2 (alloc_view s c) s t"
  using assms
proof (induction b s rule: balloc_loop.induct)
  case (1 b s)
  define bb where "bb = BBLOCK b (sb s)"
  obtain t where t: "fs_bread s bb = (fview s bb, t)" "fsteps 0 (fview s) s t" using fs_bread_steps by blast
  have b: "b < sb_size (sb s)" using "1.prems"(3,4) by (simp add: free_def)
  have rt: "room 2 t" using stepsD(4) [OF t(2), of 2] "1.prems"(1) by simp
  define k where "k = min BPB (sb_size (sb s) - b)"
  note simp1 = balloc_loop.simps [of b s] bb_def [symmetric] k_def [symmetric]
  show ?case
  proof (cases "balloc_scan (fview s bb) 0 k")
    case None
    have "b + BPB \<le> c"
    proof (rule ccontr)
      assume n: "\<not> b + BPB \<le> c"
      have "c - b < BPB" using n "1.prems"(4) by simp
      then have place: "BBLOCK c (sb s) = bb" "c mod BPB = c - b"
        using bitmap_place [OF "1.prems"(2), of "c - b" "sb s"] "1.prems"(4) by (auto simp: bb_def)
      have "map_bit (fview s bb) (c - b)"
        by (rule balloc_scan_None [OF None]) (use n "1.prems"(3,4) in \<open>auto simp: k_def free_def\<close>)
      with "1.prems"(3) place show False by (simp add: free_def used_def)
    qed
    moreover have "balloc_loop b s = balloc_loop (b + BPB) t"
      using b t(1) None by (simp add: simp1 Let_def)
    moreover have "\<exists>c u. balloc_loop (b + BPB) t = Inr (c, u) \<and> c \<in> free t \<and> fsteps 2 (alloc_view t c) t u"
      by (rule "1.IH" [OF b bb_def t(1) [symmetric] refl None [unfolded k_def] rt])
        (use "1.prems" calculation steps_free [OF t(2)] in auto)
    ultimately show ?thesis
      using steps_bread [OF t(2)] steps_free [OF t(2)] by auto
  next
    case (Some bi)
    then have bi: "bi < k" "\<not> map_bit (fview s bb) bi" using balloc_scan_Some [OF Some] by auto
    have place: "BBLOCK (b + bi) (sb s) = bb" "(b + bi) mod BPB = bi"
      using bitmap_place [OF "1.prems"(2), of bi "sb s"] bi(1) by (auto simp: bb_def k_def)
    have "b + bi \<in> free s" using bi place by (auto simp: free_def used_def k_def)
    moreover have "bb = BBLOCK (b + bi) (sb t)" using place stepsD(2) [OF t(2)] by simp
    then obtain u where "bindR (fs_log_write t bb (mark (fview t bb) ((b + bi) mod BPB)))
        (\<lambda>s. bindR (bzero s (b + bi)) (\<lambda>s. Inr (b + bi, s))) = Inr (b + bi, u)"
      and u: "fsteps 2 (alloc_view t (b + bi)) t u"
      using balloc_take [OF rt] by blast
    then have "balloc_loop b s = Inr (b + bi, u)"
      using b t(1) Some place stepsD(1) [OF t(2)] by (simp add: simp1 Let_def mark_def)
    ultimately show ?thesis using steps_bread [OF t(2) u] steps_free [OF t(2)] by auto
  qed
qed

lemma balloc_ok:
  assumes "room 2 s" and "free s \<noteq> {}"
  shows "\<exists>c t. balloc s = Inr (c, t) \<and> c \<in> free s \<and> fsteps 2 (alloc_view s c) s t"
  using balloc_loop_ok [OF assms(1), of 0] assms(2) by (auto simp: balloc_def)

section \<open>The disk and a file on it\<close>

text \<open>The boot block, the free map and the inodes: blocks that are never allocated.\<close>

definition meta :: "superblock \<Rightarrow> nat set" where
  "meta x = {0} \<union> {sb_bmapstart x..sb_bmapstart x + sb_size x div BPB} \<union>
     {sb_inodestart x..sb_inodestart x + sb_ninodes x div IPB}"

definition disk_ok :: "fsys \<Rightarrow> bool" where
  "disk_ok s \<longleftrightarrow> sb_size (sb s) < 2 ^ 32 \<and> free s \<inter> meta (sb s) = {} \<and>
     sb_inodestart (sb s) + sb_ninodes (sb s) div IPB < sb_bmapstart (sb s)"

definition good :: "fsys \<Rightarrow> nat set" where
  "good s = {b. b < sb_size (sb s) \<and> used s b \<and> b \<notin> meta (sb s)}"

text \<open>
  The addresses an inode holds, by their place: the direct ones, the indirect block, and the
  entries of the indirect block.
\<close>

definition islot :: "fsys \<Rightarrow> inode \<Rightarrow> nat \<Rightarrow> nat" where
  "islot s ip k =
     (if k \<le> NDIRECT then ip_addrs ip ! k
      else let ind = ip_addrs ip ! NDIRECT in
        if ind = 0 then 0 else unat (get32 (fview s ind) (4 * (k - NDIRECT - 1))))"

definition owned :: "fsys \<Rightarrow> inode \<Rightarrow> nat set" where
  "owned s ip = islot s ip ` {..MAXFILE} - {0}"

definition file_ok :: "fsys \<Rightarrow> inode \<Rightarrow> bool" where
  "file_ok s ip \<longleftrightarrow> length (ip_addrs ip) = NDIRECT + 1 \<and> owned s ip \<subseteq> good s \<and>
     (\<forall>k \<le> MAXFILE. \<forall>l \<le> MAXFILE. islot s ip k \<noteq> 0 \<longrightarrow> islot s ip k = islot s ip l \<longrightarrow> k = l)"

definition bslot :: "nat \<Rightarrow> nat" where
  "bslot bn = (if bn < NDIRECT then bn else bn + 1)"

text \<open>The bytes of a file; a block that is not allocated reads as zeroes.\<close>

definition content :: "fsys \<Rightarrow> inode \<Rightarrow> nat \<Rightarrow> u8" where
  "content s ip off =
     (let a = islot s ip (bslot (off div BSIZE)) in if a = 0 then 0 else fview s a (off mod BSIZE))"

lemmas layout_defs = NDIRECT_def NINDIRECT_def MAXFILE_def BSIZE_def

lemma bmap_block_meta: "b < sb_size x \<Longrightarrow> BBLOCK b x \<in> meta x"
  by (auto simp: meta_def BBLOCK_def intro!: div_le_mono)

lemma zero_meta [simp]: "0 \<in> meta x"
  by (simp add: meta_def)

lemma meta_same:
  assumes "sb u = sb t" and "\<And>b. b \<in> meta (sb t) \<Longrightarrow> b < sb_bmapstart (sb t) \<or> fview u b = fview t b"
  shows "free u = free t" "good u = good t" "disk_ok u = disk_ok t"
proof -
  have "used u b = used t b" if "b < sb_size (sb t)" for b
    using assms(2) [OF bmap_block_meta [OF that]] by (auto simp: used_def assms(1) BBLOCK_def)
  then show "free u = free t" "good u = good t" by (auto simp: free_def good_def assms(1))
  then show "disk_ok u = disk_ok t" by (simp add: disk_ok_def assms(1))
qed

text \<open>An allocation: the free block becomes a good one, and all good ones stay as they are.\<close>

lemma alloc_facts:
  assumes "disk_ok s" and "c \<in> free s" and "fsteps 2 (alloc_view s c) s t"
  shows "free t = free s - {c}" and "good t = insert c (good s)" and "disk_ok t"
    and "b \<in> good s \<Longrightarrow> fview t b = fview s b" and "k < BSIZE \<Longrightarrow> fview t c k = 0"
    and "c \<noteq> 0" and "c < 2 ^ 32" and "c \<notin> good s"
proof -
  note t = stepsD [OF assms(3)]
  have c: "c < sb_size (sb s)" "\<not> used s c" "c \<notin> meta (sb s)"
    using assms(1,2) by (auto simp: free_def disk_ok_def)
  have cb: "BBLOCK c (sb s) \<noteq> c" using bmap_block_meta [OF c(1)] c(3) by metis
  have v: "fview t b = (if b = c then memset (fview s c) 0 0 BSIZE
      else if b = BBLOCK c (sb s) then mark (fview s b) (c mod BPB) else fview s b)" for b
    using cb by (auto simp: t(1) alloc_view_def Let_def)
  have "used t b \<longleftrightarrow> b = c \<or> used s b" if "b < sb_size (sb s)" for b
  proof (cases "BBLOCK b (sb s) = BBLOCK c (sb s)")
    case True
    then have "b mod BPB = c mod BPB \<longleftrightarrow> b = c" by (auto simp: BBLOCK_def) (metis div_mult_mod_eq)
    with True cb show ?thesis by (simp add: used_def t(2) v map_bit_mark)
  next
    case False
    have "BBLOCK b (sb s) \<noteq> c" using bmap_block_meta [OF that] c(3) by metis
    with False show ?thesis by (auto simp: used_def t(2) v)
  qed
  then show f: "free t = free s - {c}" and "good t = insert c (good s)"
    using c by (auto simp: free_def good_def t(2))
  show "disk_ok t" using assms(1) f by (auto simp: disk_ok_def t(2))
  show "fview t b = fview s b" if "b \<in> good s"
    using that c bmap_block_meta [OF c(1)] by (auto simp: v good_def)
  show "fview t c k = 0" if "k < BSIZE" using that by (simp add: v memset_fills)
  show "c \<noteq> 0" using c(3) by (metis zero_meta)
  show "c < 2 ^ 32" using c(1) assms(1) by (simp add: disk_ok_def)
  show "c \<notin> good s" using c by (simp add: good_def)
qed

text \<open>A slot filled with a fresh zeroed block: the file stays well formed and reads the same.\<close>

lemma fill_slot:
  assumes "file_ok s ip" and "k \<le> MAXFILE" and "islot s ip k = 0"
    and "length (ip_addrs ip') = NDIRECT + 1"
    and "\<And>l. l \<le> MAXFILE \<Longrightarrow> islot u ip' l = (if l = k then c else islot s ip l)"
    and "\<And>b. b \<in> good s \<Longrightarrow> b \<noteq> islot s ip NDIRECT \<Longrightarrow> fview u b = fview s b"
    and "\<And>j. j < BSIZE \<Longrightarrow> fview u c j = 0" and "good u = insert c (good s)" and "c \<notin> good s" and "c \<noteq> 0"
  shows "file_ok u ip'" and "owned u ip' = insert c (owned s ip)"
    and "off < MAXFILE * BSIZE \<Longrightarrow> content u ip' off = content s ip off"
proof -
  have own: "islot s ip l \<in> good s" if "l \<le> MAXFILE" "islot s ip l \<noteq> 0" for l
    using assms(1) that by (auto simp: file_ok_def owned_def)
  have ext: "islot u ip' ` {..MAXFILE} = insert c (islot s ip ` ({..MAXFILE} - {k}))"
    using assms(2,5) by (auto simp: image_iff)
  have "islot s ip ` ({..MAXFILE} - {k}) - {0} = islot s ip ` {..MAXFILE} - {0}"
    using assms(3) by (auto simp: image_iff)
  with ext show o: "owned u ip' = insert c (owned s ip)" using assms(10) by (auto simp: owned_def)
  show "file_ok u ip'"
    unfolding file_ok_def
  proof (intro conjI allI impI)
    show "owned u ip' \<subseteq> good u" using o assms(1,8) by (auto simp: file_ok_def)
    fix l m
    assume lm: "l \<le> MAXFILE" "m \<le> MAXFILE" "islot u ip' l \<noteq> 0" "islot u ip' l = islot u ip' m"
    show "l = m"
    proof (cases "l = k \<or> m = k")
      case True
      with lm assms(3,5,9,10) own show ?thesis by (metis (full_types))
    next
      case False
      with lm assms(1,5) show ?thesis by (simp add: file_ok_def)
    qed
  qed (rule assms(4))
  show "content u ip' off = content s ip off" if off: "off < MAXFILE * BSIZE"
  proof -
    define l where "l = bslot (off div BSIZE)"
    have l: "l \<le> MAXFILE" "l \<noteq> NDIRECT"
      using off by (auto simp: l_def bslot_def layout_defs)
    have m: "off mod BSIZE < BSIZE" by (simp add: BSIZE_def)
    consider "l = k" | "l \<noteq> k" "islot s ip l = 0" | "l \<noteq> k" "islot s ip l \<noteq> 0" by blast
    then show ?thesis
    proof cases
      case 1
      then show ?thesis using assms(3,5,7,10) l m by (simp add: content_def l_def [symmetric])
    next
      case 2
      then show ?thesis using assms(5) l by (simp add: content_def l_def [symmetric])
    next
      case 3
      have "islot s ip l \<noteq> islot s ip NDIRECT"
        using assms(1) l 3 by (auto simp: file_ok_def layout_defs)
      then have "fview u (islot s ip l) = fview s (islot s ip l)" using assms(6) own l 3 by blast
      with 3 assms(5) l show ?thesis by (simp add: content_def l_def [symmetric])
    qed
  qed
qed

section \<open>Growing a file\<close>

definition fs_ok :: "nat \<Rightarrow> fsys \<Rightarrow> bool" where
  "fs_ok i s \<longleftrightarrow> i < length (icache s) \<and> disk_ok s \<and> file_ok s (get_ip s i)"

abbreviation owned_by :: "nat \<Rightarrow> fsys \<Rightarrow> nat set" where
  "owned_by i s \<equiv> owned s (get_ip s i)"

abbreviation bytes :: "nat \<Rightarrow> fsys \<Rightarrow> nat \<Rightarrow> u8" where
  "bytes i s \<equiv> content s (get_ip s i)"

text \<open>
  What an operation on the contents of inode \<open>i\<close> keeps: the invariant, the other inodes, and every
  block in use that is not the file's own; \<open>f\<close> and \<open>r\<close> bound the blocks it takes and logs.
\<close>

definition evolves :: "nat \<Rightarrow> nat \<Rightarrow> nat \<Rightarrow> fsys \<Rightarrow> fsys \<Rightarrow> bool" where
  "evolves f r i s t \<longleftrightarrow> fs_ok i t \<and> sb t = sb s \<and>
     icache t = (icache s)[i := get_ip s i \<lparr> ip_addrs := ip_addrs (get_ip t i) \<rparr>] \<and>
     card (free s) \<le> card (free t) + f \<and> (\<forall>j. room (j + r) s \<longrightarrow> room j t) \<and>
     good s \<subseteq> good t \<and> owned_by i t \<inter> good s \<subseteq> owned_by i s \<and>
     (\<forall>b \<in> good s - owned_by i s. fview t b = fview s b) \<and>
     (\<forall>k \<le> MAXFILE. islot s (get_ip s i) k \<noteq> 0 \<longrightarrow> islot t (get_ip t i) k = islot s (get_ip s i) k)"

lemma evolvesD:
  assumes "evolves f r i s t"
  shows "fs_ok i t" "sb t = sb s" "card (free s) \<le> card (free t) + f" "room (j + r) s \<Longrightarrow> room j t"
    "good s \<subseteq> good t" "b \<in> good s \<Longrightarrow> b \<notin> owned_by i s \<Longrightarrow> fview t b = fview s b" "length (icache t) = length (icache s)"
proof -
  have "icache t = (icache s)[i := get_ip s i \<lparr> ip_addrs := ip_addrs (get_ip t i) \<rparr>]"
    using assms by (simp add: evolves_def)
  then show "length (icache t) = length (icache s)" by (metis length_list_update)
qed (use assms in \<open>auto simp: evolves_def\<close>)

lemma evolves_ip:
  assumes "evolves f r i s t" and "fs_ok i s"
  shows "get_ip t i = get_ip s i \<lparr> ip_addrs := ip_addrs (get_ip t i) \<rparr>"
  using assms by (metis (no_types, lifting) evolves_def fs_ok_def nth_list_update_eq)

lemma evolves_trans:
  assumes "evolves f r i s t" and "evolves g q i t u"
  shows "evolves (f + g) (r + q) i s u"
proof -
  have a: "icache u = (icache s)[i := get_ip s i \<lparr> ip_addrs := ip_addrs (get_ip u i) \<rparr>]"
  proof (cases "i < length (icache s)")
    case True
    have "icache u = (icache t)[i := get_ip t i \<lparr> ip_addrs := ip_addrs (get_ip u i) \<rparr>]"
      using assms(2) by (simp add: evolves_def)
    moreover have "icache t = (icache s)[i := get_ip s i \<lparr> ip_addrs := ip_addrs (get_ip t i) \<rparr>]"
      using assms(1) by (simp add: evolves_def)
    moreover have "get_ip t i = get_ip s i \<lparr> ip_addrs := ip_addrs (get_ip t i) \<rparr>"
      using calculation(2) True by (metis nth_list_update_eq)
    then have "get_ip t i \<lparr> ip_addrs := ip_addrs (get_ip u i) \<rparr> = get_ip s i \<lparr> ip_addrs := ip_addrs (get_ip u i) \<rparr>"
      by (metis inode.update_convs(11) inode.surjective)
    ultimately show ?thesis by (metis list_update_overwrite)
  next
    case False
    with evolvesD(1,7) [OF assms(1)] show ?thesis by (simp add: fs_ok_def)
  qed
  have "room j u" if "room (j + (r + q)) s" for j
  proof -
    have "room ((j + q) + r) s" using that by (simp add: ac_simps)
    then show ?thesis using assms by (meson evolvesD(4))
  qed
  moreover have "fview u b = fview s b" if "b \<in> good s - owned_by i s" for b
  proof -
    have "b \<in> good t - owned_by i t" using that assms(1) by (auto simp: evolves_def)
    with assms that show ?thesis by (simp add: evolves_def)
  qed
  ultimately show ?thesis using assms a by (auto simp: evolves_def)
qed

lemma evolves_steps:
  assumes "fs_ok i s" and "fsteps 0 (fview s) s t"
  shows "evolves 0 0 i s t" and "bytes i t = bytes i s"
proof -
  note t = stepsD [OF assms(2)]
  have same: "free t = free s" "good t = good s" "disk_ok t = disk_ok s"
    using t(1,2) by (intro meta_same; simp)+
  have islot: "islot t = islot s" by (simp add: islot_def fun_eq_iff t(1) Let_def)
  have slots: "owned t ip = owned s ip" "file_ok t ip = file_ok s ip" for ip
    by (simp_all add: islot owned_def file_ok_def same(2))
  have ip: "get_ip s i \<lparr> ip_addrs := ip_addrs (get_ip s i) \<rparr> = get_ip s i" by simp
  show "evolves 0 0 i s t"
    using assms(1) t(4) by (simp add: evolves_def fs_ok_def same islot slots t(1-3) ip)
  show "bytes i t = bytes i s" by (simp add: content_def fun_eq_iff islot t(1,3) Let_def)
qed

text \<open>A growth that does not show: the bytes stay, and so do the slots already filled.\<close>

definition fgrown :: "nat \<Rightarrow> nat \<Rightarrow> nat \<Rightarrow> fsys \<Rightarrow> fsys \<Rightarrow> bool" where
  "fgrown f r i s t \<longleftrightarrow> evolves f r i s t \<and> (\<forall>off < MAXFILE * BSIZE. bytes i t off = bytes i s off)"

lemma grown_trans: "fgrown f r i s t \<Longrightarrow> fgrown g q i t u \<Longrightarrow> fgrown (f + g) (r + q) i s u"
  by (auto simp: fgrown_def intro: evolves_trans)

lemma grown_steps: "fs_ok i s \<Longrightarrow> fsteps 0 (fview s) s t \<Longrightarrow> fgrown 0 0 i s t"
  by (simp add: fgrown_def evolves_steps)

lemma grownD: "fgrown f r i s t \<Longrightarrow> evolves f r i s t"
  by (simp add: fgrown_def)

lemma get_set_ip [simp]: "i < length (icache s) \<Longrightarrow> get_ip (set_ip s i ip) i = ip"
  by (simp add: set_ip_def)

lemma set_ip_fields [simp]:
  "fview (set_ip s i ip) = fview s" "sb (set_ip s i ip) = sb s" "room k (set_ip s i ip) = room k s"
  "free (set_ip s i ip) = free s" "good (set_ip s i ip) = good s" "disk_ok (set_ip s i ip) = disk_ok s"
  "islot (set_ip s i ip) = islot s" "owned (set_ip s i ip) = owned s" "file_ok (set_ip s i ip) = file_ok s"
  "content (set_ip s i ip) = content s"
proof -
  show v: "fview (set_ip s i ip) = fview s" and b: "sb (set_ip s i ip) = sb s"
    and "room k (set_ip s i ip) = room k s"
    by (simp_all add: set_ip_def fview_def room_def)
  show f: "free (set_ip s i ip) = free s" and g: "good (set_ip s i ip) = good s"
    and "disk_ok (set_ip s i ip) = disk_ok s"
    using v b by (intro meta_same; simp)+
  show sl: "islot (set_ip s i ip) = islot s" by (simp add: islot_def fun_eq_iff v Let_def)
  show "owned (set_ip s i ip) = owned s" "content (set_ip s i ip) = content s"
    by (simp_all add: fun_eq_iff owned_def content_def sl v Let_def)
  then show "file_ok (set_ip s i ip) = file_ok s" by (simp add: fun_eq_iff file_ok_def sl g)
qed

lemma grown_fill:
  assumes "fs_ok i s" and "k \<le> MAXFILE" and "islot s (get_ip s i) k = 0" and "c \<in> free s" and "c \<noteq> 0"
    and "sb u = sb s" and "icache u = (icache s)[i := get_ip s i \<lparr> ip_addrs := A \<rparr>]" and "length A = NDIRECT + 1"
    and "\<And>l. l \<le> MAXFILE \<Longrightarrow> islot u (get_ip s i \<lparr> ip_addrs := A \<rparr>) l = (if l = k then c else islot s (get_ip s i) l)"
    and "\<And>b. b \<in> good s \<Longrightarrow> b \<noteq> islot s (get_ip s i) NDIRECT \<Longrightarrow> fview u b = fview s b"
    and "\<And>j. j < BSIZE \<Longrightarrow> fview u c j = 0" and "good u = insert c (good s)" and "free u = free s - {c}"
    and "disk_ok u" and "\<And>j. room (j + r) s \<Longrightarrow> room j u"
    and "islot s (get_ip s i) NDIRECT = 0 \<Longrightarrow> \<forall>b \<in> good s. fview u b = fview s b"
  shows "fgrown 1 r i s u" and "islot u (get_ip u i) k = c"
proof -
  let ?ip = "get_ip s i \<lparr> ip_addrs := A \<rparr>"
  have ip: "get_ip u i = ?ip" using assms(1,7) by (simp add: fs_ok_def)
  have c: "c \<notin> good s" using assms(4) by (simp add: free_def good_def)
  have f: "file_ok s (get_ip s i)" using assms(1) by (simp add: fs_ok_def)
  have len: "length (ip_addrs ?ip) = NDIRECT + 1" using assms(8) by simp
  note fill = fill_slot [OF f assms(2,3) len assms(9,10,11,12) c assms(5)]
  have own: "b \<noteq> islot s (get_ip s i) NDIRECT" if "b \<in> good s - owned_by i s" "islot s (get_ip s i) NDIRECT \<noteq> 0" for b
    using that by (auto simp: owned_def layout_defs)
  have "evolves 1 r i s u"
    unfolding evolves_def
  proof (intro conjI allI impI ballI)
    show "fs_ok i u" using assms(1,7,14) fill(1) by (simp add: fs_ok_def ip)
    show "icache u = (icache s)[i := get_ip s i \<lparr> ip_addrs := ip_addrs (get_ip u i) \<rparr>]"
      unfolding ip using assms(7) by simp
    show "card (free s) \<le> card (free u) + 1" using assms(4,13) by (simp add: card_Diff_singleton)
    show "owned_by i u \<inter> good s \<subseteq> owned_by i s" using fill(2) c by (auto simp: ip)
    show "fview u b = fview s b" if "b \<in> good s - owned_by i s" for b
      using own [OF that] assms(10,16) that by blast
    show "islot u (get_ip u i) l = islot s (get_ip s i) l" if "l \<le> MAXFILE" "islot s (get_ip s i) l \<noteq> 0" for l
      using that assms(3,9) by (auto simp: ip)
  qed (use assms in auto)
  moreover have "bytes i u off = bytes i s off" if "off < MAXFILE * BSIZE" for off
    unfolding ip by (rule fill(3)) (use that in auto)
  ultimately show "fgrown 1 r i s u" by (simp add: fgrown_def)
  show "islot u (get_ip u i) k = c" using assms(2,9) by (simp add: ip)
qed

lemma get32_zero: "(\<And>j. j < BSIZE \<Longrightarrow> b j = 0) \<Longrightarrow> a + 4 \<le> BSIZE \<Longrightarrow> get32 b a = 0"
  by (simp add: get32_def)

lemma file_okD:
  assumes "file_ok s ip"
  shows "length (ip_addrs ip) = NDIRECT + 1"
    and "l \<le> MAXFILE \<Longrightarrow> islot s ip l \<noteq> 0 \<Longrightarrow> islot s ip l \<in> good s"
    and "l \<le> MAXFILE \<Longrightarrow> m \<le> MAXFILE \<Longrightarrow> islot s ip l \<noteq> 0 \<Longrightarrow> islot s ip l = islot s ip m \<Longrightarrow> l = m"
  using assms by (auto simp: file_ok_def owned_def)

text \<open>A direct slot, or the one of the indirect block.\<close>

lemma grown_direct:
  assumes "fs_ok i s" and "k \<le> NDIRECT" and "ip_addrs (get_ip s i) ! k = 0" and "c \<in> free s"
    and "fsteps 2 (alloc_view s c) s t"
    and "u = set_ip t i (get_ip t i \<lparr> ip_addrs := (ip_addrs (get_ip t i))[k := c] \<rparr>)"
  shows "fgrown 1 2 i s u" and "ip_addrs (get_ip u i) ! k = c" and "c \<noteq> 0"
proof -
  note t = stepsD [OF assms(5)]
  have ok: "disk_ok s" "file_ok s (get_ip s i)" "i < length (icache s)" using assms(1) by (auto simp: fs_ok_def)
  note al = alloc_facts [OF ok(1) assms(4,5)]
  let ?A = "(ip_addrs (get_ip s i))[k := c]"
  have len: "k < length (ip_addrs (get_ip s i))" using assms(2) file_okD(1) [OF ok(2)] by simp
  have ic: "icache u = (icache s)[i := get_ip s i \<lparr> ip_addrs := ?A \<rparr>]"
    using assms(6) t(3) by (simp add: set_ip_def)
  have sl: "islot u (get_ip s i \<lparr> ip_addrs := ?A \<rparr>) l = (if l = k then c else islot s (get_ip s i) l)"
    if l: "l \<le> MAXFILE" for l
  proof (cases "l \<le> NDIRECT")
    case True
    with len show ?thesis by (simp add: islot_def)
  next
    case False
    let ?ind = "ip_addrs (get_ip s i) ! NDIRECT"
    have "fview t ?ind = fview s ?ind" if "?ind \<noteq> 0"
      by (rule al(4)) (use file_okD(2) [OF ok(2), of NDIRECT] that in \<open>simp add: islot_def layout_defs\<close>)
    moreover have "get32 (fview t c) (4 * (l - NDIRECT - 1)) = 0"
      by (rule get32_zero [OF al(5)]) (use l False in \<open>auto simp: layout_defs\<close>)
    ultimately show ?thesis
      using False assms(2,3,6) len by (cases "k = NDIRECT") (auto simp: islot_def Let_def)
  qed
  have z: "islot s (get_ip s i) k = 0" using assms(2,3) by (simp add: islot_def)
  show "fgrown 1 2 i s u"
    by (rule grown_fill(1) [OF assms(1) _ z assms(4) al(6) _ ic _ sl])
      (use assms(2,6) t file_okD(1) [OF ok(2)] al in \<open>auto simp: layout_defs\<close>)
  show "ip_addrs (get_ip u i) ! k = c" using ic len ok(3) by simp
  show "c \<noteq> 0" by (rule al(6))
qed

text \<open>A slot in the indirect block.\<close>

lemma grown_indirect:
  assumes "fs_ok i s" and "ind = ip_addrs (get_ip s i) ! NDIRECT" and "ind \<noteq> 0" and "NDIRECT < k" and "k \<le> MAXFILE"
    and "islot s (get_ip s i) k = 0" and "c \<in> free s" and "fsteps 2 (alloc_view s c) s t"
    and "fsteps 1 ((fview t)(ind := put32 (fview t ind) (4 * (k - NDIRECT - 1)) (of_nat c))) t u"
  shows "fgrown 1 3 i s u" and "islot u (get_ip u i) k = c" and "c \<noteq> 0"
proof -
  note t = stepsD [OF assms(8)] and u = stepsD [OF assms(9)]
  have ok: "disk_ok s" "file_ok s (get_ip s i)" "i < length (icache s)" using assms(1) by (auto simp: fs_ok_def)
  note al = alloc_facts [OF ok(1) assms(7,8)]
  have ind: "ind \<in> good s" "islot s (get_ip s i) NDIRECT = ind"
    using file_okD(2) [OF ok(2), of NDIRECT] assms(2,3) by (auto simp: islot_def layout_defs)
  have vt: "fview t ind = fview s ind" by (rule al(4) [OF ind(1)])
  have vu: "fview u b = (if b = ind then put32 (fview s ind) (4 * (k - NDIRECT - 1)) (of_nat c) else fview t b)" for b
    by (simp add: u(1) vt)
  have "ind \<notin> meta (sb s)" using ind(1) by (simp add: good_def)
  then have same: "free u = free t" "good u = good t" "disk_ok u = disk_ok t"
    using u(2) t(2) by (intro meta_same; auto simp: vu)+
  have ic: "icache u = (icache s)[i := get_ip s i \<lparr> ip_addrs := ip_addrs (get_ip s i) \<rparr>]"
    using u(3) t(3) by simp
  have c32: "unat (of_nat c :: u32) = c" using al(7) by (simp add: unsigned_of_nat take_bit_nat_eq_self_iff)
  have sl: "islot u (get_ip s i \<lparr> ip_addrs := ip_addrs (get_ip s i) \<rparr>) l = (if l = k then c else islot s (get_ip s i) l)"
    if "l \<le> MAXFILE" for l
  proof (cases "l \<le> NDIRECT")
    case True
    with assms(4) show ?thesis by (simp add: islot_def)
  next
    case False
    have "get32 (put32 (fview s ind) (4 * (k - NDIRECT - 1)) (of_nat c)) (4 * (l - NDIRECT - 1)) =
        get32 (fview s ind) (4 * (l - NDIRECT - 1))" if "l \<noteq> k"
      by (rule get32_put32_other) (use that False assms(4) in arith)
    with False assms(2,3) show ?thesis by (auto simp: islot_def Let_def vu c32)
  qed
  have c: "c \<noteq> ind" using al(8) ind(1) by blast
  have r: "room j u" if "room (j + 3) s" for j
  proof -
    have "room (j + 1 + 2) s" using that by (simp add: numeral_3_eq_3)
    then show ?thesis by (rule u(4) [OF t(4)])
  qed
  note fill = grown_fill [OF assms(1,5,6,7) al(6) _ ic _ sl, of 3]
  show "fgrown 1 3 i s u"
    by (rule fill(1)) (use u(2) t(2) file_okD(1) [OF ok(2)] al same ind c r assms(3) in \<open>auto simp: vu\<close>)
  show "islot u (get_ip u i) k = c"
    by (rule fill(2)) (use u(2) t(2) file_okD(1) [OF ok(2)] al same ind c r assms(3) in \<open>auto simp: vu\<close>)
  show "c \<noteq> 0" by (rule al(6))
qed

lemma evolves_mono: "evolves f r i s t \<Longrightarrow> f \<le> f' \<Longrightarrow> r \<le> r' \<Longrightarrow> evolves f' r' i s t"
proof -
  assume e: "evolves f r i s t" "f \<le> f'" "r \<le> r'"
  have "room j t" if "room (j + r') s" for j
    using evolvesD(4) [OF e(1)] room_mono [OF that, of "j + r"] e(3) by simp
  with e show ?thesis by (auto simp: evolves_def)
qed

lemma grown_mono: "fgrown f r i s t \<Longrightarrow> f \<le> f' \<Longrightarrow> r \<le> r' \<Longrightarrow> fgrown f' r' i s t"
  by (auto simp: fgrown_def intro: evolves_mono)

lemma grown_self: "fs_ok i s \<Longrightarrow> fgrown f r i s s"
proof -
  assume "fs_ok i s"
  then have "fgrown 0 0 i s s" by (auto intro!: grown_steps simp: fsteps_def)
  then show ?thesis by (rule grown_mono) auto
qed

text \<open>\<open>bmap\<close> finds the block of a position, or adds a zeroed one.\<close>

lemma bmap_direct_ok:
  assumes "fs_ok i s" and "k \<le> NDIRECT" and "room 2 s" and "free s \<noteq> {}"
  shows "\<exists>a t. (let addr = ip_addrs (get_ip s i) ! k in
      if addr = 0 then
        bindR (balloc s) (\<lambda>(addr, s).
        Inr (addr, set_ip s i (get_ip s i \<lparr> ip_addrs := (ip_addrs (get_ip s i))[k := addr] \<rparr>)))
      else Inr (addr, s)) = Inr (a, t) \<and> fgrown 1 2 i s t \<and> a \<noteq> 0 \<and> ip_addrs (get_ip t i) ! k = a"
proof (cases "ip_addrs (get_ip s i) ! k = 0")
  case True
  obtain c t where b: "balloc s = Inr (c, t)" "c \<in> free s" "fsteps 2 (alloc_view s c) s t"
    using balloc_ok [OF assms(3,4)] by blast
  note d = grown_direct [OF assms(1,2) True b(2,3) refl]
  show ?thesis
    using True b(1) d by (intro exI [of _ c] exI conjI) (simp_all add: Let_def)
next
  case False
  then show ?thesis using grown_self [OF assms(1)] by simp
qed

lemma bmap_entry_ok:
  assumes "fs_ok i s" and "ind = ip_addrs (get_ip s i) ! NDIRECT" and "ind \<noteq> 0" and "n < NINDIRECT"
    and "room 3 s" and "free s \<noteq> {}"
  shows "\<exists>a t. (let (a, s) = fs_bread s ind;
              addr = unat (get32 a (4 * n))
          in if addr = 0 then
               bindR (balloc s) (\<lambda>(addr, s).
               let (a, s) = fs_bread s ind in
               bindR (fs_log_write s ind (put32 a (4 * n) (of_nat addr))) (\<lambda>s. Inr (addr, s)))
             else Inr (addr, s)) = Inr (a, t) \<and> fgrown 1 3 i s t \<and> a \<noteq> 0 \<and> islot t (get_ip t i) (NDIRECT + 1 + n) = a"
proof -
  obtain t where t: "fs_bread s ind = (fview s ind, t)" "fsteps 0 (fview s) s t" using fs_bread_steps by blast
  note t' = stepsD [OF t(2)]
  have g: "fgrown 0 0 i s t" by (rule grown_steps [OF assms(1) t(2)])
  have ok: "fs_ok i t" by (rule evolvesD(1) [OF grownD [OF g]])
  have sl: "islot t (get_ip t i) (NDIRECT + 1 + n) = unat (get32 (fview s ind) (4 * n))"
    using assms(2,3) by (simp add: islot_def t'(1,3))
  show ?thesis
  proof (cases "unat (get32 (fview s ind) (4 * n)) = 0")
    case False
    then show ?thesis
      using t(1) sl grown_mono [OF g, of 1 3]
      by (intro exI [of _ "unat (get32 (fview s ind) (4 * n))"] exI [of _ t] conjI) simp_all
  next
    case True
    have rt: "room 3 t" using t'(4) [of 3] assms(5) by simp
    then have r2: "room 2 t" by (rule room_mono) simp
    obtain c u where b: "balloc t = Inr (c, u)" "c \<in> free t" "fsteps 2 (alloc_view t c) t u"
      using balloc_ok [OF r2] assms(6) steps_free [OF t(2)] by auto
    obtain v where v: "fs_bread u ind = (fview u ind, v)" "fsteps 0 (fview u) u v" using fs_bread_steps by blast
    have "room (Suc 0) v"
      using stepsD(4) [OF v(2), of 1] stepsD(4) [OF b(3), of 1] rt by (simp add: numeral_3_eq_3)
    then obtain w where w: "fs_log_write v ind (put32 (fview u ind) (4 * n) (of_nat c)) = Inr w"
      "fsteps 1 ((fview v)(ind := put32 (fview u ind) (4 * n) (of_nat c))) v w"
      using fs_log_write_steps by blast
    have uw: "fsteps 1 ((fview u)(ind := put32 (fview u ind) (4 * (NDIRECT + 1 + n - NDIRECT - 1)) (of_nat c))) u w"
      using steps_bread [OF v(2) w(2)] stepsD(1) [OF v(2)] by simp
    have ind: "ind = ip_addrs (get_ip t i) ! NDIRECT" by (simp add: t'(3) assms(2))
    note gi = grown_indirect [OF ok ind assms(3) _ _ _ b(2,3) uw]
    have "fgrown (0 + 1) (0 + 3) i s w"
      by (rule grown_trans [OF g gi(1)]) (use True sl assms(4) in \<open>auto simp: layout_defs\<close>)
    moreover have "islot w (get_ip w i) (NDIRECT + 1 + n) = c"
      by (rule gi(2)) (use True sl assms(4) in \<open>auto simp: layout_defs\<close>)
    moreover have "c \<noteq> 0"
      by (rule gi(3)) (use True sl assms(4) in \<open>auto simp: layout_defs\<close>)
    ultimately show ?thesis
      using True t(1) b(1) v(1) w(1) by (intro exI [of _ c] exI [of _ w] conjI) (simp_all add: Let_def)
  qed
qed

lemma bmap_ok:
  assumes "fs_ok i s" and "bn < MAXFILE" and "room 5 s" and "2 \<le> card (free s)"
  shows "\<exists>a t. bmap s i bn = Inr (a, t) \<and> fgrown 2 5 i s t \<and> a \<noteq> 0 \<and> islot t (get_ip t i) (bslot bn) = a"
proof -
  have r: "room 2 s" using assms(3) by (rule room_mono) simp
  have f: "free s \<noteq> {}" using assms(4) by auto
  show ?thesis
  proof (cases "bn < NDIRECT")
    case True
    obtain a t where t: "bmap s i bn = Inr (a, t)" "fgrown 1 2 i s t" "a \<noteq> 0" "ip_addrs (get_ip t i) ! bn = a"
      using bmap_direct_ok [OF assms(1) _ r f, of bn] True by (auto simp: bmap_def)
    moreover have "islot t (get_ip t i) (bslot bn) = a" using t(4) True by (simp add: islot_def bslot_def)
    ultimately show ?thesis using grown_mono [OF t(2), of 2 5] by (intro exI [of _ a] exI [of _ t] conjI) simp_all
  next
    case False
    define n where "n = bn - NDIRECT"
    have n: "n < NINDIRECT" "bslot bn = NDIRECT + 1 + n" using False assms(2) by (auto simp: n_def layout_defs bslot_def)
    obtain ind t where t: "(let addr = ip_addrs (get_ip s i) ! NDIRECT in
        if addr = 0 then
          bindR (balloc s) (\<lambda>(addr, s).
          Inr (addr, set_ip s i (get_ip s i \<lparr> ip_addrs := (ip_addrs (get_ip s i))[NDIRECT := addr] \<rparr>)))
        else Inr (addr, s)) = Inr (ind, t)" "fgrown 1 2 i s t" "ind \<noteq> 0" "ip_addrs (get_ip t i) ! NDIRECT = ind"
      using bmap_direct_ok [OF assms(1) _ r f, of NDIRECT] by blast
    note e = evolvesD [OF grownD [OF t(2)]]
    have "room (3 + 2) s" using assms(3) by simp
    then have rt: "room 3 t" by (rule e(4))
    have ft: "free t \<noteq> {}" using e(3) assms(4) by auto
    obtain a u where u: "(let (a, s) = fs_bread t ind;
              addr = unat (get32 a (4 * n))
          in if addr = 0 then
               bindR (balloc s) (\<lambda>(addr, s).
               let (a, s) = fs_bread s ind in
               bindR (fs_log_write s ind (put32 a (4 * n) (of_nat addr))) (\<lambda>s. Inr (addr, s)))
             else Inr (addr, s)) = Inr (a, u)" "fgrown 1 3 i t u" "a \<noteq> 0" "islot u (get_ip u i) (NDIRECT + 1 + n) = a"
      using bmap_entry_ok [OF e(1) t(4) [symmetric] t(3) n(1) rt ft] by blast
    have "bmap s i bn = Inr (a, u)"
      unfolding bmap_def if_not_P [OF False] n_def [symmetric] Let_def [of n] if_P [OF n(1)] t(1) bindR_Inr prod.case
      by (rule u(1))
    moreover have "fgrown (1 + 1) (2 + 3) i s u" by (rule grown_trans [OF t(2) u(2)])
    then have "fgrown 2 5 i s u" by (simp add: numeral_2_eq_2)
    ultimately show ?thesis using u(3,4) n(2) by (intro exI [of _ a] exI [of _ u] conjI) simp_all
  qed
qed

section \<open>Reading and writing\<close>

text \<open>The blocks that \<open>n\<close> bytes from an offset touch.\<close>

definition nblk :: "nat \<Rightarrow> nat \<Rightarrow> nat" where
  "nblk off n = (if n = 0 then 0 else (off mod BSIZE + n + (BSIZE - 1)) div BSIZE)"

lemma nblk_step:
  assumes "0 < n" and "m = min n (BSIZE - off mod BSIZE)"
  shows "Suc (nblk (off + m) (n - m)) \<le> nblk off n"
proof (cases "n \<le> BSIZE - off mod BSIZE")
  case True
  have "1 \<le> (off mod BSIZE + n + (BSIZE - 1)) div BSIZE"
    using assms(1) by (simp add: BSIZE_def)
  with True assms show ?thesis by (simp add: nblk_def)
next
  case False
  then have m: "m = BSIZE - off mod BSIZE" using assms(2) by simp
  have lt: "off mod BSIZE < BSIZE" by (simp add: BSIZE_def)
  have "off + m = off div BSIZE * BSIZE + BSIZE"
    using m lt div_mult_mod_eq [of off BSIZE] by linarith
  then have "(off + m) mod BSIZE = 0" by simp
  moreover have "off mod BSIZE + n + (BSIZE - 1) = (n - m + (BSIZE - 1)) + BSIZE" using m lt False by simp
  then have "(off mod BSIZE + n + (BSIZE - 1)) div BSIZE = Suc ((n - m + (BSIZE - 1)) div BSIZE)"
    by (simp add: BSIZE_def)
  ultimately show ?thesis using False assms(1) m by (simp add: nblk_def)
qed

lemma place_in_block: "(r :: nat) < B \<Longrightarrow> (q * B + r) div B = q \<and> (q * B + r) mod B = r"
  by simp

lemma same_block:
  assumes "off \<le> x" and "x < off + m" and "m \<le> BSIZE - off mod BSIZE"
  shows "x div BSIZE = off div BSIZE" and "x mod BSIZE = off mod BSIZE + (x - off)"
proof -
  define y where "y = x - off"
  have "off mod BSIZE < BSIZE" by (simp add: BSIZE_def)
  then have y: "off mod BSIZE + y < BSIZE" using assms by (simp add: y_def)
  have "x = off div BSIZE * BSIZE + (off mod BSIZE + y)"
    using assms(1) div_mult_mod_eq [of off BSIZE] unfolding y_def by linarith
  then have "x div BSIZE = off div BSIZE \<and> x mod BSIZE = off mod BSIZE + y"
    by (simp only: place_in_block [OF y])
  then show "x div BSIZE = off div BSIZE" "x mod BSIZE = off mod BSIZE + (x - off)"
    by (simp_all add: y_def)
qed

lemma block_span:
  assumes "x div BSIZE = off div BSIZE" and "m \<le> BSIZE - off mod BSIZE"
  shows "off mod BSIZE \<le> x mod BSIZE \<and> x mod BSIZE < off mod BSIZE + m \<longleftrightarrow> off \<le> x \<and> x < off + m"
    and "off \<le> x \<Longrightarrow> x mod BSIZE - off mod BSIZE = x - off"
proof -
  have "x = off div BSIZE * BSIZE + x mod BSIZE" using assms(1) by (metis div_mult_mod_eq)
  moreover have "off = off div BSIZE * BSIZE + off mod BSIZE" by simp
  ultimately show "off mod BSIZE \<le> x mod BSIZE \<and> x mod BSIZE < off mod BSIZE + m \<longleftrightarrow> off \<le> x \<and> x < off + m"
    and "off \<le> x \<Longrightarrow> x mod BSIZE - off mod BSIZE = x - off"
    by linarith+
qed

lemma bslot_le: "bn < MAXFILE \<Longrightarrow> bslot bn \<le> MAXFILE \<and> bslot bn \<noteq> NDIRECT"
  by (auto simp: bslot_def layout_defs)

lemma bslot_inj: "bslot a = bslot b \<longleftrightarrow> a = b"
  by (auto simp: bslot_def)

text \<open>Replacing the data of one block of the file.\<close>

lemma write_block:
  assumes "fs_ok i s" and "bn < MAXFILE" and "islot s (get_ip s i) (bslot bn) = b" and "b \<noteq> 0"
    and "fsteps r ((fview s)(b := d)) s t"
  shows "evolves 0 r i s t"
    and "x < MAXFILE * BSIZE \<Longrightarrow> bytes i t x = (if x div BSIZE = bn then d (x mod BSIZE) else bytes i s x)"
proof -
  let ?ip = "get_ip s i"
  note t = stepsD [OF assms(5)] and k = bslot_le [OF assms(2)]
  have ok: "disk_ok s" "file_ok s ?ip" "i < length (icache s)" using assms(1) by (auto simp: fs_ok_def)
  note f = file_okD [OF ok(2)]
  have b: "b \<in> good s" "b \<in> owned s ?ip" using f(2) k assms(3,4) by (auto simp: owned_def)
  have ind: "ip_addrs ?ip ! NDIRECT \<noteq> b"
    using f(3) [of "bslot bn" NDIRECT] k assms(3,4) by (auto simp: islot_def layout_defs)
  have sl: "islot t ?ip = islot s ?ip" using ind by (simp add: islot_def fun_eq_iff t(1) Let_def)
  have same: "free t = free s" "good t = good s" "disk_ok t = disk_ok s"
    using b(1) t(1,2) by (intro meta_same; auto simp: good_def)+
  have own: "owned t ?ip = owned s ?ip" "file_ok t ?ip = file_ok s ?ip"
    by (simp_all add: owned_def file_ok_def sl same)
  show "evolves 0 r i s t"
    using assms(1) t(4) b(2) by (auto simp: evolves_def fs_ok_def same own t(1-3) sl)
  show "bytes i t x = (if x div BSIZE = bn then d (x mod BSIZE) else bytes i s x)" if x: "x < MAXFILE * BSIZE"
  proof (cases "x div BSIZE = bn")
    case True
    with assms(3,4) show ?thesis by (simp add: content_def t(1,3) sl)
  next
    case False
    have "x div BSIZE < MAXFILE" using x by (simp add: BSIZE_def layout_defs)
    then have "islot s ?ip (bslot (x div BSIZE)) \<noteq> b"
      using f(3) [of "bslot bn"] k bslot_le False assms(3,4) by (metis bslot_inj)
    with False show ?thesis by (simp add: content_def t(1,3) sl Let_def)
  qed
qed

lemma to_int_small: "n < 2 ^ 31 \<Longrightarrow> to_int n = int n"
  by (simp add: to_int_def signed_of_nat signed_take_bit_int_eq_self)

text \<open>The size is one a file can have, and inside the file no block is missing.\<close>

definition dense :: "nat \<Rightarrow> fsys \<Rightarrow> bool" where
  "dense i s \<longleftrightarrow> ip_sz (get_ip s i) \<le> MAXFILE * BSIZE \<and>
     (\<forall>x < ip_sz (get_ip s i). islot s (get_ip s i) (bslot (x div BSIZE)) \<noteq> 0)"

lemma bmap_found:
  assumes "bn < MAXFILE" and "islot s (get_ip s i) (bslot bn) \<noteq> 0"
  shows "\<exists>t. bmap s i bn = Inr (islot s (get_ip s i) (bslot bn), t) \<and> fsteps 0 (fview s) s t"
proof (cases "bn < NDIRECT")
  case True
  with assms(2) show ?thesis by (intro exI [of _ s]) (auto simp: bmap_def islot_def bslot_def fsteps_def)
next
  case False
  let ?ind = "ip_addrs (get_ip s i) ! NDIRECT"
  obtain t where t: "fs_bread s ?ind = (fview s ?ind, t)" "fsteps 0 (fview s) s t" using fs_bread_steps by blast
  have sl: "islot s (get_ip s i) (bslot bn) = unat (get32 (fview s ?ind) (4 * (bn - NDIRECT)))" "?ind \<noteq> 0"
    using assms(2) False by (auto simp: islot_def bslot_def Let_def split: if_splits)
  have "bn - NDIRECT < NINDIRECT" using assms(1) False by (simp add: layout_defs)
  with sl assms(2) t False show ?thesis by (intro exI [of _ t]) (simp add: bmap_def Let_def)
qed

lemma steps_same:
  assumes "fsteps 0 (fview s) s t"
  shows "fview t = fview s" "icache t = icache s" "islot t = islot s"
  using stepsD(1,3) [OF assms] by (auto simp: islot_def fun_eq_iff [where g = "islot s"] Let_def)

lemma readi_loop_ok:
  assumes "\<And>x. off \<le> x \<Longrightarrow> x < off + (n - tot) \<Longrightarrow> islot s (get_ip s i) (bslot (x div BSIZE)) \<noteq> 0"
    and "off + (n - tot) \<le> MAXFILE * BSIZE"
  shows "\<exists>t. readi_loop i tot n off dst s = Inr (dst @ map (bytes i s) [off..<off + (n - tot)], t) \<and> fsteps 0 (fview s) s t"
  using assms
proof (induction i tot n off dst s rule: readi_loop.induct)
  case (1 i tot n off dst s)
  show ?case
  proof (cases "tot < n")
    case False
    then show ?thesis by (intro exI [of _ s]) (simp add: readi_loop.simps fsteps_def)
  next
    case True
    define bn where "bn = off div BSIZE"
    define b where "b = islot s (get_ip s i) (bslot bn)"
    define m where "m = min (n - tot) (BSIZE - off mod BSIZE)"
    have bn: "bn < MAXFILE" using True "1.prems"(2) by (simp add: bn_def BSIZE_def layout_defs)
    have b: "b \<noteq> 0" using "1.prems"(1) [of off] True by (simp add: b_def bn_def)
    obtain t where t: "bmap s i bn = Inr (b, t)" "fsteps 0 (fview s) s t"
      using bmap_found [OF bn, of s i] b by (auto simp: b_def)
    obtain u where u: "fs_bread t b = (fview t b, u)" "fsteps 0 (fview t) t u" using fs_bread_steps by blast
    have su: "fsteps 0 (fview s) s u" using steps_bread [OF t(2) u(2)] steps_same(1) [OF t(2)] by simp
    note same = steps_same [OF su]
    have m: "tot + m \<le> n" "m \<le> BSIZE - off mod BSIZE" using True by (auto simp: m_def)
    have "map (bytes i s) [off..<off + m] = map (fview s b) [off mod BSIZE..<off mod BSIZE + m]"
    proof (rule nth_equalityI)
      fix k
      assume "k < length (map (bytes i s) [off..<off + m])"
      then show "map (bytes i s) [off..<off + m] ! k = map (fview s b) [off mod BSIZE..<off mod BSIZE + m] ! k"
        using same_block [of off "off + k" m] m(2) b by (simp add: content_def b_def bn_def)
    qed simp
    moreover have "[off..<off + (n - tot)] = [off..<off + m] @ [off + m..<off + (n - tot)]"
      using m(1) upt_add_eq_append [of off "off + m" "n - tot - m"] by simp
    moreover have "off + m + (n - (tot + m)) = off + (n - tot)" using m(1) by simp
    ultimately have bytes: "dst @ map (bytes i s) [off..<off + (n - tot)] =
      (dst @ map (fview s b) [off mod BSIZE..<off mod BSIZE + m]) @
        map (bytes i s) [off + m..<off + m + (n - (tot + m))]"
      by (simp only: map_append append_assoc)
    have bu: "bytes i u = bytes i s" by (simp add: content_def fun_eq_iff same Let_def)
    have "\<exists>v. readi_loop i (tot + m) n (off + m) (dst @ map (fview t b) [off mod BSIZE..<off mod BSIZE + m]) u =
      Inr ((dst @ map (fview t b) [off mod BSIZE..<off mod BSIZE + m]) @
        map (bytes i u) [off + m..<off + m + (n - (tot + m))], v) \<and> fsteps 0 (fview u) u v"
      by (rule "1.IH" [OF True t(1) [unfolded bn_def] refl refl u(1) [symmetric] m_def])
        (use "1.prems" m same in auto)
    then obtain v where v: "readi_loop i (tot + m) n (off + m) (dst @ map (fview s b) [off mod BSIZE..<off mod BSIZE + m]) u =
      Inr (dst @ map (bytes i s) [off..<off + (n - tot)], v)" "fsteps 0 (fview u) u v"
      unfolding bytes bu steps_same(1) [OF t(2)] by blast
    have "readi_loop i tot n off dst s = Inr (dst @ map (bytes i s) [off..<off + (n - tot)], v)"
      using True t(1) u(1) v(1) steps_same(1) [OF t(2)]
      by (subst readi_loop.simps) (simp add: bn_def [symmetric] m_def [symmetric] Let_def)
    moreover have "fsteps 0 (fview s) s v" using steps_bread [OF su v(2)] same(1) by simp
    ultimately show ?thesis by (intro exI conjI)
  qed
qed

lemma writei_step:
  assumes "fs_ok i s" and "bn = off div BSIZE" and "bn < MAXFILE" and "room 6 s" and "2 \<le> card (free s)"
    and "m \<le> BSIZE - off mod BSIZE" and "0 < m" and "tot + m \<le> length src"
  shows "\<exists>b t u v. bmap s i bn = Inr (b, t) \<and> fs_bread t b = (fview t b, u) \<and>
    fs_log_write u b (\<lambda>k. if off mod BSIZE \<le> k \<and> k < off mod BSIZE + m
       then src ! (tot + (k - off mod BSIZE)) else fview t b k) = Inr v \<and>
    evolves 2 6 i s v \<and> islot v (get_ip v i) (bslot bn) \<noteq> 0 \<and>
    (\<forall>x < MAXFILE * BSIZE. bytes i v x = (if off \<le> x \<and> x < off + m then src ! (tot + (x - off)) else bytes i s x))"
proof -
  have r5: "room 5 s" using assms(4) by (rule room_mono) simp
  obtain b t where t: "bmap s i bn = Inr (b, t)" "fgrown 2 5 i s t" "b \<noteq> 0" "islot t (get_ip t i) (bslot bn) = b"
    using bmap_ok [OF assms(1,3) r5 assms(5)] by blast
  note e = evolvesD [OF grownD [OF t(2)]]
  obtain u where u: "fs_bread t b = (fview t b, u)" "fsteps 0 (fview t) t u" using fs_bread_steps by blast
  have "room (1 + 5) s" using assms(4) by simp
  then have "room 1 t" by (rule e(4))
  then have r1: "room (Suc 0) u" using stepsD(4) [OF u(2), of 1] by simp
  define d where "d = (\<lambda>k. if off mod BSIZE \<le> k \<and> k < off mod BSIZE + m
       then src ! (tot + (k - off mod BSIZE)) else fview t b k)"
  obtain v where v: "fs_log_write u b d = Inr v" "fsteps 1 ((fview u)(b := d)) u v"
    using fs_log_write_steps [OF r1] by blast
  have tv: "fsteps 1 ((fview t)(b := d)) t v"
    using steps_bread [OF u(2) v(2)] stepsD(1) [OF u(2)] by simp
  note wb = write_block [OF e(1) assms(3) t(4,3) tv]
  have ev: "evolves (2 + 0) (5 + 1) i s v" by (rule evolves_trans [OF grownD [OF t(2)] wb(1)])
  have "islot v (get_ip v i) (bslot bn) = b"
    using wb(1) t(3,4) bslot_le [OF assms(3)] by (auto simp: evolves_def)
  moreover have "bytes i v x = (if off \<le> x \<and> x < off + m then src ! (tot + (x - off)) else bytes i s x)"
    if x: "x < MAXFILE * BSIZE" for x
  proof (cases "x div BSIZE = bn")
    case True
    have "fview t b (x mod BSIZE) = bytes i t x" using t(3,4) True by (simp add: content_def)
    also have "\<dots> = bytes i s x" using t(2) x by (simp add: fgrown_def)
    finally show ?thesis
      using wb(2) [OF x] True block_span [of x off m] assms(2,6) by (auto simp: d_def)
  next
    case False
    then have "\<not> (off \<le> x \<and> x < off + m)" using same_block(1) [of off x m] assms(2,6) by auto
    with False wb(2) [OF x] t(2) x show ?thesis by (auto simp: fgrown_def)
  qed
  moreover have "evolves 2 6 i s v" using ev by simp
  ultimately show ?thesis using t(1,3) u(1) v(1) unfolding d_def
    by (intro exI [of _ b] exI [of _ t] exI [of _ u] exI [of _ v] conjI) auto
qed

lemma writei_loop_ok:
  assumes "fs_ok i s" and "off + (length src - tot) \<le> MAXFILE * BSIZE"
    and "room (6 * nblk off (length src - tot)) s" and "2 * nblk off (length src - tot) \<le> card (free s)"
  shows "\<exists>t. writei_loop i tot src off s = Inr (off + (length src - tot), t) \<and>
    evolves (2 * nblk off (length src - tot)) (6 * nblk off (length src - tot)) i s t \<and>
    (\<forall>x < MAXFILE * BSIZE. bytes i t x =
       (if off \<le> x \<and> x < off + (length src - tot) then src ! (tot + (x - off)) else bytes i s x)) \<and>
    (\<forall>x. off \<le> x \<longrightarrow> x < off + (length src - tot) \<longrightarrow> islot t (get_ip t i) (bslot (x div BSIZE)) \<noteq> 0)"
  using assms
proof (induction i tot src off s rule: writei_loop.induct)
  case (1 i tot src off s)
  show ?case
  proof (cases "tot < length src")
    case False
    then show ?thesis
      using grownD [OF grown_self [OF "1.prems"(1)]] by (intro exI [of _ s]) (auto simp: writei_loop.simps nblk_def)
  next
    case True
    define n where "n = length src - tot"
    define m where "m = min n (BSIZE - off mod BSIZE)"
    define bn where "bn = off div BSIZE"
    define q where "q = nblk (off + m) (n - m)"
    have md: "off mod BSIZE < BSIZE" by (simp add: BSIZE_def)
    have n: "0 < n" "0 < m" "m \<le> n" "m \<le> BSIZE - off mod BSIZE" "tot + m \<le> length src" "length src - (tot + m) = n - m"
      using True md by (auto simp: n_def m_def)
    have bn: "bn < MAXFILE" using n(1) "1.prems"(2) by (simp add: bn_def n_def BSIZE_def layout_defs)
    have q: "Suc q \<le> nblk off n" unfolding q_def by (rule nblk_step [OF n(1) m_def])
    note pre = "1.prems" [folded n_def]
    have r6: "room 6 s" using room_mono [OF pre(3), of 6] q by simp
    have f2: "2 \<le> card (free s)" using pre(4) q by simp
    obtain b t u v where st: "bmap s i bn = Inr (b, t)" "fs_bread t b = (fview t b, u)"
      "fs_log_write u b (\<lambda>k. if off mod BSIZE \<le> k \<and> k < off mod BSIZE + m
       then src ! (tot + (k - off mod BSIZE)) else fview t b k) = Inr v"
      "evolves 2 6 i s v" "islot v (get_ip v i) (bslot bn) \<noteq> 0"
      "\<forall>x < MAXFILE * BSIZE. bytes i v x = (if off \<le> x \<and> x < off + m then src ! (tot + (x - off)) else bytes i s x)"
      using writei_step [OF pre(1) bn_def bn r6 f2 n(4,2,5)] by blast
    note e = evolvesD [OF st(4)]
    have "room (6 * q + 6) s" by (rule room_mono [OF pre(3)]) (use q in simp)
    then have rq: "room (6 * q) v" by (rule e(4))
    have fq: "2 * q \<le> card (free v)" using e(3) pre(4) q by simp
    have "\<exists>w. writei_loop i (tot + m) src (off + m) v = Inr (off + m + (length src - (tot + m)), w) \<and>
      evolves (2 * nblk (off + m) (length src - (tot + m))) (6 * nblk (off + m) (length src - (tot + m))) i v w \<and>
      (\<forall>x < MAXFILE * BSIZE. bytes i w x = (if off + m \<le> x \<and> x < off + m + (length src - (tot + m))
         then src ! (tot + m + (x - (off + m))) else bytes i v x)) \<and>
      (\<forall>x. off + m \<le> x \<longrightarrow> x < off + m + (length src - (tot + m)) \<longrightarrow> islot w (get_ip w i) (bslot (x div BSIZE)) \<noteq> 0)"
      by (rule "1.IH" [OF True st(1) [unfolded bn_def] refl refl st(2) [symmetric] m_def [unfolded n_def] st(3) e(1)])
        (use n pre(2) rq fq in \<open>simp_all add: q_def\<close>)
    then obtain w where w: "writei_loop i (tot + m) src (off + m) v = Inr (off + n, w)"
      "evolves (2 * q) (6 * q) i v w"
      "\<forall>x < MAXFILE * BSIZE. bytes i w x = (if off + m \<le> x \<and> x < off + n then src ! (tot + m + (x - (off + m))) else bytes i v x)"
      "\<forall>x. off + m \<le> x \<longrightarrow> x < off + n \<longrightarrow> islot w (get_ip w i) (bslot (x div BSIZE)) \<noteq> 0"
      using n(3,6) by (auto simp: q_def)
    have "writei_loop i tot src off s = Inr (off + n, w)"
      using True st(1-3) w(1)
      by (subst writei_loop.simps) (simp add: bn_def [symmetric] n_def [symmetric] m_def [symmetric] Let_def)
    moreover have "evolves (2 * nblk off n) (6 * nblk off n) i s w"
      by (rule evolves_mono [OF evolves_trans [OF st(4) w(2)]]) (use q in auto)
    moreover have "bytes i w x = (if off \<le> x \<and> x < off + n then src ! (tot + (x - off)) else bytes i s x)"
      if "x < MAXFILE * BSIZE" for x
      using w(3) st(6) that n(3) by auto
    moreover have "islot w (get_ip w i) (bslot (x div BSIZE)) \<noteq> 0" if "off \<le> x" "x < off + n" for x
    proof (cases "x < off + m")
      case True
      then have "x div BSIZE = bn" using same_block(1) that n(4) by (simp add: bn_def)
      then show ?thesis using st(5) w(2) bslot_le [OF bn] by (simp add: evolves_def)
    next
      case False
      with w(4) that show ?thesis by simp
    qed
    ultimately show ?thesis unfolding n_def [symmetric] by (intro exI [of _ w] conjI) auto
  qed
qed

text \<open>Writing an inode block leaves the contents of files alone.\<close>

lemma inode_block_meta:
  assumes "disk_ok s" and "inum < sb_ninodes (sb s)"
  shows "IBLOCK inum (sb s) \<in> meta (sb s)" and "IBLOCK inum (sb s) < sb_bmapstart (sb s)"
proof -
  have "inum div IPB \<le> sb_ninodes (sb s) div IPB" using assms(2) by (intro div_le_mono) simp
  with assms(1) show "IBLOCK inum (sb s) \<in> meta (sb s)" "IBLOCK inum (sb s) < sb_bmapstart (sb s)"
    by (auto simp: IBLOCK_def meta_def disk_ok_def)
qed

lemma meta_write:
  assumes "fs_ok i s" and "b \<in> meta (sb s)" and "b < sb_bmapstart (sb s)" and "fsteps r ((fview s)(b := d)) s t"
  shows "fs_ok i t" and "good t = good s" and "k \<le> MAXFILE \<Longrightarrow> islot t (get_ip t i) k = islot s (get_ip s i) k"
    and "c \<in> good s \<Longrightarrow> fview t c = fview s c" and "x < MAXFILE * BSIZE \<Longrightarrow> bytes i t x = bytes i s x"
proof -
  let ?ip = "get_ip s i"
  note t = stepsD [OF assms(4)]
  have ok: "disk_ok s" "file_ok s ?ip" "i < length (icache s)" using assms(1) by (auto simp: fs_ok_def)
  show v: "fview t c = fview s c" if "c \<in> good s" for c using that assms(2) by (auto simp: t(1) good_def)
  have same: "free t = free s" "good t = good s" "disk_ok t = disk_ok s"
    using assms(3) t(1,2) by (intro meta_same; auto)+
  show "good t = good s" by (rule same(2))
  note f = file_okD [OF ok(2)]
  have "ip_addrs ?ip ! NDIRECT \<in> good s" if "ip_addrs ?ip ! NDIRECT \<noteq> 0"
    using f(2) [of NDIRECT] that by (simp add: islot_def layout_defs)
  then have sl: "islot t ?ip k = islot s ?ip k" for k using v by (auto simp: islot_def Let_def)
  then show "islot t (get_ip t i) k = islot s ?ip k" for k by (simp add: t(3))
  have "owned t ?ip = owned s ?ip" "file_ok t ?ip = file_ok s ?ip" by (simp_all add: owned_def file_ok_def sl same)
  with ok show "fs_ok i t" by (simp add: fs_ok_def t(3) same)
  show "bytes i t x = bytes i s x" if "x < MAXFILE * BSIZE"
  proof -
    have "x div BSIZE < MAXFILE" using that by (simp add: layout_defs)
    then have "islot s ?ip (bslot (x div BSIZE)) \<in> good s" if "islot s ?ip (bslot (x div BSIZE)) \<noteq> 0"
      using that f(2) bslot_le by blast
    then show ?thesis using v by (auto simp: content_def t(3) sl Let_def)
  qed
qed

lemma iupdate_ok:
  assumes "room 1 s"
  shows "\<exists>t. iupdate s i = Inr t \<and>
    fsteps 1 ((fview s)(IBLOCK (ip_inum (get_ip s i)) (sb s) := put_dinode (fview s (IBLOCK (ip_inum (get_ip s i)) (sb s))) (get_ip s i))) s t"
proof -
  let ?b = "IBLOCK (ip_inum (get_ip s i)) (sb s)"
  obtain t where t: "fs_bread s ?b = (fview s ?b, t)" "fsteps 0 (fview s) s t" using fs_bread_steps by blast
  have "room (Suc 0) t" using stepsD(4) [OF t(2), of 1] assms by simp
  then obtain u where u: "fs_log_write t ?b (put_dinode (fview s ?b) (get_ip s i)) = Inr u"
    "fsteps 1 ((fview t)(?b := put_dinode (fview s ?b) (get_ip s i))) t u"
    using fs_log_write_steps by blast
  then show ?thesis
    using t(1) steps_bread [OF t(2) u(2)] stepsD(1) [OF t(2)] by (intro exI [of _ u]) (simp add: iupdate_def Let_def)
qed

text \<open>The new size of the inode.\<close>

lemma set_size_ok:
  assumes "fs_ok i s" and "ip_inum (get_ip s i) < sb_ninodes (sb s)" and "room 1 s"
  shows "\<exists>t. iupdate (set_ip s i (get_ip s i \<lparr> ip_sz := z \<rparr>)) i = Inr t \<and> fs_ok i t \<and> good t = good s \<and>
    icache t = (icache s)[i := get_ip s i \<lparr> ip_sz := z \<rparr>] \<and>
    (\<forall>k \<le> MAXFILE. islot t (get_ip t i) k = islot s (get_ip s i) k) \<and>
    (\<forall>b \<in> good s. fview t b = fview s b) \<and> (\<forall>x < MAXFILE * BSIZE. bytes i t x = bytes i s x)"
proof -
  define u where "u = set_ip s i (get_ip s i \<lparr> ip_sz := z \<rparr>)"
  have i: "i < length (icache s)" using assms(1) by (simp add: fs_ok_def)
  have ip: "get_ip u i = get_ip s i \<lparr> ip_sz := z \<rparr>" "icache u = (icache s)[i := get_ip s i \<lparr> ip_sz := z \<rparr>]"
    using i by (simp_all add: u_def set_ip_def)
  have vu: "fview u = fview s" "sb u = sb s" "good u = good s" "disk_ok u = disk_ok s" by (simp_all add: u_def)
  have slu: "islot u (get_ip u i) = islot s (get_ip s i)"
    by (simp add: fun_eq_iff islot_def ip(1) vu Let_def)
  have ow: "owned u (get_ip u i) = owned s (get_ip s i)" by (simp add: owned_def slu)
  have bu: "bytes i u = bytes i s" by (simp add: fun_eq_iff content_def slu vu Let_def)
  have "file_ok u (get_ip u i)"
    using assms(1) by (simp add: fs_ok_def file_ok_def slu ow vu) (simp add: ip)
  then have ok: "fs_ok i u" using assms(1) by (simp add: fs_ok_def vu ip(2))
  have "room 1 u" using assms(3) by (simp add: u_def)
  then obtain t where t: "iupdate u i = Inr t"
    "fsteps 1 ((fview u)(IBLOCK (ip_inum (get_ip u i)) (sb u) := put_dinode (fview u (IBLOCK (ip_inum (get_ip u i)) (sb u))) (get_ip u i))) u t"
    using iupdate_ok by blast
  have du: "disk_ok u" "ip_inum (get_ip u i) < sb_ninodes (sb u)" using ok assms(2) by (simp_all add: fs_ok_def ip vu)
  note mw = meta_write [OF ok inode_block_meta [OF du] t(2)]
  have "icache t = (icache s)[i := get_ip s i \<lparr> ip_sz := z \<rparr>]" using stepsD(3) [OF t(2)] ip(2) by simp
  then show ?thesis
    using t(1) mw slu bu vu by (intro exI [of _ t]) (simp add: u_def [symmetric])
qed

text \<open>C2: \<open>writei\<close> is a write to the array of bytes the file is: with space on the disk and in the
  log it returns the number of bytes, the file then has the new bytes at the offset and the old ones
  elsewhere, its size is the larger of the old one and the end of the write, no block inside it is
  missing, and every other inode and every block in use that is not the file's own stays as it was.\<close>

theorem writei_writes:
  assumes "fs_ok i s" and "dense i s" and "ip_type (get_ip s i) \<noteq> T_DEV" and "ip_inum (get_ip s i) < sb_ninodes (sb s)"
    and "off \<le> ip_sz (get_ip s i)" and "off + length src \<le> MAXFILE * BSIZE"
    and "room (6 * nblk off (length src) + 1) s" and "2 * nblk off (length src) \<le> card (free s)"
  shows "\<exists>t. writei dv s i src off = Inr (int (length src), t) \<and> fs_ok i t \<and> dense i t \<and>
    ip_sz (get_ip t i) = max (ip_sz (get_ip s i)) (off + length src) \<and>
    (\<forall>x < MAXFILE * BSIZE. bytes i t x =
       (if off \<le> x \<and> x < off + length src then src ! (x - off) else bytes i s x)) \<and>
    (\<forall>j. j \<noteq> i \<longrightarrow> get_ip t j = get_ip s j) \<and> (\<forall>b \<in> good s - owned_by i s. b \<in> good t \<and> fview t b = fview s b)"
proof -
  let ?n = "length src"
  have r: "room (6 * nblk off ?n) s" using assms(7) by (rule room_mono) simp
  obtain t where t: "writei_loop i 0 src off s = Inr (off + ?n, t)"
    "evolves (2 * nblk off ?n) (6 * nblk off ?n) i s t"
    "\<forall>x < MAXFILE * BSIZE. bytes i t x = (if off \<le> x \<and> x < off + ?n then src ! (x - off) else bytes i s x)"
    "\<forall>x. off \<le> x \<longrightarrow> x < off + ?n \<longrightarrow> islot t (get_ip t i) (bslot (x div BSIZE)) \<noteq> 0"
    using writei_loop_ok [OF assms(1), of off src 0] assms(6,8) r by auto
  note e = evolvesD [OF t(2)] and ip = evolves_ip [OF t(2) assms(1)]
  have oth: "get_ip t j = get_ip s j" if "j \<noteq> i" for j
  proof -
    have "icache t = (icache s)[i := get_ip s i \<lparr> ip_addrs := ip_addrs (get_ip t i) \<rparr>]" using t(2) by (simp add: evolves_def)
    then show ?thesis using that by (metis nth_list_update_neq)
  qed
  have sz: "ip_sz (get_ip t i) = ip_sz (get_ip s i)" "ip_inum (get_ip t i) = ip_inum (get_ip s i)"
    by (subst ip, simp)+
  have lim: "(off + ?n) mod 2 ^ 32 = off + ?n" "to_int ?n = int ?n"
    using assms(6) by (simp_all add: layout_defs to_int_small)
  have slots: "islot t (get_ip t i) (bslot (x div BSIZE)) \<noteq> 0" if "x < max (ip_sz (get_ip s i)) (off + ?n)" "x < MAXFILE * BSIZE" for x
  proof (cases "x < ip_sz (get_ip s i)")
    case True
    have "bslot (x div BSIZE) \<le> MAXFILE" using that(2) bslot_le by (simp add: layout_defs)
    with True assms(2) t(2) show ?thesis by (simp add: evolves_def dense_def)
  next
    case False
    with that assms(5) t(4) show ?thesis by simp
  qed
  have w: "writei dv s i src off = bindR (if 0 < ?n \<and> off + ?n > ip_sz (get_ip t i)
      then iupdate (set_ip t i (get_ip t i \<lparr> ip_sz := off + ?n \<rparr>)) i else Inr t) (\<lambda>s. Inr (int ?n, s))"
    using assms(3,5,6) t(1) lim by (simp add: writei_def Let_def)
  show ?thesis
  proof (cases "0 < ?n \<and> off + ?n > ip_sz (get_ip t i)")
    case False
    have m: "max (ip_sz (get_ip s i)) (off + ?n) = ip_sz (get_ip s i)" using False assms(5) sz by auto
    have "dense i t" using slots m assms(2) by (simp add: dense_def sz)
    moreover have "writei dv s i src off = Inr (int ?n, t)" unfolding w if_not_P [OF False] by simp
    ultimately show ?thesis
      using e t(3) oth sz m by (intro exI [of _ t]) auto
  next
    case True
    have inum: "ip_inum (get_ip t i) < sb_ninodes (sb t)" using assms(4) sz e(2) by simp
    have "room (1 + 6 * nblk off ?n) s" using assms(7) by (simp add: add.commute)
    then have r1: "room 1 t" by (rule e(4))
    obtain u where u: "iupdate (set_ip t i (get_ip t i \<lparr> ip_sz := off + ?n \<rparr>)) i = Inr u" "fs_ok i u" "good u = good t"
      "icache u = (icache t)[i := get_ip t i \<lparr> ip_sz := off + ?n \<rparr>]"
      "\<forall>k \<le> MAXFILE. islot u (get_ip u i) k = islot t (get_ip t i) k"
      "\<forall>b \<in> good t. fview u b = fview t b" "\<forall>x < MAXFILE * BSIZE. bytes i u x = bytes i t x"
      using set_size_ok [OF e(1) inum r1] by blast
    have ipu: "get_ip u i = get_ip t i \<lparr> ip_sz := off + ?n \<rparr>" "\<And>j. j \<noteq> i \<Longrightarrow> get_ip u j = get_ip t j"
      using u(4) e(1) by (auto simp: fs_ok_def)
    have m: "max (ip_sz (get_ip s i)) (off + ?n) = off + ?n" using True sz by simp
    have szu: "ip_sz (get_ip u i) = off + ?n" by (simp add: ipu(1))
    have "islot u (get_ip u i) (bslot (x div BSIZE)) \<noteq> 0" if "x < off + ?n" for x
    proof -
      have x: "x < MAXFILE * BSIZE" using that assms(6) by simp
      then have "bslot (x div BSIZE) \<le> MAXFILE" using bslot_le by (simp add: layout_defs)
      then have "islot u (get_ip u i) (bslot (x div BSIZE)) = islot t (get_ip t i) (bslot (x div BSIZE))" using u(5) by blast
      with slots [of x] that x m show ?thesis by simp
    qed
    then have "dense i u" using assms(6) by (simp add: dense_def szu)
    moreover have "writei dv s i src off = Inr (int ?n, u)" unfolding w if_P [OF True] u(1) by simp
    moreover have "bytes i u x = (if off \<le> x \<and> x < off + ?n then src ! (x - off) else bytes i s x)" if "x < MAXFILE * BSIZE" for x
      using u(7) t(3) that by simp
    moreover have "b \<in> good u \<and> fview u b = fview s b" if "b \<in> good s - owned_by i s" for b
      using that e(5,6) u(3,6) by auto
    ultimately show ?thesis
      using u(2) szu m oth ipu(2) by (intro exI [of _ u] conjI) simp_all
  qed
qed

text \<open>C16: \<open>readi\<close> reads from that array: it returns as many bytes as were asked for, or as there are
  up to the end of the file, and they are the bytes of the file from the offset on; nothing changes.\<close>

theorem readi_reads:
  assumes "dense i s" and "ip_type (get_ip s i) \<noteq> T_DEV" and "off \<le> ip_sz (get_ip s i)" and "off + n < 2 ^ 32"
  shows "\<exists>t. readi dv s i off n =
      Inr (int (min n (ip_sz (get_ip s i) - off)), map (bytes i s) [off..<off + min n (ip_sz (get_ip s i) - off)], t) \<and>
    fview t = fview s \<and> icache t = icache s"
proof -
  let ?k = "min n (ip_sz (get_ip s i) - off)"
  have sz: "ip_sz (get_ip s i) \<le> MAXFILE * BSIZE" using assms(1) by (simp add: dense_def)
  have k: "(if off + n > ip_sz (get_ip s i) then ip_sz (get_ip s i) - off else n) = ?k" by auto
  have "off + ?k \<le> ip_sz (get_ip s i)" using assms(3) by simp
  then have "\<exists>t. readi_loop i 0 ?k off [] s = Inr ([] @ map (bytes i s) [off..<off + (?k - 0)], t) \<and> fsteps 0 (fview s) s t"
    by (intro readi_loop_ok) (use assms(1) sz in \<open>auto simp: dense_def\<close>)
  then obtain t where t: "readi_loop i 0 ?k off [] s = Inr (map (bytes i s) [off..<off + ?k], t)" "fsteps 0 (fview s) s t"
    by auto
  have "?k \<le> 71680" using sz by (auto simp: layout_defs min_def)
  then have "to_int ?k = int ?k" by (intro to_int_small) (rule le_less_trans, assumption, simp)
  moreover have "\<not> (off > ip_sz (get_ip s i) \<or> (off + n) mod 2 ^ 32 < off)" using assms(3,4) by simp
  ultimately have "readi dv s i off n = Inr (int ?k, map (bytes i s) [off..<off + ?k], t)"
    using assms(2) t(1) unfolding readi_def Let_def k by (simp del: upt_Suc of_nat_min)
  with steps_same(1,2) [OF t(2)] show ?thesis by (intro exI conjI)
qed

text \<open>A disk as \<open>mkfs\<close> lays it out, with an empty file and with one of a single block.\<close>

definition sample_lg :: lsys where
  "sample_lg = \<lparr> disk = (\<lambda>b a. if b = 58 then if a < 7 then 255 else if a = 7 then 15 else 0 else if a = 0 then 42 else 0),
     cache = Map.empty, writes = [], dirty = {}, start = 2, lsize = 30, outstanding = 1, committing = False,
     lh_n = 0, lh_block = replicate 30 0 \<rparr>"

definition sample_fs :: "nat \<Rightarrow> nat list \<Rightarrow> fsys" where
  "sample_fs z A = \<lparr> lg = sample_lg,
     sb = \<lparr> sb_size = 1000, sb_nblocks = 941, sb_ninodes = 200, sb_nlog = 30, sb_logstart = 2, sb_inodestart = 32,
       sb_bmapstart = 58 \<rparr>,
     icache = [\<lparr> ip_dev = 1, ip_inum = 2, ip_ref = 1, ip_lock = True, ip_valid = True, ip_type = T_FILE, ip_major = 0,
       ip_minor = 0, ip_nlink = 1, ip_sz = z, ip_addrs = A \<rparr>] \<rparr>"

lemma sample_fields [simp]:
  "sb_size (sb (sample_fs z A)) = 1000" "sb_ninodes (sb (sample_fs z A)) = 200" "sb_inodestart (sb (sample_fs z A)) = 32"
  "sb_bmapstart (sb (sample_fs z A)) = 58" "length (icache (sample_fs z A)) = 1" "ip_addrs (get_ip (sample_fs z A) 0) = A"
  "ip_sz (get_ip (sample_fs z A) 0) = z" "ip_type (get_ip (sample_fs z A) 0) = T_FILE" "ip_inum (get_ip (sample_fs z A) 0) = 2"
  by (simp_all add: sample_fs_def)

lemma sample_view: "fview (sample_fs z A) = disk sample_lg"
  by (simp add: fun_eq_iff fview_def view_def bread_def sample_fs_def) (simp add: sample_lg_def)

lemma sample_used: "b < 1000 \<Longrightarrow> used (sample_fs z A) b \<longleftrightarrow> b < 60"
proof -
  assume b: "b < 1000"
  have 7: "bit (15 :: u8) k \<longleftrightarrow> k < 4" for k
  proof -
    have "(15 :: u8) = Bit_Operations.mask 4" by (simp add: mask_eq_exp_minus_1)
    then show ?thesis by (simp only: bit_mask_iff) auto
  qed
  have 255: "bit (255 :: u8) k" if "k < 8" for k
  proof -
    have "(255 :: u8) = Bit_Operations.mask 8" by (simp add: mask_eq_exp_minus_1)
    then show ?thesis using that by (simp only: bit_mask_iff) auto
  qed
  have "used (sample_fs z A) b \<longleftrightarrow> bit (if b div 8 < 7 then 255 else if b div 8 = 7 then 15 else 0 :: u8) (b mod 8)"
    using b by (simp add: used_def sample_view map_bit_bit BBLOCK_def BPB_def) (simp add: sample_lg_def)
  also have "\<dots> \<longleftrightarrow> b < 60"
  proof -
    consider "b div 8 < 7" | "b div 8 = 7" | "b div 8 > 7" by linarith
    then show ?thesis
    proof cases
      case 1
      then have "b < 60" by linarith
      with 1 show ?thesis using 255 by simp
    next
      case 2
      have "b = 56 + b mod 8" using 2 div_mult_mod_eq [of b 8] by linarith
      then have "b mod 8 < 4 \<longleftrightarrow> b < 60" by linarith
      with 2 show ?thesis using 7 [of "b mod 8"] by simp
    next
      case 3
      then have "\<not> b < 60" by linarith
      with 3 show ?thesis by simp
    qed
  qed
  finally show ?thesis .
qed

lemma sample_free: "free (sample_fs z A) = {60..<1000}"
  using sample_used by (auto simp: free_def)

lemma sample_meta: "meta (sb (sample_fs z A)) = {0} \<union> {58} \<union> {32..57}"
  by (auto simp: meta_def BPB_def IPB_def)

lemma sample_ok:
  assumes "A = a # replicate 12 0" and "a = 0 \<or> a = 59"
  shows "fs_ok 0 (sample_fs z A)"
proof -
  have d: "disk_ok (sample_fs z A)"
    unfolding disk_ok_def sample_free sample_meta by (auto simp: IPB_def)
  have sl: "islot (sample_fs z A) (get_ip (sample_fs z A) 0) k = (if k = 0 then a else 0)" if "k \<le> MAXFILE" for k
    using that by (auto simp: islot_def assms(1) NDIRECT_def nth_Cons' simp del: replicate_numeral)
  have "59 \<in> good (sample_fs z A)"
    using sample_used [of 59 z A] by (simp add: good_def sample_meta)
  then have "owned_by 0 (sample_fs z A) \<subseteq> good (sample_fs z A)" using assms(2) by (auto simp: owned_def sl)
  then have "file_ok (sample_fs z A) (get_ip (sample_fs z A) 0)"
    using sl by (auto simp: file_ok_def split: if_splits) (simp add: assms(1) NDIRECT_def)
  with d show ?thesis by (simp add: fs_ok_def)
qed

lemma sample_room: "k \<le> 29 \<Longrightarrow> room k (sample_fs z A)"
  by (simp add: room_def sample_fs_def sample_lg_def LOGSIZE_def del: replicate_numeral)

theorem writei_writes_witness:
  "\<exists>t. writei \<lparr> dev_read = Map.empty, dev_write = Map.empty \<rparr> (sample_fs 0 (replicate 13 0)) 0 [7, 8, 9] 0 = Inr (3, t) \<and>
    ip_sz (get_ip t 0) = 3 \<and> bytes 0 t 0 = 7 \<and> bytes 0 t 1 = 8 \<and> bytes 0 t 2 = 9 \<and> fview t 59 0 = 42"
proof -
  let ?s = "sample_fs 0 (0 # replicate 12 0)"
  have ok: "fs_ok 0 ?s" by (rule sample_ok [of _ 0]) simp_all
  have nb: "nblk 0 (length [7, 8, 9 :: u8]) = 1" by (simp add: nblk_def BSIZE_def)
  have d: "dense 0 ?s" by (simp add: dense_def)
  have g: "59 \<in> good ?s - owned_by 0 ?s"
    using sample_used [of 59 0 "0 # replicate 12 0"]
    by (auto simp: good_def sample_meta owned_def islot_def NDIRECT_def nth_Cons' Let_def simp del: replicate_numeral split: if_splits)
  have "\<exists>t. writei \<lparr> dev_read = Map.empty, dev_write = Map.empty \<rparr> ?s 0 [7, 8, 9] 0 = Inr (int (length [7, 8, 9 :: u8]), t) \<and>
    fs_ok 0 t \<and> dense 0 t \<and> ip_sz (get_ip t 0) = max (ip_sz (get_ip ?s 0)) (0 + length [7, 8, 9 :: u8]) \<and>
    (\<forall>x < MAXFILE * BSIZE. bytes 0 t x =
       (if 0 \<le> x \<and> x < 0 + length [7, 8, 9 :: u8] then [7, 8, 9] ! (x - 0) else bytes 0 ?s x)) \<and>
    (\<forall>j. j \<noteq> 0 \<longrightarrow> get_ip t j = get_ip ?s j) \<and> (\<forall>b \<in> good ?s - owned_by 0 ?s. b \<in> good t \<and> fview t b = fview ?s b)"
    by (rule writei_writes [OF ok d])
      (unfold nb sample_free, auto intro: sample_room simp: T_FILE_def T_DEV_def layout_defs)
  then obtain t where t: "writei \<lparr> dev_read = Map.empty, dev_write = Map.empty \<rparr> ?s 0 [7, 8, 9] 0 = Inr (3, t)"
    "ip_sz (get_ip t 0) = max (ip_sz (get_ip ?s 0)) 3"
    "\<forall>x < MAXFILE * BSIZE. bytes 0 t x = (if x < 3 then [7, 8, 9] ! x else bytes 0 ?s x)"
    "fview t 59 = fview ?s 59"
    using g by auto
  have "ip_sz (get_ip t 0) = 3" using t(2) by simp
  moreover have "bytes 0 t 0 = 7 \<and> bytes 0 t 1 = 8 \<and> bytes 0 t 2 = 9" using t(3) by (simp add: layout_defs)
  moreover have "fview t 59 0 = 42" unfolding t(4) sample_view by (simp add: sample_lg_def)
  moreover have "replicate 13 0 = 0 # replicate 12 (0 :: nat)" by simp
  ultimately show ?thesis using t(1) by (metis (no_types))
qed

theorem readi_reads_witness:
  "\<exists>t. readi \<lparr> dev_read = Map.empty, dev_write = Map.empty \<rparr> (sample_fs 2 (59 # replicate 12 0)) 0 0 10 = Inr (2, [42, 0], t)"
proof -
  let ?s = "sample_fs 2 (59 # replicate 12 0)"
  have z: "ip_sz (get_ip ?s 0) = 2" by simp
  have sl: "islot ?s (get_ip ?s 0) 0 = 59" by (simp add: islot_def)
  have d: "dense 0 ?s" using sl by (auto simp: dense_def z layout_defs bslot_def)
  have b: "bytes 0 ?s 0 = 42" "bytes 0 ?s 1 = 0"
    using sl by (simp_all add: content_def BSIZE_def bslot_def NDIRECT_def sample_view) (simp_all add: sample_lg_def)
  have "\<exists>t. readi \<lparr> dev_read = Map.empty, dev_write = Map.empty \<rparr> ?s 0 0 10 =
      Inr (int (min 10 (ip_sz (get_ip ?s 0) - 0)), map (bytes 0 ?s) [0..<0 + min 10 (ip_sz (get_ip ?s 0) - 0)], t) \<and>
      fview t = fview ?s \<and> icache t = icache ?s"
    by (rule readi_reads [OF d]) (auto simp: T_FILE_def T_DEV_def)
  then show ?thesis using b by (auto simp: z upt_rec)
qed

end
