(* ===== verification/XvPipe.thy ===== *)
theory XvPipe
  imports Fifo
begin

text \<open>
  The kernel pipe of xv6, \<open>xv6/pipe.c\<close>: the circular buffer with its free-running 32-bit counters,
  and reading and writing with sleeping and waking. The lock makes every call between two sleeps
  atomic, so a call is a function that runs until it returns or goes to sleep.
\<close>

section \<open>The buffer\<close>

definition PIPESIZE :: nat where
  "PIPESIZE = 512"

record pipe =
  data :: "u8 list"
  nread :: u32
  nwrite :: u32
  readopen :: bool
  writeopen :: bool

definition pipe_full :: "pipe \<Rightarrow> bool" where
  "pipe_full p \<longleftrightarrow> nwrite p = nread p + of_nat PIPESIZE"

definition pipe_empty :: "pipe \<Rightarrow> bool" where
  "pipe_empty p \<longleftrightarrow> nread p = nwrite p"

definition pipe_put :: "pipe \<Rightarrow> u8 \<Rightarrow> pipe" where
  "pipe_put p c = p \<lparr> data := (data p)[unat (nwrite p) mod PIPESIZE := c], nwrite := nwrite p + 1 \<rparr>"

definition pipe_get :: "pipe \<Rightarrow> u8 \<times> pipe" where
  "pipe_get p = (data p ! (unat (nread p) mod PIPESIZE), p \<lparr> nread := nread p + 1 \<rparr>)"

text \<open>
  Allocation: the two files and the page, each of which may fail. The files are described by their
  type and mode; on failure what was allocated is given back, as the list of releases.
\<close>

record pipe_file =
  readable :: bool
  writable :: bool

datatype release = Kfree | Fileclose0 | Fileclose1

definition pipealloc :: "bool \<Rightarrow> bool \<Rightarrow> u8 list option \<Rightarrow> (pipe_file \<times> pipe_file \<times> pipe) option \<times> release list" where
  "pipealloc f0 f1 page =
     (if f0 \<and> f1 \<and> page \<noteq> None then
        (Some (\<lparr> readable = True, writable = False \<rparr>, \<lparr> readable = False, writable = True \<rparr>,
           \<lparr> data = take PIPESIZE (the page), nread = 0, nwrite = 0, readopen = True, writeopen = True \<rparr>), [])
      else (None, (if f0 then [Fileclose0] else []) @ (if f0 \<and> f1 then [Fileclose1] else [])))"

text \<open>Who is woken: the sleepers on \<open>nread\<close> are readers, those on \<open>nwrite\<close> writers.\<close>

datatype channel = Nread | Nwrite

text \<open>Closing one end; the page is freed with the second end.\<close>

definition pipeclose :: "pipe \<Rightarrow> bool \<Rightarrow> pipe \<times> channel \<times> bool" where
  "pipeclose p writable_end =
     (let (p, w) = (if writable_end then (p \<lparr> writeopen := False \<rparr>, Nread) else (p \<lparr> readopen := False \<rparr>, Nwrite))
      in (p, w, \<not> readopen p \<and> \<not> writeopen p))"

section \<open>Writing and reading\<close>

text \<open>
  A write with its remaining bytes: it is complete, has failed because nobody will read or the
  process was killed, or sleeps on \<open>nwrite\<close> with bytes left, having woken the readers. Resuming it
  is writing what is left.
\<close>

datatype write_end = W_Done | W_Fail | W_Sleep "u8 list"

fun pipewrite :: "pipe \<Rightarrow> bool \<Rightarrow> u8 list \<Rightarrow> pipe \<times> write_end" where
  "pipewrite p killed [] = (p, W_Done)"
| "pipewrite p killed (c # addr) =
     (if pipe_full p then
        (if \<not> readopen p \<or> killed then (p, W_Fail) else (p, W_Sleep (c # addr)))
      else pipewrite (pipe_put p c) killed addr)"

datatype read_end = R_Done "u8 list" | R_Fail | R_Sleep

fun pipe_copy :: "pipe \<Rightarrow> nat \<Rightarrow> u8 list \<times> pipe" where
  "pipe_copy p 0 = ([], p)"
| "pipe_copy p (Suc n) =
     (if pipe_empty p then ([], p)
      else let (c, p) = pipe_get p; (cs, p) = pipe_copy p n in (c # cs, p))"

definition piperead :: "pipe \<Rightarrow> bool \<Rightarrow> nat \<Rightarrow> pipe \<times> read_end" where
  "piperead p killed n =
     (if pipe_empty p \<and> writeopen p then (p, if killed then R_Fail else R_Sleep)
      else let (cs, p) = pipe_copy p n in (p, R_Done cs))"

section \<open>The pipe is a bounded queue\<close>

text \<open>
  The number of bytes in the pipe is the difference of the counters, also after they have wrapped
  around.
\<close>

definition pipe_count :: "pipe \<Rightarrow> nat" where
  "pipe_count p = unat (nwrite p - nread p)"

definition pipe_inv :: "pipe \<Rightarrow> bool" where
  "pipe_inv p \<longleftrightarrow> length (data p) = PIPESIZE \<and> pipe_count p \<le> PIPESIZE"

definition pipe_items :: "pipe \<Rightarrow> u8 list" where
  "pipe_items p = map (\<lambda>k. data p ! ((unat (nread p) + k) mod PIPESIZE)) [0..<pipe_count p]"

definition pipe_enq :: "pipe \<Rightarrow> u8 \<Rightarrow> pipe option" where
  "pipe_enq p c = (if pipe_full p then None else Some (pipe_put p c))"

definition pipe_deq :: "pipe \<Rightarrow> (u8 \<times> pipe) option" where
  "pipe_deq p = (if pipe_empty p then None else Some (pipe_get p))"

lemma unat_add_mod: "unat (w + v :: u32) mod 512 = (unat w + unat v) mod 512"
proof -
  have "unat (w + v) = (unat w + unat v) mod 2 ^ 32" by (simp add: unat_word_ariths)
  then show ?thesis by (simp add: mod_mod_cancel)
qed

lemma nwrite_mod: "unat (nwrite p) mod 512 = (unat (nread p) + pipe_count p) mod 512"
  using unat_add_mod [of "nread p" "nwrite p - nread p"] by (simp add: pipe_count_def)

lemma slot_inj: "k \<le> n \<Longrightarrow> n < 512 \<Longrightarrow> (r + k) mod 512 = (r + n) mod 512 \<Longrightarrow> k = (n :: nat)"
  using mod_eq_dvd_iff_nat [of "r + k" "r + n" 512] nat_dvd_not_less [of "n - k" 512] by (cases "k = n") auto

lemma full_iff: "pipe_full p \<longleftrightarrow> pipe_count p = PIPESIZE"
proof -
  have "pipe_full p \<longleftrightarrow> nwrite p - nread p = 512" by (auto simp: pipe_full_def PIPESIZE_def algebra_simps)
  also have "\<dots> \<longleftrightarrow> unat (nwrite p - nread p) = unat (512 :: u32)" by (rule word_unat_eq_iff)
  finally show ?thesis by (simp add: pipe_count_def PIPESIZE_def)
qed

lemma empty_iff: "pipe_empty p \<longleftrightarrow> pipe_count p = 0"
  by (auto simp: pipe_empty_def pipe_count_def unat_eq_0)

lemma length_pipe_items [simp]: "length (pipe_items p) = pipe_count p"
  by (simp add: pipe_items_def)

lemma put_count:
  assumes "pipe_count p < PIPESIZE"
  shows "pipe_count (pipe_put p c) = Suc (pipe_count p)"
proof -
  have "nwrite p + 1 - nread p = (nwrite p - nread p) + 1" by simp
  moreover have "unat (nwrite p - nread p) < 2 ^ 32 - 1" using assms by (simp add: pipe_count_def PIPESIZE_def)
  ultimately have "unat (nwrite p + 1 - nread p) = Suc (unat (nwrite p - nread p))"
    using unat_Suc_no_wrap by metis
  then show ?thesis by (simp add: pipe_count_def pipe_put_def)
qed

lemma get_count:
  assumes "0 < pipe_count p"
  shows "pipe_count (snd (pipe_get p)) = pipe_count p - 1"
proof -
  have "nwrite p - (nread p + 1) = (nwrite p - nread p) - 1" by simp
  moreover have "0 < nwrite p - nread p" using assms by (auto simp: pipe_count_def word_greater_zero_iff)
  ultimately have "unat (nwrite p - (nread p + 1)) = unat (nwrite p - nread p) - 1"
    using unat_pred by metis
  then show ?thesis by (simp add: pipe_count_def pipe_get_def)
qed

lemma put_items:
  assumes "pipe_inv p" and "pipe_count p < PIPESIZE"
  shows "pipe_items (pipe_put p c) = pipe_items p @ [c]"
proof -
  let ?n = "pipe_count p" and ?r = "unat (nread p)"
  have len: "length (data p) = 512" using assms(1) by (simp add: pipe_inv_def PIPESIZE_def)
  have idx: "unat (nwrite p) mod 512 = (?r + ?n) mod 512" by (rule nwrite_mod)
  have new: "(data p)[unat (nwrite p) mod 512 := c] ! ((?r + k) mod 512) =
    (if k = ?n then c else data p ! ((?r + k) mod 512))" if "k \<le> ?n" for k
  proof -
    have "(?r + k) mod 512 = (?r + ?n) mod 512 \<longleftrightarrow> k = ?n"
      using slot_inj [OF that] assms(2) by (auto simp: PIPESIZE_def)
    then show ?thesis using len idx by (auto simp: nth_list_update)
  qed
  have "nread (pipe_put p c) = nread p" "data (pipe_put p c) = (data p)[unat (nwrite p) mod 512 := c]"
    by (simp_all add: pipe_put_def PIPESIZE_def)
  then show ?thesis
    unfolding pipe_items_def put_count [OF assms(2)] using new by (simp add: PIPESIZE_def)
qed

lemma get_items:
  assumes "pipe_inv p" and "0 < pipe_count p"
  shows "pipe_items p = fst (pipe_get p) # pipe_items (snd (pipe_get p))"
proof -
  let ?q = "snd (pipe_get p)"
  have r: "nread ?q = nread p + 1" "data ?q = data p" by (simp_all add: pipe_get_def)
  have idx: "(unat (nread p + 1) + k) mod 512 = (unat (nread p) + Suc k) mod 512" for k
  proof -
    have "(unat (nread p + 1) + k) mod 512 = (unat (nread p + 1) mod 512 + k) mod 512" by (simp add: mod_add_left_eq)
    also have "\<dots> = ((unat (nread p) + 1) mod 512 + k) mod 512" using unat_add_mod [of "nread p" 1] by simp
    finally show ?thesis by (simp add: mod_add_left_eq)
  qed
  obtain n where n: "pipe_count p = Suc n" using assms(2) gr0_conv_Suc by blast
  then have "pipe_count ?q = n" using get_count [OF assms(2)] by simp
  then show ?thesis
    unfolding pipe_items_def n upt_conv_Cons [OF zero_less_Suc] r
    by (simp add: PIPESIZE_def pipe_get_def idx map_Suc_upt [symmetric] del: upt_Suc)
qed

lemma put_inv: "pipe_inv p \<Longrightarrow> pipe_count p < PIPESIZE \<Longrightarrow> pipe_inv (pipe_put p c)"
  using put_count [of p c] by (simp add: pipe_inv_def) (simp add: pipe_put_def)

lemma get_inv: "pipe_inv p \<Longrightarrow> 0 < pipe_count p \<Longrightarrow> pipe_inv (snd (pipe_get p))"
  using get_count [of p] by (auto simp: pipe_inv_def) (simp_all add: pipe_get_def)

interpretation pq: bounded_fifo pipe_inv pipe_items "\<lambda>_. PIPESIZE" pipe_enq pipe_deq
proof unfold_locales
  fix p x
  show "pipe_inv p \<Longrightarrow> length (pipe_items p) \<le> PIPESIZE" by (simp add: pipe_inv_def)
  show "pipe_inv p \<Longrightarrow> length (pipe_items p) = PIPESIZE \<Longrightarrow> pipe_enq p x = None"
    by (simp add: pipe_enq_def full_iff)
  show "pipe_inv p \<Longrightarrow> length (pipe_items p) < PIPESIZE \<Longrightarrow>
    \<exists>q'. pipe_enq p x = Some q' \<and> pipe_inv q' \<and> pipe_items q' = pipe_items p @ [x] \<and> PIPESIZE = PIPESIZE"
    by (simp add: pipe_enq_def full_iff put_inv put_items)
  show "pipe_inv p \<Longrightarrow> pipe_items p = [] \<Longrightarrow> pipe_deq p = None"
    by (metis pipe_deq_def empty_iff length_pipe_items list.size(3))
  show "pipe_inv p \<Longrightarrow> pipe_items p \<noteq> [] \<Longrightarrow> \<exists>q'. pipe_deq p = Some (hd (pipe_items p), q') \<and> pipe_inv q' \<and>
    pipe_items q' = tl (pipe_items p) \<and> PIPESIZE = PIPESIZE"
  proof -
    assume p: "pipe_inv p" "pipe_items p \<noteq> []"
    then have "0 < pipe_count p" using length_pipe_items [of p] by (metis length_greater_0_conv)
    with p get_items [OF p(1) this] get_inv [OF p(1) this] show ?thesis
      by (cases "pipe_get p") (simp add: pipe_deq_def empty_iff)
  qed
qed

section \<open>One write, one read\<close>

lemma put_flags [simp]: "readopen (pipe_put p c) = readopen p" "writeopen (pipe_put p c) = writeopen p"
  by (simp_all add: pipe_put_def)

lemma get_flags [simp]:
  "readopen (snd (pipe_get p)) = readopen p" "writeopen (snd (pipe_get p)) = writeopen p"
  by (simp_all add: pipe_get_def)

lemma not_full_room: "pipe_inv p \<Longrightarrow> \<not> pipe_full p \<Longrightarrow> pipe_count p < PIPESIZE"
  by (auto simp: pipe_inv_def full_iff)

text \<open>
  A write by a live process into a pipe with an open reading end appends a first part of the
  bytes; it sleeps only when the pipe is full, with the other part.
\<close>

definition wrote :: "pipe \<Rightarrow> u8 list \<Rightarrow> u8 list \<Rightarrow> pipe \<Rightarrow> write_end \<Rightarrow> bool" where
  "wrote p us vs q r \<longleftrightarrow>
     pipe_inv q \<and> pipe_items q = pipe_items p @ us \<and> readopen q = readopen p \<and> writeopen q = writeopen p \<and>
     (r = W_Done \<and> vs = [] \<or> r = W_Sleep vs \<and> vs \<noteq> [] \<and> pipe_full q)"

lemma pipewrite_appends:
  "pipe_inv p \<Longrightarrow> readopen p \<Longrightarrow> pipewrite p False addr = (q, r) \<Longrightarrow>
   \<exists>us vs. addr = us @ vs \<and> wrote p us vs q r"
proof (induction addr arbitrary: p)
  case Nil
  then show ?case by (simp add: wrote_def)
next
  case (Cons c addr)
  show ?case
  proof (cases "pipe_full p")
    case True
    with Cons.prems have "wrote p [] (c # addr) q r" by (simp add: wrote_def)
    then show ?thesis by (intro exI [of _ "[]"] exI [of _ "c # addr"]) simp
  next
    case False
    with not_full_room Cons.prems have room: "pipe_count p < PIPESIZE" by simp
    have "readopen (pipe_put p c)" using Cons.prems(2) by simp
    moreover have "pipewrite (pipe_put p c) False addr = (q, r)" using Cons.prems(3) False by simp
    ultimately obtain us vs where a: "addr = us @ vs" and b: "wrote (pipe_put p c) us vs q r"
      using Cons.IH [OF put_inv [OF Cons.prems(1) room]] by metis
    have "wrote p (c # us) vs q r"
      using b put_items [OF Cons.prems(1) room] by (simp add: wrote_def)
    with a show ?thesis by (intro exI [of _ "c # us"] exI [of _ vs]) simp
  qed
qed

lemma pipe_copy_takes:
  "pipe_inv p \<Longrightarrow> case pipe_copy p n of (cs, q) \<Rightarrow>
     pipe_inv q \<and> pipe_items p = cs @ pipe_items q \<and> length cs = min n (pipe_count p) \<and>
     readopen q = readopen p \<and> writeopen q = writeopen p"
proof (induction n arbitrary: p)
  case 0
  then show ?case by simp
next
  case (Suc n)
  show ?case
  proof (cases "pipe_empty p")
    case True
    with Suc.prems show ?thesis by (simp add: empty_iff)
  next
    case False
    then have pos: "0 < pipe_count p" by (simp add: empty_iff)
    obtain c q where g: "pipe_get p = (c, q)" by (cases "pipe_get p")
    have q: "pipe_inv q" "pipe_items p = c # pipe_items q" "pipe_count q = pipe_count p - 1"
      "readopen q = readopen p" "writeopen q = writeopen p"
      using get_inv [OF Suc.prems pos] get_items [OF Suc.prems pos] get_count [OF pos] get_flags [of p] by (auto simp: g)
    from Suc.IH [OF q(1)] q pos False show ?thesis by (auto simp: g split: prod.splits)
  qed
qed

section \<open>A writer and a reader\<close>

text \<open>
  Two processes on one pipe with both ends open: one has the bytes \<open>todo\<close> left of a \<open>write\<close>, the
  other reads again and again and has \<open>got\<close> some. Each step runs one of them until it returns or
  sleeps; a returning read wakes the writer, a write that returns or sleeps wakes the reader.
\<close>

record psys =
  pp :: pipe
  todo :: "u8 list"
  wslp :: bool
  got :: "u8 list"
  rslp :: bool

inductive pstep :: "psys \<Rightarrow> psys \<Rightarrow> bool" where
  write_done: "\<not> wslp s \<Longrightarrow> todo s \<noteq> [] \<Longrightarrow> pipewrite (pp s) False (todo s) = (q, W_Done) \<Longrightarrow>
    pstep s (s \<lparr> pp := q, todo := [], rslp := False \<rparr>)"
| write_sleep: "\<not> wslp s \<Longrightarrow> todo s \<noteq> [] \<Longrightarrow> pipewrite (pp s) False (todo s) = (q, W_Sleep vs) \<Longrightarrow>
    pstep s (s \<lparr> pp := q, todo := vs, wslp := True, rslp := False \<rparr>)"
| read_done: "\<not> rslp s \<Longrightarrow> piperead (pp s) False n = (q, R_Done cs) \<Longrightarrow>
    pstep s (s \<lparr> pp := q, got := got s @ cs, wslp := False \<rparr>)"
| read_sleep: "\<not> rslp s \<Longrightarrow> piperead (pp s) False n = (q, R_Sleep) \<Longrightarrow>
    pstep s (s \<lparr> pp := q, rslp := True \<rparr>)"

definition pipe_start :: "pipe \<Rightarrow> u8 list \<Rightarrow> psys" where
  "pipe_start p msg = \<lparr> pp = p, todo = msg, wslp = False, got = [], rslp = False \<rparr>"

definition fresh_pipe :: "pipe \<Rightarrow> bool" where
  "fresh_pipe p \<longleftrightarrow> length (data p) = PIPESIZE \<and> nread p = nwrite p \<and> readopen p \<and> writeopen p"

definition psys_inv :: "u8 list \<Rightarrow> psys \<Rightarrow> bool" where
  "psys_inv msg s \<longleftrightarrow> pipe_inv (pp s) \<and> readopen (pp s) \<and> writeopen (pp s) \<and>
     (wslp s \<longrightarrow> pipe_full (pp s)) \<and> (rslp s \<longrightarrow> pipe_empty (pp s)) \<and>
     got s @ pipe_items (pp s) @ todo s = msg"

lemma psys_inv_start: "fresh_pipe p \<Longrightarrow> psys_inv msg (pipe_start p msg)"
  by (simp add: psys_inv_def pipe_start_def fresh_pipe_def pipe_inv_def pipe_count_def pipe_items_def)

lemma psys_inv_step: "pstep s t \<Longrightarrow> psys_inv msg s \<Longrightarrow> psys_inv msg t"
proof (induction rule: pstep.induct)
  case (write_done s q)
  then obtain us vs where "todo s = us @ vs" "wrote (pp s) us vs q W_Done"
    using pipewrite_appends [of "pp s" "todo s" q W_Done] by (auto simp: psys_inv_def)
  with write_done show ?case by (simp add: psys_inv_def wrote_def)
next
  case (write_sleep s q vs)
  then obtain us ws where "todo s = us @ ws" "wrote (pp s) us ws q (W_Sleep vs)"
    using pipewrite_appends [of "pp s" "todo s" q "W_Sleep vs"] by (auto simp: psys_inv_def)
  with write_sleep show ?case by (simp add: psys_inv_def wrote_def)
next
  case (read_done s n q cs)
  then have "pipe_copy (pp s) n = (cs, q)"
    by (auto simp: piperead_def split: if_splits prod.splits)
  with read_done pipe_copy_takes [of "pp s" n] show ?case
    by (auto simp: psys_inv_def piperead_def empty_iff split: if_splits)
next
  case (read_sleep s n q)
  then show ?case by (auto simp: psys_inv_def piperead_def split: if_splits prod.splits)
qed

lemma psys_reachable:
  assumes "fresh_pipe p" and "pstep\<^sup>*\<^sup>* (pipe_start p msg) s"
  shows "psys_inv msg s"
  using assms(2) by (induction rule: rtranclp_induct) (auto intro: psys_inv_step psys_inv_start [OF assms(1)])

text \<open>C7: whatever the order in which writer and reader run, sleep and wake, and wherever the
  counters started, what was read, what is in the pipe and what is left to write is always the
  message written: no byte is lost, duplicated or reordered.\<close>

theorem pipe_delivers:
  assumes "fresh_pipe p" and "pstep\<^sup>*\<^sup>* (pipe_start p msg) s"
  shows "got s @ pipe_items (pp s) @ todo s = msg \<and> length (pipe_items (pp s)) \<le> 512"
  using psys_reachable [OF assms] by (auto simp: psys_inv_def pipe_inv_def PIPESIZE_def)

lemma reader_progress:
  assumes "psys_inv msg s" and "\<not> pipe_empty (pp s)"
  shows "\<exists>t. pstep s t \<and> length (got s) < length (got t)"
proof -
  obtain cs q where c: "pipe_copy (pp s) 1 = (cs, q)" by (cases "pipe_copy (pp s) 1")
  have "length cs = 1" using pipe_copy_takes [of "pp s" 1] assms c by (simp add: psys_inv_def empty_iff)
  moreover have "piperead (pp s) False 1 = (q, R_Done cs)" using assms(2) c by (simp add: piperead_def)
  moreover have "\<not> rslp s" using assms by (auto simp: psys_inv_def)
  ultimately show ?thesis using pstep.read_done [of s 1 q cs] by (intro exI) auto
qed

lemma writer_progress:
  assumes "psys_inv msg s" and "pipe_empty (pp s)" and "todo s \<noteq> []"
  shows "\<exists>t. pstep s t \<and> \<not> pipe_empty (pp t) \<and> got t = got s"
proof -
  have inv: "pipe_inv (pp s)" "readopen (pp s)" using assms(1) by (auto simp: psys_inv_def)
  have nf: "\<not> pipe_full (pp s)" using assms(2) by (simp add: full_iff empty_iff PIPESIZE_def)
  then have w: "\<not> wslp s" using assms(1) by (auto simp: psys_inv_def)
  obtain q r where p: "pipewrite (pp s) False (todo s) = (q, r)" by (cases "pipewrite (pp s) False (todo s)")
  from pipewrite_appends [OF inv p] obtain us vs where
    u: "todo s = us @ vs" "pipe_items q = pipe_items (pp s) @ us"
    "r = W_Done \<and> vs = [] \<or> r = W_Sleep vs \<and> vs \<noteq> [] \<and> pipe_full q" by (auto simp: wrote_def)
  have ne: "\<not> pipe_empty q"
  proof
    assume "pipe_empty q"
    then have "pipe_count q = 0" "\<not> pipe_full q" by (auto simp: empty_iff full_iff PIPESIZE_def)
    then have "pipe_items q = []" "vs = []" using u(3) by (simp add: pipe_items_def, auto)
    with u(1,2) assms(3) show False by simp
  qed
  from u(3) show ?thesis
  proof
    assume "r = W_Done \<and> vs = []"
    with pstep.write_done [of s q] w assms(3) p ne show ?thesis by (intro exI) auto
  next
    assume "r = W_Sleep vs \<and> vs \<noteq> [] \<and> pipe_full q"
    with pstep.write_sleep [of s q vs] w assms(3) p ne show ?thesis by (intro exI) auto
  qed
qed

text \<open>C15: writer and reader never block each other for good: in every reachable state in which the
  reader has not yet got the whole message, some steps of the two let it get more.\<close>

theorem pipe_progress:
  assumes "fresh_pipe p" and "pstep\<^sup>*\<^sup>* (pipe_start p msg) s" and "got s \<noteq> msg"
  shows "\<exists>t. pstep\<^sup>+\<^sup>+ s t \<and> length (got s) < length (got t)"
proof (cases "pipe_empty (pp s)")
  case False
  with reader_progress [OF psys_reachable [OF assms(1,2)]] show ?thesis by blast
next
  case True
  have inv: "psys_inv msg s" by (rule psys_reachable [OF assms(1,2)])
  with True assms(3) have "todo s \<noteq> []" by (auto simp: psys_inv_def empty_iff pipe_items_def)
  from writer_progress [OF inv True this] obtain t where t: "pstep s t" "\<not> pipe_empty (pp t)" "got t = got s"
    by auto
  from reader_progress [OF psys_inv_step [OF t(1) inv] t(2)] obtain u where
    "pstep t u" "length (got t) < length (got u)" by auto
  with t show ?thesis by (metis tranclp.r_into_trancl tranclp.trancl_into_trancl)
qed

text \<open>A pipe whose counters are about to wrap around.\<close>

definition wrapping_pipe :: pipe where
  "wrapping_pipe = \<lparr> data = replicate PIPESIZE 0, nread = - 1, nwrite = - 1, readopen = True, writeopen = True \<rparr>"

lemma wrapping_fresh: "fresh_pipe wrapping_pipe"
  by (simp add: fresh_pipe_def wrapping_pipe_def)

theorem pipe_delivers_witness:
  "\<exists>t. pstep\<^sup>+\<^sup>+ (pipe_start wrapping_pipe [1, 2]) t \<and> got t \<noteq> [] \<and> got t @ pipe_items (pp t) @ todo t = [1, 2]"
proof -
  let ?s = "pipe_start wrapping_pipe [1, 2]"
  have inv: "psys_inv [1, 2] ?s" by (rule psys_reachable [OF wrapping_fresh rtranclp.rtrancl_refl])
  have "pipe_empty (pp ?s)" "todo ?s \<noteq> []" by (simp_all add: pipe_start_def wrapping_pipe_def pipe_empty_def)
  from writer_progress [OF inv this] obtain u where u: "pstep ?s u" "\<not> pipe_empty (pp u)" by blast
  from reader_progress [OF psys_inv_step [OF u(1) inv] u(2)] obtain t where t: "pstep u t" "length (got u) < length (got t)" by blast
  have st: "pstep\<^sup>+\<^sup>+ ?s t" using u(1) t(1) by (rule tranclp.trancl_into_trancl [OF tranclp.r_into_trancl])
  then have "got t @ pipe_items (pp t) @ todo t = [1, 2]"
    by (intro pipe_delivers [OF wrapping_fresh, THEN conjunct1] tranclp_into_rtranclp)
  with st t(2) show ?thesis by (intro exI [of _ t]) auto
qed

theorem pipe_progress_witness:
  "\<exists>t. pstep\<^sup>+\<^sup>+ (pipe_start wrapping_pipe [1, 2]) t \<and> 0 < length (got t)"
  using pipe_progress [OF wrapping_fresh rtranclp.rtrancl_refl, of "[1, 2]"] by (simp add: pipe_start_def)

end
