(* ===== verification/XvFile.thy ===== *)
theory XvFile
  imports XvFs XvPipe
begin

text \<open>
  Open files and the system calls on them: \<open>xv6/file.c\<close>, \<open>xv6/sysfile.c\<close>, the argument fetching of
  \<open>xv6/syscall.c\<close>, and what \<open>fork\<close> and \<open>exit\<close> of \<open>xv6/proc.c\<close> do to descriptors. One process runs,
  the others wait with their descriptor tables. Memory is the address space of the running process,
  addressed by numbers; a call that has to wait is \<open>Out_Of_Fuel\<close>.
\<close>

section \<open>State\<close>

definition NOFILE :: nat where "NOFILE = 16"
definition NFILE :: nat where "NFILE = 100"

datatype ftype = FD_NONE | FD_PIPE | FD_INODE

record kfile =
  f_type :: ftype
  f_ref :: int
  f_readable :: bool
  f_writable :: bool
  f_pipe :: nat
  f_ip :: nat
  f_off :: nat
  num_read_bytes :: int
  num_write_bytes :: int

record uproc =
  p_ofile :: "nat option list"
  p_cwd :: nat
  p_sz :: nat
  p_esp :: nat
  p_mem :: mem
  p_killed :: bool

record ksys =
  ftab :: "kfile list"
  kfs :: fsys
  pipes :: "pipe list"
  cur :: uproc
  others :: "uproc list"

abbreviation get_file :: "ksys \<Rightarrow> nat \<Rightarrow> kfile" where
  "get_file k f \<equiv> ftab k ! f"

definition set_file :: "ksys \<Rightarrow> nat \<Rightarrow> kfile \<Rightarrow> ksys" where
  "set_file k f x = k \<lparr> ftab := (ftab k)[f := x] \<rparr>"

definition set_fd :: "ksys \<Rightarrow> nat \<Rightarrow> nat option \<Rightarrow> ksys" where
  "set_fd k fd x = k \<lparr> cur := cur k \<lparr> p_ofile := (p_ofile (cur k))[fd := x] \<rparr> \<rparr>"

definition set_mem :: "ksys \<Rightarrow> mem \<Rightarrow> ksys" where
  "set_mem k m = k \<lparr> cur := cur k \<lparr> p_mem := m \<rparr> \<rparr>"

text \<open>A file system operation as a kernel operation.\<close>

definition on_fs :: "ksys \<Rightarrow> (fsys \<Rightarrow> ('a \<times> fsys) res) \<Rightarrow> ('a \<times> ksys) res" where
  "on_fs k g = bindR (g (kfs k)) (\<lambda>(x, s). Inr (x, k \<lparr> kfs := s \<rparr>))"

definition do_fs :: "ksys \<Rightarrow> (fsys \<Rightarrow> fsys res) \<Rightarrow> ksys res" where
  "do_fs k g = bindR (g (kfs k)) (\<lambda>s. Inr (k \<lparr> kfs := s \<rparr>))"

definition fs_begin_op :: "fsys \<Rightarrow> fsys res" where
  "fs_begin_op s = (case begin_op (lg s) of None \<Rightarrow> Inl Out_Of_Fuel | Some l \<Rightarrow> Inr (s \<lparr> lg := l \<rparr>))"

definition fs_end_op :: "fsys \<Rightarrow> fsys res" where
  "fs_end_op s = bindR (end_op (lg s)) (\<lambda>l. Inr (s \<lparr> lg := l \<rparr>))"

section \<open>Arguments of system calls\<close>

text \<open>Addresses are unsigned 32-bit numbers, and their sums wrap around.\<close>

definition fetchint :: "uproc \<Rightarrow> nat \<Rightarrow> int option" where
  "fetchint p addr = (if addr \<ge> p_sz p \<or> (addr + 4) mod 2 ^ 32 > p_sz p then None else Some (sint (get32 (p_mem p) addr)))"

fun fetchstr_loop :: "mem \<Rightarrow> nat \<Rightarrow> nat \<Rightarrow> u8 list option" where
  "fetchstr_loop m s 0 = None"
| "fetchstr_loop m s (Suc n) = (if m s = 0 then Some [] else map_option ((#) (m s)) (fetchstr_loop m (s + 1) n))"

definition fetchstr :: "uproc \<Rightarrow> nat \<Rightarrow> u8 list option" where
  "fetchstr p addr = (if addr \<ge> p_sz p then None else fetchstr_loop (p_mem p) addr (p_sz p - addr))"

definition argint :: "uproc \<Rightarrow> nat \<Rightarrow> int option" where
  "argint p n = fetchint p ((p_esp p + 4 + 4 * n) mod 2 ^ 32)"

definition argptr :: "uproc \<Rightarrow> nat \<Rightarrow> int \<Rightarrow> nat option" where
  "argptr p n sz =
     (case argint p n of
        None \<Rightarrow> None
      | Some i \<Rightarrow>
          let a = nat (i mod 2 ^ 32) in
          if sz < 0 \<or> a \<ge> p_sz p \<or> (a + nat sz) mod 2 ^ 32 > p_sz p then None else Some a)"

definition argstr :: "uproc \<Rightarrow> nat \<Rightarrow> u8 list option" where
  "argstr p n = (case argint p n of None \<Rightarrow> None | Some a \<Rightarrow> fetchstr p (nat (a mod 2 ^ 32)))"

section \<open>Files\<close>

fun find_file :: "kfile list \<Rightarrow> nat \<Rightarrow> nat option" where
  "find_file [] i = None"
| "find_file (f # fs) i = (if f_ref f = 0 then Some i else find_file fs (i + 1))"

definition filealloc :: "ksys \<Rightarrow> nat option \<times> ksys" where
  "filealloc k =
     (case find_file (ftab k) 0 of
        None \<Rightarrow> (None, k)
      | Some f \<Rightarrow> (Some f, set_file k f (get_file k f \<lparr> f_ref := 1 \<rparr>)))"

definition filedup :: "ksys \<Rightarrow> nat \<Rightarrow> ksys res" where
  "filedup k f =
     (if f_ref (get_file k f) < 1 then Inl (Panic ''filedup'')
      else Inr (set_file k f (get_file k f \<lparr> f_ref := f_ref (get_file k f) + 1 \<rparr>)))"

definition fileclose :: "ksys \<Rightarrow> nat \<Rightarrow> ksys res" where
  "fileclose k f =
     (if f_ref (get_file k f) < 1 then Inl (Panic ''fileclose'')
      else
        let k = set_file k f (get_file k f \<lparr> f_ref := f_ref (get_file k f) - 1 \<rparr>) in
        if f_ref (get_file k f) > 0 then Inr k
        else
          let ff = get_file k f;
              k = set_file k f (ff \<lparr> f_ref := 0, f_type := FD_NONE \<rparr>)
          in (case f_type ff of
                FD_PIPE \<Rightarrow> Inr (k \<lparr> pipes := (pipes k)[f_pipe ff := fst (pipeclose (pipes k ! f_pipe ff) (f_writable ff))] \<rparr>)
              | FD_INODE \<Rightarrow> do_fs k (\<lambda>s. bindR (fs_begin_op s) (\<lambda>s. bindR (iput s (f_ip ff)) fs_end_op))
              | FD_NONE \<Rightarrow> Inr k))"

definition filestat :: "ksys \<Rightarrow> nat \<Rightarrow> (stat option \<times> ksys) res" where
  "filestat k f =
     (if f_type (get_file k f) = FD_INODE then
        on_fs k (\<lambda>s. bindR (ilock s (f_ip (get_file k f))) (\<lambda>s.
          let st = stati (get_ip s (f_ip (get_file k f))) in
          bindR (iunlock s (f_ip (get_file k f))) (\<lambda>s. Inr (Some st, s))))
      else Inr (None, k))"

definition fileread :: "devsw \<Rightarrow> ksys \<Rightarrow> nat \<Rightarrow> nat \<Rightarrow> (int \<times> u8 list \<times> ksys) res" where
  "fileread dv k f n =
     (if \<not> f_readable (get_file k f) then Inr (-1, [], k)
      else
        bindR (int_add (num_read_bytes (get_file k f)) (int n)) (\<lambda>c.
        let k = set_file k f (get_file k f \<lparr> num_read_bytes := c \<rparr>); fl = get_file k f in
        case f_type fl of
          FD_PIPE \<Rightarrow>
            (case piperead (pipes k ! f_pipe fl) (p_killed (cur k)) n of
               (p, R_Done cs) \<Rightarrow> Inr (int (length cs), cs, k \<lparr> pipes := (pipes k)[f_pipe fl := p] \<rparr>)
             | (p, R_Fail) \<Rightarrow> Inr (-1, [], k)
             | (p, R_Sleep) \<Rightarrow> Inl Out_Of_Fuel)
        | FD_INODE \<Rightarrow>
            bindR (ilock (kfs k) (f_ip fl)) (\<lambda>s.
            bindR (readi dv s (f_ip fl) (f_off fl) n) (\<lambda>(r, cs, s).
            let k = (if r > 0 then set_file k f (fl \<lparr> f_off := (f_off fl + nat r) mod 2 ^ 32 \<rparr>) else k) in
            bindR (iunlock s (f_ip fl)) (\<lambda>s. Inr (r, cs, k \<lparr> kfs := s \<rparr>))))
        | FD_NONE \<Rightarrow> Inl (Panic ''fileread'')))"

text \<open>The largest write in one transaction.\<close>

definition max_write :: nat where
  "max_write = ((MAXOPBLOCKS - 1 - 1 - 2) div 2) * 512"

definition write_chunk :: "devsw \<Rightarrow> ksys \<Rightarrow> nat \<Rightarrow> u8 list \<Rightarrow> (int \<times> ksys) res" where
  "write_chunk dv k f cs =
     (let fl = get_file k f in
      bindR (fs_begin_op (kfs k)) (\<lambda>s.
      bindR (ilock s (f_ip fl)) (\<lambda>s.
      bindR (writei dv s (f_ip fl) cs (f_off fl)) (\<lambda>(r, s).
      let k = (if r > 0 then set_file k f (fl \<lparr> f_off := (f_off fl + nat r) mod 2 ^ 32 \<rparr>) else k) in
      bindR (iunlock s (f_ip fl)) (\<lambda>s.
      bindR (fs_end_op s) (\<lambda>s. Inr (r, k \<lparr> kfs := s \<rparr>)))))))"

function (sequential) filewrite_loop :: "devsw \<Rightarrow> nat \<Rightarrow> u8 list \<Rightarrow> nat \<Rightarrow> ksys \<Rightarrow> (nat \<times> ksys) res" where
  "filewrite_loop dv f addr i k =
     (if i < length addr then
        let n1 = min (length addr - i) max_write in
        bindR (write_chunk dv k f (take n1 (drop i addr))) (\<lambda>(r, k).
        if r < 0 then Inr (i, k)
        else if r \<noteq> int n1 then Inl (Panic ''short filewrite'')
        else filewrite_loop dv f addr (i + n1) k)
      else Inr (i, k))"
  by pat_completeness auto

termination filewrite_loop
  by (relation "measure (\<lambda>(dv, f, addr, i, k). length addr - i)") (auto simp: max_write_def MAXOPBLOCKS_def)

declare filewrite_loop.simps [simp del]

definition filewrite :: "devsw \<Rightarrow> ksys \<Rightarrow> nat \<Rightarrow> u8 list \<Rightarrow> (int \<times> ksys) res" where
  "filewrite dv k f addr =
     (if \<not> f_writable (get_file k f) then Inr (-1, k)
      else
        bindR (int_add (num_write_bytes (get_file k f)) (int (length addr))) (\<lambda>c.
        let k = set_file k f (get_file k f \<lparr> num_write_bytes := c \<rparr>); fl = get_file k f in
        case f_type fl of
          FD_PIPE \<Rightarrow>
            (case pipewrite (pipes k ! f_pipe fl) (p_killed (cur k)) addr of
               (p, W_Done) \<Rightarrow> Inr (int (length addr), k \<lparr> pipes := (pipes k)[f_pipe fl := p] \<rparr>)
             | (p, W_Fail) \<Rightarrow> Inr (-1, k \<lparr> pipes := (pipes k)[f_pipe fl := p] \<rparr>)
             | (p, W_Sleep _) \<Rightarrow> Inl Out_Of_Fuel)
        | FD_INODE \<Rightarrow>
            bindR (filewrite_loop dv f addr 0 k) (\<lambda>(i, k). Inr (if i = length addr then int (length addr) else -1, k))
        | FD_NONE \<Rightarrow> Inl (Panic ''filewrite'')))"

section \<open>System calls on descriptors\<close>

definition argfd :: "uproc \<Rightarrow> nat \<Rightarrow> (nat \<times> nat) option" where
  "argfd p n =
     (case argint p n of
        None \<Rightarrow> None
      | Some fd \<Rightarrow>
          if fd < 0 \<or> fd \<ge> int NOFILE then None
          else (case p_ofile p ! nat fd of None \<Rightarrow> None | Some f \<Rightarrow> Some (nat fd, f)))"

fun find_fd :: "nat option list \<Rightarrow> nat \<Rightarrow> nat option" where
  "find_fd [] fd = None"
| "find_fd (x # xs) fd = (if x = None then Some fd else find_fd xs (fd + 1))"

definition fdalloc :: "ksys \<Rightarrow> nat \<Rightarrow> nat option \<times> ksys" where
  "fdalloc k f =
     (case find_fd (p_ofile (cur k)) 0 of
        None \<Rightarrow> (None, k)
      | Some fd \<Rightarrow> (Some fd, set_fd k fd (Some f)))"

definition sys_dup :: "ksys \<Rightarrow> (int \<times> ksys) res" where
  "sys_dup k =
     (case argfd (cur k) 0 of
        None \<Rightarrow> Inr (-1, k)
      | Some (_, f) \<Rightarrow>
          (case fdalloc k f of
             (None, k) \<Rightarrow> Inr (-1, k)
           | (Some fd, k) \<Rightarrow> bindR (filedup k f) (\<lambda>k. Inr (int fd, k))))"

text \<open>Copying bytes to user memory.\<close>

definition store :: "mem \<Rightarrow> nat \<Rightarrow> u8 list \<Rightarrow> mem" where
  "store m p cs = (\<lambda>a. if p \<le> a \<and> a < p + length cs then cs ! (a - p) else m a)"

definition load :: "mem \<Rightarrow> nat \<Rightarrow> nat \<Rightarrow> u8 list" where
  "load m p n = map m [p..<p + n]"

definition sys_read :: "devsw \<Rightarrow> ksys \<Rightarrow> (int \<times> ksys) res" where
  "sys_read dv k =
     (case argfd (cur k) 0 of
        None \<Rightarrow> Inr (-1, k)
      | Some (_, f) \<Rightarrow>
          (case argint (cur k) 2 of
             None \<Rightarrow> Inr (-1, k)
           | Some n \<Rightarrow>
               (case argptr (cur k) 1 n of
                  None \<Rightarrow> Inr (-1, k)
                | Some p \<Rightarrow>
                    bindR (fileread dv k f (nat n)) (\<lambda>(r, cs, k).
                    Inr (r, set_mem k (store (p_mem (cur k)) p cs))))))"

definition sys_write :: "devsw \<Rightarrow> ksys \<Rightarrow> (int \<times> ksys) res" where
  "sys_write dv k =
     (case argfd (cur k) 0 of
        None \<Rightarrow> Inr (-1, k)
      | Some (_, f) \<Rightarrow>
          (case argint (cur k) 2 of
             None \<Rightarrow> Inr (-1, k)
           | Some n \<Rightarrow>
               (case argptr (cur k) 1 n of
                  None \<Rightarrow> Inr (-1, k)
                | Some p \<Rightarrow> filewrite dv k f (load (p_mem (cur k)) p (nat n)))))"

definition sys_close :: "ksys \<Rightarrow> (int \<times> ksys) res" where
  "sys_close k =
     (case argfd (cur k) 0 of
        None \<Rightarrow> Inr (-1, k)
      | Some (fd, f) \<Rightarrow> bindR (fileclose (set_fd k fd None) f) (\<lambda>k. Inr (0, k)))"

text \<open>
  The statistics: the descriptor is not checked, so that outside of the table of the process the
  access is out of bounds, and the result goes to whatever address the caller passed. The
  comparison with the size is unsigned.
\<close>

definition getiostats :: "ksys \<Rightarrow> int \<Rightarrow> nat \<Rightarrow> (int \<times> ksys) res" where
  "getiostats k fd p =
     (if fd < 0 then Inl Out_Of_Bounds
      else
        bindR (arr_get (p_ofile (cur k)) (nat fd)) (\<lambda>x.
        case x of
          None \<Rightarrow> Inr (-1, k)
        | Some f \<Rightarrow>
            bindR (filestat k f) (\<lambda>(st, k).
            case st of
              None \<Rightarrow> Inr (-1, k)
            | Some st \<Rightarrow>
                let fl = get_file k f;
                    r = (if (of_int (num_read_bytes fl) :: u32) > of_nat (st_size st) then of_nat (st_size st)
                         else of_int (num_read_bytes fl));
                    m = put32 (p_mem (cur k)) p r;
                    m = put32 m (p + 4) (of_int (num_write_bytes fl))
                in Inr (0, set_mem k m))))"

definition sys_getiostats :: "ksys \<Rightarrow> (int \<times> ksys) res" where
  "sys_getiostats k =
     (case argint (cur k) 0 of
        None \<Rightarrow> Inr (-1, k)
      | Some fd \<Rightarrow>
          (case argint (cur k) 1 of
             None \<Rightarrow> Inr (-1, k)
           | Some p \<Rightarrow> getiostats k fd (nat (p mod 2 ^ 32))))"

text \<open>\<open>struct stat\<close> in memory: type, device, inode, links and size with their padding.\<close>

definition put_stat :: "mem \<Rightarrow> nat \<Rightarrow> stat \<Rightarrow> mem" where
  "put_stat m p st =
     (let m = put16s m p (st_type st);
          m = put32 m (p + 4) (of_nat (st_dev st));
          m = put32 m (p + 8) (of_nat (st_ino st));
          m = put16s m (p + 12) (st_nlink st)
      in put32 m (p + 16) (of_nat (st_size st)))"

definition sys_fstat :: "ksys \<Rightarrow> (int \<times> ksys) res" where
  "sys_fstat k =
     (case argfd (cur k) 0 of
        None \<Rightarrow> Inr (-1, k)
      | Some (_, f) \<Rightarrow>
          (case argptr (cur k) 1 20 of
             None \<Rightarrow> Inr (-1, k)
           | Some p \<Rightarrow>
               bindR (filestat k f) (\<lambda>(st, k).
               case st of
                 None \<Rightarrow> Inr (-1, k)
               | Some st \<Rightarrow> Inr (0, set_mem k (put_stat (p_mem (cur k)) p st)))))"

text \<open>\<open>pipealloc\<close> on the file table; the page, if there is one, is an argument.\<close>

definition pipealloc_files :: "ksys \<Rightarrow> u8 list option \<Rightarrow> ((nat \<times> nat) option \<times> ksys) res" where
  "pipealloc_files k page =
     (case filealloc k of
        (None, k) \<Rightarrow> Inr (None, k)
      | (Some f0, k) \<Rightarrow>
          (case filealloc k of
             (None, k) \<Rightarrow> bindR (fileclose k f0) (\<lambda>k. Inr (None, k))
           | (Some f1, k) \<Rightarrow>
               (case page of
                  None \<Rightarrow> bindR (fileclose k f0) (\<lambda>k. bindR (fileclose k f1) (\<lambda>k. Inr (None, k)))
                | Some d \<Rightarrow>
                    let p = length (pipes k);
                        k = k \<lparr> pipes := pipes k @ [\<lparr> data = take PIPESIZE d, nread = 0, nwrite = 0,
                              readopen = True, writeopen = True \<rparr>] \<rparr>;
                        k = set_file k f0 (get_file k f0 \<lparr> f_type := FD_PIPE, f_readable := True, f_writable := False, f_pipe := p \<rparr>);
                        k = set_file k f1 (get_file k f1 \<lparr> f_type := FD_PIPE, f_readable := False, f_writable := True, f_pipe := p \<rparr>)
                    in Inr (Some (f0, f1), k))))"

definition sys_pipe :: "u8 list option \<Rightarrow> ksys \<Rightarrow> (int \<times> ksys) res" where
  "sys_pipe page k =
     (case argptr (cur k) 0 8 of
        None \<Rightarrow> Inr (-1, k)
      | Some p \<Rightarrow>
          bindR (pipealloc_files k page) (\<lambda>(r, k).
          case r of
            None \<Rightarrow> Inr (-1, k)
          | Some (rdf, wrf) \<Rightarrow>
              (case fdalloc k rdf of
                 (None, k) \<Rightarrow> bindR (fileclose k rdf) (\<lambda>k. bindR (fileclose k wrf) (\<lambda>k. Inr (-1, k)))
               | (Some fd0, k) \<Rightarrow>
                   (case fdalloc k wrf of
                      (None, k) \<Rightarrow>
                        bindR (fileclose (set_fd k fd0 None) rdf) (\<lambda>k. bindR (fileclose k wrf) (\<lambda>k. Inr (-1, k)))
                    | (Some fd1, k) \<Rightarrow>
                        Inr (0, set_mem k (put32 (put32 (p_mem (cur k)) p (of_nat fd0)) (p + 4) (of_nat fd1)))))))"

section \<open>System calls on paths\<close>

definition upd_ip :: "fsys \<Rightarrow> nat \<Rightarrow> (inode \<Rightarrow> inode) \<Rightarrow> fsys" where
  "upd_ip s i g = set_ip s i (g (get_ip s i))"

text \<open>Undoing the link count, at the label \<open>bad\<close> of \<open>sys_link\<close>.\<close>

definition link_bad :: "fsys \<Rightarrow> nat \<Rightarrow> (int \<times> fsys) res" where
  "link_bad s ip =
     bindR (ilock s ip) (\<lambda>s.
     bindR (iupdate (upd_ip s ip (\<lambda>x. x \<lparr> ip_nlink := ip_nlink x - 1 \<rparr>)) ip) (\<lambda>s.
     bindR (iunlockput s ip) (\<lambda>s.
     bindR (fs_end_op s) (\<lambda>s. Inr (-1, s)))))"

definition link_paths :: "devsw \<Rightarrow> nat \<Rightarrow> u8 list \<Rightarrow> u8 list \<Rightarrow> fsys \<Rightarrow> (int \<times> fsys) res" where
  "link_paths dv cwd old new s =
     bindR (fs_begin_op s) (\<lambda>s.
     bindR (namei dv cwd old s) (\<lambda>(r, s).
     case r of
       None \<Rightarrow> bindR (fs_end_op s) (\<lambda>s. Inr (-1, s))
     | Some ip \<Rightarrow>
         bindR (ilock s ip) (\<lambda>s.
         if ip_type (get_ip s ip) = T_DIR then
           bindR (iunlockput s ip) (\<lambda>s. bindR (fs_end_op s) (\<lambda>s. Inr (-1, s)))
         else
           bindR (iupdate (upd_ip s ip (\<lambda>x. x \<lparr> ip_nlink := ip_nlink x + 1 \<rparr>)) ip) (\<lambda>s.
           bindR (iunlock s ip) (\<lambda>s.
           bindR (nameiparent dv cwd new s) (\<lambda>(r, s).
           case r of
             None \<Rightarrow> link_bad s ip
           | Some (dp, name) \<Rightarrow>
               bindR (ilock s dp) (\<lambda>s.
               bindR (if ip_dev (get_ip s dp) \<noteq> ip_dev (get_ip s ip) then Inr (-1, s)
                      else dirlink dv s dp name (ip_inum (get_ip s ip))) (\<lambda>(r, s).
               if r < 0 then bindR (iunlockput s dp) (\<lambda>s. link_bad s ip)
               else
                 bindR (iunlockput s dp) (\<lambda>s.
                 bindR (iput s ip) (\<lambda>s.
                 bindR (fs_end_op s) (\<lambda>s. Inr (0, s))))))))))))"

definition sys_link :: "devsw \<Rightarrow> ksys \<Rightarrow> (int \<times> ksys) res" where
  "sys_link dv k =
     (case argstr (cur k) 0 of
        None \<Rightarrow> Inr (-1, k)
      | Some old \<Rightarrow>
          (case argstr (cur k) 1 of
             None \<Rightarrow> Inr (-1, k)
           | Some new \<Rightarrow> on_fs k (link_paths dv (p_cwd (cur k)) old new)))"

function (sequential) isdirempty_loop :: "devsw \<Rightarrow> nat \<Rightarrow> nat \<Rightarrow> nat \<Rightarrow> fsys \<Rightarrow> (bool \<times> fsys) res" where
  "isdirempty_loop dv dp sz off s =
     (if off < sz then
        bindR (readi dv s dp off 16) (\<lambda>(r, de, s).
        if r \<noteq> 16 then Inl (Panic ''isdirempty: readi'')
        else if de_inum de \<noteq> 0 then Inr (False, s)
        else isdirempty_loop dv dp sz (off + 16) s)
      else Inr (True, s))"
  by pat_completeness auto

termination isdirempty_loop
  by (relation "measure (\<lambda>(dv, dp, sz, off, s). sz - off)") auto

declare isdirempty_loop.simps [simp del]

definition isdirempty :: "devsw \<Rightarrow> fsys \<Rightarrow> nat \<Rightarrow> (bool \<times> fsys) res" where
  "isdirempty dv s dp = isdirempty_loop dv dp (ip_sz (get_ip s dp)) 32 s"

definition unlink_bad :: "fsys \<Rightarrow> nat \<Rightarrow> (int \<times> fsys) res" where
  "unlink_bad s dp = bindR (iunlockput s dp) (\<lambda>s. bindR (fs_end_op s) (\<lambda>s. Inr (-1, s)))"

definition unlink_path :: "devsw \<Rightarrow> nat \<Rightarrow> u8 list \<Rightarrow> fsys \<Rightarrow> (int \<times> fsys) res" where
  "unlink_path dv cwd path s =
     bindR (fs_begin_op s) (\<lambda>s.
     bindR (nameiparent dv cwd path s) (\<lambda>(r, s).
     case r of
       None \<Rightarrow> bindR (fs_end_op s) (\<lambda>s. Inr (-1, s))
     | Some (dp, name) \<Rightarrow>
         bindR (ilock s dp) (\<lambda>s.
         if namecmp name [46] \<or> namecmp name [46, 46] then unlink_bad s dp
         else
           bindR (dirlookup dv s dp name) (\<lambda>(r, s).
           case r of
             None \<Rightarrow> unlink_bad s dp
           | Some (ip, off) \<Rightarrow>
               bindR (ilock s ip) (\<lambda>s.
               if sint (ip_nlink (get_ip s ip)) < 1 then Inl (Panic ''unlink: nlink < 1'')
               else
                 bindR (if ip_type (get_ip s ip) = T_DIR then isdirempty dv s ip else Inr (True, s)) (\<lambda>(e, s).
                 if \<not> e then bindR (iunlockput s ip) (\<lambda>s. unlink_bad s dp)
                 else
                   bindR (writei dv s dp (replicate 16 0) off) (\<lambda>(r, s).
                   if r \<noteq> 16 then Inl (Panic ''unlink: writei'')
                   else
                     bindR (if ip_type (get_ip s ip) = T_DIR
                            then iupdate (upd_ip s dp (\<lambda>x. x \<lparr> ip_nlink := ip_nlink x - 1 \<rparr>)) dp else Inr s) (\<lambda>s.
                     bindR (iunlockput s dp) (\<lambda>s.
                     bindR (iupdate (upd_ip s ip (\<lambda>x. x \<lparr> ip_nlink := ip_nlink x - 1 \<rparr>)) ip) (\<lambda>s.
                     bindR (iunlockput s ip) (\<lambda>s.
                     bindR (fs_end_op s) (\<lambda>s. Inr (0, s)))))))))))))"

definition sys_unlink :: "devsw \<Rightarrow> ksys \<Rightarrow> (int \<times> ksys) res" where
  "sys_unlink dv k =
     (case argstr (cur k) 0 of
        None \<Rightarrow> Inr (-1, k)
      | Some path \<Rightarrow> on_fs k (unlink_path dv (p_cwd (cur k)) path))"

text \<open>Creating a file: the inode comes back locked.\<close>

definition create_dots :: "devsw \<Rightarrow> nat \<Rightarrow> nat \<Rightarrow> fsys \<Rightarrow> fsys res" where
  "create_dots dv dp ip s =
     bindR (iupdate (upd_ip s dp (\<lambda>x. x \<lparr> ip_nlink := ip_nlink x + 1 \<rparr>)) dp) (\<lambda>s.
     bindR (dirlink dv s ip [46] (ip_inum (get_ip s ip))) (\<lambda>(r, s).
     if r < 0 then Inl (Panic ''create dots'')
     else
       bindR (dirlink dv s ip [46, 46] (ip_inum (get_ip s dp))) (\<lambda>(r, s).
       if r < 0 then Inl (Panic ''create dots'') else Inr s)))"

definition create :: "devsw \<Rightarrow> nat \<Rightarrow> u8 list \<Rightarrow> 16 word \<Rightarrow> 16 word \<Rightarrow> 16 word \<Rightarrow> fsys \<Rightarrow> (nat option \<times> fsys) res" where
  "create dv cwd path ty major minor s =
     bindR (nameiparent dv cwd path s) (\<lambda>(r, s).
     case r of
       None \<Rightarrow> Inr (None, s)
     | Some (dp, name) \<Rightarrow>
         bindR (ilock s dp) (\<lambda>s.
         bindR (dirlookup dv s dp name) (\<lambda>(r, s).
         case r of
           Some (ip, _) \<Rightarrow>
             bindR (iunlockput s dp) (\<lambda>s.
             bindR (ilock s ip) (\<lambda>s.
             if ty = T_FILE \<and> ip_type (get_ip s ip) = T_FILE then Inr (Some ip, s)
             else bindR (iunlockput s ip) (\<lambda>s. Inr (None, s))))
         | None \<Rightarrow>
             bindR (ialloc s (ip_dev (get_ip s dp)) ty) (\<lambda>(ip, s).
             bindR (ilock s ip) (\<lambda>s.
             bindR (iupdate (upd_ip s ip (\<lambda>x. x \<lparr> ip_major := major, ip_minor := minor, ip_nlink := 1 \<rparr>)) ip) (\<lambda>s.
             bindR (if ty = T_DIR then create_dots dv dp ip s else Inr s) (\<lambda>s.
             bindR (dirlink dv s dp name (ip_inum (get_ip s ip))) (\<lambda>(r, s).
             if r < 0 then Inl (Panic ''create: dirlink'')
             else bindR (iunlockput s dp) (\<lambda>s. Inr (Some ip, s))))))))))"

definition O_WRONLY :: "32 word" where "O_WRONLY = 1"
definition O_RDWR :: "32 word" where "O_RDWR = 2"
definition O_CREATE :: "32 word" where "O_CREATE = 0x200"

text \<open>The inode to open, locked, with the transaction ended where there is none.\<close>

definition open_inode :: "devsw \<Rightarrow> nat \<Rightarrow> u8 list \<Rightarrow> u32 \<Rightarrow> fsys \<Rightarrow> (nat option \<times> fsys) res" where
  "open_inode dv cwd path omode s =
     (if omode AND O_CREATE \<noteq> 0 then
        bindR (create dv cwd path T_FILE 0 0 s) (\<lambda>(r, s).
        case r of None \<Rightarrow> bindR (fs_end_op s) (\<lambda>s. Inr (None, s)) | Some ip \<Rightarrow> Inr (Some ip, s))
      else
        bindR (namei dv cwd path s) (\<lambda>(r, s).
        case r of
          None \<Rightarrow> bindR (fs_end_op s) (\<lambda>s. Inr (None, s))
        | Some ip \<Rightarrow>
            bindR (ilock s ip) (\<lambda>s.
            if ip_type (get_ip s ip) = T_DIR \<and> omode \<noteq> 0
            then bindR (iunlockput s ip) (\<lambda>s. bindR (fs_end_op s) (\<lambda>s. Inr (None, s)))
            else Inr (Some ip, s))))"

definition sys_open :: "devsw \<Rightarrow> ksys \<Rightarrow> (int \<times> ksys) res" where
  "sys_open dv k =
     (case argstr (cur k) 0 of
        None \<Rightarrow> Inr (-1, k)
      | Some path \<Rightarrow>
          (case argint (cur k) 1 of
             None \<Rightarrow> Inr (-1, k)
           | Some mode \<Rightarrow>
               let omode = of_int mode :: u32 in
               bindR (on_fs k (\<lambda>s. bindR (fs_begin_op s) (open_inode dv (p_cwd (cur k)) path omode))) (\<lambda>(r, k).
               case r of
                 None \<Rightarrow> Inr (-1, k)
               | Some ip \<Rightarrow>
                   (case filealloc k of
                      (None, k) \<Rightarrow>
                        bindR (do_fs k (\<lambda>s. bindR (iunlockput s ip) fs_end_op)) (\<lambda>k. Inr (-1, k))
                    | (Some f, k) \<Rightarrow>
                        (case fdalloc k f of
                           (None, k) \<Rightarrow>
                             bindR (fileclose k f) (\<lambda>k.
                             bindR (do_fs k (\<lambda>s. bindR (iunlockput s ip) fs_end_op)) (\<lambda>k. Inr (-1, k)))
                         | (Some fd, k) \<Rightarrow>
                             bindR (do_fs k (\<lambda>s. bindR (iunlock s ip) fs_end_op)) (\<lambda>k.
                             Inr (int fd, set_file k f (get_file k f \<lparr> f_type := FD_INODE, f_ip := ip, f_off := 0,
                               num_read_bytes := 0, num_write_bytes := 0, f_readable := (omode AND O_WRONLY = 0),
                               f_writable := (omode AND O_WRONLY \<noteq> 0 \<or> omode AND O_RDWR \<noteq> 0) \<rparr>))))))))"

definition put_created :: "(nat option \<times> fsys) res \<Rightarrow> (int \<times> fsys) res" where
  "put_created m =
     bindR m (\<lambda>(r, s).
     case r of
       None \<Rightarrow> bindR (fs_end_op s) (\<lambda>s. Inr (-1, s))
     | Some ip \<Rightarrow> bindR (iunlockput s ip) (\<lambda>s. bindR (fs_end_op s) (\<lambda>s. Inr (0, s))))"

definition sys_mkdir :: "devsw \<Rightarrow> ksys \<Rightarrow> (int \<times> ksys) res" where
  "sys_mkdir dv k =
     on_fs k (\<lambda>s. bindR (fs_begin_op s) (\<lambda>s.
       case argstr (cur k) 0 of
         None \<Rightarrow> bindR (fs_end_op s) (\<lambda>s. Inr (-1, s))
       | Some path \<Rightarrow> put_created (create dv (p_cwd (cur k)) path T_DIR 0 0 s)))"

definition sys_mknod :: "devsw \<Rightarrow> ksys \<Rightarrow> (int \<times> ksys) res" where
  "sys_mknod dv k =
     on_fs k (\<lambda>s. bindR (fs_begin_op s) (\<lambda>s.
       case (argstr (cur k) 0, argint (cur k) 1, argint (cur k) 2) of
         (Some path, Some major, Some minor) \<Rightarrow>
           put_created (create dv (p_cwd (cur k)) path T_DEV (of_int major) (of_int minor) s)
       | _ \<Rightarrow> bindR (fs_end_op s) (\<lambda>s. Inr (-1, s))))"

definition chdir_path :: "devsw \<Rightarrow> nat \<Rightarrow> u8 list option \<Rightarrow> fsys \<Rightarrow> (nat option \<times> fsys) res" where
  "chdir_path dv cwd path s =
     bindR (fs_begin_op s) (\<lambda>s.
     bindR (case path of None \<Rightarrow> Inr (None, s) | Some path \<Rightarrow> namei dv cwd path s) (\<lambda>(r, s).
     case r of
       None \<Rightarrow> bindR (fs_end_op s) (\<lambda>s. Inr (None, s))
     | Some ip \<Rightarrow>
         bindR (ilock s ip) (\<lambda>s.
         if ip_type (get_ip s ip) \<noteq> T_DIR then bindR (iunlockput s ip) (\<lambda>s. bindR (fs_end_op s) (\<lambda>s. Inr (None, s)))
         else
           bindR (iunlock s ip) (\<lambda>s.
           bindR (iput s cwd) (\<lambda>s.
           bindR (fs_end_op s) (\<lambda>s. Inr (Some ip, s)))))))"

definition sys_chdir :: "devsw \<Rightarrow> ksys \<Rightarrow> (int \<times> ksys) res" where
  "sys_chdir dv k =
     bindR (on_fs k (chdir_path dv (p_cwd (cur k)) (argstr (cur k) 0))) (\<lambda>(r, k).
     case r of None \<Rightarrow> Inr (-1, k) | Some ip \<Rightarrow> Inr (0, k \<lparr> cur := cur k \<lparr> p_cwd := ip \<rparr> \<rparr>))"

section \<open>Fork, exit and the scheduler\<close>

text \<open>\<open>fork\<close> duplicates every open file for the child, whose memory is a copy of the parent's.\<close>

fun dup_all :: "nat option list \<Rightarrow> ksys \<Rightarrow> ksys res" where
  "dup_all [] k = Inr k"
| "dup_all (None # fds) k = dup_all fds k"
| "dup_all (Some f # fds) k = bindR (filedup k f) (\<lambda>k. dup_all fds k)"

definition fork_files :: "ksys \<Rightarrow> ksys res" where
  "fork_files k =
     bindR (dup_all (p_ofile (cur k)) k) (\<lambda>k.
     Inr (k \<lparr> kfs := idup (kfs k) (p_cwd (cur k)), others := others k @ [cur k] \<rparr>))"

text \<open>\<open>exit\<close> closes them and drops the current directory.\<close>

fun close_all :: "nat \<Rightarrow> nat \<Rightarrow> ksys \<Rightarrow> ksys res" where
  "close_all fd 0 k = Inr k"
| "close_all fd (Suc n) k =
     (case p_ofile (cur k) ! fd of
        None \<Rightarrow> close_all (fd + 1) n k
      | Some f \<Rightarrow> bindR (fileclose k f) (\<lambda>k. close_all (fd + 1) n (set_fd k fd None)))"

definition exit_files :: "ksys \<Rightarrow> ksys res" where
  "exit_files k =
     bindR (close_all 0 NOFILE k) (\<lambda>k.
     do_fs k (\<lambda>s. bindR (fs_begin_op s) (\<lambda>s. bindR (iput s (p_cwd (cur k))) fs_end_op)))"

definition switch_to :: "ksys \<Rightarrow> nat \<Rightarrow> ksys" where
  "switch_to k j = k \<lparr> cur := others k ! j, others := (others k)[j := cur k] \<rparr>"

text \<open>A step of the system: one call of the running process, or another process runs.\<close>

inductive kstep :: "devsw \<Rightarrow> ksys \<Rightarrow> ksys \<Rightarrow> bool" for dv where
  "sys_dup k = Inr (r, k') \<Longrightarrow> kstep dv k k'"
| "sys_read dv k = Inr (r, k') \<Longrightarrow> kstep dv k k'"
| "sys_write dv k = Inr (r, k') \<Longrightarrow> kstep dv k k'"
| "sys_close k = Inr (r, k') \<Longrightarrow> kstep dv k k'"
| "sys_getiostats k = Inr (r, k') \<Longrightarrow> kstep dv k k'"
| "sys_fstat k = Inr (r, k') \<Longrightarrow> kstep dv k k'"
| "sys_link dv k = Inr (r, k') \<Longrightarrow> kstep dv k k'"
| "sys_unlink dv k = Inr (r, k') \<Longrightarrow> kstep dv k k'"
| "sys_open dv k = Inr (r, k') \<Longrightarrow> kstep dv k k'"
| "sys_mkdir dv k = Inr (r, k') \<Longrightarrow> kstep dv k k'"
| "sys_mknod dv k = Inr (r, k') \<Longrightarrow> kstep dv k k'"
| "sys_chdir dv k = Inr (r, k') \<Longrightarrow> kstep dv k k'"
| "sys_pipe page k = Inr (r, k') \<Longrightarrow> kstep dv k k'"
| "fork_files k = Inr k' \<Longrightarrow> kstep dv k k'"
| "exit_files k = Inr k' \<Longrightarrow> kstep dv k k'"
| "j < length (others k) \<Longrightarrow> kstep dv k (switch_to k j)"

section \<open>Reference counts\<close>

definition file_refs :: "ksys \<Rightarrow> nat \<Rightarrow> nat" where
  "file_refs k f = sum_list (map (\<lambda>p. count_list (p_ofile p) (Some f)) (cur k # others k))"

text \<open>
  The count of a file is the number of descriptors that refer to it plus the references \<open>d\<close> that a
  call holds in its variables; a file with no reference has no type.
\<close>

definition fd_bal :: "(nat \<Rightarrow> int) \<Rightarrow> ksys \<Rightarrow> bool" where
  "fd_bal d k \<longleftrightarrow> length (ftab k) = NFILE \<and> (\<forall>p \<in> set (cur k # others k). length (p_ofile p) = NOFILE) \<and>
     (\<forall>p \<in> set (cur k # others k). \<forall>f. Some f \<in> set (p_ofile p) \<longrightarrow> f < NFILE) \<and>
     (\<forall>f < NFILE. f_ref (get_file k f) = int (file_refs k f) + d f \<and>
       (f_ref (get_file k f) = 0 \<longrightarrow> f_type (get_file k f) = FD_NONE))"

definition no_refs :: "nat \<Rightarrow> int" where
  "no_refs f = 0"

definition fd_inv :: "ksys \<Rightarrow> bool" where
  "fd_inv k \<longleftrightarrow> fd_bal no_refs k"

lemma count_list_update:
  "i < length xs \<Longrightarrow>
    int (count_list (xs[i := x]) y) = int (count_list xs y) + (if x = y then 1 else 0) - (if xs ! i = y then 1 else 0)"
proof (induction xs arbitrary: i)
  case (Cons a xs)
  show ?case
  proof (cases i)
    case (Suc n)
    with Cons.IH [of n] Cons.prems show ?thesis by (simp add: of_nat_Suc split del: if_split) (auto split: if_split)
  qed auto
qed simp

lemma bal_other [simp]:
  "fd_bal d (k \<lparr> kfs := s \<rparr>) = fd_bal d k" "fd_bal d (k \<lparr> pipes := ps \<rparr>) = fd_bal d k" "fd_bal d (set_mem k m) = fd_bal d k"
  "fd_bal d (k \<lparr> cur := cur k \<lparr> p_cwd := c \<rparr> \<rparr>) = fd_bal d k"
  by (simp_all add: fd_bal_def file_refs_def set_mem_def)

lemma set_file_fields [simp]:
  "cur (set_file k f x) = cur k" "others (set_file k f x) = others k" "kfs (set_file k f x) = kfs k"
  "pipes (set_file k f x) = pipes k" "length (ftab (set_file k f x)) = length (ftab k)" "file_refs (set_file k f x) = file_refs k"
  by (simp_all add: set_file_def file_refs_def fun_eq_iff)

lemma get_set_file:
  "get_file (set_file k f x) g = (if g = f \<and> f < length (ftab k) then x else get_file k g)"
  by (cases "f < length (ftab k)") (auto simp: set_file_def nth_list_update list_update_beyond)

text \<open>Changing a file: its count may change with the references held.\<close>

lemma bal_set_file:
  assumes "fd_bal d k" and "f < NFILE" and "f_ref x = f_ref (get_file k f) + c"
    and "f_ref x = 0 \<Longrightarrow> f_type x = FD_NONE"
  shows "fd_bal (d(f := d f + c)) (set_file k f x)"
  using assms by (auto simp: fd_bal_def get_set_file)

lemma bal_set_file0:
  assumes "fd_bal d k" and "f_ref x = f_ref (get_file k f)" and "f_ref x = 0 \<Longrightarrow> f_type x = FD_NONE"
  shows "fd_bal d (set_file k f x)"
proof (cases "f < NFILE")
  case True
  from bal_set_file [OF assms(1) True, of x 0] assms show ?thesis by simp
next
  case False
  with assms show ?thesis by (auto simp: fd_bal_def get_set_file)
qed

lemma bal_set_fd:
  assumes "fd_bal d k" and "fd < NOFILE" and "\<And>f. x = Some f \<Longrightarrow> f < NFILE"
  shows "fd_bal (\<lambda>f. d f + (if p_ofile (cur k) ! fd = Some f then 1 else 0) - (if x = Some f then 1 else 0)) (set_fd k fd x)"
proof -
  have l: "fd < length (p_ofile (cur k))" using assms(1,2) by (simp add: fd_bal_def)
  have "int (file_refs (set_fd k fd x) f) =
      int (file_refs k f) + (if x = Some f then 1 else 0) - (if p_ofile (cur k) ! fd = Some f then 1 else 0)" for f
    using count_list_update [OF l, of x "Some f"] by (simp add: file_refs_def set_fd_def)
  moreover have "f < NFILE" if "Some f \<in> set ((p_ofile (cur k))[fd := x])" for f
    using set_update_subset_insert [of "p_ofile (cur k)" fd x] that assms(1,3) by (auto simp: fd_bal_def)
  ultimately show ?thesis using assms(1) by (auto simp: fd_bal_def set_fd_def)
qed

lemma bal_clear_fd:
  "fd_bal d k \<Longrightarrow> fd < NOFILE \<Longrightarrow> p_ofile (cur k) ! fd = Some f \<Longrightarrow> fd_bal (d(f := d f + 1)) (set_fd k fd None)"
proof -
  assume a: "fd_bal d k" "fd < NOFILE" "p_ofile (cur k) ! fd = Some f"
  have "(\<lambda>g. d g + (if p_ofile (cur k) ! fd = Some g then 1 else 0) - (if None = Some g then 1 else 0)) = d(f := d f + 1)"
    by (auto simp: fun_eq_iff a(3))
  with bal_set_fd [OF a(1,2), of None] show ?thesis by (simp only: option.distinct simp_thms)
qed

lemma bal_set_new_fd:
  "fd_bal d k \<Longrightarrow> fd < NOFILE \<Longrightarrow> p_ofile (cur k) ! fd = None \<Longrightarrow> f < NFILE \<Longrightarrow>
    fd_bal (d(f := d f - 1)) (set_fd k fd (Some f))"
proof -
  assume a: "fd_bal d k" "fd < NOFILE" "p_ofile (cur k) ! fd = None" "f < NFILE"
  have "(\<lambda>g. d g + (if p_ofile (cur k) ! fd = Some g then 1 else 0) - (if Some f = Some g then 1 else 0)) = d(f := d f - 1)"
    by (auto simp: fun_eq_iff a(3))
  moreover have "\<And>g. Some f = Some g \<Longrightarrow> g < NFILE" using a(4) by simp
  ultimately show ?thesis using bal_set_fd [OF a(1,2), of "Some f"] by (simp only: simp_thms)
qed

section \<open>What the operations do to the counts\<close>

lemma find_file_Some: "find_file fs i = Some f \<Longrightarrow> i \<le> f \<and> f < i + length fs \<and> f_ref (fs ! (f - i)) = 0"
proof (induction fs arbitrary: i)
  case (Cons x fs)
  show ?case
  proof (cases "f_ref x = 0")
    case False
    with Cons.prems Cons.IH [of "i + 1"] show ?thesis by (auto simp: nth_Cons')
  qed (use Cons.prems in auto)
qed simp

lemma find_fd_Some: "find_fd xs i = Some fd \<Longrightarrow> i \<le> fd \<and> fd < i + length xs \<and> xs ! (fd - i) = None"
proof (induction xs arbitrary: i)
  case (Cons x xs)
  show ?case
  proof (cases "x = None")
    case False
    with Cons.prems Cons.IH [of "i + 1"] show ?thesis by (auto simp: nth_Cons')
  qed (use Cons.prems in auto)
qed simp

lemma bal_filealloc:
  assumes "fd_bal d k" and "filealloc k = (r, k')"
  shows "cur k' = cur k \<and> (case r of None \<Rightarrow> k' = k
    | Some f \<Rightarrow> f < NFILE \<and> fd_bal (d(f := d f + 1)) k' \<and> f_ref (get_file k' f) = 1 \<and> f_type (get_file k' f) = FD_NONE)"
proof (cases "find_file (ftab k) 0")
  case None
  with assms(2) show ?thesis by (auto simp: filealloc_def)
next
  case (Some f)
  with find_file_Some [OF Some] assms(1)
  have f: "f < NFILE" "f_ref (get_file k f) = 0" "f_type (get_file k f) = FD_NONE" "f < length (ftab k)"
    by (auto simp: fd_bal_def)
  have k': "r = Some f" "k' = set_file k f (get_file k f \<lparr> f_ref := 1 \<rparr>)" using assms(2) Some by (auto simp: filealloc_def)
  have "fd_bal (d(f := d f + 1)) k'"
    unfolding k' by (rule bal_set_file [OF assms(1) f(1)]) (use f in auto)
  with f k' show ?thesis by (simp add: get_set_file)
qed

lemma bal_fdalloc:
  assumes "fd_bal d k" and "f < NFILE" and "fdalloc k f = (r, k')"
  shows "ftab k' = ftab k \<and> (case r of None \<Rightarrow> k' = k
    | Some fd \<Rightarrow> fd < NOFILE \<and> fd_bal (d(f := d f - 1)) k' \<and> p_ofile (cur k') ! fd = Some f)"
proof (cases "find_fd (p_ofile (cur k)) 0")
  case None
  with assms(3) show ?thesis by (auto simp: fdalloc_def)
next
  case (Some fd)
  have l: "length (p_ofile (cur k)) = NOFILE" using assms(1) by (simp add: fd_bal_def)
  from find_fd_Some [OF Some] have fd: "fd < NOFILE" "p_ofile (cur k) ! fd = None" by (auto simp: l)
  have "r = Some fd" "k' = set_fd k fd (Some f)" using assms(3) Some by (auto simp: fdalloc_def)
  with bal_set_new_fd [OF assms(1) fd assms(2)] fd l show ?thesis by (simp add: set_fd_def)
qed

lemma bal_filedup:
  assumes "fd_bal d k" and "f < NFILE" and "filedup k f = Inr k'"
  shows "fd_bal (d(f := d f + 1)) k' \<and> cur k' = cur k \<and> others k' = others k"
proof -
  have k': "k' = set_file k f (get_file k f \<lparr> f_ref := f_ref (get_file k f) + 1 \<rparr>)" "f_ref (get_file k f) \<ge> 1"
    using assms(3) by (auto simp: filedup_def split: if_splits)
  have "fd_bal (d(f := d f + 1)) k'"
    unfolding k'(1) by (rule bal_set_file [OF assms(1,2)]) (use k'(2) in auto)
  with k' show ?thesis by simp
qed

lemma on_fs_bal: "on_fs k g = Inr (x, k') \<Longrightarrow> \<exists>s. k' = k \<lparr> kfs := s \<rparr>"
  by (auto simp: on_fs_def)

lemma do_fs_bal: "do_fs k g = Inr k' \<Longrightarrow> \<exists>s. k' = k \<lparr> kfs := s \<rparr>"
  by (auto simp: do_fs_def)

lemma bal_fileclose:
  assumes "fd_bal d k" and "f < NFILE" and "fileclose k f = Inr k'"
  shows "fd_bal (d(f := d f - 1)) k' \<and> cur k' = cur k \<and> others k' = others k"
proof -
  let ?n = "f_ref (get_file k f) - 1"
  define k1 where "k1 = set_file k f (get_file k f \<lparr> f_ref := ?n \<rparr>)"
  have lf: "f < length (ftab k)" using assms(1,2) by (simp add: fd_bal_def)
  have pos: "f_ref (get_file k f) \<ge> 1" using assms(3) by (auto simp: fileclose_def split: if_splits)
  show ?thesis
  proof (cases "?n > 0")
    case True
    then have k': "k' = k1" using assms(3) pos lf by (simp add: fileclose_def Let_def k1_def get_set_file)
    have "fd_bal (d(f := d f + -1)) k1"
      unfolding k1_def by (rule bal_set_file [OF assms(1,2)]) (use True in auto)
    with k' show ?thesis by (simp add: k1_def)
  next
    case False
    with pos have one: "f_ref (get_file k f) = 1" by simp
    define x where "x = get_file k f \<lparr> f_ref := 0, f_type := FD_NONE \<rparr>"
    define k2 where "k2 = set_file k f x"
    have ff: "get_file k1 f = get_file k f \<lparr> f_ref := 0 \<rparr>" using one lf by (simp add: k1_def get_set_file)
    have k2': "set_file k1 f (get_file k1 f \<lparr> f_ref := 0, f_type := FD_NONE \<rparr>) = k2"
      unfolding ff by (simp add: k1_def k2_def x_def set_file_def)
    have "\<exists>s ps. k' = k2 \<lparr> kfs := s, pipes := ps \<rparr>"
    proof (cases "f_type (get_file k f)")
      case FD_NONE
      then have "k' = k2 \<lparr> kfs := kfs k2, pipes := pipes k2 \<rparr>"
        using assms(3) one unfolding fileclose_def Let_def k1_def [symmetric] k2' by (simp add: ff)
      then show ?thesis by blast
    next
      case FD_PIPE
      then have "\<exists>ps. k' = k2 \<lparr> pipes := ps \<rparr>"
        using assms(3) one unfolding fileclose_def Let_def k1_def [symmetric] k2' by (auto simp: ff)
      then obtain ps where "k' = k2 \<lparr> kfs := kfs k2, pipes := ps \<rparr>" by auto
      then show ?thesis by blast
    next
      case FD_INODE
      then have "\<exists>g. do_fs k2 g = Inr k'"
        using assms(3) one unfolding fileclose_def Let_def k1_def [symmetric] k2' by (auto simp: ff)
      then obtain s where "k' = k2 \<lparr> kfs := s, pipes := pipes k2 \<rparr>" using do_fs_bal by force
      then show ?thesis by blast
    qed
    then obtain s ps where k': "k' = k2 \<lparr> kfs := s \<rparr> \<lparr> pipes := ps \<rparr>" by auto
    have "fd_bal (d(f := d f + -1)) k2"
      unfolding k2_def by (rule bal_set_file [OF assms(1,2)]) (simp_all add: x_def one)
    with k' show ?thesis by (simp add: k2_def)
  qed
qed

lemma argfd_Some:
  assumes "fd_bal d k" and "argfd (cur k) n = Some (fd, f)"
  shows "fd < NOFILE" "p_ofile (cur k) ! fd = Some f" "f < NFILE"
proof -
  show a: "fd < NOFILE" "p_ofile (cur k) ! fd = Some f"
    using assms(2) by (auto simp: argfd_def split: option.splits if_splits)
  then have "Some f \<in> set (p_ofile (cur k))" using assms(1) by (metis fd_bal_def list.set_intros(1) nth_mem)
  then show "f < NFILE" using assms(1) by (auto simp: fd_bal_def)
qed

lemma bal_file_fields:
  assumes "fd_bal d k" and "f_ref x = f_ref (get_file k f)" and "f_type x = f_type (get_file k f)" and "f < NFILE"
  shows "fd_bal d (set_file k f x)"
  using assms by (intro bal_set_file0) (auto simp: fd_bal_def)

lemma bal_fileread:
  assumes "fd_bal d k" and "f < NFILE" and "fileread dv k f n = Inr (r, cs, k')"
  shows "fd_bal d k'"
proof (cases "f_readable (get_file k f)")
  case False
  with assms show ?thesis by (simp add: fileread_def)
next
  case True
  obtain c where c: "int_add (num_read_bytes (get_file k f)) (int n) = Inr c"
    using assms(3) True by (auto simp: fileread_def)
  define k1 where "k1 = set_file k f (get_file k f \<lparr> num_read_bytes := c \<rparr>)"
  have b1: "fd_bal d k1" unfolding k1_def by (rule bal_file_fields) (use assms in auto)
  have b2: "fd_bal d (set_file k1 f (get_file k1 f \<lparr> f_off := o' \<rparr>))" for o'
    by (rule bal_file_fields [OF b1]) (use assms in auto)
  note r = assms(3) [unfolded fileread_def, simplified True c bindR_Inr, unfolded Let_def k1_def [symmetric], simplified]
  show ?thesis
  proof (cases "f_type (get_file k1 f)")
    case FD_NONE
    with r show ?thesis by simp
  next
    case FD_PIPE
    then show ?thesis using r b1 by (auto split: prod.splits read_end.splits)
  next
    case FD_INODE
    then show ?thesis using r b1 b2 by (auto simp: bindR_eq_Inr split: if_splits)
  qed
qed

lemma bal_write_chunk:
  assumes "fd_bal d k" and "f < NFILE" and "write_chunk dv k f cs = Inr (r, k')"
  shows "fd_bal d k'"
proof -
  have "fd_bal d (set_file k f (get_file k f \<lparr> f_off := o' \<rparr>))" for o'
    by (rule bal_file_fields [OF assms(1)]) (use assms in auto)
  then show ?thesis using assms by (auto simp: write_chunk_def Let_def bindR_eq_Inr split: if_splits)
qed

lemma bal_filewrite_loop:
  "fd_bal d k \<Longrightarrow> f < NFILE \<Longrightarrow> filewrite_loop dv f addr i k = Inr (r, k') \<Longrightarrow> fd_bal d k'"
proof (induction dv f addr i k rule: filewrite_loop.induct)
  case (1 dv f addr i k)
  show ?case
  proof (cases "i < length addr")
    case False
    with 1 show ?thesis by (simp add: filewrite_loop.simps)
  next
    case True
    define n1 where "n1 = min (length addr - i) max_write"
    obtain x k1 where w: "write_chunk dv k f (take n1 (drop i addr)) = Inr (x, k1)"
      using "1.prems"(3) True by (subst (asm) filewrite_loop.simps) (auto simp: Let_def n1_def)
    have b: "fd_bal d k1" by (rule bal_write_chunk [OF "1.prems"(1,2) w])
    have "(if x < 0 then Inr (i, k1) else if x \<noteq> int n1 then Inl (Panic ''short filewrite'')
        else filewrite_loop dv f addr (i + n1) k1) = Inr (r, k')"
      using "1.prems"(3) True w by (subst (asm) filewrite_loop.simps) (auto simp: Let_def n1_def split: if_splits)
    then show ?thesis
      using b "1.IH" [OF True n1_def w refl _ _ b "1.prems"(2)] by (auto split: if_splits)
  qed
qed

lemma bal_filewrite:
  assumes "fd_bal d k" and "f < NFILE" and "filewrite dv k f addr = Inr (r, k')"
  shows "fd_bal d k'"
proof (cases "f_writable (get_file k f)")
  case False
  with assms show ?thesis by (simp add: filewrite_def)
next
  case True
  obtain c where c: "int_add (num_write_bytes (get_file k f)) (int (length addr)) = Inr c"
    using assms(3) True by (auto simp: filewrite_def)
  define k1 where "k1 = set_file k f (get_file k f \<lparr> num_write_bytes := c \<rparr>)"
  have b1: "fd_bal d k1" unfolding k1_def by (rule bal_file_fields) (use assms in auto)
  note r = assms(3) [unfolded filewrite_def, simplified True c bindR_Inr, unfolded Let_def k1_def [symmetric], simplified]
  show ?thesis
  proof (cases "f_type (get_file k1 f)")
    case FD_NONE
    with r show ?thesis by simp
  next
    case FD_PIPE
    then show ?thesis using r b1 by (auto split: prod.splits write_end.splits)
  next
    case FD_INODE
    then show ?thesis using r bal_filewrite_loop [OF b1 assms(2)] by (auto split: if_splits)
  qed
qed

lemma bal_on_fs: "on_fs k g = Inr (x, k') \<Longrightarrow> fd_bal d k \<Longrightarrow> fd_bal d k'"
  by (auto dest!: on_fs_bal)

lemma bal_filestat: "filestat k f = Inr (st, k') \<Longrightarrow> fd_bal d k \<Longrightarrow> fd_bal d k'"
  by (auto simp: filestat_def split: if_splits intro: bal_on_fs)

section \<open>Every call keeps the counts\<close>

lemma inv_dup: "fd_inv k \<Longrightarrow> sys_dup k = Inr (r, k') \<Longrightarrow> fd_inv k'"
proof -
  assume i: "fd_inv k" and r: "sys_dup k = Inr (r, k')"
  show ?thesis
  proof (cases "argfd (cur k) 0")
    case None
    with i r show ?thesis by (simp add: sys_dup_def)
  next
    case (Some a)
    then obtain fd f where a: "argfd (cur k) 0 = Some (fd, f)" by (cases a) auto
    note f = argfd_Some [OF i [unfolded fd_inv_def] a]
    obtain x k1 where fa: "fdalloc k f = (x, k1)" by (cases "fdalloc k f")
    note b = bal_fdalloc [OF i [unfolded fd_inv_def] f(3) fa]
    show ?thesis
    proof (cases x)
      case None
      with i r a fa b show ?thesis by (simp add: sys_dup_def)
    next
      case (Some y)
      then obtain k2 where k2: "filedup k1 f = Inr k2" "k' = k2" using r a fa by (auto simp: sys_dup_def)
      have "fd_bal (no_refs(f := no_refs f - 1)) k1" using b Some by simp
      from bal_filedup [OF this f(3) k2(1)] show ?thesis by (simp add: fd_inv_def k2(2))
    qed
  qed
qed

lemma inv_read: "fd_inv k \<Longrightarrow> sys_read dv k = Inr (r, k') \<Longrightarrow> fd_inv k'"
  unfolding fd_inv_def
  by (auto simp: sys_read_def bindR_eq_Inr split: option.splits)
    (erule bal_fileread [rotated 2], assumption, erule (1) argfd_Some(3))

lemma inv_write: "fd_inv k \<Longrightarrow> sys_write dv k = Inr (r, k') \<Longrightarrow> fd_inv k'"
  unfolding fd_inv_def
  by (auto simp: sys_write_def split: option.splits)
    (erule bal_filewrite [rotated 2], assumption, erule (1) argfd_Some(3))

lemma inv_close: "fd_inv k \<Longrightarrow> sys_close k = Inr (r, k') \<Longrightarrow> fd_inv k'"
proof -
  assume i: "fd_inv k" and r: "sys_close k = Inr (r, k')"
  show ?thesis
  proof (cases "argfd (cur k) 0")
    case None
    with i r show ?thesis by (simp add: sys_close_def)
  next
    case (Some a)
    then obtain fd f where a: "argfd (cur k) 0 = Some (fd, f)" by (cases a) auto
    note f = argfd_Some [OF i [unfolded fd_inv_def] a]
    have c: "fileclose (set_fd k fd None) f = Inr k'" using r a by (auto simp: sys_close_def)
    from bal_fileclose [OF bal_clear_fd [OF i [unfolded fd_inv_def] f(1,2)] f(3) c]
    show ?thesis by (simp add: fd_inv_def)
  qed
qed

lemma inv_getiostats: "fd_inv k \<Longrightarrow> sys_getiostats k = Inr (r, k') \<Longrightarrow> fd_inv k'"
proof -
  assume i: "fd_inv k" and r: "sys_getiostats k = Inr (r, k')"
  have "fd_bal d k'" if "getiostats k fd p = Inr (r, k')" "fd_bal d k" for fd p d
  proof (cases "fd < 0")
    case False
    with that show ?thesis
      by (auto simp: getiostats_def Let_def bindR_eq_Inr split: option.splits split del: if_split) (erule (1) bal_filestat)+
  qed (use that in \<open>simp add: getiostats_def\<close>)
  with i r show ?thesis by (auto simp: sys_getiostats_def fd_inv_def split: option.splits)
qed

lemma inv_fstat: "fd_inv k \<Longrightarrow> sys_fstat k = Inr (r, k') \<Longrightarrow> fd_inv k'"
  unfolding fd_inv_def
  by (auto simp: sys_fstat_def bindR_eq_Inr split: option.splits) (erule (1) bal_filestat)+

lemma inv_paths:
  assumes "fd_inv k"
  shows "sys_link dv k = Inr (r, k') \<Longrightarrow> fd_inv k'" "sys_unlink dv k = Inr (r, k') \<Longrightarrow> fd_inv k'"
    "sys_mkdir dv k = Inr (r, k') \<Longrightarrow> fd_inv k'" "sys_mknod dv k = Inr (r, k') \<Longrightarrow> fd_inv k'"
    "sys_chdir dv k = Inr (r, k') \<Longrightarrow> fd_inv k'"
  using assms unfolding fd_inv_def sys_link_def sys_unlink_def sys_mkdir_def sys_mknod_def sys_chdir_def
  by (auto simp: bindR_eq_Inr split: option.splits) (erule (1) bal_on_fs)+

lemma bal_fileclose2:
  assumes "fd_bal (d(f := d f + 1, g := d g + 1)) k" and "f \<noteq> g" and "f < NFILE" and "g < NFILE"
    and "bindR (fileclose k f) (\<lambda>k. bindR (fileclose k g) (\<lambda>k. Inr (x, k))) = Inr (r, k')"
  shows "fd_bal d k'"
proof -
  obtain k1 where k1: "fileclose k f = Inr k1" "fileclose k1 g = Inr k'" using assms(5) by (auto simp: bindR_eq_Inr)
  let ?d = "d(f := d f + 1, g := d g + 1)"
  have 1: "fd_bal (?d(f := ?d f - 1)) k1" using bal_fileclose [OF assms(1,3) k1(1)] by blast
  have "?d(f := ?d f - 1) = d(g := d g + 1)" using assms(2) by (auto simp: fun_eq_iff)
  with 1 have 2: "fd_bal (d(g := d g + 1)) k1" by simp
  from bal_fileclose [OF 2 assms(4) k1(2)] show ?thesis by simp
qed

lemma bal_pipealloc:
  assumes "fd_bal d k" and "pipealloc_files k page = Inr (r, k')"
  shows "case r of None \<Rightarrow> fd_bal d k'
    | Some (f, g) \<Rightarrow> f \<noteq> g \<and> f < NFILE \<and> g < NFILE \<and> fd_bal (d(f := d f + 1, g := d g + 1)) k'"
proof -
  obtain x k1 where a1: "filealloc k = (x, k1)" by (cases "filealloc k")
  note b1 = bal_filealloc [OF assms(1) a1]
  show ?thesis
  proof (cases x)
    case None
    with assms a1 b1 show ?thesis by (simp add: pipealloc_files_def)
  next
    case (Some f)
    with b1 have f: "f < NFILE" "fd_bal (d(f := d f + 1)) k1" "f_ref (get_file k1 f) = 1" by auto
    obtain y k2 where a2: "filealloc k1 = (y, k2)" by (cases "filealloc k1")
    note b2 = bal_filealloc [OF f(2) a2]
    show ?thesis
    proof (cases y)
      case None
      then have k2: "k2 = k1" using b2 by simp
      obtain k3 where c: "fileclose k1 f = Inr k3" "r = None" "k' = k3"
        using assms(2) a1 a2 \<open>x = Some f\<close> None k2 by (auto simp: pipealloc_files_def bindR_eq_Inr)
      from bal_fileclose [OF f(2,1) c(1)] c(2,3) show ?thesis by simp
    next
      case (Some g)
      have "find_file (ftab k1) 0 = Some g" using a2 Some by (auto simp: filealloc_def split: option.splits)
      from find_file_Some [OF this] f(3) have ne: "f \<noteq> g" by auto
      have g: "g < NFILE" "fd_bal (d(f := d f + 1, g := d g + 1)) k2" "f_ref (get_file k2 g) = 1"
        using b2 Some ne by auto
      have f2: "f_ref (get_file k2 f) = 1"
      proof -
        have "k2 = set_file k1 g (get_file k1 g \<lparr> f_ref := 1 \<rparr>)"
          using a2 Some by (auto simp: filealloc_def split: option.splits)
        with f(3) ne show ?thesis by (simp add: get_set_file)
      qed
      show ?thesis
      proof (cases page)
        case None
        then have c: "bindR (fileclose k2 f) (\<lambda>k. bindR (fileclose k g) (\<lambda>k. Inr (None, k))) = Inr (r, k')"
          using assms(2) a1 a2 \<open>x = Some f\<close> \<open>y = Some g\<close> by (simp add: pipealloc_files_def)
        then have "r = None" by (auto simp: bindR_eq_Inr)
        with bal_fileclose2 [OF g(2) ne f(1) g(1) c] show ?thesis by simp
      next
        case (Some dd)
        let ?k3 = "k2 \<lparr> pipes := pipes k2 @ [\<lparr> data = take PIPESIZE dd, nread = 0, nwrite = 0, readopen = True, writeopen = True \<rparr>] \<rparr>"
        let ?k4 = "set_file ?k3 f (get_file ?k3 f \<lparr> f_type := FD_PIPE, f_readable := True, f_writable := False, f_pipe := length (pipes k2) \<rparr>)"
        have r: "r = Some (f, g)" "k' = set_file ?k4 g (get_file ?k4 g \<lparr> f_type := FD_PIPE, f_readable := False, f_writable := True, f_pipe := length (pipes k2) \<rparr>)"
          using assms(2) a1 a2 \<open>x = Some f\<close> \<open>y = Some g\<close> Some by (auto simp: pipealloc_files_def Let_def)
        have 4: "fd_bal (d(f := d f + 1, g := d g + 1)) ?k4"
          by (rule bal_set_file0) (use g f2 in auto)
        have "fd_bal (d(f := d f + 1, g := d g + 1)) k'"
          unfolding r(2) by (rule bal_set_file0 [OF 4]) (use g(3) ne in \<open>auto simp: get_set_file\<close>)
        with r(1) f(1) g(1) ne show ?thesis by simp
      qed
    qed
  qed
qed

lemma inv_pipe:
  assumes "fd_inv k" and "sys_pipe page k = Inr (r, k')"
  shows "fd_inv k'"
proof (cases "argptr (cur k) 0 8")
  case None
  with assms show ?thesis by (simp add: sys_pipe_def)
next
  case (Some p)
  then obtain x k1 where a: "pipealloc_files k page = Inr (x, k1)" using assms(2) by (auto simp: sys_pipe_def bindR_eq_Inr)
  note b = bal_pipealloc [OF assms(1) [unfolded fd_inv_def] a]
  note r = assms(2) [unfolded sys_pipe_def, simplified Some a option.case bindR_Inr prod.case]
  show ?thesis
  proof (cases x)
    case None
    with b r show ?thesis by (simp add: fd_inv_def)
  next
    case x: (Some fg)
    obtain f g where fg: "fg = (f, g)" by (cases fg)
    with b x have b1: "f \<noteq> g" "f < NFILE" "g < NFILE" "fd_bal (no_refs(f := no_refs f + 1, g := no_refs g + 1)) k1" by auto
    obtain y k2 where f1: "fdalloc k1 f = (y, k2)" by (cases "fdalloc k1 f")
    note b2 = bal_fdalloc [OF b1(4,2) f1]
    show ?thesis
    proof (cases y)
      case None
      then have "bindR (fileclose k1 f) (\<lambda>k. bindR (fileclose k g) (\<lambda>k. Inr (-1, k))) = Inr (r, k')"
        using r x fg f1 b2 by simp
      from bal_fileclose2 [OF b1(4,1,2,3) this] show ?thesis by (simp add: fd_inv_def)
    next
      case y: (Some fd0)
      let ?d = "no_refs(f := no_refs f + 1, g := no_refs g + 1)"
      have "?d(f := ?d f - 1) = no_refs(g := no_refs g + 1)" using b1(1) by (auto simp: fun_eq_iff)
      with b2 y have b3: "fd_bal (no_refs(g := no_refs g + 1)) k2" "fd0 < NOFILE" "p_ofile (cur k2) ! fd0 = Some f" by auto
      obtain z k3 where f2: "fdalloc k2 g = (z, k3)" by (cases "fdalloc k2 g")
      note b4 = bal_fdalloc [OF b3(1) b1(3) f2]
      show ?thesis
      proof (cases z)
        case None
        then have c: "bindR (fileclose (set_fd k2 fd0 None) f) (\<lambda>k. bindR (fileclose k g) (\<lambda>k. Inr (-1, k))) = Inr (r, k')"
          using r x fg f1 y f2 b4 by simp
        let ?e = "no_refs(g := no_refs g + 1)"
        have "fd_bal (?e(f := ?e f + 1)) (set_fd k2 fd0 None)" by (rule bal_clear_fd [OF b3])
        moreover have "?e(f := ?e f + 1) = no_refs(f := no_refs f + 1, g := no_refs g + 1)"
          using b1(1) by (auto simp: fun_eq_iff)
        ultimately have 5: "fd_bal (no_refs(f := no_refs f + 1, g := no_refs g + 1)) (set_fd k2 fd0 None)" by simp
        from bal_fileclose2 [OF 5 b1(1,2,3) c] show ?thesis by (simp add: fd_inv_def)
      next
        case (Some fd1)
        with b4 have "fd_bal no_refs k3" by simp
        moreover have "\<exists>m. k' = set_mem k3 m" using r x fg f1 y f2 Some by auto
        ultimately show ?thesis by (auto simp: fd_inv_def)
      qed
    qed
  qed
qed

lemma bal_do_fs: "do_fs k g = Inr k' \<Longrightarrow> fd_bal d k \<Longrightarrow> fd_bal d k' \<and> ftab k' = ftab k"
  by (auto dest!: do_fs_bal)

lemma inv_open:
  assumes "fd_inv k" and "sys_open dv k = Inr (r, k')"
  shows "fd_inv k'"
proof (cases "\<exists>path mode. argstr (cur k) 0 = Some path \<and> argint (cur k) 1 = Some mode")
  case False
  with assms show ?thesis by (auto simp: sys_open_def split: option.splits)
next
  case True
  then obtain path mode where a: "argstr (cur k) 0 = Some path" "argint (cur k) 1 = Some mode" by blast
  define omode where "omode = (of_int mode :: u32)"
  obtain x k1 where o: "on_fs k (\<lambda>s. bindR (fs_begin_op s) (open_inode dv (p_cwd (cur k)) path omode)) = Inr (x, k1)"
    using assms(2) a by (auto simp: sys_open_def Let_def bindR_eq_Inr omode_def)
  note b1 = bal_on_fs [OF o assms(1) [unfolded fd_inv_def]]
  note r = assms(2) [unfolded sys_open_def Let_def, simplified a, folded omode_def, simplified o option.case bindR_Inr prod.case]
  show ?thesis
  proof (cases x)
    case None
    with r b1 a o show ?thesis by (simp add: fd_inv_def omode_def)
  next
    case x: (Some ip)
    obtain y k2 where f: "filealloc k1 = (y, k2)" by (cases "filealloc k1")
    note b2 = bal_filealloc [OF b1 f]
    show ?thesis
    proof (cases y)
      case None
      with b2 have "k2 = k1" by simp
      with r x f None a o obtain k3 where "do_fs k1 (\<lambda>s. bindR (iunlockput s ip) fs_end_op) = Inr k3" "k' = k3"
        by (auto simp: bindR_eq_Inr omode_def)
      with bal_do_fs [OF _ b1] show ?thesis by (auto simp: fd_inv_def)
    next
      case y: (Some g)
      with b2 have g: "g < NFILE" "fd_bal (no_refs(g := no_refs g + 1)) k2" "f_ref (get_file k2 g) = 1" by auto
      obtain z k3 where fa: "fdalloc k2 g = (z, k3)" by (cases "fdalloc k2 g")
      note b3 = bal_fdalloc [OF g(2,1) fa]
      show ?thesis
      proof (cases z)
        case None
        with b3 have "k3 = k2" by simp
        with r x f y fa None a o obtain k4 k5 where c: "fileclose k2 g = Inr k4"
          "do_fs k4 (\<lambda>s. bindR (iunlockput s ip) fs_end_op) = Inr k5" "k' = k5"
          by (auto simp: bindR_eq_Inr omode_def)
        have "fd_bal no_refs k4" using bal_fileclose [OF g(2,1) c(1)] by simp
        with bal_do_fs [OF c(2)] c(3) show ?thesis by (auto simp: fd_inv_def)
      next
        case z: (Some fd)
        with b3 have b4: "fd_bal no_refs k3" "ftab k3 = ftab k2" by auto
        with r x f y fa z a o obtain k4 u where c: "do_fs k3 (\<lambda>s. bindR (iunlock s ip) fs_end_op) = Inr k4"
          "k' = set_file k4 g (get_file k4 g \<lparr> f_type := FD_INODE, f_ip := ip, f_off := 0,
             num_read_bytes := 0, num_write_bytes := 0, f_readable := (omode AND O_WRONLY = 0),
             f_writable := (omode AND O_WRONLY \<noteq> 0 \<or> omode AND O_RDWR \<noteq> 0) \<rparr>)"
          by (auto simp: bindR_eq_Inr omode_def)
        have "fd_bal no_refs k'"
          unfolding c(2)
          by (rule bal_set_file0) (use bal_do_fs [OF c(1) b4(1)] b4(2) g(3) in auto)
        then show ?thesis by (simp add: fd_inv_def)
      qed
    qed
  qed
qed

lemma bal_dup_all:
  "fd_bal d k \<Longrightarrow> (\<And>f. Some f \<in> set fds \<Longrightarrow> f < NFILE) \<Longrightarrow> dup_all fds k = Inr k' \<Longrightarrow>
    fd_bal (\<lambda>f. d f + int (count_list fds (Some f))) k' \<and> cur k' = cur k \<and> others k' = others k"
proof (induction fds k arbitrary: d rule: dup_all.induct)
  case (3 f fds k)
  then obtain k1 where k1: "filedup k f = Inr k1" "dup_all fds k1 = Inr k'" by (auto simp: bindR_eq_Inr)
  note b = bal_filedup [OF "3.prems"(1) _ k1(1)]
  have f: "f < NFILE" using "3.prems"(2) by simp
  have b1: "fd_bal (d(f := d f + 1)) k1" using b [OF f] by blast
  have "fd_bal (\<lambda>g. (d(f := d f + 1)) g + int (count_list fds (Some g))) k' \<and> cur k' = cur k1 \<and> others k' = others k1"
    by (rule "3.IH" [OF k1(1) b1]) (use "3.prems"(2) k1(2) in auto)
  moreover have "(\<lambda>g. (d(f := d f + 1)) g + int (count_list fds (Some g))) = (\<lambda>g. d g + int (count_list (Some f # fds) (Some g)))"
    by (auto simp: fun_eq_iff)
  ultimately show ?case using b [OF f] by simp
qed auto

lemma inv_fork: "fd_inv k \<Longrightarrow> fork_files k = Inr k' \<Longrightarrow> fd_inv k'"
proof -
  assume i: "fd_inv k" and r: "fork_files k = Inr k'"
  then obtain k1 where k1: "dup_all (p_ofile (cur k)) k = Inr k1"
    "k' = k1 \<lparr> others := others k1 @ [cur k1] \<rparr> \<lparr> kfs := idup (kfs k1) (p_cwd (cur k1)) \<rparr>"
    by (auto simp: fork_files_def bindR_eq_Inr)
  have "fd_bal (\<lambda>f. no_refs f + int (count_list (p_ofile (cur k)) (Some f))) k1 \<and> cur k1 = cur k \<and> others k1 = others k"
    by (rule bal_dup_all [OF i [unfolded fd_inv_def] _ k1(1)]) (use i in \<open>auto simp: fd_inv_def fd_bal_def\<close>)
  then have "fd_bal no_refs (k1 \<lparr> others := others k1 @ [cur k1] \<rparr>)"
    by (auto simp: fd_bal_def file_refs_def)
  then show ?thesis by (simp add: fd_inv_def k1(2))
qed

lemma bal_close_all:
  "fd_bal d k \<Longrightarrow> fd + n \<le> NOFILE \<Longrightarrow> close_all fd n k = Inr k' \<Longrightarrow> fd_bal d k'"
proof (induction fd n k rule: close_all.induct)
  case (2 fd n k)
  show ?case
  proof (cases "p_ofile (cur k) ! fd")
    case None
    with 2 show ?thesis by simp
  next
    case (Some f)
    have fd: "fd < NOFILE" using "2.prems"(2) by simp
    have "fd < length (p_ofile (cur k))" using "2.prems"(1) fd by (simp add: fd_bal_def)
    then have "Some f \<in> set (p_ofile (cur k))" using Some by (metis nth_mem)
    then have f: "f < NFILE" using "2.prems"(1) by (auto simp: fd_bal_def)
    obtain k1 where k1: "fileclose k f = Inr k1" "close_all (fd + 1) n (set_fd k1 fd None) = Inr k'"
      using "2.prems"(3) Some by (auto simp: bindR_eq_Inr)
    have b: "fd_bal (d(f := d f - 1)) k1" "cur k1 = cur k" using bal_fileclose [OF "2.prems"(1) f k1(1)] by auto
    have "fd_bal d (set_fd k1 fd None)" using bal_clear_fd [OF b(1) fd, of f] Some b(2) by simp
    from "2.IH"(2) [OF Some k1(1) this _ k1(2)] "2.prems"(2) show ?thesis by simp
  qed
qed simp

lemma inv_exit: "fd_inv k \<Longrightarrow> exit_files k = Inr k' \<Longrightarrow> fd_inv k'"
proof -
  assume i: "fd_inv k" and r: "exit_files k = Inr k'"
  then obtain k1 g where k1: "close_all 0 NOFILE k = Inr k1" "do_fs k1 g = Inr k'"
    by (auto simp: exit_files_def bindR_eq_Inr)
  have "fd_bal no_refs k1" by (rule bal_close_all [OF i [unfolded fd_inv_def] _ k1(1)]) simp
  from bal_do_fs [OF k1(2) this] show ?thesis by (simp add: fd_inv_def)
qed

lemma inv_switch: "fd_inv k \<Longrightarrow> j < length (others k) \<Longrightarrow> fd_inv (switch_to k j)"
proof -
  assume i: "fd_inv k" and j: "j < length (others k)"
  have "file_refs (switch_to k j) f = file_refs k f" for f
  proof -
    let ?c = "\<lambda>p. count_list (p_ofile p) (Some f)"
    have "?c (others k ! j) \<le> sum_list (map ?c (others k))" using j by (intro member_le_sum_list) auto
    moreover have "sum_list (map ?c ((others k)[j := cur k])) = sum_list (map ?c (others k)) + ?c (cur k) - ?c (others k ! j)"
      using j by (simp add: map_update sum_list_update)
    ultimately show ?thesis by (simp add: file_refs_def switch_to_def)
  qed
  moreover have "set (cur (switch_to k j) # others (switch_to k j)) \<subseteq> set (cur k # others k)"
    using j set_update_subset_insert [of "others k" j "cur k"] by (auto simp: switch_to_def)
  ultimately show ?thesis using i unfolding fd_inv_def fd_bal_def by (auto simp: switch_to_def)
qed

lemma kstep_inv: "kstep dv k k' \<Longrightarrow> fd_inv k \<Longrightarrow> fd_inv k'"
  by (induction rule: kstep.induct)
    ((rule inv_dup; assumption) | (rule inv_read; assumption) | (rule inv_write; assumption) | (rule inv_close; assumption) |
     (rule inv_getiostats; assumption) | (rule inv_fstat; assumption) | (rule inv_open; assumption) | (rule inv_pipe; assumption) |
     (rule inv_fork; assumption) | (rule inv_exit; assumption) | (rule inv_switch; assumption) | (rule inv_paths(1); assumption) |
     (rule inv_paths(2); assumption) | (rule inv_paths(3); assumption) | (rule inv_paths(4); assumption) | (rule inv_paths(5); assumption))+

section \<open>Properties\<close>

text \<open>C4: whatever sequence of calls the processes make, forks, exits and switches between processes
  included, the reference count of every open file is the number of descriptors that refer to it in
  all processes, and a file that is not referenced has no type; every descriptor in use refers to a
  counted file, and duplicating a descriptor always returns.\<close>

theorem fd_refs_invariant:
  assumes "fd_inv k0" and "(kstep dv)\<^sup>*\<^sup>* k0 k"
  shows "(\<forall>f < NFILE. f_ref (get_file k f) = int (file_refs k f) \<and>
      (f_ref (get_file k f) = 0 \<longrightarrow> f_type (get_file k f) = FD_NONE)) \<and>
    (\<forall>p \<in> set (cur k # others k). \<forall>f. Some f \<in> set (p_ofile p) \<longrightarrow> f < NFILE \<and> 1 \<le> f_ref (get_file k f)) \<and>
    (\<exists>r k'. sys_dup k = Inr (r, k'))"
proof -
  from assms(2,1) have i: "fd_inv k" by (induction rule: rtranclp_induct) (auto intro: kstep_inv)
  then have b: "fd_bal no_refs k" by (simp add: fd_inv_def)
  have open': "f < NFILE \<and> 1 \<le> f_ref (get_file k f)" if "p \<in> set (cur k # others k)" "Some f \<in> set (p_ofile p)" for p f
  proof -
    have f: "f < NFILE" using b that by (auto simp: fd_bal_def)
    have "1 \<le> count_list (p_ofile p) (Some f)" using that(2) by (metis count_list_0_iff less_one not_less)
    also have "\<dots> \<le> file_refs k f"
      unfolding file_refs_def by (rule member_le_sum_list) (use that(1) in \<open>auto intro!: image_eqI\<close>)
    finally have "1 \<le> file_refs k f" .
    moreover have "f_ref (get_file k f) = int (file_refs k f)" using b f by (simp add: fd_bal_def no_refs_def)
    ultimately show ?thesis using f by simp
  qed
  have "\<exists>r k'. sys_dup k = Inr (r, k')"
  proof (cases "argfd (cur k) 0")
    case None
    then show ?thesis by (simp add: sys_dup_def)
  next
    case (Some a)
    then obtain fd f where a: "argfd (cur k) 0 = Some (fd, f)" by (cases a) auto
    note f = argfd_Some [OF b a]
    have "Some f \<in> set (p_ofile (cur k))" using f(1,2) b by (metis fd_bal_def list.set_intros(1) nth_mem)
    then have ref: "1 \<le> f_ref (get_file k f)" using open' by auto
    obtain x k1 where fa: "fdalloc k f = (x, k1)" by (cases "fdalloc k f")
    from bal_fdalloc [OF b f(3) fa] ref have "1 \<le> f_ref (get_file k1 f)" by simp
    then show ?thesis using a fa by (cases x) (simp_all add: sys_dup_def filedup_def)
  qed
  moreover have "\<forall>f < NFILE. f_ref (get_file k f) = int (file_refs k f) \<and>
      (f_ref (get_file k f) = 0 \<longrightarrow> f_type (get_file k f) = FD_NONE)"
    using b by (simp add: fd_bal_def no_refs_def)
  ultimately show ?thesis using open' by blast
qed

text \<open>A process with one open file, and the system after it has forked.\<close>

definition sample_file :: "nat \<Rightarrow> kfile" where
  "sample_file sz = \<lparr> f_type = FD_INODE, f_ref = 1, f_readable = True, f_writable = True, f_pipe = 0, f_ip = 0, f_off = sz,
     num_read_bytes = 0, num_write_bytes = 0 \<rparr>"

definition no_file :: kfile where
  "no_file = \<lparr> f_type = FD_NONE, f_ref = 0, f_readable = False, f_writable = False, f_pipe = 0, f_ip = 0, f_off = 0,
     num_read_bytes = 0, num_write_bytes = 0 \<rparr>"

definition one_proc :: uproc where
  "one_proc = \<lparr> p_ofile = Some 0 # replicate 15 None, p_cwd = 0, p_sz = 4096, p_esp = 4000, p_mem = (\<lambda>_. 0), p_killed = False \<rparr>"

definition one_fs :: "nat \<Rightarrow> fsys" where
  "one_fs sz = \<lparr> lg = \<lparr> disk = (\<lambda>_ _. 0), cache = Map.empty, writes = [], dirty = {}, start = 2, lsize = 30, outstanding = 0,
       committing = False, lh_n = 0, lh_block = replicate 30 0 \<rparr>,
     sb = \<lparr> sb_size = 1000, sb_nblocks = 941, sb_ninodes = 200, sb_nlog = 30, sb_logstart = 2, sb_inodestart = 32,
       sb_bmapstart = 58 \<rparr>,
     icache = [\<lparr> ip_dev = 1, ip_inum = 2, ip_ref = 1, ip_lock = False, ip_valid = True, ip_type = T_FILE, ip_major = 0,
       ip_minor = 0, ip_nlink = 1, ip_sz = sz, ip_addrs = replicate 13 59 \<rparr>] \<rparr>"

definition one_sys :: "nat \<Rightarrow> ksys" where
  "one_sys sz = \<lparr> ftab = sample_file sz # replicate 99 no_file, kfs = one_fs sz, pipes = [], cur = one_proc, others = [] \<rparr>"

lemma one_sys_inv: "fd_inv (one_sys sz)"
proof -
  have refs: "file_refs (one_sys sz) f = (if f = 0 then 1 else 0)" for f
    by (simp add: file_refs_def one_sys_def one_proc_def)
  have "get_file (one_sys sz) f = (if f = 0 then sample_file sz else no_file)" if "f < 100" for f
    using that by (simp add: one_sys_def nth_Cons' del: replicate_numeral)
  then show ?thesis
    unfolding fd_inv_def fd_bal_def refs
    by (auto simp: NFILE_def NOFILE_def no_refs_def sample_file_def no_file_def) (auto simp: one_sys_def one_proc_def)
qed

theorem fd_refs_invariant_witness:
  "\<exists>k. fork_files (one_sys 5) = Inr k \<and> f_ref (get_file k 0) = 2 \<and> file_refs k 0 = 2 \<and> (\<exists>r k'. sys_dup k = Inr (r, k'))"
proof -
  define k where "k = set_file (one_sys 5) 0 (sample_file 5 \<lparr> f_ref := 2 \<rparr>)
    \<lparr> kfs := idup (one_fs 5) 0, others := [one_proc] \<rparr>"
  have f: "fork_files (one_sys 5) = Inr k"
    by (simp add: fork_files_def one_sys_def one_proc_def filedup_def k_def set_file_def)
      (simp add: sample_file_def)
  then have "(kstep \<lparr> dev_read = Map.empty, dev_write = Map.empty \<rparr>)\<^sup>*\<^sup>* (one_sys 5) k"
    by (intro r_into_rtranclp kstep.intros)
  note i = fd_refs_invariant [OF one_sys_inv this]
  have "file_refs k 0 = 2" by (simp add: k_def file_refs_def set_file_def one_sys_def one_proc_def)
  moreover have "f_ref (get_file k 0) = int (file_refs k 0)" using i by (auto simp: NFILE_def)
  ultimately show ?thesis using f i by auto
qed

text \<open>An open, readable file of an inode that is in the cache and not in use.\<close>

definition open_inode_file :: "ksys \<Rightarrow> nat \<Rightarrow> bool" where
  "open_inode_file k f \<longleftrightarrow> f < length (ftab k) \<and> f_type (get_file k f) = FD_INODE \<and> f_readable (get_file k f) \<and>
     f_ip (get_file k f) < length (icache (kfs k)) \<and> 1 \<le> ip_ref (get_ip (kfs k) (f_ip (get_file k f))) \<and>
     \<not> ip_lock (get_ip (kfs k) (f_ip (get_file k f))) \<and> ip_valid (get_ip (kfs k) (f_ip (get_file k f)))"

lemma lock_free:
  assumes "i < length (icache s)" and "1 \<le> ip_ref (get_ip s i)" and "\<not> ip_lock (get_ip s i)" and "ip_valid (get_ip s i)"
  shows "ilock s i = Inr (set_ip s i (get_ip s i \<lparr> ip_lock := True \<rparr>))"
    and "iunlock (set_ip s i (get_ip s i \<lparr> ip_lock := True \<rparr>)) i = Inr s"
proof -
  show "ilock s i = Inr (set_ip s i (get_ip s i \<lparr> ip_lock := True \<rparr>))"
    using assms by (simp add: ilock_def Let_def set_ip_def)
  have "get_ip s i \<lparr> ip_lock := False \<rparr> = get_ip s i" using assms(3) by simp
  then show "iunlock (set_ip s i (get_ip s i \<lparr> ip_lock := True \<rparr>)) i = Inr s"
    using assms(1,2) by (simp add: iunlock_def set_ip_def)
qed

lemma filestat_open:
  assumes "open_inode_file k f"
  shows "filestat k f = Inr (Some (stati (get_ip (kfs k) (f_ip (get_file k f)))), k)"
proof -
  let ?i = "f_ip (get_file k f)"
  have l: "?i < length (icache (kfs k))" "f_type (get_file k f) = FD_INODE"
    using assms by (auto simp: open_inode_file_def)
  note lk = lock_free [of ?i "kfs k"]
  have "ilock (kfs k) ?i = Inr (set_ip (kfs k) ?i (get_ip (kfs k) ?i \<lparr> ip_lock := True \<rparr>))"
    "iunlock (set_ip (kfs k) ?i (get_ip (kfs k) ?i \<lparr> ip_lock := True \<rparr>)) ?i = Inr (kfs k)"
    using assms by (auto simp: open_inode_file_def intro!: lk)
  then show ?thesis using l by (simp add: filestat_def on_fs_def Let_def) (simp add: set_ip_def stati_def)
qed

text \<open>The result of \<open>getiostats\<close>: the requested counts, the one of reads capped by the size of the
  file, stored at the address the caller passed, inside of its memory or not.\<close>

lemma getiostats_open:
  assumes "open_inode_file k f" and "fd < length (p_ofile (cur k))" and "p_ofile (cur k) ! fd = Some f"
    and "0 \<le> num_read_bytes (get_file k f)" and "num_read_bytes (get_file k f) < 2 ^ 31"
    and "ip_sz (get_ip (kfs k) (f_ip (get_file k f))) < 2 ^ 32"
  shows "getiostats k (int fd) p =
    Inr (0, set_mem k (put32 (put32 (p_mem (cur k)) p
      (of_nat (min (nat (num_read_bytes (get_file k f))) (ip_sz (get_ip (kfs k) (f_ip (get_file k f)))))))
      (p + 4) (of_int (num_write_bytes (get_file k f)))))"
proof -
  define c where "c = nat (num_read_bytes (get_file k f))"
  define z where "z = ip_sz (get_ip (kfs k) (f_ip (get_file k f)))"
  have c: "of_int (num_read_bytes (get_file k f)) = (of_nat c :: u32)" "c < 2 ^ 32"
    using assms(4,5) by (simp_all add: c_def)
  have e: "(if (of_nat c :: u32) > of_nat z then of_nat z else of_nat c) = (of_nat (min c z) :: u32)"
    using c(2) assms(6) by (simp add: z_def [symmetric] word_less_nat_alt unsigned_of_nat take_bit_nat_eq_self min_def)
  have "st_size (stati (get_ip (kfs k) (f_ip (get_file k f)))) = z" by (simp add: stati_def z_def)
  with assms(2,3) show ?thesis
    unfolding z_def [symmetric] c_def [symmetric] e [symmetric]
    by (simp add: getiostats_def Let_def c(1) filestat_open [OF assms(1)] split del: if_split cong: if_cong)
qed

text \<open>C35: the statistics count what was asked for, not what was read: at the end of a file a \<open>read\<close>
  of \<open>n\<close> bytes returns none, but \<open>getiostats\<close> then reports \<open>n\<close> bytes read, up to the size of the
  file.\<close>

theorem iostats_count_requests:
  assumes "open_inode_file k f" and "fd < length (p_ofile (cur k))" and "p_ofile (cur k) ! fd = Some f"
    and "num_read_bytes (get_file k f) = 0" and "f_off (get_file k f) = ip_sz (get_ip (kfs k) (f_ip (get_file k f)))"
    and "ip_type (get_ip (kfs k) (f_ip (get_file k f))) \<noteq> T_DEV" and "n < 2 ^ 31" and "f_off (get_file k f) + n < 2 ^ 32"
  shows "\<exists>k' k''. fileread dv k f n = Inr (0, [], k') \<and> getiostats k' (int fd) p = Inr (0, k'') \<and>
    get32 (p_mem (cur k'')) p = of_nat (min n (f_off (get_file k f)))"
proof -
  let ?i = "f_ip (get_file k f)" and ?k' = "set_file k f (get_file k f \<lparr> num_read_bytes := int n \<rparr>)"
  have o: "f < length (ftab k)" "?i < length (icache (kfs k))" using assms(1) by (auto simp: open_inode_file_def)
  have gf: "get_file ?k' f = get_file k f \<lparr> num_read_bytes := int n \<rparr>" using o(1) by (simp add: get_set_file)
  let ?s = "set_ip (kfs k) ?i (get_ip (kfs k) ?i \<lparr> ip_lock := True \<rparr>)"
  have lk: "ilock (kfs k) ?i = Inr ?s" "iunlock ?s ?i = Inr (kfs k)"
    using assms(1) by (auto simp: open_inode_file_def intro!: lock_free)
  have ip: "get_ip ?s ?i = get_ip (kfs k) ?i \<lparr> ip_lock := True \<rparr>" using o(2) by (simp add: set_ip_def)
  have "readi dv ?s ?i (f_off (get_file k f)) n = Inr (0, [], ?s)"
    using assms(5,6,8) ip by (auto simp: readi_def Let_def readi_loop.simps to_int_def)
  moreover have "int_add (num_read_bytes (get_file k f)) (int n) = Inr (int n)"
    using assms(4,7) by (simp add: int_add_def)
  moreover have "f_readable (get_file k f)" "f_type (get_file k f) = FD_INODE" using assms(1) by (auto simp: open_inode_file_def)
  ultimately have r: "fileread dv k f n = Inr (0, [], ?k')"
    using lk by (simp add: fileread_def Let_def gf)
  have o': "open_inode_file ?k' f" using assms(1) gf by (simp add: open_inode_file_def)
  have "getiostats ?k' (int fd) p =
    Inr (0, set_mem ?k' (put32 (put32 (p_mem (cur ?k')) p (of_nat (min (nat (num_read_bytes (get_file ?k' f)))
      (ip_sz (get_ip (kfs ?k') (f_ip (get_file ?k' f))))))) (p + 4) (of_int (num_write_bytes (get_file ?k' f)))))"
    by (rule getiostats_open [OF o']) (use assms gf in auto)
  then show ?thesis
    using r assms(5) by (intro exI conjI) (assumption, assumption, simp add: gf set_mem_def)
qed

theorem iostats_count_requests_witness:
  "\<exists>k' k''. fileread \<lparr> dev_read = Map.empty, dev_write = Map.empty \<rparr> (one_sys 5) 0 3 = Inr (0, [], k') \<and>
    getiostats k' 0 100 = Inr (0, k'') \<and> get32 (p_mem (cur k'')) 100 = 3"
proof -
  have f: "get_file (one_sys 5) 0 = sample_file 5" "get_ip (kfs (one_sys 5)) 0 = icache (one_fs 5) ! 0"
    "p_ofile (cur (one_sys 5)) ! 0 = Some 0" "0 < length (p_ofile (cur (one_sys 5)))"
    by (simp_all add: one_sys_def one_proc_def)
  have o: "open_inode_file (one_sys 5) 0"
    by (simp add: open_inode_file_def f) (simp add: sample_file_def one_sys_def one_fs_def)
  have "\<exists>k' k''. fileread \<lparr> dev_read = Map.empty, dev_write = Map.empty \<rparr> (one_sys 5) 0 3 = Inr (0, [], k') \<and>
    getiostats k' (int 0) 100 = Inr (0, k'') \<and>
    get32 (p_mem (cur k'')) 100 = of_nat (min 3 (f_off (get_file (one_sys 5) 0)))"
    by (rule iostats_count_requests [OF o f(4,3)])
      (unfold f(1), simp_all add: sample_file_def f(2) one_fs_def T_FILE_def T_DEV_def)
  then show ?thesis by (simp add: f(1)) (simp add: sample_file_def)
qed

text \<open>C36: unlike every other call on descriptors, \<open>getiostats\<close> does not check its descriptor: one
  that is negative or beyond the table, which \<open>read\<close>, \<open>write\<close>, \<open>close\<close>, \<open>dup\<close> and \<open>fstat\<close> reject with -1,
  makes the kernel read outside of the descriptor table.\<close>

theorem getiostats_descriptor_unchecked:
  assumes "argint (cur k) 0 = Some fd" and "argint (cur k) 1 = Some p" and "fd < 0 \<or> int NOFILE \<le> fd"
    and "length (p_ofile (cur k)) = NOFILE"
  shows "sys_getiostats k = Inl Out_Of_Bounds \<and> sys_read dv k = Inr (-1, k) \<and> sys_write dv k = Inr (-1, k) \<and> sys_close k = Inr (-1, k) \<and>
    sys_dup k = Inr (-1, k) \<and> sys_fstat k = Inr (-1, k)"
proof -
  have "argfd (cur k) 0 = None" using assms(1,3) by (auto simp: argfd_def)
  then show ?thesis
    using assms
    by (auto simp: sys_getiostats_def getiostats_def sys_read_def sys_write_def sys_close_def sys_dup_def sys_fstat_def arr_get_def)
qed

definition bad_fd_proc :: uproc where
  "bad_fd_proc = one_proc \<lparr> p_mem := (\<lambda>a. if a = 4004 then 16 else 0) \<rparr>"

theorem getiostats_descriptor_unchecked_witness:
  "sys_getiostats (one_sys 5 \<lparr> cur := bad_fd_proc \<rparr>) = Inl Out_Of_Bounds"
proof -
  have g: "get32 (p_mem bad_fd_proc) 4004 = 16" "get32 (p_mem bad_fd_proc) 4008 = 0"
    by (simp_all add: get32_def bad_fd_proc_def)
  have "argint bad_fd_proc 0 = Some 16" "argint bad_fd_proc 1 = Some 0"
    by (simp_all add: argint_def fetchint_def bad_fd_proc_def one_proc_def) (simp_all add: get32_def)
  with getiostats_descriptor_unchecked [of "one_sys 5 \<lparr> cur := bad_fd_proc \<rparr>" 16 0]
  show ?thesis by (simp add: NOFILE_def bad_fd_proc_def one_proc_def)
qed

end
