(* ===== verification/XvProc.thy ===== *)
theory XvProc
  imports XvLib
begin

text \<open>
  Processes of xv6, \<open>xv6/proc.c\<close>: the process table as a state machine with several processors. Each
  operation runs with the table lock held where it touches the table, so that it is one step; whether
  memory can be had is an argument. What \<open>fork\<close> and \<open>exit\<close> do to open files is in theory \<open>XvFile\<close>.
  Registers, trap frames and saved contexts are not part of the state. \<open>fork\<close> is one step, although it releases
  the lock while it fills the new slot, which no other process looks at before it becomes runnable.
\<close>

section \<open>State\<close>

definition NPROC :: nat where "NPROC = 64"
definition PGSIZE :: nat where "PGSIZE = 4096"

datatype pstate = UNUSED | EMBRYO | SLEEPING | RUNNABLE | RUNNING | ZOMBIE

text \<open>What a process sleeps on: a process, in \<open>wait\<close>, or some other object of the kernel.\<close>

datatype chan = CProc nat | CObj nat

record proc =
  pr_state :: pstate
  pr_pid :: int
  pr_parent :: "nat option"
  pr_chan :: "chan option"
  pr_killed :: bool
  pr_kstack :: bool
  pr_pgdir :: bool
  pr_sz :: nat
  pr_name :: string

record ptable =
  procs :: "proc list"
  nextpid :: int
  initproc :: "nat option"
  cpus :: "nat option list"

abbreviation get_proc :: "ptable \<Rightarrow> nat \<Rightarrow> proc" where
  "get_proc s i \<equiv> procs s ! i"

definition upd_proc :: "ptable \<Rightarrow> nat \<Rightarrow> (proc \<Rightarrow> proc) \<Rightarrow> ptable" where
  "upd_proc s i g = s \<lparr> procs := (procs s)[i := g (procs s ! i)] \<rparr>"

section \<open>Operations\<close>

definition myproc :: "ptable \<Rightarrow> nat \<Rightarrow> nat option" where
  "myproc s c = cpus s ! c"

fun find_unused :: "proc list \<Rightarrow> nat \<Rightarrow> nat option" where
  "find_unused [] i = None"
| "find_unused (p # ps) i = (if pr_state p = UNUSED then Some i else find_unused ps (i + 1))"

text \<open>Only the state and the number of the slot are set, the latter before the stack is allocated.\<close>

definition allocproc :: "bool \<Rightarrow> ptable \<Rightarrow> (nat option \<times> ptable) res" where
  "allocproc stack_ok s =
     (case find_unused (procs s) 0 of
        None \<Rightarrow> Inr (None, s)
      | Some i \<Rightarrow>
          bindR (int_add (nextpid s) 1) (\<lambda>n.
          let s = upd_proc s i (\<lambda>p. p \<lparr> pr_state := EMBRYO, pr_pid := nextpid s \<rparr>) \<lparr> nextpid := n \<rparr> in
          if \<not> stack_ok then Inr (None, upd_proc s i (\<lambda>p. p \<lparr> pr_kstack := False, pr_state := UNUSED \<rparr>))
          else Inr (Some i, upd_proc s i (\<lambda>p. p \<lparr> pr_kstack := True \<rparr>))))"

definition userinit :: "bool \<Rightarrow> bool \<Rightarrow> ptable \<Rightarrow> ptable res" where
  "userinit stack_ok kvm_ok s =
     bindR (allocproc stack_ok s) (\<lambda>(r, s).
     case r of
       None \<Rightarrow> Inl Null_Deref
     | Some p \<Rightarrow>
         let s = s \<lparr> initproc := Some p \<rparr> in
         if \<not> kvm_ok then Inl (Panic ''userinit: out of memory?'')
         else Inr (upd_proc s p (\<lambda>x. x \<lparr> pr_pgdir := True, pr_sz := PGSIZE, pr_name := ''initcode'', pr_state := RUNNABLE \<rparr>)))"

text \<open>\<open>growproc\<close>: \<open>allocuvm\<close> and \<open>deallocuvm\<close> return the size the process has afterwards, or 0.\<close>

definition growproc :: "(nat \<Rightarrow> nat \<Rightarrow> nat) \<Rightarrow> (nat \<Rightarrow> nat \<Rightarrow> nat) \<Rightarrow> nat \<Rightarrow> int \<Rightarrow> ptable \<Rightarrow> int \<times> ptable" where
  "growproc allocuvm deallocuvm cur n s =
     (let sz = pr_sz (get_proc s cur); new = nat ((int sz + n) mod 2 ^ 32) in
      if n > 0 then
        let sz = allocuvm sz new in
        if sz = 0 then (-1, s) else (0, upd_proc s cur (\<lambda>p. p \<lparr> pr_sz := sz \<rparr>))
      else if n < 0 then
        let sz = deallocuvm sz new in
        if sz = 0 then (-1, s) else (0, upd_proc s cur (\<lambda>p. p \<lparr> pr_sz := sz \<rparr>))
      else (0, upd_proc s cur (\<lambda>p. p \<lparr> pr_sz := sz \<rparr>)))"

definition fork :: "bool \<Rightarrow> bool \<Rightarrow> nat \<Rightarrow> ptable \<Rightarrow> (int \<times> ptable) res" where
  "fork stack_ok uvm_ok cur s =
     bindR (allocproc stack_ok s) (\<lambda>(r, s).
     case r of
       None \<Rightarrow> Inr (-1, s)
     | Some np \<Rightarrow>
         if \<not> uvm_ok then Inr (-1, upd_proc s np (\<lambda>p. p \<lparr> pr_pgdir := False, pr_kstack := False, pr_state := UNUSED \<rparr>))
         else
           let s = upd_proc s np (\<lambda>p. p \<lparr> pr_pgdir := True, pr_sz := pr_sz (get_proc s cur), pr_parent := Some cur,
                 pr_name := pr_name (get_proc s cur) \<rparr>);
               pid = pr_pid (get_proc s np);
               s = upd_proc s np (\<lambda>p. p \<lparr> pr_state := RUNNABLE \<rparr>)
           in Inr (pid, s))"

definition wake :: "chan option \<Rightarrow> proc \<Rightarrow> proc" where
  "wake ch p = (if pr_state p = SLEEPING \<and> pr_chan p = ch then p \<lparr> pr_state := RUNNABLE \<rparr> else p)"

definition wakeup1 :: "chan option \<Rightarrow> ptable \<Rightarrow> ptable" where
  "wakeup1 ch s = s \<lparr> procs := map (wake ch) (procs s) \<rparr>"

definition wakeup :: "chan option \<Rightarrow> ptable \<Rightarrow> ptable" where
  "wakeup ch s = wakeup1 ch s"

text \<open>Leaving the processor.\<close>

definition sched :: "nat \<Rightarrow> ptable \<Rightarrow> ptable res" where
  "sched c s =
     (case myproc s c of
        None \<Rightarrow> Inl Null_Deref
      | Some p \<Rightarrow>
          if pr_state (get_proc s p) = RUNNING then Inl (Panic ''sched running'')
          else Inr (s \<lparr> cpus := (cpus s)[c := None] \<rparr>))"

fun reparent :: "nat \<Rightarrow> nat \<Rightarrow> nat \<Rightarrow> ptable \<Rightarrow> ptable" where
  "reparent cur i 0 s = s"
| "reparent cur i (Suc k) s =
     (if pr_parent (get_proc s i) = Some cur then
        let s = upd_proc s i (\<lambda>p. p \<lparr> pr_parent := initproc s \<rparr>);
            s = (if pr_state (get_proc s i) = ZOMBIE then wakeup1 (map_option CProc (initproc s)) s else s)
        in reparent cur (i + 1) k s
      else reparent cur (i + 1) k s)"

definition exit :: "nat \<Rightarrow> ptable \<Rightarrow> ptable res" where
  "exit c s =
     (case myproc s c of
        None \<Rightarrow> Inl Null_Deref
      | Some cur \<Rightarrow>
          if Some cur = initproc s then Inl (Panic ''init exiting'')
          else
            let s = wakeup1 (map_option CProc (pr_parent (get_proc s cur))) s;
                s = reparent cur 0 (length (procs s)) s;
                s = upd_proc s cur (\<lambda>p. p \<lparr> pr_state := ZOMBIE \<rparr>)
            in sched c s)"

definition sleep :: "nat \<Rightarrow> chan \<Rightarrow> ptable \<Rightarrow> ptable res" where
  "sleep c ch s =
     (case myproc s c of
        None \<Rightarrow> Inl (Panic ''sleep'')
      | Some p \<Rightarrow> sched c (upd_proc s p (\<lambda>x. x \<lparr> pr_chan := Some ch, pr_state := SLEEPING \<rparr>)))"

text \<open>After the process has been switched to again.\<close>

definition sleep_end :: "nat \<Rightarrow> ptable \<Rightarrow> ptable" where
  "sleep_end cur s = upd_proc s cur (\<lambda>p. p \<lparr> pr_chan := None \<rparr>)"

fun wait_scan :: "proc list \<Rightarrow> nat \<Rightarrow> nat \<Rightarrow> bool \<Rightarrow> nat option \<times> bool" where
  "wait_scan [] cur i havekids = (None, havekids)"
| "wait_scan (p # ps) cur i havekids =
     (if pr_parent p \<noteq> Some cur then wait_scan ps cur (i + 1) havekids
      else if pr_state p = ZOMBIE then (Some i, True)
      else wait_scan ps cur (i + 1) True)"

text \<open>One round of \<open>wait\<close>: a result, or nothing when the process has gone to sleep.\<close>

definition wait :: "nat \<Rightarrow> ptable \<Rightarrow> (int option \<times> ptable) res" where
  "wait c s =
     (case myproc s c of
        None \<Rightarrow> Inl Null_Deref
      | Some cur \<Rightarrow>
          (case wait_scan (procs s) cur 0 False of
             (Some i, _) \<Rightarrow>
               let pid = pr_pid (get_proc s i) in
               Inr (Some pid, upd_proc s i (\<lambda>p. p \<lparr> pr_kstack := False, pr_pgdir := False, pr_pid := 0, pr_parent := None,
                 pr_name := '''', pr_killed := False, pr_state := UNUSED \<rparr>))
           | (None, havekids) \<Rightarrow>
               if \<not> havekids \<or> pr_killed (get_proc s cur) then Inr (Some (-1), s)
               else bindR (sleep c (CProc cur) s) (\<lambda>s. Inr (None, s))))"

text \<open>The scheduler on an idle processor picks a runnable process, in the order of the table.\<close>

definition run_proc :: "nat \<Rightarrow> nat \<Rightarrow> ptable \<Rightarrow> ptable" where
  "run_proc c i s = upd_proc s i (\<lambda>p. p \<lparr> pr_state := RUNNING \<rparr>) \<lparr> cpus := (cpus s)[c := Some i] \<rparr>"

definition yield :: "nat \<Rightarrow> ptable \<Rightarrow> ptable res" where
  "yield c s =
     (case myproc s c of
        None \<Rightarrow> Inl Null_Deref
      | Some p \<Rightarrow> sched c (upd_proc s p (\<lambda>x. x \<lparr> pr_state := RUNNABLE \<rparr>)))"

fun kill_loop :: "int \<Rightarrow> nat \<Rightarrow> nat \<Rightarrow> ptable \<Rightarrow> int \<times> ptable" where
  "kill_loop pid i 0 s = (-1, s)"
| "kill_loop pid i (Suc k) s =
     (if pr_pid (get_proc s i) = pid then
        (0, upd_proc s i (\<lambda>p. p \<lparr> pr_killed := True, pr_state := (if pr_state p = SLEEPING then RUNNABLE else pr_state p) \<rparr>))
      else kill_loop pid (i + 1) k s)"

definition kill :: "int \<Rightarrow> ptable \<Rightarrow> int \<times> ptable" where
  "kill pid s = kill_loop pid 0 (length (procs s)) s"

section \<open>Steps\<close>

inductive pr_step :: "ptable \<Rightarrow> ptable \<Rightarrow> bool" where
  "c < length (cpus s) \<Longrightarrow> myproc s c = None \<Longrightarrow> i < length (procs s) \<Longrightarrow> pr_state (get_proc s i) = RUNNABLE \<Longrightarrow>
    pr_step s (run_proc c i s)"
| "c < length (cpus s) \<Longrightarrow> myproc s c = Some cur \<Longrightarrow> fork stack_ok uvm_ok cur s = Inr (r, s') \<Longrightarrow> pr_step s s'"
| "c < length (cpus s) \<Longrightarrow> exit c s = Inr s' \<Longrightarrow> pr_step s s'"
| "c < length (cpus s) \<Longrightarrow> wait c s = Inr (r, s') \<Longrightarrow> pr_step s s'"
| "c < length (cpus s) \<Longrightarrow> sleep c (CObj a) s = Inr s' \<Longrightarrow> pr_step s s'"
| "c < length (cpus s) \<Longrightarrow> myproc s c = Some cur \<Longrightarrow> pr_step s (sleep_end cur s)"
| "c < length (cpus s) \<Longrightarrow> yield c s = Inr s' \<Longrightarrow> pr_step s s'"
| "pr_step s (wakeup (Some (CObj a)) s)"
| "pr_step s (snd (kill pid s))"
| "c < length (cpus s) \<Longrightarrow> myproc s c = Some cur \<Longrightarrow> pr_step s (snd (growproc allocuvm deallocuvm cur n s))"

section \<open>The invariant\<close>

definition alive :: "pstate \<Rightarrow> bool" where
  "alive st \<longleftrightarrow> st = SLEEPING \<or> st = RUNNABLE \<or> st = RUNNING"

abbreviation st_of :: "ptable \<Rightarrow> nat \<Rightarrow> pstate" where
  "st_of s i \<equiv> pr_state (get_proc s i)"

abbreviation par_of :: "ptable \<Rightarrow> nat \<Rightarrow> nat option" where
  "par_of s i \<equiv> pr_parent (get_proc s i)"

text \<open>A process that sleeps in \<open>wait\<close>.\<close>

definition in_wait :: "ptable \<Rightarrow> nat \<Rightarrow> bool" where
  "in_wait s i \<longleftrightarrow> st_of s i = SLEEPING \<and> pr_chan (get_proc s i) = Some (CProc i)"

definition pid_ok :: "ptable \<Rightarrow> bool" where
  "pid_ok s \<longleftrightarrow> 1 \<le> nextpid s \<and>
     (\<forall>i < NPROC. st_of s i \<noteq> UNUSED \<longrightarrow> 0 < pr_pid (get_proc s i) \<and> pr_pid (get_proc s i) < nextpid s) \<and>
     (\<forall>i < NPROC. \<forall>j < NPROC. st_of s i \<noteq> UNUSED \<longrightarrow> st_of s j \<noteq> UNUSED \<longrightarrow>
        pr_pid (get_proc s i) = pr_pid (get_proc s j) \<longrightarrow> i = j)"

text \<open>Every process but the first has a parent that is alive, and the first one never ends.\<close>

definition tree_ok :: "ptable \<Rightarrow> bool" where
  "tree_ok s \<longleftrightarrow> length (procs s) = NPROC \<and>
     (\<exists>ini. initproc s = Some ini \<and> ini < NPROC \<and> alive (st_of s ini) \<and> par_of s ini = None) \<and>
     (\<forall>i < NPROC. st_of s i \<noteq> EMBRYO) \<and> (\<forall>i < NPROC. st_of s i = UNUSED \<longrightarrow> par_of s i = None) \<and>
     (\<forall>i < NPROC. st_of s i \<noteq> UNUSED \<longrightarrow> Some i \<noteq> initproc s \<longrightarrow> par_of s i \<noteq> None) \<and>
     (\<forall>i < NPROC. \<forall>q. par_of s i = Some q \<longrightarrow> q < NPROC \<and> q \<noteq> i \<and> alive (st_of s q))"

lemma tree_okD:
  assumes "tree_ok s"
  shows "length (procs s) = NPROC"
    and "\<exists>ini. initproc s = Some ini \<and> ini < NPROC \<and> alive (st_of s ini) \<and> par_of s ini = None"
    and "i < NPROC \<Longrightarrow> st_of s i \<noteq> EMBRYO" and "i < NPROC \<Longrightarrow> st_of s i = UNUSED \<Longrightarrow> par_of s i = None"
    and "i < NPROC \<Longrightarrow> st_of s i \<noteq> UNUSED \<Longrightarrow> Some i \<noteq> initproc s \<Longrightarrow> par_of s i \<noteq> None"
    and "i < NPROC \<Longrightarrow> par_of s i = Some q \<Longrightarrow> q < NPROC \<and> q \<noteq> i \<and> alive (st_of s q)"
  using assms unfolding tree_ok_def by blast+

lemma tree_okI:
  assumes "length (procs s) = NPROC" and "initproc s = Some ini" and "ini < NPROC" and "alive (st_of s ini)" and "par_of s ini = None"
    and "\<And>i. i < NPROC \<Longrightarrow> st_of s i \<noteq> EMBRYO" and "\<And>i. i < NPROC \<Longrightarrow> st_of s i = UNUSED \<Longrightarrow> par_of s i = None"
    and "\<And>i. i < NPROC \<Longrightarrow> st_of s i \<noteq> UNUSED \<Longrightarrow> i \<noteq> ini \<Longrightarrow> par_of s i \<noteq> None"
    and "\<And>i q. i < NPROC \<Longrightarrow> par_of s i = Some q \<Longrightarrow> q < NPROC \<and> q \<noteq> i \<and> alive (st_of s q)"
  shows "tree_ok s"
  unfolding tree_ok_def
proof (intro conjI)
  show "\<exists>ini. initproc s = Some ini \<and> ini < NPROC \<and> alive (st_of s ini) \<and> par_of s ini = None"
    by (intro exI [of _ ini] conjI) fact+
  show "\<forall>i < NPROC. st_of s i \<noteq> UNUSED \<longrightarrow> Some i \<noteq> initproc s \<longrightarrow> par_of s i \<noteq> None"
    by (intro allI impI assms(8)) (auto simp: assms(2))
  show "\<forall>i < NPROC. \<forall>q. par_of s i = Some q \<longrightarrow> q < NPROC \<and> q \<noteq> i \<and> alive (st_of s q)"
    by (intro allI impI) (rule assms(9))
qed (intro allI impI assms(1) assms(6) assms(7); assumption)+

lemma pid_okD:
  assumes "pid_ok s"
  shows "1 \<le> nextpid s" and "i < NPROC \<Longrightarrow> st_of s i \<noteq> UNUSED \<Longrightarrow> 0 < pr_pid (get_proc s i) \<and> pr_pid (get_proc s i) < nextpid s"
    and "i < NPROC \<Longrightarrow> j < NPROC \<Longrightarrow> st_of s i \<noteq> UNUSED \<Longrightarrow> st_of s j \<noteq> UNUSED \<Longrightarrow>
      pr_pid (get_proc s i) = pr_pid (get_proc s j) \<Longrightarrow> i = j"
  using assms unfolding pid_ok_def by blast+

lemma pid_okI:
  assumes "1 \<le> nextpid s" and "\<And>i. i < NPROC \<Longrightarrow> st_of s i \<noteq> UNUSED \<Longrightarrow> 0 < pr_pid (get_proc s i) \<and> pr_pid (get_proc s i) < nextpid s"
    and "\<And>i j. i < NPROC \<Longrightarrow> j < NPROC \<Longrightarrow> st_of s i \<noteq> UNUSED \<Longrightarrow> st_of s j \<noteq> UNUSED \<Longrightarrow>
      pr_pid (get_proc s i) = pr_pid (get_proc s j) \<Longrightarrow> i = j"
  shows "pid_ok s"
  unfolding pid_ok_def
  by (intro conjI allI impI assms(1) assms(2) [THEN conjunct1] assms(2) [THEN conjunct2] assms(3); assumption)

definition no_lost_wakeup :: "ptable \<Rightarrow> bool" where
  "no_lost_wakeup s \<longleftrightarrow> (\<forall>i < NPROC. \<forall>j < NPROC. in_wait s i \<longrightarrow> par_of s j = Some i \<longrightarrow> st_of s j \<noteq> ZOMBIE)"

definition cpu_ok :: "ptable \<Rightarrow> bool" where
  "cpu_ok s \<longleftrightarrow> (\<forall>c < length (cpus s). \<forall>i. cpus s ! c = Some i \<longrightarrow> i < NPROC \<and> st_of s i = RUNNING) \<and>
     (\<forall>c < length (cpus s). \<forall>e < length (cpus s). \<forall>i. cpus s ! c = Some i \<longrightarrow> cpus s ! e = Some i \<longrightarrow> c = e) \<and>
     (\<forall>i < NPROC. st_of s i = RUNNING \<longrightarrow> (\<exists>c < length (cpus s). cpus s ! c = Some i))"

lemma cpu_okD:
  assumes "cpu_ok s"
  shows "c < length (cpus s) \<Longrightarrow> cpus s ! c = Some i \<Longrightarrow> i < NPROC \<and> st_of s i = RUNNING"
    and "c < length (cpus s) \<Longrightarrow> e < length (cpus s) \<Longrightarrow> cpus s ! c = Some i \<Longrightarrow> cpus s ! e = Some i \<Longrightarrow> c = e"
    and "i < NPROC \<Longrightarrow> st_of s i = RUNNING \<Longrightarrow> \<exists>c < length (cpus s). cpus s ! c = Some i"
  using assms unfolding cpu_ok_def by blast+

lemma cpu_okI:
  assumes "\<And>c i. c < length (cpus s) \<Longrightarrow> cpus s ! c = Some i \<Longrightarrow> i < NPROC \<and> st_of s i = RUNNING"
    and "\<And>c e i. c < length (cpus s) \<Longrightarrow> e < length (cpus s) \<Longrightarrow> cpus s ! c = Some i \<Longrightarrow> cpus s ! e = Some i \<Longrightarrow> c = e"
    and "\<And>i. i < NPROC \<Longrightarrow> st_of s i = RUNNING \<Longrightarrow> \<exists>c < length (cpus s). cpus s ! c = Some i"
  shows "cpu_ok s"
  unfolding cpu_ok_def
proof (intro conjI allI impI)
  fix c i
  assume "c < length (cpus s)" "cpus s ! c = Some i"
  then show "i < NPROC" "st_of s i = RUNNING" using assms(1) by blast+
qed (rule assms(2) assms(3); assumption)+

definition proc_inv :: "ptable \<Rightarrow> bool" where
  "proc_inv s \<longleftrightarrow> pid_ok s \<and> tree_ok s \<and> no_lost_wakeup s \<and> cpu_ok s"

section \<open>Steps that only change who runs\<close>

lemma upd_proc_fields [simp]:
  "length (procs (upd_proc s i g)) = length (procs s)" "nextpid (upd_proc s i g) = nextpid s"
  "initproc (upd_proc s i g) = initproc s" "cpus (upd_proc s i g) = cpus s"
  by (simp_all add: upd_proc_def)

lemma get_upd_proc:
  "i < length (procs s) \<Longrightarrow> get_proc (upd_proc s i g) j = (if j = i then g (get_proc s i) else get_proc s j)"
  by (simp add: upd_proc_def)

text \<open>
  The identity and the family of every process stay, a living process stays alive, and nobody starts
  to wait for children of which one has ended.
\<close>

definition no_zombie_child :: "ptable \<Rightarrow> nat \<Rightarrow> bool" where
  "no_zombie_child s i \<longleftrightarrow> (\<forall>j < NPROC. par_of s j = Some i \<longrightarrow> st_of s j \<noteq> ZOMBIE)"

definition calm :: "ptable \<Rightarrow> ptable \<Rightarrow> bool" where
  "calm s t \<longleftrightarrow> length (procs t) = length (procs s) \<and> nextpid t = nextpid s \<and> initproc t = initproc s \<and>
     (\<forall>i < length (procs s). pr_pid (get_proc t i) = pr_pid (get_proc s i) \<and> par_of t i = par_of s i \<and>
        (st_of t i = st_of s i \<or> alive (st_of s i) \<and> alive (st_of t i)) \<and> (in_wait t i \<longrightarrow> in_wait s i \<or> no_zombie_child s i))"

lemma calm_keeps:
  assumes "calm s t" and "pid_ok s" and "tree_ok s" and "no_lost_wakeup s"
  shows "pid_ok t" and "tree_ok t" and "no_lost_wakeup t"
proof -
  have len: "length (procs s) = NPROC" using assms(3) by (simp add: tree_ok_def)
  have c: "length (procs t) = NPROC" "nextpid t = nextpid s" "initproc t = initproc s"
    and cp: "\<And>i. i < NPROC \<Longrightarrow> pr_pid (get_proc t i) = pr_pid (get_proc s i)"
    and cq: "\<And>i. i < NPROC \<Longrightarrow> par_of t i = par_of s i"
    and cs: "\<And>i. i < NPROC \<Longrightarrow> st_of t i = st_of s i \<or> alive (st_of s i) \<and> alive (st_of t i)"
    and cw: "\<And>i. i < NPROC \<Longrightarrow> in_wait t i \<Longrightarrow> in_wait s i \<or> no_zombie_child s i"
    using assms(1) by (auto simp: calm_def len)
  have al: "alive (st_of t i)" if "i < NPROC" "alive (st_of s i)" for i using cs [OF that(1)] that(2) by auto
  have un: "st_of t i = x \<longleftrightarrow> st_of s i = x" if "i < NPROC" "\<not> alive x" for i x
    using cs [OF that(1)] that(2) by (auto simp: alive_def)
  have n: "\<not> alive UNUSED" "\<not> alive EMBRYO" "\<not> alive ZOMBIE" by (simp_all add: alive_def)
  have un': "st_of t i = UNUSED \<longleftrightarrow> st_of s i = UNUSED" "st_of t i = EMBRYO \<longleftrightarrow> st_of s i = EMBRYO"
    "st_of t i = ZOMBIE \<longleftrightarrow> st_of s i = ZOMBIE" if "i < NPROC" for i
    using un [OF that] n by simp_all
  show "pid_ok t"
  proof (rule pid_okI)
    show "1 \<le> nextpid t" using pid_okD(1) [OF assms(2)] c(2) by simp
    show "0 < pr_pid (get_proc t i) \<and> pr_pid (get_proc t i) < nextpid t" if "i < NPROC" "st_of t i \<noteq> UNUSED" for i
      using pid_okD(2) [OF assms(2), of i] that by (simp add: un' cp c(2))
    show "i = j" if "i < NPROC" "j < NPROC" "st_of t i \<noteq> UNUSED" "st_of t j \<noteq> UNUSED"
      "pr_pid (get_proc t i) = pr_pid (get_proc t j)" for i j
      using pid_okD(3) [OF assms(2), of i j] that by (simp add: un' cp)
  qed
  obtain ini where ini: "initproc s = Some ini" "ini < NPROC" "alive (st_of s ini)" "par_of s ini = None"
    using tree_okD(2) [OF assms(3)] by blast
  note tr = tree_okD [OF assms(3)]
  show "tree_ok t"
  proof (rule tree_okI [OF c(1)])
    show "initproc t = Some ini" "ini < NPROC" "alive (st_of t ini)" "par_of t ini = None"
      using ini c(3) al cq by simp_all
    show "st_of t i \<noteq> EMBRYO" if "i < NPROC" for i using tr(3) that by (simp add: un')
    show "par_of t i = None" if "i < NPROC" "st_of t i = UNUSED" for i using tr(4) [of i] that by (simp add: un' cq)
    show "par_of t i \<noteq> None" if "i < NPROC" "st_of t i \<noteq> UNUSED" "i \<noteq> ini" for i
      using tr(5) [of i] that ini(1) by (simp add: un' cq)
    show "q < NPROC \<and> q \<noteq> i \<and> alive (st_of t q)" if "i < NPROC" "par_of t i = Some q" for i q
      using tr(6) [of i q] that al [of q] by (simp add: cq)
  qed
  show "no_lost_wakeup t"
    unfolding no_lost_wakeup_def
  proof (intro allI impI)
    fix i j
    assume i: "i < NPROC" "j < NPROC" "in_wait t i" "par_of t j = Some i"
    then have "st_of s j \<noteq> ZOMBIE" using assms(4) cw [OF i(1,3)] cq [OF i(2)]
      unfolding no_lost_wakeup_def no_zombie_child_def by (metis i(1,2))
    then show "st_of t j \<noteq> ZOMBIE" by (simp add: un' i(2))
  qed
qed

lemma calm_upd:
  assumes "i < length (procs s)" and "pr_pid (g (get_proc s i)) = pr_pid (get_proc s i)" and "pr_parent (g (get_proc s i)) = par_of s i"
    and "pr_state (g (get_proc s i)) = st_of s i \<or> alive (st_of s i) \<and> alive (pr_state (g (get_proc s i)))"
    and "pr_state (g (get_proc s i)) = SLEEPING \<Longrightarrow> pr_chan (g (get_proc s i)) = Some (CProc i) \<Longrightarrow> in_wait s i \<or> no_zombie_child s i"
  shows "calm s (upd_proc s i g)"
  using assms by (auto simp: calm_def get_upd_proc in_wait_def)

lemma calm_cpus: "calm s t \<Longrightarrow> calm s (t \<lparr> cpus := cs \<rparr>)"
  by (simp add: calm_def in_wait_def)

lemma calm_wakeup1: "calm s (wakeup1 ch s)"
  by (auto simp: calm_def wakeup1_def wake_def in_wait_def alive_def)

text \<open>The processors: a process that runs stays, one is set to run, or one leaves.\<close>

lemma cpu_same:
  assumes "cpu_ok s" and "cpus t = cpus s" and "\<And>i. i < NPROC \<Longrightarrow> st_of t i = RUNNING \<longleftrightarrow> st_of s i = RUNNING"
  shows "cpu_ok t"
proof (rule cpu_okI)
  show "i < NPROC \<and> st_of t i = RUNNING" if "c < length (cpus t)" "cpus t ! c = Some i" for c i
    using cpu_okD(1) [OF assms(1), of c i] that assms(2,3) by simp
  show "c = e" if "c < length (cpus t)" "e < length (cpus t)" "cpus t ! c = Some i" "cpus t ! e = Some i" for c e i
    using cpu_okD(2) [OF assms(1), of c e i] that assms(2) by simp
  show "\<exists>c < length (cpus t). cpus t ! c = Some i" if "i < NPROC" "st_of t i = RUNNING" for i
    using cpu_okD(3) [OF assms(1), of i] that assms(2,3) by simp
qed

lemma cpu_run:
  assumes "cpu_ok s" and "c < length (cpus s)" and "cpus s ! c = None" and "i < NPROC" and "st_of s i \<noteq> RUNNING"
    and "cpus t = (cpus s)[c := Some i]" and "\<And>j. j < NPROC \<Longrightarrow> st_of t j = RUNNING \<longleftrightarrow> j = i \<or> st_of s j = RUNNING"
  shows "cpu_ok t"
proof (rule cpu_okI)
  have nth: "cpus t ! e = (if e = c then Some i else cpus s ! e)" if "e < length (cpus s)" for e
    using assms(2,6) by (simp add: nth_list_update)
  have len: "length (cpus t) = length (cpus s)" using assms(6) by simp
  have ni: "cpus s ! e \<noteq> Some i" if "e < length (cpus s)" for e using cpu_okD(1) [OF assms(1) that, of i] assms(5) by blast
  show "j < NPROC \<and> st_of t j = RUNNING" if "e < length (cpus t)" "cpus t ! e = Some j" for e j
  proof (cases "e = c")
    case True
    with that nth len assms(2,4,7) show ?thesis by simp
  next
    case False
    with that nth len cpu_okD(1) [OF assms(1), of e j] assms(7) show ?thesis by simp
  qed
  show "e = e'" if "e < length (cpus t)" "e' < length (cpus t)" "cpus t ! e = Some j" "cpus t ! e' = Some j" for e e' j
  proof (cases "e = c \<or> e' = c")
    case True
    with that nth len ni assms(2) show ?thesis by (metis option.inject)
  next
    case False
    with that nth len cpu_okD(2) [OF assms(1), of e e' j] show ?thesis by simp
  qed
  show "\<exists>e < length (cpus t). cpus t ! e = Some j" if j: "j < NPROC" "st_of t j = RUNNING" for j
  proof (cases "j = i")
    case True
    then show ?thesis using assms(2) nth len by (intro exI [of _ c]) simp
  next
    case False
    then obtain e where e: "e < length (cpus s)" "cpus s ! e = Some j" using cpu_okD(3) [OF assms(1) j(1)] assms(7) j by blast
    with assms(3) have "e \<noteq> c" by auto
    with e show ?thesis using nth len by (intro exI [of _ e]) simp
  qed
qed

lemma cpu_leave:
  assumes "cpu_ok s" and "c < length (cpus s)" and "cpus s ! c = Some i"
    and "cpus t = (cpus s)[c := None]" and "\<And>j. j < NPROC \<Longrightarrow> st_of t j = RUNNING \<longleftrightarrow> j \<noteq> i \<and> st_of s j = RUNNING"
  shows "cpu_ok t"
proof (rule cpu_okI)
  have nth: "cpus t ! e = (if e = c then None else cpus s ! e)" if "e < length (cpus s)" for e
    using assms(2,4) by (simp add: nth_list_update)
  have len: "length (cpus t) = length (cpus s)" using assms(4) by simp
  have old: "e \<noteq> c \<and> cpus s ! e = Some j" if "e < length (cpus t)" "cpus t ! e = Some j" for e j
    using that nth len by (cases "e = c") auto
  show "j < NPROC \<and> st_of t j = RUNNING" if e: "e < length (cpus t)" "cpus t ! e = Some j" for e j
  proof -
    have "j \<noteq> i" using cpu_okD(2) [OF assms(1) _ assms(2), of e i] old [OF e] e(1) len assms(3) by auto
    with cpu_okD(1) [OF assms(1), of e j] old [OF e] e(1) len assms(5) show ?thesis by simp
  qed
  show "e = e'" if "e < length (cpus t)" "e' < length (cpus t)" "cpus t ! e = Some j" "cpus t ! e' = Some j" for e e' j
    using cpu_okD(2) [OF assms(1), of e e' j] old that len by simp
  show "\<exists>e < length (cpus t). cpus t ! e = Some j" if j: "j < NPROC" "st_of t j = RUNNING" for j
  proof -
    have ji: "j \<noteq> i" "st_of s j = RUNNING" using assms(5) [OF j(1)] j(2) by blast+
    then obtain e where e: "e < length (cpus s)" "cpus s ! e = Some j" using cpu_okD(3) [OF assms(1) j(1)] by blast
    with ji assms(3) have "e \<noteq> c" by auto
    with e show ?thesis using nth len by (intro exI [of _ e]) simp
  qed
qed

section \<open>Each operation keeps the invariant\<close>

lemma proc_invD:
  assumes "proc_inv s"
  shows "pid_ok s" "tree_ok s" "no_lost_wakeup s" "cpu_ok s" "length (procs s) = NPROC"
proof -
  show "pid_ok s" "tree_ok s" "no_lost_wakeup s" "cpu_ok s" using assms unfolding proc_inv_def by blast+
  then show "length (procs s) = NPROC" by (intro tree_okD(1))
qed

lemma proc_inv_calm: "proc_inv s \<Longrightarrow> calm s t \<Longrightarrow> cpu_ok t \<Longrightarrow> proc_inv t"
proof -
  assume a: "proc_inv s" "calm s t" "cpu_ok t"
  note k = calm_keeps [OF a(2) proc_invD(1-3) [OF a(1)]]
  show ?thesis unfolding proc_inv_def by (intro conjI k a(3))
qed

lemma running:
  assumes "proc_inv s" and "c < length (cpus s)" and "myproc s c = Some i"
  shows "i < NPROC" "st_of s i = RUNNING" "cpus s ! c = Some i"
  using cpu_okD(1) [OF proc_invD(4) [OF assms(1)] assms(2)] assms(3) by (simp_all add: myproc_def)

lemma inv_run:
  assumes "proc_inv s" and "c < length (cpus s)" and "myproc s c = None" and "i < length (procs s)" and "st_of s i = RUNNABLE"
  shows "proc_inv (run_proc c i s)"
proof -
  have "calm s (run_proc c i s)"
    unfolding run_proc_def by (rule calm_cpus, rule calm_upd) (use assms in \<open>auto simp: alive_def\<close>)
  moreover have "cpu_ok (run_proc c i s)"
    by (rule cpu_run [of s c i])
      (use assms proc_invD [OF assms(1)] in \<open>auto simp: run_proc_def get_upd_proc myproc_def\<close>)
  ultimately show ?thesis by (rule proc_inv_calm [OF assms(1)])
qed

text \<open>A running process that gives up its processor, in another living state.\<close>

lemma inv_leave:
  assumes "proc_inv s" and "c < length (cpus s)" and "myproc s c = Some i"
    and "sched c (upd_proc s i g) = Inr t"
    and "\<And>p. pr_pid (g p) = pr_pid p \<and> pr_parent (g p) = pr_parent p \<and> alive (pr_state (g p)) \<and> pr_state (g p) \<noteq> RUNNING"
    and "pr_state (g (get_proc s i)) = SLEEPING \<Longrightarrow> pr_chan (g (get_proc s i)) = Some (CProc i) \<Longrightarrow> no_zombie_child s i"
  shows "proc_inv t"
proof -
  note r = running [OF assms(1-3)] and len = proc_invD(5) [OF assms(1)]
  have i: "i < length (procs s)" using r(1) len by simp
  have t: "t = upd_proc s i g \<lparr> cpus := (cpus s)[c := None] \<rparr>"
    using assms(3,4) by (auto simp: sched_def myproc_def split: if_splits)
  have "calm s t"
    unfolding t by (rule calm_cpus, rule calm_upd [OF i]) (use assms(5,6) r(2) in \<open>auto simp: alive_def\<close>)
  moreover have "cpu_ok t"
    by (rule cpu_leave [OF proc_invD(4) [OF assms(1)] assms(2) r(3)]) (use assms(5) i in \<open>auto simp: t get_upd_proc\<close>)
  ultimately show ?thesis by (rule proc_inv_calm [OF assms(1)])
qed

lemma inv_sleep:
  "proc_inv s \<Longrightarrow> c < length (cpus s) \<Longrightarrow> sleep c (CObj a) s = Inr t \<Longrightarrow> proc_inv t"
  by (auto simp: sleep_def alive_def split: option.splits elim!: inv_leave)

lemma inv_yield:
  "proc_inv s \<Longrightarrow> c < length (cpus s) \<Longrightarrow> yield c s = Inr t \<Longrightarrow> proc_inv t"
  by (auto simp: yield_def alive_def split: option.splits elim!: inv_leave)

lemma inv_stay:
  assumes "proc_inv s" and "i < length (procs s)"
    and "pr_pid (g (get_proc s i)) = pr_pid (get_proc s i)" and "pr_parent (g (get_proc s i)) = par_of s i"
    and "pr_state (g (get_proc s i)) = st_of s i \<or> st_of s i = SLEEPING \<and> pr_state (g (get_proc s i)) = RUNNABLE"
    and "pr_state (g (get_proc s i)) = SLEEPING \<Longrightarrow> pr_chan (g (get_proc s i)) = Some (CProc i) \<Longrightarrow> in_wait s i"
  shows "proc_inv (upd_proc s i g)"
proof -
  have "calm s (upd_proc s i g)" by (rule calm_upd) (use assms in \<open>auto simp: alive_def\<close>)
  moreover have "cpu_ok (upd_proc s i g)"
    by (rule cpu_same [OF proc_invD(4) [OF assms(1)]]) (use assms in \<open>auto simp: get_upd_proc\<close>)
  ultimately show ?thesis by (rule proc_inv_calm [OF assms(1)])
qed

lemma inv_sleep_end:
  "proc_inv s \<Longrightarrow> c < length (cpus s) \<Longrightarrow> myproc s c = Some cur \<Longrightarrow> proc_inv (sleep_end cur s)"
  unfolding sleep_end_def by (rule inv_stay) (use running proc_invD(5) in \<open>fastforce+\<close>)

lemma inv_growproc:
  "proc_inv s \<Longrightarrow> c < length (cpus s) \<Longrightarrow> myproc s c = Some cur \<Longrightarrow> proc_inv (snd (growproc allocuvm deallocuvm cur n s))"
proof -
  assume a: "proc_inv s" "c < length (cpus s)" "myproc s c = Some cur"
  have "proc_inv (upd_proc s cur (\<lambda>p. p \<lparr> pr_sz := z \<rparr>))" for z
    by (rule inv_stay [OF a(1)]) (use running [OF a] proc_invD(5) [OF a(1)] in \<open>auto simp: in_wait_def\<close>)
  then show ?thesis using a(1) by (simp add: growproc_def Let_def)
qed

lemma inv_wakeup1: "proc_inv s \<Longrightarrow> proc_inv (wakeup1 ch s)"
proof -
  assume a: "proc_inv s"
  have "cpu_ok (wakeup1 ch s)"
    by (rule cpu_same [OF proc_invD(4) [OF a]]) (simp_all add: proc_invD(5) [OF a] wakeup1_def wake_def)
  then show ?thesis by (rule proc_inv_calm [OF a calm_wakeup1])
qed

lemma kill_loop_upd:
  "kill_loop pid i k s = (-1, s) \<or>
    (\<exists>j. i \<le> j \<and> j < i + k \<and> pr_pid (get_proc s j) = pid \<and> kill_loop pid i k s =
      (0, upd_proc s j (\<lambda>p. p \<lparr> pr_killed := True, pr_state := (if pr_state p = SLEEPING then RUNNABLE else pr_state p) \<rparr>)))"
proof (induction k arbitrary: i)
  case (Suc k)
  show ?case
  proof (cases "pr_pid (get_proc s i) = pid")
    case True
    then show ?thesis by (intro disjI2 exI [of _ i]) simp
  next
    case False
    from Suc.IH [of "i + 1"] show ?thesis
    proof (elim disjE exE conjE)
      fix j
      assume "i + 1 \<le> j" "j < i + 1 + k" "pr_pid (get_proc s j) = pid"
        "kill_loop pid (i + 1) k s = (0, upd_proc s j
          (\<lambda>p. p \<lparr> pr_killed := True, pr_state := (if pr_state p = SLEEPING then RUNNABLE else pr_state p) \<rparr>))"
      with False show ?thesis by (intro disjI2 exI [of _ j]) simp
    qed (simp add: False)
  qed
qed simp

lemma inv_kill: "proc_inv s \<Longrightarrow> proc_inv (snd (kill pid s))"
proof -
  assume a: "proc_inv s"
  have "proc_inv (upd_proc s j (\<lambda>p. p \<lparr> pr_killed := True, pr_state := (if pr_state p = SLEEPING then RUNNABLE else pr_state p) \<rparr>))"
    if "j < length (procs s)" for j
    by (rule inv_stay [OF a that]) (auto simp: in_wait_def split: if_splits)
  with kill_loop_upd [of pid 0 "length (procs s)" s] a show ?thesis by (auto simp: kill_def)
qed

lemma find_unused_Some: "find_unused ps i = Some j \<Longrightarrow> i \<le> j \<and> j < i + length ps \<and> pr_state (ps ! (j - i)) = UNUSED"
proof (induction ps arbitrary: i)
  case (Cons p ps)
  show ?case
  proof (cases "pr_state p = UNUSED")
    case False
    with Cons.prems Cons.IH [of "i + 1"] show ?thesis by (auto simp: nth_Cons')
  qed (use Cons.prems in auto)
qed simp

text \<open>A new number in a slot that stays unused.\<close>

lemma inv_failed_alloc:
  assumes "proc_inv s" and "i < NPROC" and "st_of s i = UNUSED" and "nextpid s \<le> n"
    and "pr_state (g (get_proc s i)) = UNUSED" and "pr_parent (g (get_proc s i)) = par_of s i"
  shows "proc_inv (upd_proc s i g \<lparr> nextpid := n \<rparr>)"
proof -
  define t where "t = upd_proc s i g \<lparr> nextpid := n \<rparr>"
  have tf: "nextpid t = n" "initproc t = initproc s" "cpus t = cpus s" "length (procs t) = length (procs s)"
    by (simp_all add: t_def)
  note inv = proc_invD [OF assms(1)]
  have i: "i < length (procs s)" using assms(2) inv(5) by simp
  have gp: "get_proc t j = (if j = i then g (get_proc s i) else get_proc s j)" for j using i by (simp add: get_upd_proc t_def)
  have st: "st_of t j = st_of s j" "par_of t j = par_of s j" for j using assms(3,5,6) by (simp_all add: gp)
  have pid: "pr_pid (get_proc t j) = pr_pid (get_proc s j)" if "st_of s j \<noteq> UNUSED" for j
    using that assms(3) by (auto simp: gp)
  have "pid_ok t"
  proof (rule pid_okI)
    show "1 \<le> nextpid t" using pid_okD(1) [OF inv(1)] assms(4) by (simp add: tf)
    show "0 < pr_pid (get_proc t j) \<and> pr_pid (get_proc t j) < nextpid t" if "j < NPROC" "st_of t j \<noteq> UNUSED" for j
      using pid_okD(2) [OF inv(1), of j] that assms(4) pid [of j] unfolding st(1) tf by fastforce
    show "j = k" if "j < NPROC" "k < NPROC" "st_of t j \<noteq> UNUSED" "st_of t k \<noteq> UNUSED"
      "pr_pid (get_proc t j) = pr_pid (get_proc t k)" for j k
      using pid_okD(3) [OF inv(1), of j k] that pid [of j] pid [of k] unfolding st(1) by simp
  qed
  moreover obtain ini where ini: "initproc s = Some ini" "ini < NPROC" "alive (st_of s ini)" "par_of s ini = None"
    using tree_okD(2) [OF inv(2)] by blast
  have "tree_ok t"
  proof (rule tree_okI [of t ini])
    show "par_of t j \<noteq> None" if "j < NPROC" "st_of t j \<noteq> UNUSED" "j \<noteq> ini" for j
      using tree_okD(5) [OF inv(2), of j] that ini(1) by (simp add: st)
    show "r < NPROC \<and> r \<noteq> j \<and> alive (st_of t r)" if "j < NPROC" "par_of t j = Some r" for j r
      using tree_okD(6) [OF inv(2), of j r] that by (simp add: st)
  qed (use inv(5) ini tree_okD(3,4) [OF inv(2)] in \<open>simp_all add: st tf\<close>)
  moreover have iw: "in_wait t j \<Longrightarrow> in_wait s j" for j using assms(3,5) by (auto simp: in_wait_def gp split: if_splits)
  have "no_lost_wakeup t"
    using inv(3) iw unfolding no_lost_wakeup_def st by blast
  moreover have "cpu_ok t" by (rule cpu_same [OF inv(4)]) (simp_all add: st tf)
  ultimately show ?thesis unfolding proc_inv_def t_def [symmetric] by blast
qed

text \<open>A new child in an unused slot.\<close>

lemma inv_new_child:
  assumes "proc_inv s" and "i < NPROC" and "st_of s i = UNUSED" and "q < NPROC" and "alive (st_of s q)"
    and "pr_state x = RUNNABLE" and "pr_parent x = Some q" and "pr_pid x = nextpid s"
  shows "proc_inv (upd_proc s i (\<lambda>_. x) \<lparr> nextpid := nextpid s + 1 \<rparr>)"
proof -
  define t where "t = upd_proc s i (\<lambda>_. x) \<lparr> nextpid := nextpid s + 1 \<rparr>"
  have tf: "nextpid t = nextpid s + 1" "initproc t = initproc s" "cpus t = cpus s" "length (procs t) = length (procs s)"
    by (simp_all add: t_def)
  note inv = proc_invD [OF assms(1)]
  have i: "i < length (procs s)" using assms(2) inv(5) by simp
  have gp: "get_proc t j = (if j = i then x else get_proc s j)" for j using i by (simp add: get_upd_proc t_def)
  have qi: "q \<noteq> i" using assms(3,5) by (auto simp: alive_def)
  have nk: "par_of s j \<noteq> Some i" if "j < NPROC" for j
    using tree_okD(6) [OF inv(2) that, of i] assms(3) by (auto simp: alive_def)
  obtain ini where ini: "initproc s = Some ini" "ini < NPROC" "alive (st_of s ini)" "par_of s ini = None"
    using tree_okD(2) [OF inv(2)] by blast
  have ni: "ini \<noteq> i" using ini(3) assms(3) by (auto simp: alive_def)
  have "pid_ok t"
  proof (rule pid_okI)
    show "1 \<le> nextpid t" using pid_okD(1) [OF inv(1)] by (simp add: tf)
    show b: "0 < pr_pid (get_proc t j) \<and> pr_pid (get_proc t j) < nextpid t" if "j < NPROC" "st_of t j \<noteq> UNUSED" for j
      using pid_okD(1) [OF inv(1)] pid_okD(2) [OF inv(1), of j] that assms(8) unfolding gp tf by (cases "j = i") simp_all
    show "j = k" if jk: "j < NPROC" "k < NPROC" "st_of t j \<noteq> UNUSED" "st_of t k \<noteq> UNUSED"
      "pr_pid (get_proc t j) = pr_pid (get_proc t k)" for j k
    proof -
      have lt: "pr_pid (get_proc s l) < nextpid s" if "l < NPROC" "l \<noteq> i" "st_of t l \<noteq> UNUSED" for l
        using pid_okD(2) [OF inv(1) that(1)] that by (simp add: gp)
      show ?thesis
        using pid_okD(3) [OF inv(1), of j k] jk lt [of j] lt [of k] assms(8) unfolding gp
        by (cases "j = i"; cases "k = i") auto
    qed
  qed
  moreover have "tree_ok t"
  proof (rule tree_okI [of t ini])
    show "par_of t j = None" if "j < NPROC" "st_of t j = UNUSED" for j
      using tree_okD(4) [OF inv(2), of j] that assms(6) unfolding gp by (cases "j = i") auto
    show "par_of t j \<noteq> None" if "j < NPROC" "st_of t j \<noteq> UNUSED" "j \<noteq> ini" for j
      using tree_okD(5) [OF inv(2), of j] that assms(7) ini(1) unfolding gp by (cases "j = i") auto
    show "r < NPROC \<and> r \<noteq> j \<and> alive (st_of t r)" if "j < NPROC" "par_of t j = Some r" for j r
      using tree_okD(6) [OF inv(2), of j r] that assms(4,5,7) qi nk [of j] unfolding gp by (cases "j = i") auto
    show "st_of t j \<noteq> EMBRYO" if "j < NPROC" for j
      using tree_okD(3) [OF inv(2) that] assms(6) unfolding gp by (cases "j = i") auto
  qed (use ini ni inv(5) in \<open>simp_all add: gp tf\<close>)
  moreover have "no_lost_wakeup t"
    unfolding no_lost_wakeup_def
  proof (intro allI impI)
    fix j k
    assume jk: "j < NPROC" "k < NPROC" "in_wait t j" "par_of t k = Some j"
    show "st_of t k \<noteq> ZOMBIE"
    proof (cases "k = i")
      case True
      then show ?thesis using assms(6) by (simp add: gp)
    next
      case False
      have "j \<noteq> i" using jk(3) assms(6) by (auto simp: in_wait_def gp)
      then have "in_wait s j" using jk(3) by (simp add: in_wait_def gp)
      with inv(3) jk False show ?thesis unfolding no_lost_wakeup_def gp by auto
    qed
  qed
  moreover have "cpu_ok t"
    by (rule cpu_same [OF inv(4)]) (use assms(3,6) in \<open>auto simp: gp tf\<close>)
  ultimately show ?thesis unfolding proc_inv_def t_def [symmetric] by blast
qed

lemma int_add_Inr: "int_add a b = Inr c \<Longrightarrow> c = a + b"
  by (auto simp: int_add_def split: if_splits)

lemma upd_upd [simp]: "upd_proc (upd_proc s i g) i h = upd_proc s i (h \<circ> g)"
  by (cases "i < length (procs s)") (simp_all add: upd_proc_def list_update_beyond)

lemma upd_nextpid: "upd_proc (s \<lparr> nextpid := n \<rparr>) i g = upd_proc s i g \<lparr> nextpid := n \<rparr>"
  by (simp add: upd_proc_def)

text \<open>What \<open>allocproc\<close> does: nothing, a new number in a slot that stays unused, or a new slot.\<close>

lemma allocproc_cases:
  assumes "allocproc ok s = Inr (r, t)"
  shows "(r = None \<and> t = s) \<or> (\<exists>i. i < length (procs s) \<and> st_of s i = UNUSED \<and>
    ((r = None \<and> t = upd_proc s i (\<lambda>p. p \<lparr> pr_pid := nextpid s, pr_kstack := False, pr_state := UNUSED \<rparr>) \<lparr> nextpid := nextpid s + 1 \<rparr>) \<or>
     (r = Some i \<and> t = upd_proc s i (\<lambda>p. p \<lparr> pr_state := EMBRYO, pr_pid := nextpid s, pr_kstack := True \<rparr>) \<lparr> nextpid := nextpid s + 1 \<rparr>)))"
proof (cases "find_unused (procs s) 0")
  case None
  with assms show ?thesis by (simp add: allocproc_def)
next
  case (Some i)
  from find_unused_Some [OF Some] have i: "i < length (procs s)" "st_of s i = UNUSED" by auto
  obtain n where n: "int_add (nextpid s) 1 = Inr n" using assms Some by (auto simp: allocproc_def bindR_eq_Inr)
  note n' = int_add_Inr [OF n]
  show ?thesis
    using assms Some n n' i
    by (intro disjI2 exI [of _ i]) (auto simp: allocproc_def Let_def upd_nextpid comp_def split: if_splits)
qed

lemma pinv_fork:
  assumes "proc_inv s" and "c < length (cpus s)" and "myproc s c = Some cur" and "fork stack_ok uvm_ok cur s = Inr (r, t)"
  shows "proc_inv t"
proof -
  note run = running [OF assms(1-3)] and inv = proc_invD [OF assms(1)]
  obtain a s1 where al: "allocproc stack_ok s = Inr (a, s1)" using assms(4) by (auto simp: fork_def bindR_eq_Inr)
  have fail: "proc_inv (upd_proc s i g \<lparr> nextpid := nextpid s + 1 \<rparr>)"
    if "i < length (procs s)" "st_of s i = UNUSED" "pr_state (g (get_proc s i)) = UNUSED" "pr_parent (g (get_proc s i)) = par_of s i" for i g
    by (rule inv_failed_alloc) (use that inv(5) assms(1) in auto)
  from allocproc_cases [OF al] show ?thesis
  proof (elim disjE exE conjE)
    assume "a = None" "s1 = s"
    with assms(1,4) al show ?thesis by (simp add: fork_def)
  next
    fix i
    assume i: "i < length (procs s)" "st_of s i = UNUSED"
      and a: "a = None" "s1 = upd_proc s i (\<lambda>p. p \<lparr> pr_pid := nextpid s, pr_kstack := False, pr_state := UNUSED \<rparr>) \<lparr> nextpid := nextpid s + 1 \<rparr>"
    have "t = s1" using assms(4) al a(1) by (simp add: fork_def)
    then show ?thesis unfolding a(2) using fail [OF i] by simp
  next
    fix i
    assume i: "i < length (procs s)" "st_of s i = UNUSED"
      and a: "a = Some i" "s1 = upd_proc s i (\<lambda>p. p \<lparr> pr_state := EMBRYO, pr_pid := nextpid s, pr_kstack := True \<rparr>) \<lparr> nextpid := nextpid s + 1 \<rparr>"
    show ?thesis
    proof (cases uvm_ok)
      case False
      have "\<exists>g. t = upd_proc s i g \<lparr> nextpid := nextpid s + 1 \<rparr> \<and> pr_state (g (get_proc s i)) = UNUSED \<and>
          pr_parent (g (get_proc s i)) = par_of s i"
        using assms(4) al a False by (simp add: fork_def upd_nextpid comp_def) (elim conjE, rule exI, rule conjI, erule sym, simp)
      then show ?thesis using fail [OF i] by blast
    next
      case True
      have "\<exists>g. t = upd_proc s i g \<lparr> nextpid := nextpid s + 1 \<rparr> \<and> pr_state (g (get_proc s i)) = RUNNABLE \<and>
          pr_parent (g (get_proc s i)) = Some cur \<and> pr_pid (g (get_proc s i)) = nextpid s"
        using assms(4) al a(1) True unfolding a(2)
        by (simp add: fork_def Let_def upd_nextpid comp_def) (elim conjE, rule exI, rule conjI, erule sym, simp)
      then obtain g where g: "t = upd_proc s i g \<lparr> nextpid := nextpid s + 1 \<rparr>" "pr_state (g (get_proc s i)) = RUNNABLE"
        "pr_parent (g (get_proc s i)) = Some cur" "pr_pid (g (get_proc s i)) = nextpid s" by blast
      have "t = upd_proc s i (\<lambda>_. g (get_proc s i)) \<lparr> nextpid := nextpid s + 1 \<rparr>" by (simp add: g(1) upd_proc_def)
      then show ?thesis
        using inv_new_child [OF assms(1) _ i(2) run(1) _ g(2-4)] i(1) inv(5) run(2) by (simp add: alive_def)
    qed
  qed
qed

lemma wait_scan_None:
  "wait_scan ps cur i hk = (None, hk') \<Longrightarrow> p \<in> set ps \<Longrightarrow> pr_parent p = Some cur \<Longrightarrow> pr_state p \<noteq> ZOMBIE"
  by (induction ps cur i hk rule: wait_scan.induct) (auto split: if_splits)

lemma wait_scan_Some:
  "wait_scan ps cur i hk = (Some k, hk') \<Longrightarrow>
    i \<le> k \<and> k < i + length ps \<and> pr_parent (ps ! (k - i)) = Some cur \<and> pr_state (ps ! (k - i)) = ZOMBIE"
proof (induction ps cur i hk rule: wait_scan.induct)
  case (2 p ps cur i hk)
  show ?case
  proof (cases "pr_parent p = Some cur \<and> pr_state p = ZOMBIE")
    case True
    with "2.prems" show ?thesis by auto
  next
    case False
    then have "i + 1 \<le> k \<and> k < i + 1 + length ps \<and> pr_parent (ps ! (k - (i + 1))) = Some cur \<and> pr_state (ps ! (k - (i + 1))) = ZOMBIE"
      using 2 by (auto split: if_splits)
    then show ?thesis by (auto simp: nth_Cons')
  qed
qed simp

text \<open>A child that has ended is given back: nobody is left with it as a parent.\<close>

lemma inv_reap:
  assumes "proc_inv s" and "i < NPROC" and "st_of s i = ZOMBIE"
    and "pr_state (g (get_proc s i)) = UNUSED" and "pr_parent (g (get_proc s i)) = None"
  shows "proc_inv (upd_proc s i g)"
proof -
  note inv = proc_invD [OF assms(1)]
  define t where "t = upd_proc s i g"
  have gp: "get_proc t j = (if j = i then g (get_proc s i) else get_proc s j)" for j
    using assms(2) inv(5) by (simp add: t_def get_upd_proc)
  have tf: "nextpid t = nextpid s" "initproc t = initproc s" "cpus t = cpus s" "length (procs t) = NPROC"
    using inv(5) by (simp_all add: t_def)
  obtain ini where ini: "initproc s = Some ini" "ini < NPROC" "alive (st_of s ini)" "par_of s ini = None"
    using tree_okD(2) [OF inv(2)] by blast
  have ni: "\<not> alive (st_of s i)" by (simp add: assms(3) alive_def)
  then have ii: "ini \<noteq> i" using ini(3) by blast
  have "pid_ok t"
  proof (rule pid_okI)
    show "1 \<le> nextpid t" using pid_okD(1) [OF inv(1)] tf by simp
    show "0 < pr_pid (get_proc t j) \<and> pr_pid (get_proc t j) < nextpid t" if "j < NPROC" "st_of t j \<noteq> UNUSED" for j
      using pid_okD(2) [OF inv(1), of j] that assms(4) by (cases "j = i") (simp_all add: gp tf)
    show "j = k" if "j < NPROC" "k < NPROC" "st_of t j \<noteq> UNUSED" "st_of t k \<noteq> UNUSED"
      "pr_pid (get_proc t j) = pr_pid (get_proc t k)" for j k
      using pid_okD(3) [OF inv(1), of j k] that assms(4) by (cases "j = i"; cases "k = i") (simp_all add: gp)
  qed
  moreover have "tree_ok t"
  proof (rule tree_okI [of t ini])
    show "par_of t j = None" if "j < NPROC" "st_of t j = UNUSED" for j
      using tree_okD(4) [OF inv(2), of j] that assms(5) by (cases "j = i") (simp_all add: gp)
    show "st_of t j \<noteq> EMBRYO" if "j < NPROC" for j
      using tree_okD(3) [OF inv(2), of j] that assms(4) by (cases "j = i") (simp_all add: gp)
    show "par_of t j \<noteq> None" if "j < NPROC" "st_of t j \<noteq> UNUSED" "j \<noteq> ini" for j
      using tree_okD(5) [OF inv(2), of j] that ini(1) assms(4) by (cases "j = i") (simp_all add: gp)
    show "q < NPROC \<and> q \<noteq> j \<and> alive (st_of t q)" if j: "j < NPROC" "par_of t j = Some q" for j q
    proof -
      have "j \<noteq> i" using j(2) assms(5) by (auto simp: gp)
      then have "q < NPROC \<and> q \<noteq> j \<and> alive (st_of s q)" using tree_okD(6) [OF inv(2) j(1), of q] j(2) by (simp add: gp)
      then show ?thesis using ni by (cases "q = i") (simp_all add: gp)
    qed
  qed (use ini ii in \<open>simp_all add: gp tf\<close>)
  moreover have "no_lost_wakeup t"
    unfolding no_lost_wakeup_def
  proof (intro allI impI)
    fix j k
    assume jk: "j < NPROC" "k < NPROC" "in_wait t j" "par_of t k = Some j"
    have "k \<noteq> i" using jk(4) assms(5) by (auto simp: gp)
    moreover have "in_wait s j" using jk(3) assms(4) by (cases "j = i") (simp_all add: in_wait_def gp)
    ultimately show "st_of t k \<noteq> ZOMBIE" using inv(3) jk unfolding no_lost_wakeup_def by (simp add: gp)
  qed
  moreover have "cpu_ok t"
    by (rule cpu_same [OF inv(4)]) (use assms(3,4) in \<open>auto simp: gp tf\<close>)
  ultimately show ?thesis unfolding proc_inv_def t_def [symmetric] by blast
qed

lemma inv_wait:
  assumes "proc_inv s" and "c < length (cpus s)" and "wait c s = Inr (r, t)"
  shows "proc_inv t"
proof -
  note inv = proc_invD [OF assms(1)]
  obtain cur where cur: "myproc s c = Some cur" using assms(3) by (cases "myproc s c") (simp_all add: wait_def)
  obtain a hk where sc: "wait_scan (procs s) cur 0 False = (a, hk)" by (meson surj_pair)
  show ?thesis
  proof (cases a)
    case (Some i)
    then have i: "i < NPROC" "st_of s i = ZOMBIE" using wait_scan_Some [of "procs s" cur 0 False i hk] sc inv(5) by auto
    have "\<exists>g. t = upd_proc s i g \<and> pr_state (g (get_proc s i)) = UNUSED \<and> pr_parent (g (get_proc s i)) = None"
      using assms(3) cur sc Some by (simp add: wait_def Let_def) (elim conjE, rule exI, rule conjI, erule sym, simp)
    then show ?thesis using inv_reap [OF assms(1) i] by blast
  next
    case None
    have nz: "no_zombie_child s cur"
      unfolding no_zombie_child_def
    proof (intro allI impI)
      fix j
      assume j: "j < NPROC" "par_of s j = Some cur"
      have "get_proc s j \<in> set (procs s)" using j(1) inv(5) by simp
      then show "st_of s j \<noteq> ZOMBIE" using wait_scan_None sc None j(2) by blast
    qed
    show ?thesis
    proof (cases "\<not> hk \<or> pr_killed (get_proc s cur)")
      case True
      then show ?thesis using assms(1,3) cur sc None by (auto simp: wait_def)
    next
      case False
      then have "sleep c (CProc cur) s = Inr t" using assms(3) cur sc None by (auto simp: wait_def bindR_eq_Inr)
      then have "sched c (upd_proc s cur (\<lambda>x. x \<lparr> pr_chan := Some (CProc cur), pr_state := SLEEPING \<rparr>)) = Inr t"
        using cur by (simp add: sleep_def)
      then show ?thesis by (rule inv_leave [OF assms(1,2) cur]) (use nz in \<open>simp_all add: alive_def\<close>)
    qed
  qed
qed

text \<open>The children of a process that ends go to the first process, which is woken when one of them has ended.\<close>

lemma wake_simps [simp]:
  "pr_parent (wake ch p) = pr_parent p" "pr_pid (wake ch p) = pr_pid p" "pr_chan (wake ch p) = pr_chan p"
  "pr_state (wake ch p) = ZOMBIE \<longleftrightarrow> pr_state p = ZOMBIE" "pr_state (wake ch p) = UNUSED \<longleftrightarrow> pr_state p = UNUSED"
  "pr_state (wake ch p) = RUNNING \<longleftrightarrow> pr_state p = RUNNING" "pr_state (wake ch p) = EMBRYO \<longleftrightarrow> pr_state p = EMBRYO"
  "alive (pr_state (wake ch p)) \<longleftrightarrow> alive (pr_state p)" "wake ch (wake ch p) = wake ch p"
  "wake ch p \<lparr> pr_parent := q \<rparr> = wake ch (p \<lparr> pr_parent := q \<rparr>)"
  by (auto simp: wake_def alive_def)

lemma wakeup1_fields [simp]:
  "length (procs (wakeup1 ch s)) = length (procs s)" "nextpid (wakeup1 ch s) = nextpid s"
  "initproc (wakeup1 ch s) = initproc s" "cpus (wakeup1 ch s) = cpus s"
  by (simp_all add: wakeup1_def)

lemma get_wakeup1 [simp]: "i < length (procs s) \<Longrightarrow> get_proc (wakeup1 ch s) i = wake ch (get_proc s i)"
  by (simp add: wakeup1_def)

definition adopt :: "nat \<Rightarrow> nat \<Rightarrow> proc \<Rightarrow> proc" where
  "adopt cur ini p = (if pr_parent p = Some cur then p \<lparr> pr_parent := Some ini \<rparr> else p)"

definition has_zombie :: "ptable \<Rightarrow> nat \<Rightarrow> nat \<Rightarrow> nat \<Rightarrow> bool" where
  "has_zombie s cur i k \<longleftrightarrow> (\<exists>j. i \<le> j \<and> j < i + k \<and> par_of s j = Some cur \<and> st_of s j = ZOMBIE)"

lemma reparent_fields:
  "length (procs (reparent cur i k s)) = length (procs s)" "nextpid (reparent cur i k s) = nextpid s"
  "initproc (reparent cur i k s) = initproc s" "cpus (reparent cur i k s) = cpus s"
  by (induction cur i k s rule: reparent.induct) (simp_all add: Let_def)

lemma has_zombie_Suc:
  "has_zombie s cur i (Suc k) \<longleftrightarrow> (par_of s i = Some cur \<and> st_of s i = ZOMBIE) \<or> has_zombie s cur (i + 1) k"
  unfolding has_zombie_def by (auto simp: Suc_le_eq) (metis order_le_less less_or_eq_imp_le)+

lemma has_zombie_cong:
  "(\<And>j. i \<le> j \<Longrightarrow> j < i + k \<Longrightarrow> par_of t j = par_of s j \<and> (st_of t j = ZOMBIE \<longleftrightarrow> st_of s j = ZOMBIE)) \<Longrightarrow>
    has_zombie t cur i k \<longleftrightarrow> has_zombie s cur i k"
  unfolding has_zombie_def by metis

lemma reparent_get:
  assumes "initproc s = Some ini" and "ini \<noteq> cur" and "i + k \<le> length (procs s)" and "j < length (procs s)"
  shows "get_proc (reparent cur i k s) j =
    (let p = (if i \<le> j \<and> j < i + k then adopt cur ini (get_proc s j) else get_proc s j)
     in if has_zombie s cur i k then wake (Some (CProc ini)) p else p)"
  using assms
proof (induction k arbitrary: i s)
  case 0
  then show ?case by (auto simp: has_zombie_def Let_def)
next
  case (Suc k)
  define z where "z \<longleftrightarrow> par_of s i = Some cur \<and> st_of s i = ZOMBIE"
  define u where "u = (if par_of s i = Some cur then upd_proc s i (\<lambda>p. p \<lparr> pr_parent := Some ini \<rparr>) else s)"
  define t where "t = (if z then wakeup1 (Some (CProc ini)) u else u)"
  have i: "i < length (procs s)" using Suc.prems by simp
  have uf: "length (procs u) = length (procs s)" "initproc u = Some ini" using Suc.prems by (simp_all add: u_def)
  have tf: "length (procs t) = length (procs s)" "initproc t = Some ini" using uf by (simp_all add: t_def)
  have ug: "get_proc u j = (if j = i then adopt cur ini (get_proc s j) else get_proc s j)" for j
    using i by (simp add: u_def adopt_def get_upd_proc)
  have tg: "get_proc t j = (if z then wake (Some (CProc ini)) (get_proc u j) else get_proc u j)" if "j < length (procs s)" for j
    using that uf by (simp add: t_def)
  have step: "reparent cur i (Suc k) s = reparent cur (i + 1) k t"
    using Suc.prems(1) i by (simp add: Let_def u_def t_def z_def get_upd_proc)
  have hz: "has_zombie t cur (i + 1) k \<longleftrightarrow> has_zombie s cur (i + 1) k"
    by (rule has_zombie_cong) (use Suc.prems(3) in \<open>simp add: tg ug\<close>)
  have aw: "adopt cur ini (wake ch p) = wake ch (adopt cur ini p)" for ch p by (simp add: adopt_def)
  have IH: "get_proc (reparent cur (i + 1) k t) j =
    (let p = (if i + 1 \<le> j \<and> j < i + 1 + k then adopt cur ini (get_proc t j) else get_proc t j)
     in if has_zombie t cur (i + 1) k then wake (Some (CProc ini)) p else p)"
    by (rule Suc.IH) (use Suc.prems tf in simp_all)
  have rng: "i \<le> j \<and> j < i + Suc k \<longleftrightarrow> j = i \<or> (i + 1 \<le> j \<and> j < i + 1 + k)" by auto
  show ?case
    unfolding step IH has_zombie_Suc hz z_def [symmetric] tg [OF Suc.prems(4)] ug rng Let_def by (auto simp: aw)
qed

lemma pinv_exit:
  assumes "proc_inv s" and "c < length (cpus s)" and "exit c s = Inr t"
  shows "proc_inv t"
proof -
  note inv = proc_invD [OF assms(1)]
  obtain ini where ini: "initproc s = Some ini" "ini < NPROC" "alive (st_of s ini)" "par_of s ini = None"
    using tree_okD(2) [OF inv(2)] by blast
  obtain cur where cur: "myproc s c = Some cur" using assms(3) by (cases "myproc s c") (simp_all add: exit_def)
  note run = running [OF assms(1,2) cur]
  have ci: "ini \<noteq> cur" using assms(3) cur ini(1) by (auto simp: exit_def)
  obtain q where q: "par_of s cur = Some q" using tree_okD(5) [OF inv(2) run(1)] run(2) ini(1) ci by auto
  have qn: "q < NPROC" "q \<noteq> cur" "alive (st_of s q)" using tree_okD(6) [OF inv(2) run(1) q] by blast+
  define s1 where "s1 = wakeup1 (Some (CProc q)) s"
  define s2 where "s2 = reparent cur 0 NPROC s1"
  define z where "z = has_zombie s1 cur 0 NPROC"
  have t: "t = upd_proc s2 cur (\<lambda>p. p \<lparr> pr_state := ZOMBIE \<rparr>) \<lparr> cpus := (cpus s)[c := None] \<rparr>"
    using assms(3) cur q ini(1) ci inv(5)
    by (auto simp: exit_def Let_def sched_def myproc_def s1_def s2_def reparent_fields split: if_splits option.splits)
  have sf: "length (procs s2) = NPROC" "nextpid s2 = nextpid s" "initproc s2 = initproc s"
    using inv(5) by (simp_all add: s2_def s1_def reparent_fields)
  have tf: "length (procs t) = NPROC" "nextpid t = nextpid s" "initproc t = initproc s" "cpus t = (cpus s)[c := None]"
    by (simp_all add: t sf)
  have g2: "get_proc s2 j = (let p = adopt cur ini (wake (Some (CProc q)) (get_proc s j)) in if z then wake (Some (CProc ini)) p else p)"
    if "j < NPROC" for j
    using reparent_get [of s1 ini cur 0 NPROC j] ini(1) ci that inv(5) by (simp add: s2_def z_def) (simp add: s1_def)
  have gt: "get_proc t j = (if j = cur then get_proc s2 j \<lparr> pr_state := ZOMBIE \<rparr> else get_proc s2 j)" for j
    using run(1) by (simp add: t get_upd_proc sf)
  have pid: "pr_pid (get_proc t j) = pr_pid (get_proc s j)" and ch: "pr_chan (get_proc t j) = pr_chan (get_proc s j)"
    and par: "par_of t j = (if par_of s j = Some cur then Some ini else par_of s j)" if "j < NPROC" for j
    by (simp_all add: gt g2 that run(1) adopt_def Let_def)
  have un: "st_of t j = UNUSED \<longleftrightarrow> st_of s j = UNUSED" "st_of t j = EMBRYO \<longleftrightarrow> st_of s j = EMBRYO"
    "st_of t j = ZOMBIE \<longleftrightarrow> j = cur \<or> st_of s j = ZOMBIE" "st_of t j = RUNNING \<longleftrightarrow> j \<noteq> cur \<and> st_of s j = RUNNING"
    "alive (st_of t j) \<longleftrightarrow> j \<noteq> cur \<and> alive (st_of s j)" if "j < NPROC" for j
    using run(2) by (auto simp: gt g2 that run(1) adopt_def Let_def alive_def [of ZOMBIE])
  have sl: "st_of s j = SLEEPING \<and> pr_chan (get_proc s j) \<noteq> Some (CProc q) \<and> (z \<longrightarrow> pr_chan (get_proc s j) \<noteq> Some (CProc ini))"
    if "j < NPROC" "st_of t j = SLEEPING" for j
    using that(2) by (auto simp: gt g2 [OF that(1)] adopt_def Let_def wake_def split: if_splits)
  have "pid_ok t"
  proof (rule pid_okI)
    show "1 \<le> nextpid t" using pid_okD(1) [OF inv(1)] tf by simp
    show "0 < pr_pid (get_proc t j) \<and> pr_pid (get_proc t j) < nextpid t" if "j < NPROC" "st_of t j \<noteq> UNUSED" for j
      using pid_okD(2) [OF inv(1), of j] that by (simp add: pid un tf)
    show "j = k" if "j < NPROC" "k < NPROC" "st_of t j \<noteq> UNUSED" "st_of t k \<noteq> UNUSED"
      "pr_pid (get_proc t j) = pr_pid (get_proc t k)" for j k
      using pid_okD(3) [OF inv(1), of j k] that by (simp add: pid un)
  qed
  moreover have "tree_ok t"
  proof (rule tree_okI [of t ini])
    show "par_of t j = None" if "j < NPROC" "st_of t j = UNUSED" for j
      using tree_okD(4) [OF inv(2), of j] that by (simp add: par un)
    show "st_of t j \<noteq> EMBRYO" if "j < NPROC" for j using tree_okD(3) [OF inv(2), of j] that by (simp add: un)
    show "par_of t j \<noteq> None" if "j < NPROC" "st_of t j \<noteq> UNUSED" "j \<noteq> ini" for j
      using tree_okD(5) [OF inv(2), of j] that ini(1) by (simp add: par un)
    show "r < NPROC \<and> r \<noteq> j \<and> alive (st_of t r)" if j: "j < NPROC" "par_of t j = Some r" for j r
    proof (cases "par_of s j = Some cur")
      case True
      then have "r = ini" "j \<noteq> ini" using j ini(4) by (auto simp: par)
      then show ?thesis using ini(2,3) ci by (simp add: un)
    next
      case False
      then show ?thesis using j tree_okD(6) [OF inv(2) j(1), of r] by (auto simp: par un)
    qed
  qed (use ini ci in \<open>simp_all add: par un tf\<close>)
  moreover have "no_lost_wakeup t"
    unfolding no_lost_wakeup_def
  proof (intro allI impI notI)
    fix a j
    assume aj: "a < NPROC" "j < NPROC" "in_wait t a" "par_of t j = Some a" "st_of t j = ZOMBIE"
    have w: "in_wait s a" "a \<noteq> q" "z \<longrightarrow> a \<noteq> ini" using aj(3) sl [OF aj(1)] ch [OF aj(1)] by (auto simp: in_wait_def)
    show False
    proof (cases "par_of s j = Some cur")
      case True
      have "j \<noteq> cur" using True q qn(2) by auto
      then have "st_of s1 j = ZOMBIE \<and> par_of s1 j = Some cur" using True aj(2,5) inv(5) by (simp add: s1_def un)
      then have z unfolding z_def has_zombie_def using aj(2) by auto
      then show False using w(3) True aj(2,4) by (simp add: par)
    next
      case False
      then have pj: "par_of s j = Some a" using aj(2,4) by (simp add: par)
      then have "j \<noteq> cur" using q w(2) by auto
      then have "st_of s j = ZOMBIE" using aj(2,5) by (simp add: un)
      then show False using inv(3) aj(1,2) w(1) pj unfolding no_lost_wakeup_def by blast
    qed
  qed
  moreover have "cpu_ok t" by (rule cpu_leave [OF inv(4) assms(2) run(3) tf(4)]) (simp add: un)
  ultimately show ?thesis unfolding proc_inv_def by blast
qed

section \<open>Every reachable state\<close>

definition boot_ptable :: "nat \<Rightarrow> ptable" where
  "boot_ptable n = \<lparr> procs = replicate NPROC \<lparr> pr_state = UNUSED, pr_pid = 0, pr_parent = None, pr_chan = None, pr_killed = False,
     pr_kstack = False, pr_pgdir = False, pr_sz = 0, pr_name = [] \<rparr>, nextpid = 1, initproc = None, cpus = replicate n None \<rparr>"

lemma inv_userinit:
  assumes "userinit stack_ok kvm_ok (boot_ptable n) = Inr s"
  shows "proc_inv s"
proof -
  have NP: "NPROC = Suc 63" by (simp add: NPROC_def)
  have fu: "find_unused (procs (boot_ptable n)) 0 = Some 0" by (simp add: boot_ptable_def NP)
  define x where "x = get_proc s 0"
  have f: "procs s = (procs (boot_ptable n)) [0 := x]" "nextpid s = 2" "initproc s = Some 0" "cpus s = replicate n None"
    and x: "pr_state x = RUNNABLE" "pr_pid x = 1" "pr_parent x = None"
    using assms fu unfolding x_def
    by (auto simp: userinit_def allocproc_def bindR_eq_Inr Let_def int_add_def upd_proc_def split: if_splits) (simp_all add: boot_ptable_def NP)
  have gp: "get_proc s j = (if j = 0 then x else get_proc (boot_ptable n) j)" for j by (simp add: f(1) boot_ptable_def NP)
  have bg: "get_proc (boot_ptable n) j = get_proc (boot_ptable n) 1" if "j < NPROC" for j using that NP by (simp add: boot_ptable_def)
  have b: "st_of (boot_ptable n) 1 = UNUSED" "par_of (boot_ptable n) 1 = None" by (simp_all add: boot_ptable_def NP)
  have st: "st_of s j = (if j = 0 then RUNNABLE else UNUSED)" and par: "par_of s j = None" if "j < NPROC" for j
    using x b bg [OF that] by (simp_all add: gp)
  have "pid_ok s" by (rule pid_okI) (auto simp: st f(2) x x_def [symmetric] split: if_splits)
  moreover have n: "length (procs s) = NPROC" "0 < NPROC" by (simp_all add: f(1) boot_ptable_def NP)
  have "tree_ok s" by (rule tree_okI [of s 0]) (use par n in \<open>simp_all add: st f(3) alive_def\<close>)
  moreover have "no_lost_wakeup s" by (simp add: no_lost_wakeup_def par)
  moreover have "cpu_ok s" by (rule cpu_okI) (simp_all add: f(4) st split: if_splits)
  ultimately show ?thesis unfolding proc_inv_def by blast
qed

lemma inv_step: "pr_step s t \<Longrightarrow> proc_inv s \<Longrightarrow> proc_inv t"
  by (induction rule: pr_step.induct)
    (blast intro: inv_run pinv_fork pinv_exit inv_wait inv_sleep inv_sleep_end inv_yield inv_kill inv_growproc
      inv_wakeup1 [folded wakeup_def])+

lemma inv_steps: "pr_step\<^sup>*\<^sup>* s t \<Longrightarrow> proc_inv s \<Longrightarrow> proc_inv t"
  by (induction rule: rtranclp_induct) (blast intro: inv_step)+

text \<open>C5:
  in every state of the process table that is reached from \<open>userinit\<close>, on any number of processors and with the
  operations of the processes interleaved in any order, no two processes have the same number, a process is in state
  running exactly when it is on a processor, and on one only, every process but the first has a parent, which is alive,
  and no process sleeps in \<open>wait\<close> while one of its children has ended.
\<close>

theorem proc_invariant:
  assumes "userinit stack_ok kvm_ok (boot_ptable n) = Inr s" and "pr_step\<^sup>*\<^sup>* s t"
  shows "(\<forall>i < NPROC. \<forall>j < NPROC. pr_state (get_proc t i) \<noteq> UNUSED \<longrightarrow> pr_state (get_proc t j) \<noteq> UNUSED \<longrightarrow>
      pr_pid (get_proc t i) = pr_pid (get_proc t j) \<longrightarrow> i = j) \<and>
    (\<forall>i < NPROC. (pr_state (get_proc t i) = RUNNING \<longleftrightarrow> (\<exists>!c. c < length (cpus t) \<and> cpus t ! c = Some i))) \<and>
    (\<forall>i < NPROC. pr_state (get_proc t i) \<noteq> UNUSED \<longrightarrow> Some i \<noteq> initproc t \<longrightarrow>
      (\<exists>q < NPROC. pr_parent (get_proc t i) = Some q \<and> alive (pr_state (get_proc t q)))) \<and>
    (\<forall>i < NPROC. \<forall>j < NPROC. pr_state (get_proc t i) = SLEEPING \<longrightarrow> pr_chan (get_proc t i) = Some (CProc i) \<longrightarrow>
      pr_parent (get_proc t j) = Some i \<longrightarrow> pr_state (get_proc t j) \<noteq> ZOMBIE)"
proof -
  note inv = proc_invD [OF inv_steps [OF assms(2) inv_userinit [OF assms(1)]]]
  show ?thesis
  proof (intro conjI)
    show "\<forall>i < NPROC. \<forall>j < NPROC. pr_state (get_proc t i) \<noteq> UNUSED \<longrightarrow> pr_state (get_proc t j) \<noteq> UNUSED \<longrightarrow>
        pr_pid (get_proc t i) = pr_pid (get_proc t j) \<longrightarrow> i = j"
      using pid_okD(3) [OF inv(1)] by blast
    show "\<forall>i < NPROC. (pr_state (get_proc t i) = RUNNING \<longleftrightarrow> (\<exists>!c. c < length (cpus t) \<and> cpus t ! c = Some i))"
      using cpu_okD [OF inv(4)] by blast
    show "\<forall>i < NPROC. pr_state (get_proc t i) \<noteq> UNUSED \<longrightarrow> Some i \<noteq> initproc t \<longrightarrow>
        (\<exists>q < NPROC. pr_parent (get_proc t i) = Some q \<and> alive (pr_state (get_proc t q)))"
      using tree_okD(5,6) [OF inv(2)] by (metis option.exhaust)
    show "\<forall>i < NPROC. \<forall>j < NPROC. pr_state (get_proc t i) = SLEEPING \<longrightarrow> pr_chan (get_proc t i) = Some (CProc i) \<longrightarrow>
        pr_parent (get_proc t j) = Some i \<longrightarrow> pr_state (get_proc t j) \<noteq> ZOMBIE"
      using inv(3) unfolding no_lost_wakeup_def in_wait_def by blast
  qed
qed

text \<open>One process forks another.\<close>

definition forked :: ptable where
  "forked = (case userinit True True (boot_ptable 2) of Inr s \<Rightarrow> (case fork True True 0 (run_proc 0 0 s) of Inr (r, t) \<Rightarrow> t | Inl e \<Rightarrow> s) | Inl e \<Rightarrow> boot_ptable 2)"

lemma forked_reached:
  "\<exists>s. userinit True True (boot_ptable 2) = Inr s \<and> pr_step\<^sup>*\<^sup>* s forked \<and>
    pr_state (get_proc forked 1) = RUNNABLE \<and> initproc forked = Some 0 \<and> pr_state (get_proc forked 0) = RUNNING"
proof -
  have NP: "NPROC = Suc (Suc 62)" by (simp add: NPROC_def)
  define s where "s = (case userinit True True (boot_ptable 2) of Inr s \<Rightarrow> s | Inl e \<Rightarrow> boot_ptable 2)"
  have u: "userinit True True (boot_ptable 2) = Inr s"
    by (simp add: s_def userinit_def allocproc_def boot_ptable_def NP int_add_def Let_def)
  obtain p ps where b: "procs (boot_ptable 2) = p # p # ps" "pr_state p = UNUSED" by (auto simp: boot_ptable_def NP)
  have s: "procs s = p \<lparr> pr_state := RUNNABLE, pr_pid := 1, pr_kstack := True, pr_pgdir := True, pr_sz := PGSIZE, pr_name := ''initcode'' \<rparr> # p # ps"
    "cpus s = [None, None]" "nextpid s = 2" "initproc s = Some 0"
    using b by (auto simp: s_def userinit_def allocproc_def int_add_def Let_def upd_proc_def) (simp_all add: boot_ptable_def numeral_2_eq_2)
  obtain r where f: "fork True True 0 (run_proc 0 0 s) = Inr (r, forked)"
    by (auto simp: forked_def u fork_def allocproc_def run_proc_def upd_proc_def s b(2) int_add_def Let_def)
  have "pr_step s (run_proc 0 0 s)" by (rule pr_step.intros(1)) (simp_all add: s myproc_def)
  moreover have "pr_step (run_proc 0 0 s) forked"
    by (rule pr_step.intros(2) [OF _ _ f, of 0]) (simp_all add: run_proc_def s myproc_def)
  ultimately have "pr_step\<^sup>*\<^sup>* s forked" by simp
  moreover have "pr_state (get_proc forked 1) = RUNNABLE" "initproc forked = Some 0" "pr_state (get_proc forked 0) = RUNNING"
    using f by (auto simp: fork_def allocproc_def run_proc_def upd_proc_def s b(2) int_add_def Let_def) (erule subst [of _ forked], simp add: s)+
  ultimately show ?thesis using u by blast
qed

theorem proc_invariant_witness:
  "(\<exists>s. userinit True True (boot_ptable 2) = Inr s \<and> pr_step\<^sup>*\<^sup>* s forked) \<and>
    (\<exists>q < NPROC. pr_parent (get_proc forked 1) = Some q \<and> alive (pr_state (get_proc forked q)))"
proof -
  obtain s where s: "userinit True True (boot_ptable 2) = Inr s" "pr_step\<^sup>*\<^sup>* s forked" "pr_state (get_proc forked 1) = RUNNABLE"
    "initproc forked = Some 0" using forked_reached by blast
  have n: "1 < NPROC" by (simp add: NPROC_def)
  from proc_invariant [OF s(1,2), THEN conjunct2, THEN conjunct2, THEN conjunct1, rule_format, OF n] s show ?thesis by auto
qed

section \<open>Killing process number 0\<close>

lemma kill_loop_first:
  "(\<And>j. i \<le> j \<Longrightarrow> j < m \<Longrightarrow> pr_pid (get_proc s j) \<noteq> pid) \<Longrightarrow> i \<le> m \<Longrightarrow> m < i + k \<Longrightarrow> pr_pid (get_proc s m) = pid \<Longrightarrow>
    kill_loop pid i k s = (0, upd_proc s m (\<lambda>p. p \<lparr> pr_killed := True, pr_state := (if pr_state p = SLEEPING then RUNNABLE else pr_state p) \<rparr>))"
proof (induction k arbitrary: i)
  case (Suc k)
  show ?case
  proof (cases "i = m")
    case False
    have "kill_loop pid (i + 1) k s =
        (0, upd_proc s m (\<lambda>p. p \<lparr> pr_killed := True, pr_state := (if pr_state p = SLEEPING then RUNNABLE else pr_state p) \<rparr>))"
      by (rule Suc.IH) (use Suc.prems False in simp_all)
    moreover have "pr_pid (get_proc s i) \<noteq> pid" by (rule Suc.prems(1)) (use Suc.prems(2) False in simp_all)
    ultimately show ?thesis by simp
  qed (use Suc.prems in simp)
qed simp

lemma find_unused_first: "find_unused ps i = Some m \<Longrightarrow> j < m - i \<Longrightarrow> pr_state (ps ! j) \<noteq> UNUSED"
proof (induction ps i arbitrary: j rule: find_unused.induct)
  case (2 p ps i)
  then show ?case by (cases j) (auto split: if_splits)
qed simp

lemma find_unused_eq:
  "m < length ps \<Longrightarrow> pr_state (ps ! m) = UNUSED \<Longrightarrow> (\<And>j. j < m \<Longrightarrow> pr_state (ps ! j) \<noteq> UNUSED) \<Longrightarrow> find_unused ps i = Some (i + m)"
proof (induction ps arbitrary: m i)
  case (Cons p ps)
  show ?case
  proof (cases m)
    case (Suc m')
    then have "pr_state (ps ! j) \<noteq> UNUSED" if "j < m'" for j using Cons.prems(3) [of "Suc j"] that by simp
    then have "find_unused ps (i + 1) = Some (i + 1 + m')" using Cons.prems(1,2) Suc by (intro Cons.IH) simp_all
    moreover have "pr_state p \<noteq> UNUSED" using Cons.prems(3) [of 0] Suc by simp
    ultimately show ?thesis using Suc by simp
  qed (use Cons.prems in simp)
qed simp

text \<open>C34:
  the number of a slot that no process uses is 0, and \<open>kill\<close> does not look at the state of a slot: when process 0 is
  killed and the first free slot has number 0, the call succeeds and marks that slot, the mark is not removed when
  the slot is given to a new process, and so the next child that \<open>fork\<close> makes is born killed.
\<close>

theorem kill_zero_kills_next_child:
  assumes "proc_inv s" and "find_unused (procs s) 0 = Some i" and "pr_pid (get_proc s i) = 0"
    and "kill 0 s = (r, s1)" and "fork True True cur s1 = Inr (pid, t)"
  shows "r = 0 \<and> pid = nextpid s \<and> pr_pid (get_proc t i) = pid \<and> pr_state (get_proc t i) = RUNNABLE \<and> pr_killed (get_proc t i)"
proof -
  note inv = proc_invD [OF assms(1)]
  have i: "i < length (procs s)" "st_of s i = UNUSED" using find_unused_Some [OF assms(2)] by auto
  have used: "st_of s j \<noteq> UNUSED" if "j < i" for j using find_unused_first [OF assms(2)] that by simp
  have pos: "pr_pid (get_proc s j) \<noteq> 0" if "j < i" for j
    using pid_okD(2) [OF inv(1), of j] used [OF that] that i(1) inv(5) by simp
  have k: "r = 0" "s1 = upd_proc s i (\<lambda>p. p \<lparr> pr_killed := True, pr_state := (if pr_state p = SLEEPING then RUNNABLE else pr_state p) \<rparr>)"
    using kill_loop_first [of 0 i s 0 "length (procs s)"] pos i assms(3,4) by (simp_all add: kill_def)
  have g1: "get_proc s1 j = (if j = i then get_proc s i \<lparr> pr_killed := True \<rparr> else get_proc s j)" for j
    using i by (simp add: k(2) get_upd_proc)
  have s1: "length (procs s1) = length (procs s)" "nextpid s1 = nextpid s" by (simp_all add: k(2))
  have fu: "find_unused (procs s1) 0 = Some i" using find_unused_eq [of i "procs s1" 0] i used s1 by (simp add: g1)
  show ?thesis
    using assms(5) fu i(1) k(1) s1
    by (auto simp: fork_def allocproc_def bindR_eq_Inr Let_def get_upd_proc g1 upd_nextpid comp_def)
qed

theorem kill_zero_kills_next_child_witness:
  "\<exists>s t. userinit True True (boot_ptable 1) = Inr s \<and> fork True True 0 (snd (kill 0 s)) = Inr (2, t) \<and> pr_killed (get_proc t 1)"
proof -
  have NP: "NPROC = Suc (Suc 62)" by (simp add: NPROC_def)
  define s where "s = (case userinit True True (boot_ptable 1) of Inr s \<Rightarrow> s | Inl e \<Rightarrow> boot_ptable 1)"
  have u: "userinit True True (boot_ptable 1) = Inr s"
    by (simp add: s_def userinit_def allocproc_def boot_ptable_def NP int_add_def Let_def)
  obtain p ps where b: "procs (boot_ptable 1) = p # p # ps" "pr_state p = UNUSED" "pr_pid p = 0" by (auto simp: boot_ptable_def NP)
  have s: "procs s = p \<lparr> pr_state := RUNNABLE, pr_pid := 1, pr_kstack := True, pr_pgdir := True, pr_sz := PGSIZE, pr_name := ''initcode'' \<rparr> # p # ps"
    "nextpid s = 2"
    using b by (auto simp: s_def userinit_def allocproc_def int_add_def Let_def upd_proc_def) (simp_all add: boot_ptable_def)
  have k: "kill 0 s = (0, snd (kill 0 s))" by (simp add: kill_def s b(3))
  obtain t where f: "fork True True 0 (snd (kill 0 s)) = Inr (2, t)"
    by (simp add: kill_def fork_def allocproc_def upd_proc_def s b(2,3) int_add_def Let_def)
  have "pr_killed (get_proc t 1)"
    using kill_zero_kills_next_child [OF inv_userinit [OF u] _ _ k f, of 1] by (simp add: s b(2,3))
  with u f show ?thesis by blast
qed

end
