(* ===== verification/XvTrap.thy ===== *)
theory XvTrap
  imports XvProc
begin

text \<open>
  Traps and the system calls on processes of xv6: \<open>xv6/trap.c\<close> and \<open>xv6/sysproc.c\<close>, over the process
  table of theory \<open>XvProc\<close>. An operation that may give up the processor ends where it does so, and the
  code after the switch is a definition of its own.
\<close>

section \<open>State\<close>

record kern =
  pt :: ptable
  ticks :: u32

definition T_SYSCALL :: nat where "T_SYSCALL = 64"
definition T_IRQ0 :: nat where "T_IRQ0 = 32"
definition IRQ_TIMER :: nat where "IRQ_TIMER = 0"
definition IRQ_KBD :: nat where "IRQ_KBD = 1"
definition IRQ_COM1 :: nat where "IRQ_COM1 = 4"
definition IRQ_IDE :: nat where "IRQ_IDE = 14"
definition IRQ_SPURIOUS :: nat where "IRQ_SPURIOUS = 31"

record trapframe =
  tf_trapno :: nat
  tf_cs :: u32

definition DPL_USER :: u32 where "DPL_USER = 3"

text \<open>The address of \<open>ticks\<close>, on which \<open>sys_sleep\<close> sleeps.\<close>

definition tick_chan :: chan where "tick_chan = CObj 0"

section \<open>System calls on processes\<close>

text \<open>The first argument is what \<open>argint(0, &n)\<close> fetches; \<open>c\<close> is the processor.\<close>

definition sys_fork :: "bool \<Rightarrow> bool \<Rightarrow> nat \<Rightarrow> kern \<Rightarrow> (int \<times> kern) res" where
  "sys_fork stack_ok uvm_ok c s =
     (case myproc (pt s) c of
        None \<Rightarrow> Inl Null_Deref
      | Some cur \<Rightarrow> bindR (fork stack_ok uvm_ok cur (pt s)) (\<lambda>(r, p). Inr (r, s \<lparr> pt := p \<rparr>)))"

definition sys_exit :: "nat \<Rightarrow> kern \<Rightarrow> kern res" where
  "sys_exit c s = bindR (exit c (pt s)) (\<lambda>p. Inr (s \<lparr> pt := p \<rparr>))"

definition sys_wait :: "nat \<Rightarrow> kern \<Rightarrow> (int option \<times> kern) res" where
  "sys_wait c s = bindR (wait c (pt s)) (\<lambda>(r, p). Inr (r, s \<lparr> pt := p \<rparr>))"

definition sys_kill :: "int option \<Rightarrow> kern \<Rightarrow> int \<times> kern" where
  "sys_kill arg s =
     (case arg of
        None \<Rightarrow> (-1, s)
      | Some pid \<Rightarrow> let (r, p) = kill pid (pt s) in (r, s \<lparr> pt := p \<rparr>))"

definition sys_getpid :: "nat \<Rightarrow> kern \<Rightarrow> int res" where
  "sys_getpid c s = (case myproc (pt s) c of None \<Rightarrow> Inl Null_Deref | Some cur \<Rightarrow> Inr (pr_pid (get_proc (pt s) cur)))"

text \<open>The size of the process before the call, read as an \<open>int\<close>.\<close>

definition sys_sbrk :: "(nat \<Rightarrow> nat \<Rightarrow> nat) \<Rightarrow> (nat \<Rightarrow> nat \<Rightarrow> nat) \<Rightarrow> nat \<Rightarrow> int option \<Rightarrow> kern \<Rightarrow> (int \<times> kern) res" where
  "sys_sbrk allocuvm deallocuvm c arg s =
     (case arg of
        None \<Rightarrow> Inr (-1, s)
      | Some n \<Rightarrow>
          (case myproc (pt s) c of
             None \<Rightarrow> Inl Null_Deref
           | Some cur \<Rightarrow>
               let addr = sint (word_of_nat (pr_sz (get_proc (pt s) cur)) :: u32);
                   (r, p) = growproc allocuvm deallocuvm cur n (pt s)
               in if r < 0 then Inr (-1, s \<lparr> pt := p \<rparr>) else Inr (addr, s \<lparr> pt := p \<rparr>)))"

text \<open>
  One round of the loop of \<open>sys_sleep\<close>: a result, or nothing when the process has gone to sleep. The
  difference of two unsigned numbers is compared with an \<open>int\<close>, which is converted to unsigned.
\<close>

definition sys_sleep_round :: "nat \<Rightarrow> u32 \<Rightarrow> int \<Rightarrow> kern \<Rightarrow> (int option \<times> kern) res" where
  "sys_sleep_round c ticks0 n s =
     (if ticks s - ticks0 < word_of_int n then
        (case myproc (pt s) c of
           None \<Rightarrow> Inl Null_Deref
         | Some cur \<Rightarrow>
             if pr_killed (get_proc (pt s) cur) then Inr (Some (-1), s)
             else bindR (sleep c tick_chan (pt s)) (\<lambda>p. Inr (None, s \<lparr> pt := p \<rparr>)))
      else Inr (Some 0, s))"

definition sys_sleep :: "nat \<Rightarrow> int option \<Rightarrow> kern \<Rightarrow> (int option \<times> kern) res" where
  "sys_sleep c arg s =
     (case arg of
        None \<Rightarrow> Inr (Some (-1), s)
      | Some n \<Rightarrow> sys_sleep_round c (ticks s) n s)"

definition sys_uptime :: "kern \<Rightarrow> int" where
  "sys_uptime s = sint (ticks s)"

section \<open>Traps\<close>

definition cur_killed :: "nat \<Rightarrow> kern \<Rightarrow> bool" where
  "cur_killed c s = (case myproc (pt s) c of None \<Rightarrow> False | Some p \<Rightarrow> pr_killed (get_proc (pt s) p))"

definition set_killed :: "nat \<Rightarrow> kern \<Rightarrow> kern" where
  "set_killed c s =
     (case myproc (pt s) c of
        None \<Rightarrow> s
      | Some p \<Rightarrow> s \<lparr> pt := upd_proc (pt s) p (\<lambda>x. x \<lparr> pr_killed := True \<rparr>) \<rparr>)"

text \<open>
  The result of a trap: \<open>True\<close> when it returns to the code that it interrupted, \<open>False\<close> when the
  process has given up the processor. The system calls and the interrupts of the devices are arguments.
\<close>

definition trap_syscall :: "(nat \<Rightarrow> kern \<Rightarrow> (bool \<times> kern) res) \<Rightarrow> nat \<Rightarrow> kern \<Rightarrow> (bool \<times> kern) res" where
  "trap_syscall syscall c s =
     (if myproc (pt s) c = None then Inl Null_Deref
      else if cur_killed c s then bindR (sys_exit c s) (\<lambda>s. Inr (False, s))
      else
        bindR (syscall c s) (\<lambda>(back, s).
        if \<not> back then Inr (False, s)
        else if cur_killed c s then bindR (sys_exit c s) (\<lambda>s. Inr (False, s))
        else Inr (True, s)))"

definition trap_irq :: "(nat \<Rightarrow> kern \<Rightarrow> kern) \<Rightarrow> nat \<Rightarrow> trapframe \<Rightarrow> kern \<Rightarrow> kern res" where
  "trap_irq device c tf s =
     (let n = tf_trapno tf in
      if n = T_IRQ0 + IRQ_TIMER then
        Inr (if c = 0 then s \<lparr> ticks := ticks s + 1, pt := wakeup (Some tick_chan) (pt s) \<rparr> else s)
      else if n = T_IRQ0 + IRQ_IDE then Inr (device n s)
      else if n = T_IRQ0 + IRQ_IDE + 1 then Inr s
      else if n = T_IRQ0 + IRQ_KBD then Inr (device n s)
      else if n = T_IRQ0 + IRQ_COM1 then Inr (device n s)
      else if n = T_IRQ0 + 7 \<or> n = T_IRQ0 + IRQ_SPURIOUS then Inr s
      else if myproc (pt s) c = None \<or> tf_cs tf AND 3 = 0 then Inl (Panic ''trap'')
      else Inr (set_killed c s))"

text \<open>The last lines of \<open>trap\<close>, run at once or when the process is switched to again after \<open>yield\<close>.\<close>

definition trap_end :: "nat \<Rightarrow> trapframe \<Rightarrow> kern \<Rightarrow> (bool \<times> kern) res" where
  "trap_end c tf s =
     (if cur_killed c s \<and> tf_cs tf AND 3 = DPL_USER then bindR (sys_exit c s) (\<lambda>s. Inr (False, s))
      else Inr (True, s))"

definition trap :: "(nat \<Rightarrow> kern \<Rightarrow> (bool \<times> kern) res) \<Rightarrow> (nat \<Rightarrow> kern \<Rightarrow> kern) \<Rightarrow> nat \<Rightarrow> trapframe \<Rightarrow> kern \<Rightarrow> (bool \<times> kern) res" where
  "trap syscall device c tf s =
     (if tf_trapno tf = T_SYSCALL then trap_syscall syscall c s
      else
        bindR (trap_irq device c tf s) (\<lambda>s.
        if cur_killed c s \<and> tf_cs tf AND 3 = DPL_USER then bindR (sys_exit c s) (\<lambda>s. Inr (False, s))
        else
          (case myproc (pt s) c of
             Some p \<Rightarrow>
               if pr_state (get_proc (pt s) p) = RUNNING \<and> tf_trapno tf = T_IRQ0 + IRQ_TIMER
               then bindR (yield c (pt s)) (\<lambda>p. Inr (False, s \<lparr> pt := p \<rparr>))
               else trap_end c tf s
           | None \<Rightarrow> trap_end c tf s)))"

section \<open>Properties\<close>

text \<open>
  A process that has been killed does not get back to user mode: when a system call, or any other trap from user mode,
  returns, then the process on the processor is not marked as killed, whatever the system call and the devices did.
\<close>

theorem killed_never_returns:
  assumes "trap syscall device c tf s = Inr (True, t)" and "tf_trapno tf = T_SYSCALL \<or> tf_cs tf AND 3 = DPL_USER"
  shows "\<not> cur_killed c t"
  using assms
  by (auto simp: trap_def trap_syscall_def trap_end_def bindR_eq_Inr split: if_splits option.splits)

definition user_trap :: "nat \<Rightarrow> trapframe" where
  "user_trap n = \<lparr> tf_trapno = n, tf_cs = 0x1b \<rparr>"

definition idle_kern :: kern where
  "idle_kern = \<lparr> pt = boot_ptable 1, ticks = 5 \<rparr>"

theorem killed_never_returns_witness:
  "trap (\<lambda>c s. Inr (True, s)) (\<lambda>n s. s) 0 (user_trap 33) idle_kern = Inr (True, idle_kern) \<and> \<not> cur_killed 0 idle_kern"
proof -
  have "myproc (pt idle_kern) 0 = None" by (simp add: idle_kern_def boot_ptable_def myproc_def)
  then have t: "trap (\<lambda>c s. Inr (True, s)) (\<lambda>n s. s) 0 (user_trap 33) idle_kern = Inr (True, idle_kern)"
    by (simp add: trap_def trap_irq_def trap_end_def user_trap_def cur_killed_def T_SYSCALL_def T_IRQ0_def IRQ_TIMER_def IRQ_IDE_def IRQ_KBD_def)
  have "\<not> cur_killed 0 idle_kern"
    by (rule killed_never_returns [OF t]) (simp add: user_trap_def DPL_USER_def)
  with t show ?thesis by simp
qed

text \<open>The processes stay consistent, if they do under system calls and device interrupts.\<close>

lemma inv_sys_exit: "proc_inv (pt s) \<Longrightarrow> c < length (cpus (pt s)) \<Longrightarrow> sys_exit c s = Inr t \<Longrightarrow> proc_inv (pt t)"
  by (auto simp: sys_exit_def bindR_eq_Inr intro: pinv_exit)

lemma cpus_wakeup [simp]: "cpus (wakeup ch s) = cpus s"
  by (simp add: wakeup_def)

lemma inv_set_killed: "proc_inv (pt s) \<Longrightarrow> c < length (cpus (pt s)) \<Longrightarrow> proc_inv (pt (set_killed c s))"
proof (cases "myproc (pt s) c")
  case (Some p)
  assume a: "proc_inv (pt s)" "c < length (cpus (pt s))"
  have "proc_inv (upd_proc (pt s) p (\<lambda>x. x \<lparr> pr_killed := True \<rparr>))"
    by (rule inv_stay [OF a(1)]) (use running [OF a Some] proc_invD(5) [OF a(1)] in \<open>auto simp: in_wait_def\<close>)
  with Some show ?thesis by (simp add: set_killed_def)
qed (simp add: set_killed_def)

lemma cpus_set_killed [simp]: "cpus (pt (set_killed c s)) = cpus (pt s)"
  by (simp add: set_killed_def split: option.splits)

lemma inv_trap_irq:
  assumes "proc_inv (pt s)" and "c < length (cpus (pt s))"
    and "\<And>n s. proc_inv (pt s) \<Longrightarrow> proc_inv (pt (device n s))" and "\<And>n s. length (cpus (pt (device n s))) = length (cpus (pt s))"
    and "trap_irq device c tf s = Inr t"
  shows "proc_inv (pt t) \<and> length (cpus (pt t)) = length (cpus (pt s))"
  using assms inv_set_killed [OF assms(1,2)] inv_wakeup1 [of "pt s" "Some tick_chan"]
  by (auto simp: trap_irq_def Let_def wakeup_def split: if_splits)

lemma inv_trap_end:
  "proc_inv (pt s) \<Longrightarrow> c < length (cpus (pt s)) \<Longrightarrow> trap_end c tf s = Inr (b, t) \<Longrightarrow> proc_inv (pt t)"
  by (auto simp: trap_end_def bindR_eq_Inr split: if_splits intro: inv_sys_exit)

lemma inv_trap:
  assumes "proc_inv (pt s)" and "c < length (cpus (pt s))" and "trap syscall device c tf s = Inr (b, t)"
    and sys: "\<And>s b t. proc_inv (pt s) \<Longrightarrow> syscall c s = Inr (b, t) \<Longrightarrow> proc_inv (pt t) \<and> length (cpus (pt t)) = length (cpus (pt s))"
    and dev: "\<And>n s. proc_inv (pt s) \<Longrightarrow> proc_inv (pt (device n s))" "\<And>n s. length (cpus (pt (device n s))) = length (cpus (pt s))"
  shows "proc_inv (pt t)"
proof (cases "tf_trapno tf = T_SYSCALL")
  case True
  then have t: "trap_syscall syscall c s = Inr (b, t)" using assms(3) by (simp add: trap_def)
  show ?thesis
  proof (cases "cur_killed c s")
    case True
    then have "sys_exit c s = Inr t" using t by (auto simp: trap_syscall_def bindR_eq_Inr split: if_splits)
    then show ?thesis by (rule inv_sys_exit [OF assms(1,2)])
  next
    case False
    then obtain r u where u: "syscall c s = Inr (r, u)" using t by (auto simp: trap_syscall_def bindR_eq_Inr split: if_splits)
    have i: "proc_inv (pt u)" "length (cpus (pt u)) = length (cpus (pt s))" using sys [OF assms(1) u] by blast+
    have "t = u \<or> sys_exit c u = Inr t" using t u False by (auto simp: trap_syscall_def bindR_eq_Inr split: if_splits)
    then show ?thesis using inv_sys_exit [OF i(1), of c t] i assms(2) by auto
  qed
next
  case False
  with assms(3) obtain u where u: "trap_irq device c tf s = Inr u" by (auto simp: trap_def bindR_eq_Inr)
  note i = inv_trap_irq [OF assms(1,2) dev u]
  then have c: "proc_inv (pt u)" "c < length (cpus (pt u))" using assms(2) by simp_all
  have "sys_exit c u = Inr t \<or> (\<exists>p. yield c (pt u) = Inr p \<and> pt t = p) \<or> trap_end c tf u = Inr (b, t)"
    using assms(3) False u by (auto simp: trap_def bindR_eq_Inr split: if_splits option.splits)
  then show ?thesis using inv_sys_exit [OF c] inv_yield [OF c] inv_trap_end [OF c] by blast
qed

text \<open>
  Calling \<open>sleep\<close> with a negative number of ticks does not return at once: the number is converted to unsigned, and the call goes
  back to sleep until 2 to the 32 plus that number of ticks have passed.
\<close>

theorem sys_sleep_negative:
  assumes "- (2 ^ 31) \<le> n" and "n < 0" and "int k < 2 ^ 32 + n" and "ticks s = ticks0 + of_nat k"
    and "myproc (pt s) c = Some cur" and "pr_state (get_proc (pt s) cur) = RUNNING" and "cur < length (procs (pt s))"
    and "\<not> pr_killed (get_proc (pt s) cur)"
  shows "\<exists>t. sys_sleep_round c ticks0 n s = Inr (None, t) \<and> pr_state (get_proc (pt t) cur) = SLEEPING \<and>
    pr_chan (get_proc (pt t) cur) = Some tick_chan"
proof -
  have "int k < 2 ^ 32" using assms(2,3) by linarith
  then have k: "k < 2 ^ 32" by simp
  have "(2 ^ 32 + n) mod 2 ^ 32 = 2 ^ 32 + n" by (rule mod_pos_pos_trivial) (use assms(1,2) in simp_all)
  then have "n mod 2 ^ 32 = 2 ^ 32 + n" by (simp only: mod_add_self1)
  then have "uint (word_of_int n :: u32) = 2 ^ 32 + n" by (simp add: uint_word_of_int)
  moreover have "uint (ticks s - ticks0) = int k" using k by (simp add: assms(4) uint_nat unat_of_nat)
  ultimately have "ticks s - ticks0 < word_of_int n" using assms(3) by (simp add: word_less_def)
  then show ?thesis
    using assms(5-8) by (simp add: sys_sleep_round_def sleep_def sched_def myproc_def get_upd_proc)
qed

definition sleeper_proc :: proc where
  "sleeper_proc = \<lparr> pr_state = RUNNING, pr_pid = 1, pr_parent = None, pr_chan = None, pr_killed = False,
     pr_kstack = True, pr_pgdir = True, pr_sz = 4096, pr_name = ''sleep'' \<rparr>"

definition sleeper_kern :: kern where
  "sleeper_kern = \<lparr> pt = \<lparr> procs = [sleeper_proc], nextpid = 2, initproc = Some 0, cpus = [Some 0] \<rparr>, ticks = 7 \<rparr>"

theorem sys_sleep_negative_witness:
  "\<exists>t. sys_sleep_round 0 5 (-1) sleeper_kern = Inr (None, t) \<and> pr_state (get_proc (pt t) 0) = SLEEPING"
proof -
  have "\<exists>t. sys_sleep_round 0 5 (-1) sleeper_kern = Inr (None, t) \<and> pr_state (get_proc (pt t) 0) = SLEEPING \<and>
      pr_chan (get_proc (pt t) 0) = Some tick_chan"
    by (rule sys_sleep_negative [of "-1" 2]) (simp_all add: sleeper_kern_def sleeper_proc_def myproc_def)
  then show ?thesis by blast
qed

end
