(* ===== verification/XvKalloc.thy ===== *)
theory XvKalloc
  imports XvProc XvLog
begin

text \<open>
  The allocator of physical pages of xv6, \<open>xv6/kalloc.c\<close>. Memory is the map from kernel addresses to
  bytes of theory \<open>XvLib\<close>; a free page holds the address of the next one in its first word, and the
  proofs relate that chain to a list of pages.
\<close>

section \<open>Memory layout\<close>

definition EXTMEM :: nat where "EXTMEM = 0x100000"
definition PHYSTOP :: nat where "PHYSTOP = 0xE000000"
definition DEVSPACE :: nat where "DEVSPACE = 0xFE000000"
definition KERNBASE :: nat where "KERNBASE = 0x80000000"
definition KERNLINK :: nat where "KERNLINK = KERNBASE + EXTMEM"

lemmas kernel_layout = EXTMEM_def PHYSTOP_def DEVSPACE_def KERNBASE_def KERNLINK_def PGSIZE_def

definition V2P :: "nat \<Rightarrow> nat" where
  "V2P a = (a + 2 ^ 32 - KERNBASE) mod 2 ^ 32"

definition P2V :: "nat \<Rightarrow> nat" where
  "P2V a = (a + KERNBASE) mod 2 ^ 32"

definition PGROUNDUP :: "nat \<Rightarrow> nat" where
  "PGROUNDUP sz = (sz + PGSIZE - 1) mod 2 ^ 32 div PGSIZE * PGSIZE"

definition PGROUNDDOWN :: "nat \<Rightarrow> nat" where
  "PGROUNDDOWN a = a div PGSIZE * PGSIZE"

section \<open>The allocator\<close>

text \<open>\<open>kend\<close> and \<open>kdata\<close> are the symbols \<open>end\<close> and \<open>data\<close> that the linker defines.\<close>

record kmem =
  freelist :: nat
  kbytes :: mem
  kend :: nat
  kdata :: nat

definition kfree :: "nat \<Rightarrow> kmem \<Rightarrow> kmem res" where
  "kfree v s =
     (if v mod PGSIZE \<noteq> 0 \<or> v < kend s \<or> V2P v \<ge> PHYSTOP then Inl (Panic ''kfree'')
      else Inr (s \<lparr> kbytes := put32 (memset (kbytes s) v 1 PGSIZE) v (of_nat (freelist s)), freelist := v \<rparr>))"

definition kalloc :: "kmem \<Rightarrow> nat \<times> kmem" where
  "kalloc s =
     (let r = freelist s in
      if r \<noteq> 0 then (r, s \<lparr> freelist := unat (get32 (kbytes s) r) \<rparr>) else (0, s))"

function (sequential) freerange_loop :: "nat \<Rightarrow> nat \<Rightarrow> kmem \<Rightarrow> kmem res" where
  "freerange_loop p vend s =
     (if p + PGSIZE \<le> vend then bindR (kfree p s) (freerange_loop (p + PGSIZE) vend) else Inr s)"
  by pat_completeness auto
termination by (relation "measure (\<lambda>(p, vend, s). vend - p)") (auto simp: PGSIZE_def)

declare freerange_loop.simps [simp del]

definition freerange :: "nat \<Rightarrow> nat \<Rightarrow> kmem \<Rightarrow> kmem res" where
  "freerange vstart vend s = freerange_loop (PGROUNDUP vstart) vend s"

definition kinit1 :: "nat \<Rightarrow> nat \<Rightarrow> kmem \<Rightarrow> kmem res" where
  "kinit1 vstart vend s = freerange vstart vend s"

definition kinit2 :: "nat \<Rightarrow> nat \<Rightarrow> kmem \<Rightarrow> kmem res" where
  "kinit2 vstart vend s = freerange vstart vend s"

section \<open>Pages\<close>

definition page_ok :: "kmem \<Rightarrow> nat \<Rightarrow> bool" where
  "page_ok s p \<longleftrightarrow> p mod PGSIZE = 0 \<and> kend s \<le> p \<and> KERNBASE < p \<and> p < KERNBASE + PHYSTOP"

lemma page_ok_update [simp]: "page_ok (s \<lparr> freelist := n \<rparr>) p = page_ok s p" "page_ok (s \<lparr> kbytes := m \<rparr>) p = page_ok s p"
  by (simp_all add: page_ok_def)

text \<open>The bytes of a page.\<close>

definition same_page :: "nat \<Rightarrow> mem \<Rightarrow> mem \<Rightarrow> bool" where
  "same_page p m m' \<longleftrightarrow> (\<forall>a. p \<le> a \<longrightarrow> a < p + PGSIZE \<longrightarrow> m' a = m a)"

lemma same_page_refl [simp]: "same_page p m m"
  by (simp add: same_page_def)

lemma same_page_trans: "same_page p m m' \<Longrightarrow> same_page p m' m'' \<Longrightarrow> same_page p m m''"
  by (simp add: same_page_def)

lemma same_page_get32: "same_page p m m' \<Longrightarrow> p \<le> a \<Longrightarrow> a + 4 \<le> p + PGSIZE \<Longrightarrow> get32 m' a = get32 m a"
  by (simp add: same_page_def get32_def)

lemma pages_apart: "p mod PGSIZE = 0 \<Longrightarrow> q mod PGSIZE = 0 \<Longrightarrow> p \<noteq> q \<Longrightarrow> p + PGSIZE \<le> q \<or> q + PGSIZE \<le> p"
  for p q :: nat
proof -
  assume a: "p mod PGSIZE = 0" "q mod PGSIZE = 0" "p \<noteq> q"
  then obtain i j where ij: "p = PGSIZE * i" "q = PGSIZE * j" by (auto simp: mod_eq_0_iff_dvd elim!: dvdE)
  with a(3) have "i < j \<or> j < i" by auto
  then have "i + 1 \<le> j \<or> j + 1 \<le> i" by auto
  then show ?thesis by (metis ij add_mult_distrib2 mult_1_right mult_le_mono2)
qed

lemma same_page_put32:
  "p mod PGSIZE = 0 \<Longrightarrow> q mod PGSIZE = 0 \<Longrightarrow> p \<noteq> q \<Longrightarrow> q \<le> a \<Longrightarrow> a + 4 \<le> q + PGSIZE \<Longrightarrow> same_page p m (put32 m a w)"
  using pages_apart [of p q] by (auto simp: same_page_def put32_def)

lemma same_page_memset:
  "p mod PGSIZE = 0 \<Longrightarrow> q mod PGSIZE = 0 \<Longrightarrow> p \<noteq> q \<Longrightarrow> same_page p m (memset m q c PGSIZE)"
  using pages_apart [of p q] by (auto simp: same_page_def memset_fills)

lemma page_okD:
  assumes "page_ok s p"
  shows "p mod PGSIZE = 0" "kend s \<le> p" "KERNBASE < p" "p < KERNBASE + PHYSTOP" "p \<noteq> 0" "p < 2 ^ 32"
proof -
  show "p mod PGSIZE = 0" "kend s \<le> p" "KERNBASE < p" "p < KERNBASE + PHYSTOP" using assms by (simp_all add: page_ok_def)
  then show "p \<noteq> 0" "p < 2 ^ 32" by (simp_all only: kernel_layout) simp_all
qed

lemma V2P_page: "page_ok s p \<Longrightarrow> V2P p = p - KERNBASE"
proof -
  assume "page_ok s p"
  then have p: "KERNBASE < p" "p < KERNBASE + PHYSTOP" by (rule page_okD)+
  then have "p + 2 ^ 32 - KERNBASE = (p - KERNBASE) + 2 ^ 32" by simp
  moreover have "p - KERNBASE < 2 ^ 32" using p unfolding kernel_layout by simp
  ultimately show ?thesis by (simp only: V2P_def mod_add_self2 mod_less)
qed

lemma P2V_V2P: "page_ok s p \<Longrightarrow> P2V (V2P p) = p"
  using page_okD(3,6) [of s p] by (simp add: V2P_page P2V_def)

section \<open>The chain of free pages\<close>

fun free_chain :: "mem \<Rightarrow> nat \<Rightarrow> nat list \<Rightarrow> bool" where
  "free_chain m r [] \<longleftrightarrow> r = 0"
| "free_chain m r (p # ps) \<longleftrightarrow> r = p \<and> free_chain m (unat (get32 m p)) ps"

lemma free_chain_same:
  "free_chain m r ps \<Longrightarrow> (\<And>p. p \<in> set ps \<Longrightarrow> same_page p m m') \<Longrightarrow> free_chain m' r ps"
proof (induction ps arbitrary: r)
  case (Cons p ps)
  have "get32 m' p = get32 m p" by (rule same_page_get32 [of p]) (simp_all add: Cons.prems PGSIZE_def)
  with Cons show ?case by simp
qed simp

definition free_ok :: "kmem \<Rightarrow> nat list \<Rightarrow> bool" where
  "free_ok s F \<longleftrightarrow> free_chain (kbytes s) (freelist s) F \<and> distinct F \<and> (\<forall>p \<in> set F. page_ok s p)"

lemma kalloc_Nil: "free_ok s [] \<Longrightarrow> kalloc s = (0, s)"
  by (simp add: free_ok_def kalloc_def)

lemma kalloc_Cons: "free_ok s (p # F) \<Longrightarrow> \<exists>n. kalloc s = (p, s \<lparr> freelist := n \<rparr>) \<and> free_ok (s \<lparr> freelist := n \<rparr>) F"
proof -
  assume s: "free_ok s (p # F)"
  then have "p \<noteq> 0" "freelist s = p" using page_okD(5) [of s p] by (simp_all add: free_ok_def)
  then show ?thesis using s by (intro exI [of _ "unat (get32 (kbytes s) p)"]) (simp add: kalloc_def free_ok_def)
qed

lemma kfree_page:
  assumes "free_ok s F" and "page_ok s p" and "p \<notin> set F"
  shows "\<exists>m. kfree p s = Inr (s \<lparr> kbytes := m, freelist := p \<rparr>) \<and> free_ok (s \<lparr> kbytes := m, freelist := p \<rparr>) (p # F) \<and>
    (\<forall>q. q mod PGSIZE = 0 \<longrightarrow> q \<noteq> p \<longrightarrow> same_page q (kbytes s) m)"
proof -
  define m where "m = put32 (memset (kbytes s) p 1 PGSIZE) p (of_nat (freelist s))"
  have same: "same_page q (kbytes s) m" if "q mod PGSIZE = 0" "q \<noteq> p" for q
    using page_okD(1) [OF assms(2)] that same_page_trans [OF same_page_memset same_page_put32, of q p p]
    by (simp add: m_def PGSIZE_def)
  have pf: "page_ok s q" if "q \<in> set F" for q using assms(1) that by (simp add: free_ok_def)
  have fl: "freelist s < 2 ^ 32"
    using assms(1) pf page_okD(6) by (cases F) (auto simp: free_ok_def)
  have "kfree p s = Inr (s \<lparr> kbytes := m, freelist := p \<rparr>)"
    using assms(2) V2P_page [OF assms(2)] by (auto simp: kfree_def m_def page_ok_def)
  moreover have "free_chain m (freelist s) F"
  proof (rule free_chain_same)
    show "free_chain (kbytes s) (freelist s) F" using assms(1) by (simp add: free_ok_def)
    show "same_page q (kbytes s) m" if "q \<in> set F" for q
      by (rule same) (use page_okD(1) [OF pf [OF that]] that assms(3) in auto)
  qed
  then have "free_ok (s \<lparr> kbytes := m, freelist := p \<rparr>) (p # F)"
    using assms fl by (simp add: free_ok_def unat_of_nat m_def)
  ultimately show ?thesis using same by blast
qed

section \<open>No page is lost or given twice\<close>

text \<open>The pages in use are a ghost: a page that is freed is one in use, and \<open>kalloc\<close> puts its result in use.\<close>

inductive kmem_step :: "kmem \<times> nat list \<Rightarrow> kmem \<times> nat list \<Rightarrow> bool" where
  "kalloc s = (p, t) \<Longrightarrow> p \<noteq> 0 \<Longrightarrow> kmem_step (s, H) (t, p # H)"
| "kalloc s = (0, t) \<Longrightarrow> kmem_step (s, H) (t, H)"
| "p \<in> set H \<Longrightarrow> kfree p s = Inr t \<Longrightarrow> kmem_step (s, H) (t, remove1 p H)"

text \<open>The whole pages of a range of addresses, in the order in which they are freed.\<close>

function (sequential) whole_pages :: "nat \<Rightarrow> nat \<Rightarrow> nat list" where
  "whole_pages p vend = (if p + PGSIZE \<le> vend then p # whole_pages (p + PGSIZE) vend else [])"
  by pat_completeness auto
termination by (relation "measure (\<lambda>(p, vend). vend - p)") (auto simp: PGSIZE_def)

declare whole_pages.simps [simp del]

lemma whole_pages_ge: "q \<in> set (whole_pages p vend) \<Longrightarrow> p \<le> q \<and> q + PGSIZE \<le> vend"
proof (induction p vend rule: whole_pages.induct)
  case (1 p vend)
  then show ?case by (cases "p + PGSIZE \<le> vend") (auto simp: whole_pages.simps [of p vend])
qed

lemma distinct_whole_pages: "distinct (whole_pages p vend)"
proof (induction p vend rule: whole_pages.induct)
  case (1 p vend)
  then show ?case
    using whole_pages_ge [of p "p + PGSIZE" vend] by (auto simp: whole_pages.simps [of p vend] PGSIZE_def)
qed

lemma freerange_loop_ok:
  assumes "free_ok s F" and "p mod PGSIZE = 0" and "kend s \<le> p" and "KERNBASE < p" and "vend \<le> KERNBASE + PHYSTOP"
    and "\<And>q. q \<in> set F \<Longrightarrow> q < p"
  shows "\<exists>t. freerange_loop p vend s = Inr t \<and> free_ok t (rev (whole_pages p vend) @ F) \<and> kend t = kend s \<and> kdata t = kdata s"
  using assms
proof (induction p vend s arbitrary: F rule: freerange_loop.induct)
  case (1 p vend s)
  show ?case
  proof (cases "p + PGSIZE \<le> vend")
    case True
    have p: "page_ok s p" using "1.prems" True by (simp add: page_ok_def PGSIZE_def)
    obtain m where m: "kfree p s = Inr (s \<lparr> kbytes := m, freelist := p \<rparr>)" "free_ok (s \<lparr> kbytes := m, freelist := p \<rparr>) (p # F)"
      using kfree_page [OF "1.prems"(1) p] "1.prems"(6) [of p] by auto
    have lt: "q < p + PGSIZE" if "q \<in> set (p # F)" for q using "1.prems"(6) that by (auto simp: PGSIZE_def intro: trans_less_add1)
    obtain t where t: "freerange_loop (p + PGSIZE) vend (s \<lparr> kbytes := m, freelist := p \<rparr>) = Inr t"
      "free_ok t (rev (whole_pages (p + PGSIZE) vend) @ p # F)" "kend t = kend s" "kdata t = kdata s"
      using "1.IH" [OF True m(1,2) _ _ _ "1.prems"(5) lt] "1.prems"(2-4) by auto
    then show ?thesis using True m by (simp add: freerange_loop.simps [of p] whole_pages.simps [of p])
  next
    case False
    then show ?thesis using "1.prems"(1) by (simp add: freerange_loop.simps [of p] whole_pages.simps [of p])
  qed
qed

lemma kmem_step_conserves:
  assumes "kmem_step x y" and "free_ok (fst x) F" and "distinct (snd x @ F)" and "\<forall>p \<in> set (snd x). page_ok (fst x) p"
  shows "\<exists>G. free_ok (fst y) G \<and> distinct (snd y @ G) \<and> (\<forall>p \<in> set (snd y). page_ok (fst y) p) \<and> mset (snd y @ G) = mset (snd x @ F)"
  using assms
proof (cases rule: kmem_step.cases)
  case (1 s p t H)
  then obtain F' where F: "F = p # F'" using assms(2) kalloc_Nil by (cases F) (auto dest: kalloc_Cons)
  obtain n where n: "kalloc s = (p, s \<lparr> freelist := n \<rparr>)" "free_ok (s \<lparr> freelist := n \<rparr>) F'"
    using kalloc_Cons [of s p F'] assms(2) 1 F by auto
  show ?thesis
    by (rule exI [of _ F']) (use 1 n F assms in \<open>auto simp: page_ok_def free_ok_def\<close>)
next
  case (2 s t H)
  then have "F = []" using assms(2) by (cases F) (auto simp: kalloc_def free_ok_def Let_def dest: page_okD(5))
  then show ?thesis using 2 assms kalloc_Nil by auto
next
  case (3 p H s t)
  then obtain m where m: "kfree p s = Inr (s \<lparr> kbytes := m, freelist := p \<rparr>)" "free_ok (s \<lparr> kbytes := m, freelist := p \<rparr>) (p # F)"
    using kfree_page [of s F p] assms by auto
  show ?thesis
    by (rule exI [of _ "p # F"]) (use 3 m assms in \<open>auto simp: page_ok_def set_remove1_eq\<close>)
qed

lemma kmem_steps_conserve:
  assumes "kmem_step\<^sup>*\<^sup>* x y" and "free_ok (fst x) F" and "distinct (snd x @ F)" and "\<forall>p \<in> set (snd x). page_ok (fst x) p"
  shows "\<exists>G. free_ok (fst y) G \<and> distinct (snd y @ G) \<and> (\<forall>p \<in> set (snd y). page_ok (fst y) p) \<and> mset (snd y @ G) = mset (snd x @ F)"
  using assms(1)
proof (induction rule: rtranclp_induct)
  case base
  show ?case using assms(2-4) by blast
next
  case (step y z)
  then obtain G where "free_ok (fst y) G" "distinct (snd y @ G)" "\<forall>p \<in> set (snd y). page_ok (fst y) p" "mset (snd y @ G) = mset (snd x @ F)"
    by blast
  from kmem_step_conserves [OF step.hyps(2) this(1-3)] this(4) show ?case by auto
qed

text \<open>C20:
  the page allocator gives out the whole pages of the memory it was given, and only these: after \<open>freerange\<close> and any
  sequence of \<open>kalloc\<close> and of \<open>kfree\<close> of pages in use, the pages in use and the chain of free pages
  in memory are distinct and together are exactly the pages of the range.
\<close>

theorem kalloc_conserves:
  assumes "freelist s = 0" and "kend s \<le> PGROUNDUP vstart" and "KERNBASE < PGROUNDUP vstart" and "vend \<le> KERNBASE + PHYSTOP"
  shows "\<exists>t. freerange vstart vend s = Inr t \<and>
    (\<forall>u H. kmem_step\<^sup>*\<^sup>* (t, []) (u, H) \<longrightarrow>
      (\<exists>F. free_chain (kbytes u) (freelist u) F \<and> distinct (H @ F) \<and> set (H @ F) = set (whole_pages (PGROUNDUP vstart) vend)))"
proof -
  have "free_ok s []" using assms(1) by (simp add: free_ok_def)
  moreover have "PGROUNDUP vstart mod PGSIZE = 0" by (simp add: PGROUNDUP_def)
  ultimately obtain t where t: "freerange vstart vend s = Inr t" "free_ok t (rev (whole_pages (PGROUNDUP vstart) vend) @ [])"
    using freerange_loop_ok [of s "[]" "PGROUNDUP vstart" vend] assms by (auto simp: freerange_def)
  have "\<exists>F. free_chain (kbytes u) (freelist u) F \<and> distinct (H @ F) \<and> set (H @ F) = set (whole_pages (PGROUNDUP vstart) vend)"
    if st: "kmem_step\<^sup>*\<^sup>* (t, []) (u, H)" for u H
  proof -
    obtain G where "free_ok u G" "distinct (H @ G)" "mset (H @ G) = mset (rev (whole_pages (PGROUNDUP vstart) vend))"
      using kmem_steps_conserve [OF st, where F = "rev (whole_pages (PGROUNDUP vstart) vend)"] t(2) distinct_whole_pages by auto
    moreover from this(3) have "set (H @ G) = set (rev (whole_pages (PGROUNDUP vstart) vend))" by (rule mset_eq_setD)
    ultimately show ?thesis unfolding free_ok_def by auto
  qed
  with t(1) show ?thesis by blast
qed

definition empty_kmem :: kmem where
  "empty_kmem = \<lparr> freelist = 0, kbytes = (\<lambda>_. 0), kend = 0x80105000, kdata = 0x80104000 \<rparr>"

theorem kalloc_conserves_witness:
  "\<exists>t. freerange 0x80105001 0x80108000 empty_kmem = Inr t \<and>
    (\<forall>u H. kmem_step\<^sup>*\<^sup>* (t, []) (u, H) \<longrightarrow>
      (\<exists>F. free_chain (kbytes u) (freelist u) F \<and> distinct (H @ F) \<and> set (H @ F) = {0x80106000, 0x80107000}))"
proof -
  have r: "PGROUNDUP 0x80105001 = 0x80106000" by (simp add: PGROUNDUP_def PGSIZE_def)
  have w: "set (whole_pages (PGROUNDUP 0x80105001) 0x80108000) = {0x80106000, 0x80107000}"
    unfolding r by (simp add: whole_pages.simps PGSIZE_def)
  show ?thesis
    unfolding w [symmetric]
    by (rule kalloc_conserves) (simp_all add: empty_kmem_def kernel_layout r)
qed

end
