(* ===== verification/XvVm.thy ===== *)
theory XvVm
  imports XvKalloc
begin

text \<open>
  Virtual memory of xv6, \<open>xv6/vm.c\<close>: two-level page tables that lie, word by word, in the pages of the
  allocator. The proofs relate a page directory in memory to the map from virtual to physical pages
  that the hardware reads from it, and to the pages that it owns.
\<close>

section \<open>Entries and addresses\<close>

definition PTE_P :: u32 where "PTE_P = 1"
definition PTE_W :: u32 where "PTE_W = 2"
definition PTE_U :: u32 where "PTE_U = 4"

definition PTE_ADDR :: "u32 \<Rightarrow> nat" where
  "PTE_ADDR pte = unat (pte AND NOT 0xFFF)"

definition PTE_FLAGS :: "u32 \<Rightarrow> u32" where
  "PTE_FLAGS pte = pte AND 0xFFF"

definition PDX :: "nat \<Rightarrow> nat" where
  "PDX va = va div 2 ^ 22 mod 1024"

definition PTX :: "nat \<Rightarrow> nat" where
  "PTX va = va div 2 ^ 12 mod 1024"

definition PGADDR :: "nat \<Rightarrow> nat \<Rightarrow> nat \<Rightarrow> nat" where
  "PGADDR d t off = (push_bit 22 d OR push_bit 12 t OR off) mod 2 ^ 32"

definition NPDENTRIES :: nat where "NPDENTRIES = 1024"

definition load32 :: "kmem \<Rightarrow> nat \<Rightarrow> u32" where
  "load32 s a = get32 (kbytes s) a"

definition store32 :: "nat \<Rightarrow> u32 \<Rightarrow> kmem \<Rightarrow> kmem" where
  "store32 a w s = s \<lparr> kbytes := put32 (kbytes s) a w \<rparr>"

definition set_page :: "nat \<Rightarrow> u32 \<Rightarrow> kmem \<Rightarrow> kmem" where
  "set_page v c s = s \<lparr> kbytes := memset (kbytes s) v c PGSIZE \<rparr>"

section \<open>Page tables\<close>

definition walkpgdir :: "nat \<Rightarrow> nat \<Rightarrow> bool \<Rightarrow> kmem \<Rightarrow> nat option \<times> kmem" where
  "walkpgdir pgdir va alloc s =
     (let pde = pgdir + 4 * PDX va; e = load32 s pde in
      if e AND PTE_P \<noteq> 0 then (Some (P2V (PTE_ADDR e) + 4 * PTX va), s)
      else if \<not> alloc then (None, s)
      else
        let (pgtab, s) = kalloc s in
        if pgtab = 0 then (None, s)
        else (Some (pgtab + 4 * PTX va), store32 pde (of_nat (V2P pgtab) OR PTE_P OR PTE_W OR PTE_U) (set_page pgtab 0 s)))"

text \<open>
  The loop of \<open>mappages\<close> ends at the last page. Its fuel is the number of pages from the first to the last, where
  addresses wrap around.
\<close>

fun mappages_loop :: "nat \<Rightarrow> nat \<Rightarrow> nat \<Rightarrow> nat \<Rightarrow> nat \<Rightarrow> u32 \<Rightarrow> kmem \<Rightarrow> (bool \<times> kmem) res" where
  "mappages_loop 0 pgdir a last_a pa perm s = Inl Out_Of_Fuel"
| "mappages_loop (Suc k) pgdir a last_a pa perm s =
     (case walkpgdir pgdir a True s of
        (None, s) \<Rightarrow> Inr (False, s)
      | (Some pte, s) \<Rightarrow>
          if load32 s pte AND PTE_P \<noteq> 0 then Inl (Panic ''remap'')
          else
            let s = store32 pte (of_nat pa OR perm OR PTE_P) s in
            if a = last_a then Inr (True, s)
            else mappages_loop k pgdir ((a + PGSIZE) mod 2 ^ 32) last_a ((pa + PGSIZE) mod 2 ^ 32) perm s)"

definition mappages :: "nat \<Rightarrow> nat \<Rightarrow> nat \<Rightarrow> nat \<Rightarrow> u32 \<Rightarrow> kmem \<Rightarrow> (bool \<times> kmem) res" where
  "mappages pgdir va sz pa perm s =
     (let a = PGROUNDDOWN va; last_a = PGROUNDDOWN ((va + sz + 2 ^ 32 - 1) mod 2 ^ 32)
      in mappages_loop ((last_a + 2 ^ 32 - a) mod 2 ^ 32 div PGSIZE + 1) pgdir a last_a pa perm s)"

text \<open>
  The loop of \<open>deallocuvm\<close> skips the rest of a page table that does not exist. Every iteration goes up by a page
  at least, below the kernel, and the fuel is the number of pages.
\<close>

fun deallocuvm_loop :: "nat \<Rightarrow> nat \<Rightarrow> nat \<Rightarrow> nat \<Rightarrow> kmem \<Rightarrow> kmem res" where
  "deallocuvm_loop 0 pgdir a oldsz s = Inl Out_Of_Fuel"
| "deallocuvm_loop (Suc k) pgdir a oldsz s =
     (if a < oldsz then
        (case walkpgdir pgdir a False s of
           (None, s) \<Rightarrow>
             let a = (PGADDR (PDX a + 1) 0 0 + 2 ^ 32 - PGSIZE) mod 2 ^ 32
             in deallocuvm_loop k pgdir ((a + PGSIZE) mod 2 ^ 32) oldsz s
         | (Some pte, s) \<Rightarrow>
             if load32 s pte AND PTE_P \<noteq> 0 then
               let pa = PTE_ADDR (load32 s pte) in
               if pa = 0 then Inl (Panic ''kfree'')
               else
                 bindR (kfree (P2V pa) s) (\<lambda>s.
                 deallocuvm_loop k pgdir ((a + PGSIZE) mod 2 ^ 32) oldsz (store32 pte 0 s))
             else deallocuvm_loop k pgdir ((a + PGSIZE) mod 2 ^ 32) oldsz s)
      else Inr s)"

definition deallocuvm :: "nat \<Rightarrow> nat \<Rightarrow> nat \<Rightarrow> kmem \<Rightarrow> (nat \<times> kmem) res" where
  "deallocuvm pgdir oldsz newsz s =
     (if newsz \<ge> oldsz then Inr (oldsz, s)
      else bindR (deallocuvm_loop (oldsz div PGSIZE + 2) pgdir (PGROUNDUP newsz) oldsz s) (\<lambda>s. Inr (newsz, s)))"

function (sequential) allocuvm_loop :: "nat \<Rightarrow> nat \<Rightarrow> nat \<Rightarrow> nat \<Rightarrow> kmem \<Rightarrow> (nat \<times> kmem) res" where
  "allocuvm_loop pgdir a oldsz newsz s =
     (if a < newsz then
        let (mem, s) = kalloc s in
        if mem = 0 then bindR (deallocuvm pgdir newsz oldsz s) (\<lambda>(_, s). Inr (0, s))
        else
          bindR (mappages pgdir a PGSIZE (V2P mem) (PTE_W OR PTE_U) (set_page mem 0 s)) (\<lambda>(ok, s).
          if \<not> ok then bindR (deallocuvm pgdir newsz oldsz s) (\<lambda>(_, s). bindR (kfree mem s) (\<lambda>s. Inr (0, s)))
          else allocuvm_loop pgdir (a + PGSIZE) oldsz newsz s)
      else Inr (newsz, s))"
  by pat_completeness auto
termination by (relation "measure (\<lambda>(pgdir, a, oldsz, newsz, s). newsz - a)") (auto simp: PGSIZE_def)

declare allocuvm_loop.simps [simp del]

definition allocuvm :: "nat \<Rightarrow> nat \<Rightarrow> nat \<Rightarrow> kmem \<Rightarrow> (nat \<times> kmem) res" where
  "allocuvm pgdir oldsz newsz s =
     (if newsz \<ge> KERNBASE then Inr (0, s)
      else if newsz < oldsz then Inr (oldsz, s)
      else allocuvm_loop pgdir (PGROUNDUP oldsz) oldsz newsz s)"

fun freevm_loop :: "nat \<Rightarrow> nat \<Rightarrow> nat \<Rightarrow> kmem \<Rightarrow> kmem res" where
  "freevm_loop pgdir i 0 s = Inr s"
| "freevm_loop pgdir i (Suc k) s =
     (let e = load32 s (pgdir + 4 * i) in
      if e AND PTE_P \<noteq> 0 then bindR (kfree (P2V (PTE_ADDR e)) s) (freevm_loop pgdir (i + 1) k)
      else freevm_loop pgdir (i + 1) k s)"

definition freevm :: "nat \<Rightarrow> kmem \<Rightarrow> kmem res" where
  "freevm pgdir s =
     (if pgdir = 0 then Inl (Panic ''freevm: no pgdir'')
      else
        bindR (deallocuvm pgdir KERNBASE 0 s) (\<lambda>(_, s).
        bindR (freevm_loop pgdir 0 NPDENTRIES s) (kfree pgdir)))"

text \<open>The kernel's mappings: virtual address, first and last physical address, permissions.\<close>

definition kmap :: "kmem \<Rightarrow> (nat \<times> nat \<times> nat \<times> u32) list" where
  "kmap s = [(KERNBASE, 0, EXTMEM, PTE_W), (KERNLINK, V2P KERNLINK, V2P (kdata s), 0),
     (kdata s, V2P (kdata s), PHYSTOP, PTE_W), (DEVSPACE, DEVSPACE, 0, PTE_W)]"

fun setupkvm_loop :: "nat \<Rightarrow> (nat \<times> nat \<times> nat \<times> u32) list \<Rightarrow> kmem \<Rightarrow> (bool \<times> kmem) res" where
  "setupkvm_loop pgdir [] s = Inr (True, s)"
| "setupkvm_loop pgdir ((virt, phys_start, phys_end, perm) # ks) s =
     bindR (mappages pgdir virt ((phys_end + 2 ^ 32 - phys_start) mod 2 ^ 32) phys_start perm s) (\<lambda>(ok, s).
     if \<not> ok then Inr (False, s) else setupkvm_loop pgdir ks s)"

definition setupkvm :: "kmem \<Rightarrow> (nat \<times> kmem) res" where
  "setupkvm s =
     (let (pgdir, s) = kalloc s in
      if pgdir = 0 then Inr (0, s)
      else if P2V PHYSTOP > DEVSPACE then Inl (Panic ''PHYSTOP too high'')
      else
        bindR (setupkvm_loop pgdir (kmap s) (set_page pgdir 0 s)) (\<lambda>(ok, s).
        if \<not> ok then bindR (freevm pgdir s) (\<lambda>s. Inr (0, s)) else Inr (pgdir, s)))"

definition clearpteu :: "nat \<Rightarrow> nat \<Rightarrow> kmem \<Rightarrow> kmem res" where
  "clearpteu pgdir uva s =
     (case walkpgdir pgdir uva False s of
        (None, s) \<Rightarrow> Inl (Panic ''clearpteu'')
      | (Some pte, s) \<Rightarrow> Inr (store32 pte (load32 s pte AND NOT PTE_U) s))"

section \<open>Copies\<close>

text \<open>\<open>inituvm\<close> uses the page that it gets without a test, and does not look at the result of \<open>mappages\<close>.\<close>

definition inituvm :: "nat \<Rightarrow> nat \<Rightarrow> nat \<Rightarrow> kmem \<Rightarrow> kmem res" where
  "inituvm pgdir init sz s =
     (if sz \<ge> PGSIZE then Inl (Panic ''inituvm: more than a page'')
      else
        let (mem, s) = kalloc s in
        if mem = 0 then Inl Null_Deref
        else
          bindR (mappages pgdir 0 PGSIZE (V2P mem) (PTE_W OR PTE_U) (set_page mem 0 s)) (\<lambda>(_, s).
          Inr (s \<lparr> kbytes := memmove (kbytes s) mem init sz \<rparr>)))"

fun put_bytes :: "mem \<Rightarrow> nat \<Rightarrow> u8 list \<Rightarrow> mem" where
  "put_bytes m a [] = m"
| "put_bytes m a (b # bs) = put_bytes (m(a := b)) (a + 1) bs"

text \<open>\<open>readi off n\<close> stands for what the file delivers of the \<open>n\<close> bytes from \<open>off\<close> on.\<close>

function (sequential) loaduvm_loop :: "(nat \<Rightarrow> nat \<Rightarrow> u8 list) \<Rightarrow> nat \<Rightarrow> nat \<Rightarrow> nat \<Rightarrow> nat \<Rightarrow> nat \<Rightarrow> kmem \<Rightarrow> (bool \<times> kmem) res" where
  "loaduvm_loop readi pgdir addr i off sz s =
     (if i < sz then
        (case walkpgdir pgdir (addr + i) False s of
           (None, s) \<Rightarrow> Inl (Panic ''loaduvm: address should exist'')
         | (Some pte, s) \<Rightarrow>
             let pa = PTE_ADDR (load32 s pte);
                 n = (if sz - i < PGSIZE then sz - i else PGSIZE);
                 bs = readi (off + i) n;
                 s = s \<lparr> kbytes := put_bytes (kbytes s) (P2V pa) bs \<rparr>
             in if length bs \<noteq> n then Inr (False, s) else loaduvm_loop readi pgdir addr (i + PGSIZE) off sz s)
      else Inr (True, s))"
  by pat_completeness auto
termination by (relation "measure (\<lambda>(readi, pgdir, addr, i, off, sz, s). sz - i)") (auto simp: PGSIZE_def)

declare loaduvm_loop.simps [simp del]

definition loaduvm :: "(nat \<Rightarrow> nat \<Rightarrow> u8 list) \<Rightarrow> nat \<Rightarrow> nat \<Rightarrow> nat \<Rightarrow> nat \<Rightarrow> kmem \<Rightarrow> (bool \<times> kmem) res" where
  "loaduvm readi pgdir addr off sz s =
     (if addr mod PGSIZE \<noteq> 0 then Inl (Panic ''loaduvm: addr must be page aligned'')
      else loaduvm_loop readi pgdir addr 0 off sz s)"

function (sequential) copyuvm_loop :: "nat \<Rightarrow> nat \<Rightarrow> nat \<Rightarrow> nat \<Rightarrow> kmem \<Rightarrow> (bool \<times> kmem) res" where
  "copyuvm_loop pgdir d i sz s =
     (if i < sz then
        (case walkpgdir pgdir i False s of
           (None, s) \<Rightarrow> Inl (Panic ''copyuvm: pte should exist'')
         | (Some pte, s) \<Rightarrow>
             if load32 s pte AND PTE_P = 0 then Inl (Panic ''copyuvm: page not present'')
             else
               let pa = PTE_ADDR (load32 s pte);
                   flags = PTE_FLAGS (load32 s pte);
                   (mem, s) = kalloc s
               in
               if mem = 0 then Inr (False, s)
               else
                 let s = s \<lparr> kbytes := memmove (kbytes s) mem (P2V pa) PGSIZE \<rparr> in
                 bindR (mappages d i PGSIZE (V2P mem) flags s) (\<lambda>(ok, s).
                 if \<not> ok then bindR (kfree mem s) (\<lambda>s. Inr (False, s))
                 else copyuvm_loop pgdir d (i + PGSIZE) sz s))
      else Inr (True, s))"
  by pat_completeness auto
termination by (relation "measure (\<lambda>(pgdir, d, i, sz, s). sz - i)") (auto simp: PGSIZE_def)

declare copyuvm_loop.simps [simp del]

definition copyuvm :: "nat \<Rightarrow> nat \<Rightarrow> kmem \<Rightarrow> (nat \<times> kmem) res" where
  "copyuvm pgdir sz s =
     bindR (setupkvm s) (\<lambda>(d, s).
     if d = 0 then Inr (0, s)
     else
       bindR (copyuvm_loop pgdir d 0 sz s) (\<lambda>(ok, s).
       if ok then Inr (d, s) else bindR (freevm d s) (\<lambda>s. Inr (0, s))))"

text \<open>\<open>uva2ka\<close> reads the entry without a test that there is a page table.\<close>

definition uva2ka :: "nat \<Rightarrow> nat \<Rightarrow> kmem \<Rightarrow> nat res" where
  "uva2ka pgdir uva s =
     (case walkpgdir pgdir uva False s of
        (None, s) \<Rightarrow> Inl Null_Deref
      | (Some pte, s) \<Rightarrow>
          if load32 s pte AND PTE_P = 0 then Inr 0
          else if load32 s pte AND PTE_U = 0 then Inr 0
          else Inr (P2V (PTE_ADDR (load32 s pte))))"

function (sequential) copyout :: "nat \<Rightarrow> nat \<Rightarrow> u8 list \<Rightarrow> kmem \<Rightarrow> (bool \<times> kmem) res" where
  "copyout pgdir va buf s =
     (if buf \<noteq> [] then
        let va0 = PGROUNDDOWN va in
        bindR (uva2ka pgdir va0 s) (\<lambda>pa0.
        if pa0 = 0 then Inr (False, s)
        else
          let n = PGSIZE - (va - va0);
              n = (if n > length buf then length buf else n)
          in copyout pgdir ((va0 + PGSIZE) mod 2 ^ 32) (drop n buf)
               (s \<lparr> kbytes := put_bytes (kbytes s) (pa0 + (va - va0)) (take n buf) \<rparr>))
      else Inr (True, s))"
  by pat_completeness auto
termination
proof (relation "measure (\<lambda>(pgdir, va, buf, s). length buf)", goal_cases)
  case (2 pgdir va buf s x xa xb xc)
  have "va - va div PGSIZE * PGSIZE < PGSIZE" by (simp add: minus_div_mult_eq_mod PGSIZE_def)
  with 2 show ?case by (auto simp: PGROUNDDOWN_def)
qed simp

declare copyout.simps [simp del]

section \<open>Entries\<close>

lemma FFF_mask: "(0xFFF :: u32) = mask 12"
  by (simp add: mask_eq_exp_minus_1)

lemma page_bits: "pa mod PGSIZE = 0 \<Longrightarrow> bit pa n \<Longrightarrow> 12 \<le> n" for pa :: nat
proof (rule ccontr)
  assume "pa mod PGSIZE = 0" "bit pa n" "\<not> 12 \<le> n"
  then have "bit (take_bit 12 pa) n" by (simp add: bit_take_bit_iff)
  moreover have "take_bit 12 pa = 0" using \<open>pa mod PGSIZE = 0\<close> by (simp add: take_bit_eq_mod PGSIZE_def)
  ultimately show False by simp
qed

lemma flag_bits: "take_bit 12 f = f \<Longrightarrow> bit f n \<Longrightarrow> n < 12" for f :: u32
  by (metis bit_take_bit_iff)

lemma entry_addr:
  assumes "pa mod PGSIZE = 0" and "pa < 2 ^ 32" and "take_bit 12 f = f"
  shows "PTE_ADDR (of_nat pa OR f) = pa"
proof -
  have "(of_nat pa OR f) AND NOT 0xFFF = (of_nat pa :: u32)"
    unfolding FFF_mask
    by (rule bit_word_eqI) (auto simp: bit_simps not_less dest: page_bits [OF assms(1)] flag_bits [OF assms(3)])
  then show ?thesis using assms(2) by (simp add: PTE_ADDR_def unat_of_nat)
qed

lemma entry_and:
  assumes "pa mod PGSIZE = 0" and "take_bit 12 g = g"
  shows "(of_nat pa OR f) AND g = f AND (g :: u32)"
  by (rule bit_word_eqI, simp add: bit_simps) (metis leD page_bits [OF assms(1)] flag_bits [OF assms(2)])

lemma entry_flags:
  assumes "pa mod PGSIZE = 0" and "take_bit 12 f = f"
  shows "PTE_FLAGS (of_nat pa OR f) = f"
proof -
  have "PTE_FLAGS (of_nat pa OR f) = f AND mask 12"
    unfolding PTE_FLAGS_def FFF_mask by (rule entry_and [OF assms(1)]) (simp add: take_bit_eq_mask)
  then show ?thesis using assms(2) by (simp add: take_bit_eq_mask)
qed

lemma flags_small: "take_bit 12 (PTE_FLAGS e) = PTE_FLAGS e"
  by (simp add: PTE_FLAGS_def FFF_mask take_bit_eq_mask)

lemma flag_simps [simp]: "take_bit 12 PTE_P = PTE_P" "take_bit 12 PTE_W = PTE_W" "take_bit 12 PTE_U = PTE_U"
  "PTE_P AND PTE_P = PTE_P" "PTE_P \<noteq> 0"
  by (simp_all add: PTE_P_def PTE_W_def PTE_U_def)

lemma V2P_props: "page_ok s p \<Longrightarrow> V2P p mod PGSIZE = 0" "page_ok s p \<Longrightarrow> V2P p < 2 ^ 32"
proof -
  assume p: "page_ok s p"
  note P = page_okD [OF p]
  have "KERNBASE mod PGSIZE = 0" by (simp add: kernel_layout)
  then have "(p - KERNBASE) mod PGSIZE = 0" using P(1) by (simp add: dvd_eq_mod_eq_0 [symmetric])
  then show "V2P p mod PGSIZE = 0" by (simp add: V2P_page [OF p])
  show "V2P p < 2 ^ 32" using P(6) by (simp add: V2P_page [OF p])
qed

section \<open>The map that a page directory stands for\<close>

text \<open>
  Virtual pages are numbered from 0; those below \<open>UPAGES\<close> are the user's. \<open>T\<close> gives the page table of each
  entry of the directory.
\<close>

definition UPAGES :: nat where "UPAGES = KERNBASE div PGSIZE"

definition entry :: "kmem \<Rightarrow> (nat \<Rightarrow> nat option) \<Rightarrow> nat \<Rightarrow> u32" where
  "entry s T n = (case T (n div 1024) of None \<Rightarrow> 0 | Some t \<Rightarrow> load32 s (t + 4 * (n mod 1024)))"

definition present :: "kmem \<Rightarrow> (nat \<Rightarrow> nat option) \<Rightarrow> nat \<Rightarrow> bool" where
  "present s T n \<longleftrightarrow> entry s T n AND PTE_P \<noteq> 0"

definition frame :: "kmem \<Rightarrow> (nat \<Rightarrow> nat option) \<Rightarrow> nat \<Rightarrow> nat" where
  "frame s T n = P2V (PTE_ADDR (entry s T n))"

text \<open>
  A directory \<open>d\<close> with tables \<open>T\<close> beside the free pages \<open>F\<close> and the pages \<open>R\<close> that are in use elsewhere: the
  directory, the tables, the frames of user pages, the free pages and the pages in use elsewhere are different
  pages, and every user page has a frame of its own.
\<close>

definition dir_ok :: "kmem \<Rightarrow> nat \<Rightarrow> (nat \<Rightarrow> nat option) \<Rightarrow> bool" where
  "dir_ok s d T \<longleftrightarrow> (\<forall>i < 1024. case T i of None \<Rightarrow> load32 s (d + 4 * i) AND PTE_P = 0
     | Some t \<Rightarrow> load32 s (d + 4 * i) = of_nat (V2P t) OR (PTE_P OR PTE_W OR PTE_U))"

definition tables_ok :: "kmem \<Rightarrow> nat list \<Rightarrow> nat set \<Rightarrow> nat \<Rightarrow> (nat \<Rightarrow> nat option) \<Rightarrow> bool" where
  "tables_ok s F R d T \<longleftrightarrow> page_ok s d \<and> d \<notin> set F \<and> d \<notin> R \<and>
     (\<forall>i t. T i = Some t \<longrightarrow> i < 1024 \<and> page_ok s t \<and> t \<noteq> d \<and> t \<notin> set F \<and> t \<notin> R) \<and>
     (\<forall>i j t. T i = Some t \<longrightarrow> T j = Some t \<longrightarrow> i = j)"

definition frames_ok :: "kmem \<Rightarrow> nat list \<Rightarrow> nat set \<Rightarrow> nat \<Rightarrow> (nat \<Rightarrow> nat option) \<Rightarrow> bool" where
  "frames_ok s F R d T \<longleftrightarrow>
     (\<forall>n < UPAGES. present s T n \<longrightarrow> page_ok s (frame s T n) \<and> frame s T n \<noteq> d \<and> frame s T n \<notin> set F \<and> frame s T n \<notin> R \<and>
        (\<forall>i. T i \<noteq> Some (frame s T n))) \<and>
     (\<forall>n < UPAGES. \<forall>m < UPAGES. present s T n \<longrightarrow> present s T m \<longrightarrow> frame s T n = frame s T m \<longrightarrow> n = m)"

definition aspace :: "kmem \<Rightarrow> nat list \<Rightarrow> nat set \<Rightarrow> nat \<Rightarrow> (nat \<Rightarrow> nat option) \<Rightarrow> bool" where
  "aspace s F R d T \<longleftrightarrow> free_ok s F \<and> set F \<inter> R = {} \<and> dir_ok s d T \<and> tables_ok s F R d T \<and> frames_ok s F R d T"

lemma aspaceD:
  assumes "aspace s F R d T"
  shows "free_ok s F" "set F \<inter> R = {}" "dir_ok s d T" "tables_ok s F R d T" "frames_ok s F R d T"
  using assms unfolding aspace_def by blast+

lemma tables_okD:
  assumes "tables_ok s F R d T"
  shows "page_ok s d" "d \<notin> set F" "d \<notin> R"
    and "T i = Some t \<Longrightarrow> i < 1024 \<and> page_ok s t \<and> t \<noteq> d \<and> t \<notin> set F \<and> t \<notin> R"
    and "T i = Some t \<Longrightarrow> T j = Some t \<Longrightarrow> i = j"
  using assms unfolding tables_ok_def by blast+

lemma frames_okD:
  assumes "frames_ok s F R d T" and "n < UPAGES" and "present s T n"
  shows "page_ok s (frame s T n)" "frame s T n \<noteq> d" "frame s T n \<notin> set F" "frame s T n \<notin> R" "T i \<noteq> Some (frame s T n)"
    and "m < UPAGES \<Longrightarrow> present s T m \<Longrightarrow> frame s T n = frame s T m \<Longrightarrow> n = m"
  using assms unfolding frames_ok_def by blast+

lemma frames_okI:
  assumes "\<And>n. n < UPAGES \<Longrightarrow> present s T n \<Longrightarrow> page_ok s (frame s T n) \<and> frame s T n \<noteq> d \<and> frame s T n \<notin> set F \<and> frame s T n \<notin> R"
    and "\<And>n i. n < UPAGES \<Longrightarrow> present s T n \<Longrightarrow> T i \<noteq> Some (frame s T n)"
    and "\<And>n m. n < UPAGES \<Longrightarrow> m < UPAGES \<Longrightarrow> present s T n \<Longrightarrow> present s T m \<Longrightarrow> frame s T n = frame s T m \<Longrightarrow> n = m"
  shows "frames_ok s F R d T"
  unfolding frames_ok_def using assms by blast

lemma tables_okI:
  assumes "page_ok s d" "d \<notin> set F" "d \<notin> R"
    and "\<And>i t. T i = Some t \<Longrightarrow> i < 1024 \<and> page_ok s t \<and> t \<noteq> d \<and> t \<notin> set F \<and> t \<notin> R"
    and "\<And>i j t. T i = Some t \<Longrightarrow> T j = Some t \<Longrightarrow> i = j"
  shows "tables_ok s F R d T"
  unfolding tables_ok_def using assms by blast

lemma dir_okD:
  assumes "dir_ok s d T" and "i < 1024"
  shows "T i = None \<Longrightarrow> load32 s (d + 4 * i) AND PTE_P = 0"
    and "T i = Some t \<Longrightarrow> load32 s (d + 4 * i) = of_nat (V2P t) OR (PTE_P OR PTE_W OR PTE_U)"
  using assms unfolding dir_ok_def by (auto split: option.splits)

section \<open>Changes to memory\<close>

text \<open>The two states agree outside the pages of a set, and on everything but the bytes and the free list.\<close>

definition agree :: "nat set \<Rightarrow> kmem \<Rightarrow> kmem \<Rightarrow> bool" where
  "agree X s t \<longleftrightarrow> kend t = kend s \<and> kdata t = kdata s \<and> (\<forall>q. q mod PGSIZE = 0 \<longrightarrow> q \<notin> X \<longrightarrow> same_page q (kbytes s) (kbytes t))"

lemma agree_refl [simp]: "agree X s s"
  by (simp add: agree_def)

lemma agree_trans: "agree X s t \<Longrightarrow> agree Y t u \<Longrightarrow> X \<subseteq> Z \<Longrightarrow> Y \<subseteq> Z \<Longrightarrow> agree Z s u"
  unfolding agree_def by simp (meson same_page_trans subsetD)

lemma agree_mono: "agree X s t \<Longrightarrow> X \<subseteq> Y \<Longrightarrow> agree Y s t"
  by (rule agree_trans [of X s t "{}" t]) simp_all

lemma agree_page: "agree X s t \<Longrightarrow> page_ok s q \<Longrightarrow> q \<notin> X \<Longrightarrow> same_page q (kbytes s) (kbytes t)"
  unfolding agree_def by (meson page_okD(1))

lemma agree_page_ok: "agree X s t \<Longrightarrow> page_ok t p \<longleftrightarrow> page_ok s p"
  by (simp add: agree_def page_ok_def)

lemma load32_same: "same_page p (kbytes s) (kbytes t) \<Longrightarrow> i < 1024 \<Longrightarrow> load32 t (p + 4 * i) = load32 s (p + 4 * i)"
  unfolding load32_def by (rule same_page_get32 [of p]) (simp_all add: PGSIZE_def)

lemma agree_store32: "page_ok s p \<Longrightarrow> i < 1024 \<Longrightarrow> agree {p} s (store32 (p + 4 * i) w s)"
  using page_okD(1) [of s p] by (auto simp: agree_def store32_def PGSIZE_def intro!: same_page_put32 [of _ p])

lemma agree_set_page: "page_ok s p \<Longrightarrow> agree {p} s (set_page p c s)"
  using page_okD(1) [of s p] by (auto simp: agree_def set_page_def intro!: same_page_memset)

lemma agree_freelist [simp]: "agree X s (t \<lparr> freelist := n \<rparr>) = agree X s t" "agree X (s \<lparr> freelist := n \<rparr>) t = agree X s t"
  by (simp_all add: agree_def)

lemma load_set_page: "i < 1024 \<Longrightarrow> load32 (set_page p 0 s) (p + 4 * i) = 0"
  by (simp add: load32_def set_page_def memset_fills get32_def PGSIZE_def)

lemma load_store_same [simp]: "load32 (store32 a w s) a = w"
  by (simp add: load32_def store32_def)

lemma load_store_other: "i \<noteq> j \<Longrightarrow> load32 (store32 (p + 4 * i) w s) (p + 4 * j) = load32 s (p + 4 * j)"
  unfolding load32_def store32_def by simp (rule get32_put32_other, arith)

lemma freelist_store [simp]: "freelist (store32 a w s) = freelist s" "freelist (set_page p c s) = freelist s"
  by (simp_all add: store32_def set_page_def)

lemma free_ok_agree:
  assumes "free_ok s F" and "agree X s t" and "freelist t = freelist s" and "set F \<inter> X = {}"
  shows "free_ok t F"
proof -
  have "free_chain (kbytes t) (freelist t) F"
    unfolding assms(3)
  proof (rule free_chain_same)
    show "free_chain (kbytes s) (freelist s) F" using assms(1) by (simp add: free_ok_def)
    show "same_page p (kbytes s) (kbytes t)" if "p \<in> set F" for p
      using agree_page [OF assms(2)] assms(1,4) that by (auto simp: free_ok_def)
  qed
  then show ?thesis using assms(1) agree_page_ok [OF assms(2)] by (simp add: free_ok_def)
qed

lemma entry_same:
  assumes "\<And>t. T (n div 1024) = Some t \<Longrightarrow> same_page t (kbytes s) (kbytes s')"
  shows "entry s' T n = entry s T n"
  using assms by (auto simp: entry_def load32_same split: option.split)

lemma dir_ok_cong:
  "(\<And>i. i < 1024 \<Longrightarrow> load32 t (d + 4 * i) = load32 s (d + 4 * i)) \<Longrightarrow> dir_ok t d T \<longleftrightarrow> dir_ok s d T"
  unfolding dir_ok_def by (auto split: option.split)

text \<open>Nothing changes when only pages change that are neither free, nor the directory or a table.\<close>

lemma aspace_agree:
  assumes "aspace s F R d T" and "agree X s t" and "freelist t = freelist s"
    and "set F \<inter> X = {}" and "d \<notin> X" and "\<And>i u. T i = Some u \<Longrightarrow> u \<notin> X"
  shows "aspace t F R d T" and "entry t T n = entry s T n"
proof -
  note A = aspaceD [OF assms(1)] and tb = tables_okD [OF aspaceD(4) [OF assms(1)]]
  note ag = agree_page [OF assms(2)] and pg = agree_page_ok [OF assms(2)]
  have e: "entry t T n = entry s T n" for n
    by (rule entry_same) (use tb(4) assms(6) ag in blast)
  show "entry t T n = entry s T n" by (rule e)
  have pf: "present t T n = present s T n" "frame t T n = frame s T n" for n by (simp_all add: present_def frame_def e)
  have dl: "load32 t (d + 4 * i) = load32 s (d + 4 * i)" if "i < 1024" for i
    by (rule load32_same [OF ag that]) (use tb(1) assms(5) in simp_all)
  show "aspace t F R d T"
    unfolding aspace_def
  proof (intro conjI)
    show "free_ok t F" by (rule free_ok_agree [OF A(1) assms(2-4)])
    show "set F \<inter> R = {}" by (rule A(2))
    show "dir_ok t d T" using A(3) dir_ok_cong [OF dl] by simp
    show "tables_ok t F R d T" using A(4) by (simp add: tables_ok_def pg)
    show "frames_ok t F R d T" using A(5) by (simp add: frames_ok_def pf pg)
  qed
qed

section \<open>The allocator beside a page directory\<close>

lemma aspace_kalloc:
  assumes "aspace s (p # F) R d T"
  shows "\<exists>t. kalloc s = (p, t) \<and> aspace t F (insert p R) d T \<and> agree {} s t \<and> (\<forall>n. entry t T n = entry s T n) \<and> p \<notin> R \<and> page_ok s p"
proof -
  note A = aspaceD [OF assms]
  obtain n where n: "kalloc s = (p, s \<lparr> freelist := n \<rparr>)" "free_ok (s \<lparr> freelist := n \<rparr>) F" using kalloc_Cons [OF A(1)] by blast
  define t where "t = s \<lparr> freelist := n \<rparr>"
  have pd: "p \<notin> set F" "page_ok s p" using A(1) by (simp_all add: free_ok_def)
  have l: "load32 t a = load32 s a" for a by (simp add: t_def load32_def)
  have e: "entry t T n = entry s T n" for n by (simp add: entry_def l split: option.split)
  have pf: "present t T n = present s T n" "frame t T n = frame s T n" for n by (simp_all add: present_def frame_def e)
  have pgt: "page_ok t q = page_ok s q" for q by (simp add: t_def)
  have "aspace t F (insert p R) d T"
    unfolding aspace_def
  proof (intro conjI)
    show "free_ok t F" using n(2) by (simp add: t_def)
    show "set F \<inter> insert p R = {}" using A(2) pd(1) by auto
    show "dir_ok t d T" using A(3) dir_ok_cong [OF l] by simp
    show "tables_ok t F (insert p R) d T"
      by (rule tables_okI) (use tables_okD [OF A(4)] in \<open>auto simp: t_def\<close>)
    show "frames_ok t F (insert p R) d T"
      by (rule frames_okI) (use frames_okD [OF A(5)] in \<open>auto simp: pf pgt\<close>)
  qed
  then show ?thesis using n(1) A(2) pd e by (intro exI [of _ t]) (simp add: t_def)
qed

lemma aspace_kfree:
  assumes "aspace s F R d T" and "p \<in> R" and "page_ok s p"
  shows "\<exists>t. kfree p s = Inr t \<and> aspace t (p # F) (R - {p}) d T \<and> agree {p} s t \<and> (\<forall>n. entry t T n = entry s T n)"
proof -
  note A = aspaceD [OF assms(1)]
  have pF: "p \<notin> set F" using A(2) assms(2) by auto
  obtain m where m: "kfree p s = Inr (s \<lparr> kbytes := m, freelist := p \<rparr>)" "free_ok (s \<lparr> kbytes := m, freelist := p \<rparr>) (p # F)"
    "\<forall>q. q mod PGSIZE = 0 \<longrightarrow> q \<noteq> p \<longrightarrow> same_page q (kbytes s) m"
    using kfree_page [OF A(1) assms(3) pF] by blast
  define u where "u = s \<lparr> kbytes := m \<rparr>"
  define t where "t = u \<lparr> freelist := p \<rparr>"
  have ag: "agree {p} s u" using m(3) by (simp add: agree_def u_def)
  have B: "aspace u F R d T" and e: "entry u T n = entry s T n" for n
    by (rule aspace_agree [OF assms(1) ag]; use tables_okD [OF A(4)] assms(2) pF in \<open>auto simp: u_def\<close>)+
  note B = aspaceD [OF B]
  have l: "load32 t a = load32 u a" for a by (simp add: t_def load32_def)
  have e': "entry t T n = entry u T n" for n by (simp add: entry_def l split: option.split)
  have pf: "present t T n = present u T n" "frame t T n = frame u T n" for n by (simp_all add: present_def frame_def e')
  have pgt: "page_ok t q = page_ok u q" for q by (simp add: t_def)
  have "aspace t (p # F) (R - {p}) d T"
    unfolding aspace_def
  proof (intro conjI)
    show "free_ok t (p # F)" using m(2) by (simp add: t_def u_def)
    show "set (p # F) \<inter> (R - {p}) = {}" using B(2) by auto
    show "dir_ok t d T" using B(3) dir_ok_cong [OF l] by simp
    show "tables_ok t (p # F) (R - {p}) d T"
      by (rule tables_okI) (use tables_okD [OF B(4)] assms(2) in \<open>auto simp: t_def\<close>)
    show "frames_ok t (p # F) (R - {p}) d T"
      by (rule frames_okI) (use frames_okD [OF B(5)] assms(2) in \<open>auto simp: pf pgt\<close>)
  qed
  then show ?thesis using m(1) ag e e' by (intro exI [of _ t]) (simp add: t_def u_def)
qed

section \<open>Walking the table\<close>

lemma PDX_PTX: "va < 2 ^ 32 \<Longrightarrow> PDX va = va div PGSIZE div 1024" "PTX va = va div PGSIZE mod 1024" "PDX va < 1024" "PTX va < 1024"
  by (simp_all add: PDX_def PTX_def PGSIZE_def div_mult2_eq [symmetric])

lemma dir_entry:
  assumes "page_ok s t" and "e = of_nat (V2P t) OR (PTE_P OR PTE_W OR PTE_U)"
  shows "e AND PTE_P \<noteq> 0" "P2V (PTE_ADDR e) = t"
proof -
  have "e AND PTE_P = (PTE_P OR PTE_W OR PTE_U) AND PTE_P" unfolding assms(2) by (rule entry_and [OF V2P_props(1) [OF assms(1)]]) simp
  then show "e AND PTE_P \<noteq> 0" by (simp add: PTE_P_def PTE_W_def PTE_U_def)
  have "PTE_ADDR e = V2P t" unfolding assms(2)
    by (rule entry_addr [OF V2P_props [OF assms(1)]]) (simp add: PTE_P_def PTE_W_def PTE_U_def)
  then show "P2V (PTE_ADDR e) = t" by (simp add: P2V_V2P [OF assms(1)])
qed

lemma walk_hit:
  assumes "dir_ok s d T" and "T (PDX va) = Some t" and "page_ok s t"
  shows "walkpgdir d va alloc s = (Some (t + 4 * PTX va), s)"
  using dir_entry [OF assms(3) dir_okD(2) [OF assms(1) PDX_PTX(3) assms(2)]] by (simp add: walkpgdir_def)

lemma walk_miss: "dir_ok s d T \<Longrightarrow> T (PDX va) = None \<Longrightarrow> walkpgdir d va False s = (None, s)"
  using dir_okD(1) [of s d T "PDX va"] PDX_PTX(3) by (simp add: walkpgdir_def)

lemma walk_full: "dir_ok s d T \<Longrightarrow> T (PDX va) = None \<Longrightarrow> free_ok s [] \<Longrightarrow> walkpgdir d va True s = (None, s)"
  using dir_okD(1) [of s d T "PDX va"] PDX_PTX(3) by (simp add: walkpgdir_def kalloc_Nil)

lemma walk_new_table:
  assumes "aspace s (p # F) R d T" and "T (PDX va) = None"
  shows "\<exists>t. walkpgdir d va True s = (Some (p + 4 * PTX va), t) \<and> aspace t F R d (T(PDX va \<mapsto> p)) \<and> agree {p, d} s t \<and>
    (\<forall>n. entry t (T(PDX va \<mapsto> p)) n = entry s T n) \<and> page_ok s p \<and> p \<notin> R"
proof -
  obtain s1 where k: "kalloc s = (p, s1)" "aspace s1 F (insert p R) d T" "agree {} s s1" "\<And>n. entry s1 T n = entry s T n" "p \<notin> R" "page_ok s p"
    using aspace_kalloc [OF assms(1)] by blast
  have p1: "page_ok s1 p" using k(6) agree_page_ok [OF k(3)] by simp
  note A = aspaceD [OF k(2)] and tb = tables_okD [OF aspaceD(4) [OF k(2)]]
  define s2 where "s2 = set_page p 0 s1"
  have g2: "agree {p} s1 s2" unfolding s2_def by (rule agree_set_page [OF p1])
  have B: "aspace s2 F (insert p R) d T" and e2: "\<And>n. entry s2 T n = entry s1 T n"
    by (rule aspace_agree [OF k(2) g2]; use A(2) tb in \<open>auto simp: s2_def\<close>)+
  note tb2 = tables_okD [OF aspaceD(4) [OF B]] and fr2 = frames_okD [OF aspaceD(5) [OF B]] and B = aspaceD [OF B]
  define w where "w = (of_nat (V2P p) OR (PTE_P OR PTE_W OR PTE_U) :: u32)"
  define t where "t = store32 (d + 4 * PDX va) w s2"
  have g3: "agree {d} s2 t" unfolding t_def by (rule agree_store32 [OF tb2(1) PDX_PTX(3)])
  have pg: "page_ok t q = page_ok s2 q" for q by (rule agree_page_ok [OF g3])
  have p2: "page_ok s2 p" using p1 agree_page_ok [OF g2] by simp
  have pd: "p \<noteq> d" using tb2(3) by auto
  define T' where "T' = T(PDX va \<mapsto> p)"
  have e: "entry t T' n = entry s2 T n" for n
  proof (cases "n div 1024 = PDX va")
    case True
    have "load32 t (p + 4 * (n mod 1024)) = load32 s2 (p + 4 * (n mod 1024))"
      by (rule load32_same) (use agree_page [OF g3 p2] pd in simp_all)
    also have "\<dots> = 0" unfolding s2_def by (rule load_set_page) simp
    finally show ?thesis using True assms(2) by (simp add: entry_def T'_def)
  next
    case False
    have "entry t T n = entry s2 T n" by (rule entry_same) (use agree_page [OF g3] tb2(4) in blast)
    then show ?thesis using False by (simp add: entry_def T'_def)
  qed
  have pf: "present t T' n = present s2 T n" "frame t T' n = frame s2 T n" for n by (simp_all add: present_def frame_def e)
  have T': "T' i = Some q \<longleftrightarrow> (i = PDX va \<and> q = p) \<or> T i = Some q" for i q using assms(2) by (auto simp: T'_def)
  have "aspace t F R d T'"
    unfolding aspace_def
  proof (intro conjI)
    show "free_ok t F" by (rule free_ok_agree [OF B(1) g3]) (use tb2(2) in \<open>auto simp: t_def\<close>)
    show "set F \<inter> R = {}" using B(2) by auto
    show "dir_ok t d T'"
      unfolding dir_ok_def
    proof (intro allI impI)
      fix i :: nat
      assume i: "i < 1024"
      show "case T' i of None \<Rightarrow> load32 t (d + 4 * i) AND PTE_P = 0
        | Some u \<Rightarrow> load32 t (d + 4 * i) = of_nat (V2P u) OR (PTE_P OR PTE_W OR PTE_U)"
        using dir_okD [OF B(3) i] load_store_other [of "PDX va" i d w s2]
        by (cases "i = PDX va") (auto simp: T'_def t_def w_def split: option.split)
    qed
    show "tables_ok t F R d T'"
    proof (rule tables_okI)
      show "i < 1024 \<and> page_ok t u \<and> u \<noteq> d \<and> u \<notin> set F \<and> u \<notin> R" if "T' i = Some u" for i u
        using that tb2(4) [of i u] p2 pd k(5) B(2) PDX_PTX(3) unfolding T' pg by auto
      show "i = j" if "T' i = Some u" "T' j = Some u" for i j u
        using that tb2(5) [of i u j] tb2(4) [of i u] tb2(4) [of j u] unfolding T' by auto
    qed (use tb2 in \<open>auto simp: pg\<close>)
    show "frames_ok t F R d T'"
    proof (rule frames_okI)
      show "page_ok t (frame t T' n) \<and> frame t T' n \<noteq> d \<and> frame t T' n \<notin> set F \<and> frame t T' n \<notin> R"
        if "n < UPAGES" "present t T' n" for n
        using fr2(1-4) [of n] that unfolding pf pg by auto
      show "T' i \<noteq> Some (frame t T' n)" if "n < UPAGES" "present t T' n" for n i
        using fr2(4,5) [of n] that unfolding pf T' by auto
      show "n = m" if "n < UPAGES" "m < UPAGES" "present t T' n" "present t T' m" "frame t T' n = frame t T' m" for n m
        using fr2(6) [of n m] that unfolding pf by blast
    qed
  qed
  moreover have "walkpgdir d va True s = (Some (p + 4 * PTX va), t)"
    using dir_okD(1) [OF aspaceD(3) [OF assms(1)] PDX_PTX(3) assms(2)] page_okD(5) [OF p1] k(1)
    by (simp add: walkpgdir_def t_def w_def s2_def or.assoc)
  moreover have "agree {p, d} s t"
    by (rule agree_trans [OF agree_trans [OF k(3) g2 _ order_refl] g3]) auto
  moreover have "entry t T' n = entry s T n" for n by (simp add: e e2 k(4))
  ultimately show ?thesis using k(5,6) unfolding T'_def by blast
qed

lemma walk_alloc:
  assumes "aspace s F R d T"
  shows "(walkpgdir d va True s = (None, s) \<and> F = []) \<or>
    (\<exists>u t F' T'. walkpgdir d va True s = (Some (u + 4 * PTX va), t) \<and> aspace t F' R d T' \<and> T' (PDX va) = Some u \<and>
      (\<forall>n. entry t T' n = entry s T n) \<and> agree (insert d (set F)) s t \<and> set F' \<subseteq> set F \<and> set F' \<union> ran T' = set F \<union> ran T)"
proof (cases "T (PDX va)")
  case (Some u)
  then have "walkpgdir d va True s = (Some (u + 4 * PTX va), s)"
    using walk_hit [OF aspaceD(3) [OF assms]] tables_okD(4) [OF aspaceD(4) [OF assms]] by blast
  then show ?thesis using Some assms by (intro disjI2 exI [of _ u] exI [of _ s] exI [of _ F] exI [of _ T]) auto
next
  case None
  show ?thesis
  proof (cases F)
    case Nil
    then show ?thesis using walk_full [OF aspaceD(3) [OF assms] None] aspaceD(1) [OF assms] by simp
  next
    case (Cons p F')
    obtain t where t: "walkpgdir d va True s = (Some (p + 4 * PTX va), t)" "aspace t F' R d (T(PDX va \<mapsto> p))" "agree {p, d} s t"
      "\<forall>n. entry t (T(PDX va \<mapsto> p)) n = entry s T n"
      using walk_new_table [of s p F' R d T va] assms None Cons by blast
    have "set F' \<union> ran (T(PDX va \<mapsto> p)) = set F \<union> ran T" using Cons None by (simp add: ran_map_upd)
    moreover have "agree (insert d (set F)) s t" by (rule agree_mono [OF t(3)]) (auto simp: Cons)
    ultimately show ?thesis using t Cons
      by (intro disjI2 exI [of _ p] exI [of _ t] exI [of _ F'] exI [of _ "T(PDX va \<mapsto> p)"]) auto
  qed
qed

text \<open>Writing one entry of a table.\<close>

lemma store_entry:
  assumes "aspace s F R d T" and "T (n div 1024) = Some u" and "t = store32 (u + 4 * (n mod 1024)) w s"
  shows "free_ok t F" and "dir_ok t d T" and "tables_ok t F R d T" and "agree {u} s t"
    and "entry t T m = (if m = n then w else entry s T m)"
proof -
  note A = aspaceD [OF assms(1)] and tb = tables_okD [OF aspaceD(4) [OF assms(1)]]
  have u: "page_ok s u" "u \<noteq> d" "u \<notin> set F" using tb(4) [OF assms(2)] by blast+
  show g: "agree {u} s t" unfolding assms(3) by (rule agree_store32 [OF u(1)]) simp
  show "free_ok t F" by (rule free_ok_agree [OF A(1) g]) (use u in \<open>simp_all add: assms(3)\<close>)
  have "load32 t (d + 4 * i) = load32 s (d + 4 * i)" if "i < 1024" for i
    by (rule load32_same [OF agree_page [OF g tb(1)] that]) (use u(2) in simp)
  then show "dir_ok t d T" using A(3) dir_ok_cong [of t d s T] by blast
  show "tables_ok t F R d T"
    by (rule tables_okI) (use tb agree_page_ok [OF g] in \<open>auto\<close>)
  show "entry t T m = (if m = n then w else entry s T m)"
  proof (cases "m div 1024 = n div 1024")
    case True
    show ?thesis
    proof (cases "m = n")
      case True
      then show ?thesis using assms(2) by (simp add: entry_def assms(3))
    next
      case False
      with True have "n mod 1024 \<noteq> m mod 1024" by (metis div_mult_mod_eq)
      then show ?thesis using assms(2) True False by (simp add: entry_def assms(3) load_store_other)
    qed
  next
    case False
    have "entry t T m = entry s T m"
    proof (rule entry_same)
      fix v
      assume v: "T (m div 1024) = Some v"
      then have "v \<noteq> u" using tb(5) [OF v, of "n div 1024"] assms(2) False by auto
      then show "same_page v (kbytes s) (kbytes t)" using agree_page [OF g] tb(4) [OF v] by simp
    qed
    with False show ?thesis by auto
  qed
qed

lemma or_and_absorb: "(x OR y) AND y = y" for x y :: u32
  by (rule bit_word_eqI) (auto simp: bit_simps)

lemma store_map:
  assumes "aspace s F R d T" and "T (n div 1024) = Some u" and "\<not> present s T n" and "n < UPAGES"
    and "f \<in> R" and "page_ok s f" and "take_bit 12 perm = perm"
    and "t = store32 (u + 4 * (n mod 1024)) (of_nat (V2P f) OR perm OR PTE_P) s"
  shows "aspace t F (R - {f}) d T" and "present t T n" and "frame t T n = f"
    and "entry t T m = (if m = n then of_nat (V2P f) OR perm OR PTE_P else entry s T m)"
proof -
  note A = aspaceD [OF assms(1)] and tb = tables_okD [OF aspaceD(4) [OF assms(1)]] and fr = frames_okD [OF aspaceD(5) [OF assms(1)]]
  note st = store_entry [OF assms(1,2,8)]
  show "entry t T m = (if m = n then of_nat (V2P f) OR perm OR PTE_P else entry s T m)" by (rule st(5))
  have en: "entry t T n = of_nat (V2P f) OR (perm OR PTE_P)" by (simp add: st(5) or.assoc)
  have fl: "take_bit 12 (perm OR PTE_P) = perm OR PTE_P" using assms(7) by (simp add: take_bit_or)
  have "entry t T n AND PTE_P = (perm OR PTE_P) AND PTE_P" unfolding en by (rule entry_and [OF V2P_props(1) [OF assms(6)]]) simp
  then show pn: "present t T n" by (simp add: present_def or_and_absorb)
  show fn: "frame t T n = f" using entry_addr [OF V2P_props [OF assms(6)] fl] P2V_V2P [OF assms(6)] by (simp add: frame_def en)
  have pg: "page_ok t q = page_ok s q" for q by (rule agree_page_ok [OF st(4)])
  have pf: "present t T m = present s T m" "frame t T m = frame s T m" if "m \<noteq> n" for m
    using that by (simp_all add: present_def frame_def st(5))
  show "aspace t F (R - {f}) d T"
    unfolding aspace_def
  proof (intro conjI)
    show "tables_ok t F (R - {f}) d T" by (rule tables_okI) (use tables_okD [OF st(3)] in auto)
    show "frames_ok t F (R - {f}) d T"
    proof (rule frames_okI)
      show "page_ok t (frame t T m) \<and> frame t T m \<noteq> d \<and> frame t T m \<notin> set F \<and> frame t T m \<notin> R - {f}"
        if "m < UPAGES" "present t T m" for m
        using fr(1-4) [of m] that pf fn assms(5,6) tb(3) A(2) by (cases "m = n") (auto simp: pg)
      show "T i \<noteq> Some (frame t T m)" if "m < UPAGES" "present t T m" for m i
        using fr(5) [of m i] that pf fn assms(5) tb(4) [of i f] by (cases "m = n") auto
      show "m = k" if "m < UPAGES" "k < UPAGES" "present t T m" "present t T k" "frame t T m = frame t T k" for m k
      proof (cases "m = n \<or> k = n")
        case True
        have "frame t T j \<noteq> f" if "j \<noteq> n" "j < UPAGES" "present t T j" for j
          using fr(4) [of j] that pf assms(5) by auto
        then show ?thesis using that fn True by metis
      next
        case False
        then show ?thesis using fr(6) [of m k] that by (simp add: pf)
      qed
    qed
  qed (use st A(2) in auto)
qed

section \<open>One page\<close>

lemma vpn_bound: "n < UPAGES \<Longrightarrow> n * PGSIZE < 2 ^ 31" "n < UPAGES \<Longrightarrow> n * PGSIZE + PGSIZE \<le> KERNBASE" "n < UPAGES \<Longrightarrow> n < 2 ^ 20"
  by (simp_all add: UPAGES_def kernel_layout)

lemma vpn_simps: "n * PGSIZE div PGSIZE = n" "PGROUNDDOWN (n * PGSIZE) = n * PGSIZE"
  by (simp_all add: PGROUNDDOWN_def PGSIZE_def)

lemma mappages_one:
  assumes "n < UPAGES"
  shows "mappages d (n * PGSIZE) PGSIZE pa perm s = mappages_loop (Suc 0) d (n * PGSIZE) (n * PGSIZE) pa perm s"
proof -
  have P: "0 < PGSIZE" "PGSIZE - 1 < PGSIZE" by (simp_all add: PGSIZE_def)
  have lt: "n * PGSIZE + (PGSIZE - 1) < 2 ^ 32" using vpn_bound(1) [OF assms] by (simp add: PGSIZE_def)
  have "n * PGSIZE + PGSIZE + 2 ^ 32 - 1 = n * PGSIZE + (PGSIZE - 1) + 2 ^ 32" using P by simp
  then have "(n * PGSIZE + PGSIZE + 2 ^ 32 - 1) mod 2 ^ 32 = n * PGSIZE + (PGSIZE - 1)"
    using lt by (simp only: mod_add_self2 mod_less)
  moreover have "(n * PGSIZE + (PGSIZE - 1)) div PGSIZE = n" unfolding PGSIZE_def by simp
  ultimately have l: "PGROUNDDOWN ((n * PGSIZE + PGSIZE + 2 ^ 32 - 1) mod 2 ^ 32) = n * PGSIZE" by (simp only: PGROUNDDOWN_def)
  have "n * PGSIZE + 2 ^ 32 - n * PGSIZE = 2 ^ 32" by simp
  then show ?thesis unfolding mappages_def l vpn_simps Let_def by simp
qed

lemma map_page:
  assumes "aspace s F R d T" and "n < UPAGES" and "\<not> present s T n" and "f \<in> R" and "page_ok s f" and "take_bit 12 perm = perm"
  shows "(mappages d (n * PGSIZE) PGSIZE (V2P f) perm s = Inr (False, s) \<and> F = []) \<or>
    (\<exists>t F' T'. mappages d (n * PGSIZE) PGSIZE (V2P f) perm s = Inr (True, t) \<and> aspace t F' (R - {f}) d T' \<and>
      present t T' n \<and> frame t T' n = f \<and> (\<forall>m. entry t T' m = (if m = n then of_nat (V2P f) OR perm OR PTE_P else entry s T m)) \<and>
      agree (insert d (set F \<union> ran T)) s t \<and> set F' \<subseteq> set F \<and> set F' \<union> ran T' = set F \<union> ran T)"
proof -
  let ?va = "n * PGSIZE"
  have va: "PDX ?va = n div 1024" "PTX ?va = n mod 1024"
    using PDX_PTX(1,2) [of ?va] vpn_bound(1) [OF assms(2)] by (simp_all add: vpn_simps)
  from walk_alloc [OF assms(1), of ?va] show ?thesis
  proof (elim disjE exE conjE)
    assume "walkpgdir d ?va True s = (None, s)" "F = []"
    then show ?thesis by (simp add: mappages_one [OF assms(2)])
  next
    fix u s1 F' T'
    assume w: "walkpgdir d ?va True s = (Some (u + 4 * PTX ?va), s1)" and a: "aspace s1 F' R d T'" and u: "T' (PDX ?va) = Some u"
      and e: "\<forall>n. entry s1 T' n = entry s T n" and g: "agree (insert d (set F)) s s1" and sub: "set F' \<subseteq> set F" "set F' \<union> ran T' = set F \<union> ran T"
    define t where "t = store32 (u + 4 * (n mod 1024)) (of_nat (V2P f) OR perm OR PTE_P) s1"
    have np: "\<not> present s1 T' n" using assms(3) e by (simp add: present_def)
    have f1: "page_ok s1 f" using assms(5) agree_page_ok [OF g] by simp
    have u': "T' (n div 1024) = Some u" using u va by simp
    note m = store_map [OF a u' np assms(2,4) f1 assms(6) t_def]
    have "load32 s1 (u + 4 * (n mod 1024)) = entry s1 T' n" using u' by (simp add: entry_def)
    then have "mappages d ?va PGSIZE (V2P f) perm s = Inr (True, t)"
      using w np by (simp add: mappages_one [OF assms(2)] va present_def t_def)
    moreover have "u \<in> ran T \<union> set F" using ranI [of T', OF u] sub(2) by blast
    then have "agree (insert d (set F \<union> ran T)) s t"
      by (intro agree_trans [OF g store_entry(4) [OF a u' t_def]]) auto
    ultimately show ?thesis using m e sub by (intro disjI2 exI [of _ t] exI [of _ F'] exI [of _ T']) simp
  qed
qed

text \<open>Unmapping a page: the page is freed before its entry is cleared, which comes to the same.\<close>

lemma put32_at: "put32 m a w x = (if a \<le> x \<and> x < a + 4 then ucast (drop_bit (8 * (x - a)) w) else m x)"
proof -
  have "a \<le> x \<Longrightarrow> x < a + 4 \<Longrightarrow> x = a \<or> x = a + 1 \<or> x = a + 2 \<or> x = a + 3" by linarith
  then show ?thesis by (auto simp: put32_def)
qed

lemma put32_commute: "a + 4 \<le> b \<or> b + 4 \<le> a \<Longrightarrow> put32 (put32 m a v) b w = put32 (put32 m b w) a v"
  by (rule ext) (auto simp: put32_at)

lemma put32_memset: "a + 4 \<le> p \<or> p + n \<le> a \<Longrightarrow> memset (put32 m a w) p c n = put32 (memset m p c n) a w"
  by (rule ext) (auto simp: put32_at memset_fills)

lemma kfree_store:
  assumes "p mod PGSIZE = 0" and "u mod PGSIZE = 0" and "p \<noteq> u" and "i < 1024"
  shows "kfree p (store32 (u + 4 * i) w s) = bindR (kfree p s) (\<lambda>t. Inr (store32 (u + 4 * i) w t))"
proof -
  have d: "u + 4 * i + 4 \<le> p \<or> p + PGSIZE \<le> u + 4 * i" using pages_apart [OF assms(1-3)] assms(4) unfolding PGSIZE_def by linarith
  then have d': "u + 4 * i + 4 \<le> p \<or> p + 4 \<le> u + 4 * i" unfolding PGSIZE_def by linarith
  show ?thesis by (simp add: kfree_def store32_def put32_memset [OF d] put32_commute [OF d'])
qed

lemma store_unmap:
  assumes "aspace s F R d T" and "T (n div 1024) = Some u" and "present s T n" and "n < UPAGES"
    and "t = store32 (u + 4 * (n mod 1024)) 0 s"
  shows "aspace t F (insert (frame s T n) R) d T"
proof -
  note A = aspaceD [OF assms(1)] and fr = frames_okD [OF aspaceD(5) [OF assms(1)]]
  note st = store_entry [OF assms(1,2,5)] and fn = fr [OF assms(4,3)]
  have nn: "\<not> present t T n" by (simp add: present_def st(5))
  have pg: "page_ok t q = page_ok s q" for q by (rule agree_page_ok [OF st(4)])
  have pf: "present t T m = present s T m" "frame t T m = frame s T m" if "m \<noteq> n" for m
    using that by (simp_all add: present_def frame_def st(5))
  show ?thesis
    unfolding aspace_def
  proof (intro conjI)
    show "tables_ok t F (insert (frame s T n) R) d T" by (rule tables_okI) (use tables_okD [OF st(3)] fn in auto)
    show "frames_ok t F (insert (frame s T n) R) d T"
    proof (rule frames_okI)
      fix m
      assume m: "m < UPAGES" "present t T m"
      then have mn: "m \<noteq> n" using nn by blast
      then have ms: "present s T m" using m pf by simp
      note fm = fr [OF m(1) ms]
      have "frame s T m \<noteq> frame s T n" using fm(6) [OF assms(4,3)] mn by blast
      then show "page_ok t (frame t T m) \<and> frame t T m \<noteq> d \<and> frame t T m \<notin> set F \<and> frame t T m \<notin> insert (frame s T n) R"
        using fm(1-4) pf [OF mn] by (simp add: pg)
      show "T i \<noteq> Some (frame t T m)" for i using fm(5) pf [OF mn] by simp
      show "m = k" if "k < UPAGES" "present t T k" "frame t T m = frame t T k" for k
        using fm(6) [of k] that pf [OF mn] pf [of k] nn by (cases "k = n") auto
    qed
  qed (use st A(2) fn in auto)
qed

lemma free_page:
  assumes "aspace s F R d T" and "T (n div 1024) = Some u" and "present s T n" and "n < UPAGES"
  shows "\<exists>t1 t. kfree (frame s T n) s = Inr t1 \<and> t = store32 (u + 4 * (n mod 1024)) 0 t1 \<and> aspace t (frame s T n # F) R d T \<and>
    agree {u, frame s T n} s t \<and> (\<forall>m. entry t T m = (if m = n then 0 else entry s T m))"
proof -
  note fr = frames_okD [OF aspaceD(5) [OF assms(1)] assms(4,3)]
  define s1 where "s1 = store32 (u + 4 * (n mod 1024)) 0 s"
  note st = store_entry [OF assms(1,2) s1_def] and B = store_unmap [OF assms s1_def]
  have p1: "page_ok s1 (frame s T n)" using fr(1) agree_page_ok [OF st(4)] by simp
  obtain t where t: "kfree (frame s T n) s1 = Inr t" "aspace t (frame s T n # F) (insert (frame s T n) R - {frame s T n}) d T"
    "agree {frame s T n} s1 t" "\<forall>m. entry t T m = entry s1 T m"
    using aspace_kfree [OF B _ p1] by blast
  have R: "insert (frame s T n) R - {frame s T n} = R" using fr(4) by simp
  have u: "page_ok s u" "u \<noteq> frame s T n" using tables_okD(4) [OF aspaceD(4) [OF assms(1)] assms(2)] fr(5) [of "n div 1024"] assms(2) by auto
  have "kfree (frame s T n) s1 = bindR (kfree (frame s T n) s) (\<lambda>t. Inr (store32 (u + 4 * (n mod 1024)) 0 t))"
    unfolding s1_def by (rule kfree_store) (use page_okD(1) [OF fr(1)] page_okD(1) [OF u(1)] u(2) in auto)
  then have "bindR (kfree (frame s T n) s) (\<lambda>t. Inr (store32 (u + 4 * (n mod 1024)) 0 t)) = Inr t" using t(1) by simp
  then obtain t1 where t1: "kfree (frame s T n) s = Inr t1" "t = store32 (u + 4 * (n mod 1024)) 0 t1"
    by (auto simp: bindR_eq_Inr)
  have "agree {u, frame s T n} s t" by (rule agree_trans [OF st(4) t(3)]) auto
  with t t1 R st(5) show ?thesis by auto
qed

section \<open>Deallocation\<close>

text \<open>The user pages from one number to another that are present, and their frames.\<close>

definition mapped_pages :: "kmem \<Rightarrow> (nat \<Rightarrow> nat option) \<Rightarrow> nat \<Rightarrow> nat \<Rightarrow> nat set" where
  "mapped_pages s T i N = {m. i \<le> m \<and> m < N \<and> present s T m}"

lemma wrap_page: "i < UPAGES \<Longrightarrow> (i * PGSIZE + PGSIZE) mod 2 ^ 32 = (i + 1) * PGSIZE"
proof -
  assume "i < UPAGES"
  then have "i * PGSIZE + PGSIZE < 2 ^ 32" using vpn_bound(2) [of i] by (simp add: KERNBASE_def)
  then show ?thesis by (simp only: mod_less) simp
qed

lemma skip_table:
  assumes "i < UPAGES"
  shows "((PGADDR (PDX (i * PGSIZE) + 1) 0 0 + 2 ^ 32 - PGSIZE) mod 2 ^ 32 + PGSIZE) mod 2 ^ 32 = ((i div 1024 + 1) * 1024) * PGSIZE"
proof -
  have d: "PDX (i * PGSIZE) = i div 1024" using PDX_PTX(1) [of "i * PGSIZE"] vpn_bound(1) [OF assms] by (simp add: vpn_simps)
  have le: "i div 1024 + 1 \<le> 512" using assms by (simp add: UPAGES_def kernel_layout)
  define x where "x = (i div 1024 + 1) * 4194304"
  have x: "4194304 \<le> x" "x < 2 ^ 32" using le by (simp_all add: x_def)
  have "PGADDR (PDX (i * PGSIZE) + 1) 0 0 = x" using x by (simp add: PGADDR_def d push_bit_eq_mult x_def)
  moreover have "x + 2 ^ 32 - PGSIZE = (x - PGSIZE) + 2 ^ 32" using x by (simp add: PGSIZE_def)
  moreover have "x - PGSIZE < 2 ^ 32" "x - PGSIZE + PGSIZE = x" using x by (simp_all add: PGSIZE_def)
  ultimately have "((PGADDR (PDX (i * PGSIZE) + 1) 0 0 + 2 ^ 32 - PGSIZE) mod 2 ^ 32 + PGSIZE) mod 2 ^ 32 = x"
    using x(2) by (simp only: mod_add_self2 mod_less)
  then show ?thesis by (simp add: x_def PGSIZE_def)
qed

lemma not_present_None: "T (n div 1024) = None \<Longrightarrow> \<not> present s T n"
  by (simp add: present_def entry_def)

lemma dealloc_loop:
  assumes "aspace s F R d T" and "i \<le> UPAGES" and "oldsz \<le> KERNBASE" and "N = (oldsz + PGSIZE - 1) div PGSIZE" and "N < i + k" and "0 < k"
  shows "\<exists>t F'. deallocuvm_loop k d (i * PGSIZE) oldsz s = Inr t \<and> aspace t F' R d T \<and>
    (\<forall>m. entry t T m = (if m \<in> mapped_pages s T i N then 0 else entry s T m)) \<and>
    agree (ran T \<union> frame s T ` mapped_pages s T i N) s t \<and> set F' = set F \<union> frame s T ` mapped_pages s T i N"
  using assms(1,2,5,6)
proof (induction k arbitrary: i s F)
  case 0
  then show ?case by simp
next
  case (Suc k)
  have lt: "i * PGSIZE < oldsz \<longleftrightarrow> i < N" for i unfolding assms(4) PGSIZE_def by linarith
  have iN: "N \<le> UPAGES"
    using div_le_mono [of "oldsz + PGSIZE - 1" "KERNBASE + PGSIZE - 1" PGSIZE] assms(3) by (simp add: assms(4) UPAGES_def kernel_layout)
  show ?case
  proof (cases "i < N")
    case False
    then have "mapped_pages s T i N = {}" by (auto simp: mapped_pages_def)
    then show ?thesis using False Suc.prems(1) lt by (intro exI [of _ s] exI [of _ F]) simp
  next
    case True
    then have iu: "i < UPAGES" using iN by simp
    have k0: "0 < k" using True Suc.prems(3) by simp
    let ?va = "i * PGSIZE"
    have va: "PDX ?va = i div 1024" "PTX ?va = i mod 1024"
      using PDX_PTX(1,2) [of ?va] vpn_bound(1) [OF iu] by (simp_all add: vpn_simps)
    note A = aspaceD [OF Suc.prems(1)]
    show ?thesis
    proof (cases "T (i div 1024)")
      case None
      define j where "j = (i div 1024 + 1) * 1024"
      have j: "i < j" "j \<le> UPAGES" using iu unfolding j_def UPAGES_def kernel_layout by auto
      have skip: "mapped_pages s T i N = mapped_pages s T j N"
      proof -
        have "\<not> present s T m" if "i \<le> m" "m < j" for m
        proof -
          have "m div 1024 = i div 1024" using that unfolding j_def by auto
          then show ?thesis using not_present_None None by simp
        qed
        then show ?thesis using j(1) unfolding mapped_pages_def by (auto intro: leI)
      qed
      obtain t F' where t: "deallocuvm_loop k d (j * PGSIZE) oldsz s = Inr t" "aspace t F' R d T"
        "\<forall>m. entry t T m = (if m \<in> mapped_pages s T j N then 0 else entry s T m)"
        "agree (ran T \<union> frame s T ` mapped_pages s T j N) s t" "set F' = set F \<union> frame s T ` mapped_pages s T j N"
        using Suc.IH [OF Suc.prems(1) j(2) _ k0] Suc.prems(3) j(1) by auto
      have w: "walkpgdir d ?va False s = (None, s)" by (rule walk_miss [OF A(3)]) (simp add: va None)
      have "deallocuvm_loop (Suc k) d ?va oldsz s = Inr t"
        using True lt [of i] t(1) skip_table [OF iu] by (simp add: w j_def)
      then show ?thesis using t(2-5) unfolding skip by blast
    next
      case (Some u)
      have u: "page_ok s u" using tables_okD(4) [OF A(4) Some] by blast
      have w: "walkpgdir d ?va False s = (Some (u + 4 * (i mod 1024)), s)"
        using walk_hit [OF A(3) _ u, of ?va False] Some by (simp add: va)
      have e: "load32 s (u + 4 * (i mod 1024)) = entry s T i" using Some by (simp add: entry_def)
      have i1: "i + 1 \<le> UPAGES" "N < i + 1 + k" using iu Suc.prems(3) by simp_all
      show ?thesis
      proof (cases "present s T i")
        case False
        have skip: "mapped_pages s T i N = mapped_pages s T (i + 1) N"
          using False by (auto simp: mapped_pages_def) (metis Suc_leI le_neq_implies_less)
        have "deallocuvm_loop (Suc k) d ?va oldsz s = deallocuvm_loop k d ((i + 1) * PGSIZE) oldsz s"
          using True lt [of i] False wrap_page [OF iu] by (simp add: w e present_def)
        then show ?thesis using Suc.IH [OF Suc.prems(1) i1 k0] unfolding skip by simp
      next
        case pr: True
        obtain t1 t2 where f: "kfree (frame s T i) s = Inr t1" "t2 = store32 (u + 4 * (i mod 1024)) 0 t1"
          "aspace t2 (frame s T i # F) R d T" "agree {u, frame s T i} s t2" "\<forall>m. entry t2 T m = (if m = i then 0 else entry s T m)"
          using free_page [OF Suc.prems(1) Some pr iu] by blast
        have pf: "present t2 T m \<longleftrightarrow> m \<noteq> i \<and> present s T m" "m \<noteq> i \<Longrightarrow> frame t2 T m = frame s T m" for m
          using f(5) by (simp_all add: present_def frame_def)
        have m1: "mapped_pages t2 T (i + 1) N = mapped_pages s T (i + 1) N" by (auto simp: mapped_pages_def pf)
        have m2: "mapped_pages s T i N = insert i (mapped_pages s T (i + 1) N)" using pr True by (auto simp: mapped_pages_def)
        have im: "frame t2 T ` mapped_pages s T (i + 1) N = frame s T ` mapped_pages s T (i + 1) N"
          by (rule image_cong) (auto simp: mapped_pages_def pf)
        obtain t F' where t: "deallocuvm_loop k d ((i + 1) * PGSIZE) oldsz t2 = Inr t" "aspace t F' R d T"
          "\<forall>m. entry t T m = (if m \<in> mapped_pages s T (i + 1) N then 0 else entry t2 T m)"
          "agree (ran T \<union> frame s T ` mapped_pages s T (i + 1) N) t2 t" "set F' = set (frame s T i # F) \<union> frame s T ` mapped_pages s T (i + 1) N"
          using Suc.IH [OF f(3) i1 k0] unfolding m1 im by blast
        have fr: "page_ok s (frame s T i)" using frames_okD(1) [OF A(5) iu pr] .
        then have P: "PTE_ADDR (entry s T i) \<noteq> 0" using page_okD(3) [OF fr] by (auto simp: frame_def P2V_def KERNBASE_def)
        have "deallocuvm_loop (Suc k) d ?va oldsz s = Inr t"
          using True lt [of i] pr t(1) f(1,2) P wrap_page [OF iu] by (simp add: w e present_def frame_def Let_def)
        moreover have "agree (ran T \<union> frame s T ` mapped_pages s T i N) s t"
          by (rule agree_trans [OF f(4) t(4)]) (use ranI [of T, OF Some] in \<open>auto simp: m2\<close>)
        moreover have "\<forall>m. entry t T m = (if m \<in> mapped_pages s T i N then 0 else entry s T m)" using t(3) f(5) by (simp add: m2)
        moreover have "set F' = set F \<union> frame s T ` mapped_pages s T i N" using t(5) by (simp add: m2)
        ultimately show ?thesis using t(2) by blast
      qed
    qed
  qed
qed

definition npages :: "nat \<Rightarrow> nat" where
  "npages sz = (sz + PGSIZE - 1) div PGSIZE"

lemma npages_mono: "a \<le> b \<Longrightarrow> npages a \<le> npages b"
  unfolding npages_def by (rule div_le_mono) simp

lemma npages_UPAGES: "sz \<le> KERNBASE \<Longrightarrow> npages sz \<le> UPAGES"
  using npages_mono [of sz KERNBASE] by (simp add: npages_def UPAGES_def kernel_layout)

lemma npages_less: "i * PGSIZE < sz \<longleftrightarrow> i < npages sz"
  unfolding npages_def PGSIZE_def by linarith

lemma PGROUNDUP_npages: "sz \<le> KERNBASE \<Longrightarrow> PGROUNDUP sz = npages sz * PGSIZE"
  by (simp add: PGROUNDUP_def npages_def kernel_layout)

lemma dealloc_ok:
  assumes "aspace s F R d T" and "oldsz \<le> KERNBASE" and "newsz < oldsz"
  shows "\<exists>t F'. deallocuvm d oldsz newsz s = Inr (newsz, t) \<and> aspace t F' R d T \<and>
    (\<forall>m. entry t T m = (if m \<in> mapped_pages s T (npages newsz) (npages oldsz) then 0 else entry s T m)) \<and>
    agree (ran T \<union> frame s T ` mapped_pages s T (npages newsz) (npages oldsz)) s t \<and>
    set F' = set F \<union> frame s T ` mapped_pages s T (npages newsz) (npages oldsz)"
proof -
  have "npages newsz \<le> UPAGES" using npages_UPAGES assms(2,3) by simp
  moreover have "npages oldsz < npages newsz + (oldsz div PGSIZE + 2)" unfolding npages_def PGSIZE_def by linarith
  ultimately obtain t F' where t: "deallocuvm_loop (oldsz div PGSIZE + 2) d (npages newsz * PGSIZE) oldsz s = Inr t" "aspace t F' R d T"
    "\<forall>m. entry t T m = (if m \<in> mapped_pages s T (npages newsz) (npages oldsz) then 0 else entry s T m)"
    "agree (ran T \<union> frame s T ` mapped_pages s T (npages newsz) (npages oldsz)) s t"
    "set F' = set F \<union> frame s T ` mapped_pages s T (npages newsz) (npages oldsz)"
    using dealloc_loop [OF assms(1) _ assms(2) npages_def, of "npages newsz" "oldsz div PGSIZE + 2"] by auto
  then show ?thesis using assms(2,3) by (auto simp: deallocuvm_def PGROUNDUP_npages)
qed

section \<open>Allocation\<close>

definition zero_page :: "kmem \<Rightarrow> nat \<Rightarrow> bool" where
  "zero_page s p \<longleftrightarrow> (\<forall>a. p \<le> a \<longrightarrow> a < p + PGSIZE \<longrightarrow> kbytes s a = 0)"

lemma zero_page_same: "zero_page s p \<Longrightarrow> same_page p (kbytes s) (kbytes t) \<Longrightarrow> zero_page t p"
  by (simp add: zero_page_def same_page_def)

lemma zero_set_page: "zero_page (set_page p 0 s) p"
  by (simp add: zero_page_def set_page_def memset_fills)

text \<open>New user pages, from the free list, writable and filled with zeros.\<close>

text \<open>The frames of the user pages, and all pages that are free or held by a directory.\<close>

definition user_frames :: "kmem \<Rightarrow> (nat \<Rightarrow> nat option) \<Rightarrow> nat set" where
  "user_frames s T = frame s T ` {m. m < UPAGES \<and> present s T m}"

definition held_pages :: "kmem \<Rightarrow> nat list \<Rightarrow> (nat \<Rightarrow> nat option) \<Rightarrow> nat set" where
  "held_pages s F T = set F \<union> ran T \<union> user_frames s T"

lemma user_frames_cong:
  "(\<And>m. m < UPAGES \<Longrightarrow> present t T' m \<longleftrightarrow> present s T m) \<Longrightarrow> (\<And>m. m < UPAGES \<Longrightarrow> present s T m \<Longrightarrow> entry t T' m = entry s T m) \<Longrightarrow>
    user_frames t T' = user_frames s T"
  unfolding user_frames_def by (rule image_cong) (auto simp: frame_def)

lemma user_frames_same: "(\<And>m. entry t T m = entry s T m) \<Longrightarrow> user_frames t T = user_frames s T"
  by (simp add: user_frames_def frame_def present_def)

lemma user_frames_insert:
  assumes "i < UPAGES" and "present t T' i" and "\<not> present s T i" and "\<And>m. m \<noteq> i \<Longrightarrow> entry t T' m = entry s T m"
  shows "user_frames t T' = insert (frame t T' i) (user_frames s T)"
proof -
  have pf: "present t T' m = present s T m" "frame t T' m = frame s T m" if "m \<noteq> i" for m
    using assms(4) [OF that] by (simp_all add: present_def frame_def)
  have "{m. m < UPAGES \<and> present t T' m} = insert i {m. m < UPAGES \<and> present s T m}"
  proof (rule set_eqI)
    show "x \<in> {m. m < UPAGES \<and> present t T' m} \<longleftrightarrow> x \<in> insert i {m. m < UPAGES \<and> present s T m}" for x
      using assms(1,2) pf(1) [of x] by (cases "x = i") auto
  qed
  moreover have "frame t T' ` {m. m < UPAGES \<and> present s T m} = frame s T ` {m. m < UPAGES \<and> present s T m}"
  proof (rule image_cong [OF refl])
    show "frame t T' x = frame s T x" if "x \<in> {m. m < UPAGES \<and> present s T m}" for x
      using that assms(3) pf(2) [of x] by (cases "x = i") auto
  qed
  ultimately show ?thesis by (simp add: user_frames_def)
qed

definition new_pages :: "nat list \<Rightarrow> kmem \<Rightarrow> (nat \<Rightarrow> nat option) \<Rightarrow> nat \<Rightarrow> nat \<Rightarrow> bool" where
  "new_pages F t T i N \<longleftrightarrow> (\<forall>m. i \<le> m \<longrightarrow> m < N \<longrightarrow> present t T m \<and> frame t T m \<in> set F \<and>
     entry t T m = of_nat (V2P (frame t T m)) OR (PTE_W OR PTE_U) OR PTE_P \<and> zero_page t (frame t T m))"

text \<open>A page from the allocator, cleared and mapped.\<close>

lemma alloc_page:
  assumes "aspace s F R d T" and "i < UPAGES" and "\<not> present s T i" and "kalloc s = (mem, s1)"
  shows "(mem = 0 \<and> s1 = s \<and> F = []) \<or>
    (mem \<noteq> 0 \<and> (\<exists>F1. F = mem # F1 \<and>
      ((\<exists>s2. mappages d (i * PGSIZE) PGSIZE (V2P mem) (PTE_W OR PTE_U) (set_page mem 0 s1) = Inr (False, s2) \<and> aspace s2 [] (insert mem R) d T \<and>
          (\<forall>m. entry s2 T m = entry s T m) \<and> agree {mem} s s2 \<and> F1 = [] \<and> page_ok s2 mem \<and> mem \<notin> R) \<or>
       (\<exists>t F2 T2. mappages d (i * PGSIZE) PGSIZE (V2P mem) (PTE_W OR PTE_U) (set_page mem 0 s1) = Inr (True, t) \<and> aspace t F2 R d T2 \<and>
          new_pages F t T2 i (i + 1) \<and> (\<forall>m. m \<noteq> i \<longrightarrow> entry t T2 m = entry s T m) \<and>
          agree (insert d (set F \<union> ran T)) s t \<and> set F2 \<subseteq> set F \<and> ran T2 \<subseteq> ran T \<union> set F \<and> held_pages t F2 T2 = held_pages s F T))))"
proof (cases F)
  case Nil
  then show ?thesis using assms(1,4) kalloc_Nil aspaceD(1) by auto
next
  case (Cons p F1)
  obtain u where u: "kalloc s = (p, u)" "aspace u F1 (insert p R) d T" "agree {} s u" "\<forall>n. entry u T n = entry s T n" "p \<notin> R" "page_ok s p"
    using aspace_kalloc [of s p F1 R d T] assms(1) Cons by blast
  have pm: "p = mem" "u = s1" using u(1) assms(4) by simp_all
  note u = u [unfolded pm]
  have p1: "page_ok s1 mem" using u(6) agree_page_ok [OF u(3)] by simp
  define s2 where "s2 = set_page mem 0 s1"
  have g2: "agree {mem} s1 s2" unfolding s2_def by (rule agree_set_page [OF p1])
  note A = aspaceD [OF u(2)] and tb = tables_okD [OF aspaceD(4) [OF u(2)]]
  have B: "aspace s2 F1 (insert mem R) d T" and e2: "\<And>n. entry s2 T n = entry s1 T n"
    by (rule aspace_agree [OF u(2) g2]; use A(2) tb in \<open>auto simp: s2_def\<close>)+
  have p2: "page_ok s2 mem" using p1 agree_page_ok [OF g2] by simp
  have np: "\<not> present s2 T i" using assms(3) e2 u(4) by (simp add: present_def)
  have gs: "agree {mem} s s2" by (rule agree_trans [OF u(3) g2]) auto
  have m0: "mem \<noteq> 0" using page_okD(5) [OF p1] .
  have fl: "take_bit 12 (PTE_W OR PTE_U) = PTE_W OR PTE_U" by simp
  from map_page [OF B assms(2) np insertI1 p2 fl] show ?thesis
  proof (elim disjE exE conjE)
    assume "mappages d (i * PGSIZE) PGSIZE (V2P mem) (PTE_W OR PTE_U) s2 = Inr (False, s2)" "F1 = []"
    then show ?thesis using Cons pm m0 B e2 u(4,5) gs p2 unfolding s2_def [symmetric] by auto
  next
    fix t F2 T2
    assume t: "mappages d (i * PGSIZE) PGSIZE (V2P mem) (PTE_W OR PTE_U) s2 = Inr (True, t)" "aspace t F2 (insert mem R - {mem}) d T2"
      "present t T2 i" "frame t T2 i = mem"
      "\<forall>m. entry t T2 m = (if m = i then of_nat (V2P mem) OR (PTE_W OR PTE_U) OR PTE_P else entry s2 T m)"
      "agree (insert d (set F1 \<union> ran T)) s2 t" "set F2 \<subseteq> set F1" "set F2 \<union> ran T2 = set F1 \<union> ran T"
    have nin: "mem \<noteq> d" "mem \<notin> set F1" "mem \<notin> ran T" using A(2) tb(3,4) by (auto simp: ran_def)
    have R: "insert mem R - {mem} = R" using u(5) by simp
    have "zero_page t mem"
      by (rule zero_page_same [OF zero_set_page [of mem s1, folded s2_def] agree_page [OF t(6) p2]]) (use nin in simp)
    then have "new_pages F t T2 i (i + 1)"
      using t(3-5) Cons pm unfolding new_pages_def by (metis Suc_eq_plus1 less_Suc_eq_le le_antisym list.set_intros(1))
    moreover have "agree (insert d (set F \<union> ran T)) s t" by (rule agree_trans [OF gs t(6)]) (use Cons pm in auto)
    moreover have "\<forall>m. m \<noteq> i \<longrightarrow> entry t T2 m = entry s T m" using t(5) e2 u(4) by simp
    moreover have "user_frames t T2 = insert mem (user_frames s T)"
      using user_frames_insert [OF assms(2) t(3) assms(3)] t(4,5) e2 u(4) by simp
    then have "held_pages t F2 T2 = held_pages s F T" using t(8) Cons pm by (auto simp: held_pages_def)
    ultimately show ?thesis using t(1,2,7,8) R Cons pm m0 unfolding s2_def [symmetric]
      by (intro disjI2 conjI exI [of _ F1] exI [of _ t] exI [of _ F2] exI [of _ T2]) auto
  qed
qed

lemma new_pages_keep:
  assumes "new_pages F s T i j" and "aspace s F1 R d T" and "j \<le> UPAGES" and "agree (insert d (set F1 \<union> ran T)) s t"
    and "\<And>m. i \<le> m \<Longrightarrow> m < j \<Longrightarrow> entry t T' m = entry s T m"
  shows "new_pages F t T' i j"
  unfolding new_pages_def
proof (intro allI impI)
  fix m
  assume m: "i \<le> m" "m < j"
  have n: "present s T m" "frame s T m \<in> set F" "entry s T m = of_nat (V2P (frame s T m)) OR (PTE_W OR PTE_U) OR PTE_P" "zero_page s (frame s T m)"
    using assms(1) m unfolding new_pages_def by blast+
  have f: "frame t T' m = frame s T m" "present t T' m" using assms(5) [OF m] n(1) by (simp_all add: frame_def present_def)
  have mu: "m < UPAGES" using m(2) assms(3) by simp
  note fr = frames_okD [OF aspaceD(5) [OF assms(2)] mu n(1)]
  have "frame s T m \<notin> insert d (set F1 \<union> ran T)" using fr(2,3,5) by (auto simp: ran_def)
  then have "zero_page t (frame s T m)" by (intro zero_page_same [OF n(4) agree_page [OF assms(4) fr(1)]])
  then show "present t T' m \<and> frame t T' m \<in> set F \<and> entry t T' m = of_nat (V2P (frame t T' m)) OR (PTE_W OR PTE_U) OR PTE_P \<and>
      zero_page t (frame t T' m)" using f n(2,3) assms(5) [OF m] by simp
qed

definition alloc_post :: "nat \<Rightarrow> nat \<Rightarrow> nat \<Rightarrow> kmem \<Rightarrow> nat list \<Rightarrow> nat set \<Rightarrow> nat \<Rightarrow> (nat \<Rightarrow> nat option) \<Rightarrow> nat \<Rightarrow> kmem \<Rightarrow> bool" where
  "alloc_post i oldsz newsz s F R d T r t \<longleftrightarrow> (\<exists>F' T'. aspace t F' R d T' \<and> held_pages t F' T' = held_pages s F T \<and>
     (\<forall>m. m < npages oldsz \<or> npages newsz \<le> m \<longrightarrow> entry t T' m = entry s T m) \<and>
     (r = newsz \<and> new_pages F t T' i (npages newsz) \<and> (\<forall>m < i. entry t T' m = entry s T m) \<and> agree (insert d (set F \<union> ran T)) s t \<or>
      r = 0 \<and> (\<forall>m. npages oldsz \<le> m \<longrightarrow> m < npages newsz \<longrightarrow> \<not> present t T' m) \<and>
        agree (insert d (set F \<union> ran T \<union> frame s T ` mapped_pages s T (npages oldsz) (npages newsz))) s t))"

lemma alloc_fail:
  assumes "aspace s F R d T" and "newsz < KERNBASE" and "oldsz < newsz"
  shows "\<exists>t F'. deallocuvm d newsz oldsz s = Inr (oldsz, t) \<and> aspace t F' R d T \<and> held_pages t F' T = held_pages s F T \<and>
    (\<forall>m. m < npages oldsz \<or> npages newsz \<le> m \<longrightarrow> entry t T m = entry s T m) \<and>
    (\<forall>m. npages oldsz \<le> m \<longrightarrow> m < npages newsz \<longrightarrow> \<not> present t T m) \<and>
    agree (insert d (set F \<union> ran T \<union> frame s T ` mapped_pages s T (npages oldsz) (npages newsz))) s t"
proof -
  obtain t F' where t: "deallocuvm d newsz oldsz s = Inr (oldsz, t)" "aspace t F' R d T"
    "\<forall>m. entry t T m = (if m \<in> mapped_pages s T (npages oldsz) (npages newsz) then 0 else entry s T m)"
    "agree (ran T \<union> frame s T ` mapped_pages s T (npages oldsz) (npages newsz)) s t"
    "set F' = set F \<union> frame s T ` mapped_pages s T (npages oldsz) (npages newsz)"
    using dealloc_ok [OF assms(1) _ assms(3)] assms(2) by auto
  let ?M = "mapped_pages s T (npages oldsz) (npages newsz)" and ?U = "{m. m < UPAGES \<and> present s T m}"
  have MU: "?M \<subseteq> ?U" using npages_UPAGES [of newsz] assms(2) by (auto simp: mapped_pages_def)
  have "user_frames t T = frame s T ` (?U - ?M)"
    unfolding user_frames_def by (rule image_cong) (auto simp: present_def frame_def t(3) split: if_splits)
  then have "held_pages t F' T = held_pages s F T" using t(5) MU by (auto simp: held_pages_def user_frames_def)
  note held = this
  have "agree (insert d (set F \<union> ran T \<union> frame s T ` mapped_pages s T (npages oldsz) (npages newsz))) s t"
    by (rule agree_mono [OF t(4)]) auto
  moreover have "\<not> present t T m" if "npages oldsz \<le> m" "m < npages newsz" for m
    using t(3) that by (cases "present s T m") (simp_all add: present_def mapped_pages_def)
  moreover have "\<forall>m. m < npages oldsz \<or> npages newsz \<le> m \<longrightarrow> entry t T m = entry s T m" using t(3) by (auto simp: mapped_pages_def)
  ultimately show ?thesis using t(1,2) held by blast
qed

lemma alloc_loop:
  assumes "aspace s F R d T" and "newsz < KERNBASE" and "npages oldsz \<le> i" and "oldsz < newsz"
    and "\<And>m. i \<le> m \<Longrightarrow> m < npages newsz \<Longrightarrow> \<not> present s T m"
  shows "\<exists>r t. allocuvm_loop d (i * PGSIZE) oldsz newsz s = Inr (r, t) \<and> alloc_post i oldsz newsz s F R d T r t"
  using assms(1,3,5)
proof (induction "npages newsz - i" arbitrary: i s F T)
  case 0
  then have "\<not> i < npages newsz" by simp
  then have "allocuvm_loop d (i * PGSIZE) oldsz newsz s = Inr (newsz, s)" by (simp add: allocuvm_loop.simps [of d "i * PGSIZE"] npages_less)
  moreover have "alloc_post i oldsz newsz s F R d T newsz s"
    using 0 unfolding alloc_post_def new_pages_def by (intro exI [of _ F] exI [of _ T]) auto
  ultimately show ?case by blast
next
  case (Suc k)
  have iN: "i < npages newsz" using Suc.hyps(2) by simp
  have iu: "i < UPAGES" using iN npages_UPAGES [of newsz] assms(2) by simp
  have np: "\<not> present s T i" using Suc.prems(3) iN by simp
  obtain mem s1 where k: "kalloc s = (mem, s1)" by fastforce
  have nx: "(i + 1) * PGSIZE = i * PGSIZE + PGSIZE" by simp
  have step: "allocuvm_loop d (i * PGSIZE) oldsz newsz s =
      (if mem = 0 then bindR (deallocuvm d newsz oldsz s1) (\<lambda>(_, s). Inr (0, s))
       else bindR (mappages d (i * PGSIZE) PGSIZE (V2P mem) (PTE_W OR PTE_U) (set_page mem 0 s1)) (\<lambda>(ok, s).
          if \<not> ok then bindR (deallocuvm d newsz oldsz s) (\<lambda>(_, s). bindR (kfree mem s) (\<lambda>s. Inr (0, s)))
          else allocuvm_loop d ((i + 1) * PGSIZE) oldsz newsz s))"
    using iN unfolding nx by (simp add: allocuvm_loop.simps [of d "i * PGSIZE"] npages_less k)
  from alloc_page [OF Suc.prems(1) iu np k] show ?case
  proof (elim disjE exE conjE)
    assume m: "mem = 0" "s1 = s" "F = []"
    obtain t F' where "deallocuvm d newsz oldsz s = Inr (oldsz, t)" "aspace t F' R d T" "held_pages t F' T = held_pages s F T"
      "\<forall>m. m < npages oldsz \<or> npages newsz \<le> m \<longrightarrow> entry t T m = entry s T m"
      "\<forall>m. npages oldsz \<le> m \<longrightarrow> m < npages newsz \<longrightarrow> \<not> present t T m"
      "agree (insert d (set F \<union> ran T \<union> frame s T ` mapped_pages s T (npages oldsz) (npages newsz))) s t"
      using alloc_fail [OF Suc.prems(1) assms(2,4)] by blast
    then show ?thesis using m step unfolding alloc_post_def by auto
  next
    fix F1 s2
    assume m: "mem \<noteq> 0" "F = mem # F1" "mappages d (i * PGSIZE) PGSIZE (V2P mem) (PTE_W OR PTE_U) (set_page mem 0 s1) = Inr (False, s2)"
      "aspace s2 [] (insert mem R) d T" "\<forall>m. entry s2 T m = entry s T m" "agree {mem} s s2" "F1 = []" "page_ok s2 mem" "mem \<notin> R"
    have pf: "present s2 T = present s T" "frame s2 T = frame s T" using m(5) by (auto simp: present_def frame_def fun_eq_iff)
    then have mp: "mapped_pages s2 T = mapped_pages s T" by (simp add: mapped_pages_def fun_eq_iff)
    obtain t1 F' where t1: "deallocuvm d newsz oldsz s2 = Inr (oldsz, t1)" "aspace t1 F' (insert mem R) d T"
      "\<forall>m. m < npages oldsz \<or> npages newsz \<le> m \<longrightarrow> entry t1 T m = entry s2 T m"
      "\<forall>m. npages oldsz \<le> m \<longrightarrow> m < npages newsz \<longrightarrow> \<not> present t1 T m"
      "agree (insert d (set [] \<union> ran T \<union> frame s T ` mapped_pages s T (npages oldsz) (npages newsz))) s2 t1"
      "held_pages t1 F' T = held_pages s2 [] T"
      using alloc_fail [OF m(4) assms(2,4)] unfolding pf mp by blast
    have p1: "page_ok t1 mem" using m(8) agree_page_ok [OF t1(5)] by simp
    obtain t where t: "kfree mem t1 = Inr t" "aspace t (mem # F') (insert mem R - {mem}) d T" "agree {mem} t1 t" "\<forall>n. entry t T n = entry t1 T n"
      using aspace_kfree [OF t1(2) insertI1 p1] by blast
    have "insert mem R - {mem} = R" using m(9) by simp
    moreover have "agree (insert mem (insert d (ran T \<union> frame s T ` mapped_pages s T (npages oldsz) (npages newsz)))) s t1"
      by (rule agree_trans [OF m(6) t1(5)]) auto
    then have "agree (insert d (set F \<union> ran T \<union> frame s T ` mapped_pages s T (npages oldsz) (npages newsz))) s t"
      by (rule agree_trans [OF _ t(3)]) (auto simp: m(2))
    moreover have "held_pages t (mem # F') T = held_pages s F T"
      using t1(6) m(2,7) user_frames_same [of t T t1] user_frames_same [of s2 T s] t(4) m(5) by (auto simp: held_pages_def)
    ultimately have "alloc_post i oldsz newsz s F R d T 0 t"
      unfolding alloc_post_def using t t1(3,4) m(5)
      by (intro exI [of _ "mem # F'"] exI [of _ T]) (simp add: present_def)
    then show ?thesis using m t t1 step by simp
  next
    fix F1 s2 F2 T2
    assume m: "mem \<noteq> 0" "F = mem # F1" "mappages d (i * PGSIZE) PGSIZE (V2P mem) (PTE_W OR PTE_U) (set_page mem 0 s1) = Inr (True, s2)"
      "aspace s2 F2 R d T2" "new_pages F s2 T2 i (i + 1)" "\<forall>m. m \<noteq> i \<longrightarrow> entry s2 T2 m = entry s T m"
      "agree (insert d (set F \<union> ran T)) s s2" "set F2 \<subseteq> set F" "ran T2 \<subseteq> ran T \<union> set F" "held_pages s2 F2 T2 = held_pages s F T"
    have pf: "present s2 T2 n = present s T n" "frame s2 T2 n = frame s T n" if "n \<noteq> i" for n using m(6) that by (simp_all add: present_def frame_def)
    have fi: "frame s2 T2 i \<in> set F" using m(5) unfolding new_pages_def by simp
    have k': "k = npages newsz - (i + 1)" using Suc.hyps(2) by simp
    have np2: "\<not> present s2 T2 m" if "i + 1 \<le> m" "m < npages newsz" for m using that pf(1) [of m] Suc.prems(3) [of m] by simp
    obtain r t where IH: "allocuvm_loop d ((i + 1) * PGSIZE) oldsz newsz s2 = Inr (r, t)" "alloc_post (i + 1) oldsz newsz s2 F2 R d T2 r t"
      using Suc.hyps(1) [OF k' m(4) _ np2] Suc.prems(2) by auto
    have sub: "insert d (set F2 \<union> ran T2) \<subseteq> insert d (set F \<union> ran T)" using m(8,9) by auto
    have fm: "frame s2 T2 ` mapped_pages s2 T2 (npages oldsz) (npages newsz) \<subseteq> set F \<union> frame s T ` mapped_pages s T (npages oldsz) (npages newsz)"
    proof
      fix x
      assume "x \<in> frame s2 T2 ` mapped_pages s2 T2 (npages oldsz) (npages newsz)"
      then obtain n where n: "x = frame s2 T2 n" "n \<in> mapped_pages s2 T2 (npages oldsz) (npages newsz)" by blast
      then show "x \<in> set F \<union> frame s T ` mapped_pages s T (npages oldsz) (npages newsz)"
        using fi pf by (cases "n = i") (auto simp: mapped_pages_def)
    qed
    obtain F' T' where p: "aspace t F' R d T'" "\<forall>m. m < npages oldsz \<or> npages newsz \<le> m \<longrightarrow> entry t T' m = entry s2 T2 m"
      "held_pages t F' T' = held_pages s2 F2 T2"
      and c: "r = newsz \<and> new_pages F2 t T' (i + 1) (npages newsz) \<and> (\<forall>m < i + 1. entry t T' m = entry s2 T2 m) \<and> agree (insert d (set F2 \<union> ran T2)) s2 t \<or>
      r = 0 \<and> (\<forall>m. npages oldsz \<le> m \<longrightarrow> m < npages newsz \<longrightarrow> \<not> present t T' m) \<and>
        agree (insert d (set F2 \<union> ran T2 \<union> frame s2 T2 ` mapped_pages s2 T2 (npages oldsz) (npages newsz))) s2 t"
      using IH(2) unfolding alloc_post_def by blast
    have held: "held_pages t F' T' = held_pages s F T" using p(3) m(10) by simp
    have out: "\<forall>m. m < npages oldsz \<or> npages newsz \<le> m \<longrightarrow> entry t T' m = entry s T m"
      using p(2) m(6) Suc.prems(2) iN by auto
    from c have "alloc_post i oldsz newsz s F R d T r t"
    proof (elim disjE conjE)
      assume c: "r = newsz" "new_pages F2 t T' (i + 1) (npages newsz)" "\<forall>m < i + 1. entry t T' m = entry s2 T2 m" "agree (insert d (set F2 \<union> ran T2)) s2 t"
      have "new_pages F t T' i (i + 1)"
        by (rule new_pages_keep [OF m(5,4) _ c(4)]) (use iu c(3) in auto)
      then have "new_pages F t T' i (npages newsz)"
        using c(2) m(8) unfolding new_pages_def by (metis Suc_eq_plus1 Suc_leI le_neq_implies_less lessI subsetD less_Suc_eq_le)
      moreover have "agree (insert d (set F \<union> ran T)) s t" by (rule agree_trans [OF m(7) c(4) order_refl sub])
      moreover have "\<forall>m < i. entry t T' m = entry s T m" using c(3) m(6) by simp
      ultimately show ?thesis using p(1) out c(1) held unfolding alloc_post_def by blast
    next
      assume c: "r = 0" "\<forall>m. npages oldsz \<le> m \<longrightarrow> m < npages newsz \<longrightarrow> \<not> present t T' m"
        "agree (insert d (set F2 \<union> ran T2 \<union> frame s2 T2 ` mapped_pages s2 T2 (npages oldsz) (npages newsz))) s2 t"
      have "agree (insert d (set F \<union> ran T \<union> frame s T ` mapped_pages s T (npages oldsz) (npages newsz))) s t"
        by (rule agree_trans [OF m(7) c(3)]) (use sub fm in auto)
      then show ?thesis using p(1) out c(1,2) held unfolding alloc_post_def by blast
    qed
    then show ?thesis using m(1,3) IH(1) step by simp
  qed
qed

section \<open>A new directory\<close>

lemma fresh_dir:
  assumes "free_ok s (p # F)" and "set (p # F) \<inter> R = {}"
  shows "\<exists>t. kalloc s = (p, t) \<and> aspace (set_page p 0 t) F R p Map.empty \<and> agree {p} s (set_page p 0 t) \<and> page_ok s p"
proof -
  obtain n where n: "kalloc s = (p, s \<lparr> freelist := n \<rparr>)" "free_ok (s \<lparr> freelist := n \<rparr>) F" using kalloc_Cons [OF assms(1)] by blast
  define t where "t = s \<lparr> freelist := n \<rparr>"
  have p: "page_ok s p" "p \<notin> set F" using assms(1) by (simp_all add: free_ok_def)
  then have pt: "page_ok t p" by (simp add: t_def)
  have g: "agree {p} t (set_page p 0 t)" by (rule agree_set_page [OF pt])
  have "free_ok (set_page p 0 t) F" by (rule free_ok_agree [OF _ g]) (use n(2) p(2) in \<open>simp_all add: t_def\<close>)
  moreover have "dir_ok (set_page p 0 t) p Map.empty" by (simp add: dir_ok_def load_set_page)
  moreover have "tables_ok (set_page p 0 t) F R p Map.empty"
    by (rule tables_okI) (use pt p(2) assms(2) agree_page_ok [OF g] in auto)
  moreover have "frames_ok (set_page p 0 t) F R p Map.empty" by (simp add: frames_ok_def not_present_None)
  ultimately have "aspace (set_page p 0 t) F R p Map.empty" using assms(2) unfolding aspace_def by auto
  moreover have "agree {p} s (set_page p 0 t)" using g by (simp add: t_def)
  ultimately show ?thesis using n(1) p(1) by (simp add: t_def)
qed

section \<open>Growing a process\<close>

text \<open>The byte that a user address stands for.\<close>

definition user_byte :: "kmem \<Rightarrow> (nat \<Rightarrow> nat option) \<Rightarrow> nat \<Rightarrow> u8" where
  "user_byte s T va = kbytes s (frame s T (va div PGSIZE) + va mod PGSIZE)"

lemma user_byte_same:
  "frame t T' (va div PGSIZE) = frame s T (va div PGSIZE) \<Longrightarrow> same_page (frame s T (va div PGSIZE)) (kbytes s) (kbytes t) \<Longrightarrow>
    user_byte t T' va = user_byte s T va"
  by (simp add: user_byte_def same_page_def PGSIZE_def)

lemma user_byte_zero: "zero_page s (frame s T (va div PGSIZE)) \<Longrightarrow> user_byte s T va = 0"
  by (simp add: user_byte_def zero_page_def PGSIZE_def)

lemma user_page: "va < sz \<Longrightarrow> va div PGSIZE < npages sz"
  by (simp add: npages_less [symmetric] PGSIZE_def)

text \<open>C17:
  \<open>allocuvm\<close> grows the memory of a process, or fails as a whole. For any page directory in memory, and whatever memory is
  left, it returns; the pages the process had keep their frames and their content; on success every address up to
  the new size has a page, with zeros where it is new, that was free before; on failure no page above the old size is left, and
  everything is given back: the frames of the user are those from before, so that every page that was free is free again or serves as a
  page table of the directory. In no case is a page lost: the free pages, the tables and the frames are together the same as before. The
  directory, its tables, the frames and the free pages are different pages again.
\<close>

theorem allocuvm_grows:
  assumes "aspace s F R d T" and "oldsz \<le> newsz" and "newsz < KERNBASE"
    and "\<forall>m. npages oldsz \<le> m \<and> m < npages newsz \<longrightarrow> \<not> present s T m"
  shows "\<exists>r t F' T'. allocuvm d oldsz newsz s = Inr (r, t) \<and> aspace t F' R d T' \<and> held_pages t F' T' = held_pages s F T \<and>
    (\<forall>va < npages oldsz * PGSIZE. entry t T' (va div PGSIZE) = entry s T (va div PGSIZE) \<and>
      (present s T (va div PGSIZE) \<longrightarrow> user_byte t T' va = user_byte s T va)) \<and>
    (r = newsz \<and> (\<forall>va < npages newsz * PGSIZE. npages oldsz * PGSIZE \<le> va \<longrightarrow>
       present t T' (va div PGSIZE) \<and> frame t T' (va div PGSIZE) \<in> set F \<and> user_byte t T' va = 0) \<or>
     r = 0 \<and> (\<forall>m. npages oldsz \<le> m \<and> m < npages newsz \<longrightarrow> \<not> present t T' m) \<and> user_frames t T' = user_frames s T)"
proof (cases "oldsz = newsz")
  case True
  have "\<not> PGROUNDUP newsz < newsz" using assms(3) by (simp add: PGROUNDUP_npages npages_less)
  then have "allocuvm d oldsz newsz s = Inr (newsz, s)" using assms(3) True by (simp add: allocuvm_def allocuvm_loop.simps)
  with assms(1) True show ?thesis by (intro exI [of _ newsz] exI [of _ s] exI [of _ F] exI [of _ T]) auto
next
  case False
  then have lt: "oldsz < newsz" using assms(2) by simp
  have NU: "npages newsz \<le> UPAGES" "npages oldsz \<le> npages newsz" using assms(2,3) npages_UPAGES [of newsz] npages_mono by simp_all
  obtain r t where rt: "allocuvm_loop d (npages oldsz * PGSIZE) oldsz newsz s = Inr (r, t)" "alloc_post (npages oldsz) oldsz newsz s F R d T r t"
    using alloc_loop [OF assms(1,3) order_refl lt] assms(4) by blast
  have call: "allocuvm d oldsz newsz s = Inr (r, t)" using rt(1) lt assms(3) by (simp add: allocuvm_def PGROUNDUP_npages)
  have me: "mapped_pages s T (npages oldsz) (npages newsz) = {}" using assms(4) by (auto simp: mapped_pages_def)
  obtain F' T' where p: "aspace t F' R d T'" "\<forall>m. m < npages oldsz \<or> npages newsz \<le> m \<longrightarrow> entry t T' m = entry s T m"
    "agree (insert d (set F \<union> ran T)) s t" "held_pages t F' T' = held_pages s F T"
    and c: "r = newsz \<and> new_pages F t T' (npages oldsz) (npages newsz) \<or>
      r = 0 \<and> (\<forall>m. npages oldsz \<le> m \<longrightarrow> m < npages newsz \<longrightarrow> \<not> present t T' m)"
    using rt(2) unfolding alloc_post_def me by auto
  have keep: "user_byte t T' va = user_byte s T va" if va: "va < npages oldsz * PGSIZE" "present s T (va div PGSIZE)" for va
  proof -
    have m: "va div PGSIZE < npages oldsz" using va(1) by (simp add: div_less_iff_less_mult PGSIZE_def)
    then have mu: "va div PGSIZE < UPAGES" using NU by simp
    note fr = frames_okD [OF aspaceD(5) [OF assms(1)] mu va(2)]
    have "frame s T (va div PGSIZE) \<notin> insert d (set F \<union> ran T)" using fr(2,3,5) by (auto simp: ran_def)
    then show ?thesis
      using m p(2) by (intro user_byte_same agree_page [OF p(3) fr(1)]) (simp_all add: frame_def)
  qed
  have new: "present t T' (va div PGSIZE) \<and> frame t T' (va div PGSIZE) \<in> set F \<and> user_byte t T' va = 0"
    if "new_pages F t T' (npages oldsz) (npages newsz)" "va < npages newsz * PGSIZE" "npages oldsz * PGSIZE \<le> va" for va
  proof -
    have "npages oldsz \<le> va div PGSIZE" "va div PGSIZE < npages newsz"
      using that(2,3) by (simp_all add: div_less_iff_less_mult less_eq_div_iff_mult_less_eq PGSIZE_def)
    then show ?thesis using that(1) unfolding new_pages_def by (simp add: user_byte_zero)
  qed
  have old: "entry t T' (va div PGSIZE) = entry s T (va div PGSIZE)" if "va < npages oldsz * PGSIZE" for va
    using p(2) that by (simp add: div_less_iff_less_mult PGSIZE_def)
  have undone: "user_frames t T' = user_frames s T" if "\<forall>m. npages oldsz \<le> m \<longrightarrow> m < npages newsz \<longrightarrow> \<not> present t T' m"
  proof (rule user_frames_cong)
    fix m
    have same: "entry t T' m = entry s T m \<or> \<not> present t T' m \<and> \<not> present s T m" using p(2) that assms(4) by (meson not_less)
    then show "present t T' m \<longleftrightarrow> present s T m" by (auto simp: present_def)
    show "entry t T' m = entry s T m" if "present s T m" using same that by blast
  qed
  show ?thesis
    using call p(1,4) keep old c new undone by (intro exI [of _ r] exI [of _ t] exI [of _ F'] exI [of _ T'] conjI) auto
qed

text \<open>A directory in a small memory.\<close>

lemma some_aspace: "\<exists>s d F. aspace s F {} d Map.empty \<and> length F = 2 \<and> kdata s = 0x80104000"
proof -
  have 0: "free_ok empty_kmem []" by (simp add: free_ok_def empty_kmem_def)
  have w: "whole_pages 0x80106000 0x80109000 = [0x80106000, 0x80107000, 0x80108000]" by (simp add: whole_pages.simps PGSIZE_def)
  obtain t where "free_ok t (rev (whole_pages 0x80106000 0x80109000) @ [])" and k: "kdata t = 0x80104000"
    using freerange_loop_ok [OF 0, of "0x80106000" "0x80109000"] by (auto simp: empty_kmem_def kernel_layout)
  then have t: "free_ok t [0x80108000, 0x80107000, 0x80106000]" unfolding w by simp
  obtain u where u: "aspace (set_page 0x80108000 0 u) [0x80107000, 0x80106000] {} 0x80108000 Map.empty"
    "agree {0x80108000} t (set_page 0x80108000 0 u)"
    using fresh_dir [OF t, of "{}"] by auto
  then have "kdata (set_page 0x80108000 0 u) = 0x80104000" using k by (simp add: agree_def)
  then show ?thesis using u(1) by force
qed

text \<open>One with a page for the user.\<close>

lemma some_user_page:
  "\<exists>s d F T. aspace s F {} d T \<and> present s T 0 \<and> entry s T 0 AND PTE_U \<noteq> 0 \<and> kdata s = 0x80104000"
proof -
  obtain s d F where a: "aspace s F {} d Map.empty" "length F = 2" "kdata s = 0x80104000" using some_aspace by blast
  then obtain p q where F: "F = [p, q]" by (metis One_nat_def Suc_1 length_0_conv length_Suc_conv)
  obtain t where t: "aspace t [q] {p} d Map.empty" "agree {} s t" "page_ok s p"
    using aspace_kalloc [of s p "[q]" "{}" d Map.empty] a(1) F by auto
  have p: "page_ok t p" using t(2,3) agree_page_ok by blast
  have fl: "take_bit 12 (PTE_W OR PTE_U) = PTE_W OR PTE_U" by simp
  have U: "0 < UPAGES" by (simp add: UPAGES_def kernel_layout)
  have np: "\<not> present t Map.empty 0" by (simp add: not_present_None)
  obtain u F' T' where u: "aspace u F' ({p} - {p}) d T'" "present u T' 0" "entry u T' 0 = of_nat (V2P p) OR (PTE_W OR PTE_U) OR PTE_P"
    "agree (insert d (set [q] \<union> ran Map.empty)) t u"
    using map_page [OF t(1) U np singletonI p fl] by auto
  have "entry u T' 0 AND PTE_U = ((PTE_W OR PTE_U) OR PTE_P) AND PTE_U"
    unfolding u(3) or.assoc by (rule entry_and [OF V2P_props(1) [OF p]]) simp
  then have "entry u T' 0 AND PTE_U \<noteq> 0" by (simp add: PTE_W_def PTE_U_def PTE_P_def)
  moreover have "kdata u = 0x80104000" using u(4) t(2) a(3) by (simp add: agree_def)
  ultimately show ?thesis using u(1,2) by auto
qed

theorem allocuvm_grows_witness:
  "\<exists>s F d r t F' T'. aspace s F {} d Map.empty \<and> allocuvm d 0 4097 s = Inr (r, t) \<and> aspace t F' {} d T' \<and>
    held_pages t F' T' = set F \<and>
    (r = 4097 \<and> (\<forall>va < 8192. present t T' (va div PGSIZE) \<and> frame t T' (va div PGSIZE) \<in> set F \<and> user_byte t T' va = 0) \<or>
     r = 0 \<and> (\<forall>m < 2. \<not> present t T' m))"
proof -
  obtain s d F where a: "aspace s F {} d Map.empty" using some_aspace by blast
  have n: "npages 0 = 0" "npages 4097 = 2" by (simp_all add: npages_def PGSIZE_def)
  have "\<forall>m. npages 0 \<le> m \<and> m < npages 4097 \<longrightarrow> \<not> present s Map.empty m" by (simp add: not_present_None)
  from allocuvm_grows [OF a _ _ this] obtain r t F' T' where "allocuvm d 0 4097 s = Inr (r, t)" "aspace t F' {} d T'"
    "held_pages t F' T' = held_pages s F Map.empty"
    "r = 4097 \<and> (\<forall>va < 2 * PGSIZE. present t T' (va div PGSIZE) \<and> frame t T' (va div PGSIZE) \<in> set F \<and> user_byte t T' va = 0) \<or>
     r = 0 \<and> (\<forall>m < 2. \<not> present t T' m)"
    unfolding n by (auto simp: KERNBASE_def)
  moreover have "held_pages s F Map.empty = set F" by (simp add: held_pages_def user_frames_def not_present_None)
  ultimately show ?thesis using a by (intro exI [of _ s] exI [of _ F] exI [of _ d] exI [of _ r] exI [of _ t] exI [of _ F'] exI [of _ T']) (simp add: PGSIZE_def)
qed

end
