(* ===== verification/XvVmCopy.thy ===== *)
theory XvVmCopy
  imports XvVm
begin

text \<open>
  What \<open>copyout\<close>, \<open>setupkvm\<close>, \<open>freevm\<close> and \<open>copyuvm\<close> of \<open>xv6/vm.c\<close> do: bytes arrive at user addresses, a
  directory gives back all its pages, and the child of a fork gets a copy of the memory of its parent
  in pages of its own.
\<close>

section \<open>Copying out\<close>

lemma put_bytes_at: "put_bytes m a bs x = (if a \<le> x \<and> x < a + length bs then bs ! (x - a) else m x)"
proof (induction bs arbitrary: m a)
  case (Cons b bs)
  then show ?case by (cases "x = a") (auto simp: nth_Cons')
qed auto

lemma agree_put_bytes:
  assumes "page_ok s p" and "off + length bs \<le> PGSIZE"
  shows "agree {p} s (s \<lparr> kbytes := put_bytes (kbytes s) (p + off) bs \<rparr>)"
  unfolding agree_def
proof (intro conjI allI impI)
  fix q
  assume q: "q mod PGSIZE = 0" "q \<notin> {p}"
  have "q + PGSIZE \<le> p \<or> p + PGSIZE \<le> q" using pages_apart [OF q(1) page_okD(1) [OF assms(1)]] q(2) by simp
  then show "same_page q (kbytes s) (kbytes (s \<lparr> kbytes := put_bytes (kbytes s) (p + off) bs \<rparr>))"
    using assms(2) by (auto simp: same_page_def put_bytes_at)
qed simp_all

lemma uva2ka_frame:
  assumes "aspace s F R d T" and "n < UPAGES" and "present s T n" and "entry s T n AND PTE_U \<noteq> 0"
  shows "uva2ka d (n * PGSIZE) s = Inr (frame s T n)" and "frame s T n \<noteq> 0"
proof -
  note A = aspaceD [OF assms(1)]
  let ?va = "n * PGSIZE"
  have va: "PDX ?va = n div 1024" "PTX ?va = n mod 1024"
    using PDX_PTX(1,2) [of ?va] vpn_bound(1) [OF assms(2)] by (simp_all add: vpn_simps)
  obtain u where u: "T (n div 1024) = Some u" using assms(3) not_present_None by (cases "T (n div 1024)") auto
  have "walkpgdir d ?va False s = (Some (u + 4 * (n mod 1024)), s)"
    using walk_hit [OF A(3), of ?va u False] tables_okD(4) [OF A(4) u] u by (simp add: va)
  moreover have "load32 s (u + 4 * (n mod 1024)) = entry s T n" using u by (simp add: entry_def)
  ultimately show "uva2ka d ?va s = Inr (frame s T n)"
    using assms(3,4) by (simp add: uva2ka_def present_def frame_def)
  show "frame s T n \<noteq> 0" using page_okD(5) [OF frames_okD(1) [OF A(5) assms(2,3)]] .
qed

text \<open>Bytes written into the frame of one user page.\<close>

lemma write_frame:
  assumes "aspace s F R d T" and "n < UPAGES" and "present s T n" and "off + length bs \<le> PGSIZE"
    and "t = s \<lparr> kbytes := put_bytes (kbytes s) (frame s T n + off) bs \<rparr>"
  shows "aspace t F R d T" and "entry t T m = entry s T m" and "agree {frame s T n} s t"
    and "a div PGSIZE < UPAGES \<Longrightarrow> present s T (a div PGSIZE) \<Longrightarrow>
      user_byte t T a = (if n * PGSIZE + off \<le> a \<and> a < n * PGSIZE + off + length bs then bs ! (a - (n * PGSIZE + off)) else user_byte s T a)"
proof -
  note A = aspaceD [OF assms(1)] and fr = frames_okD [OF aspaceD(5) [OF assms(1)] assms(2,3)]
  show g: "agree {frame s T n} s t" unfolding assms(5) by (rule agree_put_bytes [OF fr(1) assms(4)])
  show "aspace t F R d T" and e: "entry t T m = entry s T m" for m
    by (rule aspace_agree [OF assms(1) g]; use fr(2,3,5) in \<open>auto simp: assms(5)\<close>)+
  have f: "frame t T k = frame s T k" for k by (simp add: frame_def e)
  assume a: "a div PGSIZE < UPAGES" "present s T (a div PGSIZE)"
  have am: "a = a div PGSIZE * PGSIZE + a mod PGSIZE" "a mod PGSIZE < PGSIZE" by (simp_all add: PGSIZE_def)
  show "user_byte t T a = (if n * PGSIZE + off \<le> a \<and> a < n * PGSIZE + off + length bs then bs ! (a - (n * PGSIZE + off)) else user_byte s T a)"
  proof (cases "a div PGSIZE = n")
    case True
    define r where "r = a mod PGSIZE"
    have r: "a mod PGSIZE = r" "a = n * PGSIZE + r" using am(1) unfolding True r_def by simp_all
    have "n * PGSIZE + off \<le> a \<longleftrightarrow> off \<le> a mod PGSIZE" "a < n * PGSIZE + off + length bs \<longleftrightarrow> a mod PGSIZE < off + length bs"
      "a - (n * PGSIZE + off) = a mod PGSIZE - off" unfolding r(1) using r(2) by auto
    moreover have "kbytes t = put_bytes (kbytes s) (frame s T n + off) bs" by (simp add: assms(5))
    ultimately show ?thesis by (simp add: user_byte_def f True put_bytes_at)
  next
    case False
    have "frame s T (a div PGSIZE) \<noteq> frame s T n" using fr(6) [OF a] False by auto
    then have "user_byte t T a = user_byte s T a"
      by (intro user_byte_same f agree_page [OF g]) (use frames_okD(1) [OF A(5) a] in auto)
    moreover have "\<not> (n * PGSIZE + off \<le> a \<and> a < n * PGSIZE + off + length bs)"
    proof
      assume b: "n * PGSIZE + off \<le> a \<and> a < n * PGSIZE + off + length bs"
      then have "a < n * PGSIZE + PGSIZE" using assms(4) by linarith
      then have "a div PGSIZE < n + 1" by (simp add: div_less_iff_less_mult PGSIZE_def)
      moreover have "n \<le> a div PGSIZE" using b by (simp add: less_eq_div_iff_mult_less_eq PGSIZE_def)
      ultimately show False using False by simp
    qed
    ultimately show ?thesis by auto
  qed
qed

text \<open>A range of user addresses that user code may use.\<close>

definition user_range :: "kmem \<Rightarrow> (nat \<Rightarrow> nat option) \<Rightarrow> nat \<Rightarrow> nat \<Rightarrow> bool" where
  "user_range s T va n \<longleftrightarrow> va + n \<le> KERNBASE \<and>
     (\<forall>a. va \<le> a \<longrightarrow> a < va + n \<longrightarrow> present s T (a div PGSIZE) \<and> entry s T (a div PGSIZE) AND PTE_U \<noteq> 0)"

lemma user_va: "a < KERNBASE \<Longrightarrow> a div PGSIZE < UPAGES"
  by (simp add: UPAGES_def kernel_layout div_less_iff_less_mult)

lemma copyout_range:
  assumes "aspace s F R d T" and "user_range s T va (length buf)"
  shows "\<exists>t. copyout d va buf s = Inr (True, t) \<and> aspace t F R d T \<and> (\<forall>m. entry t T m = entry s T m) \<and>
    (\<forall>a < KERNBASE. present s T (a div PGSIZE) \<longrightarrow>
      user_byte t T a = (if va \<le> a \<and> a < va + length buf then buf ! (a - va) else user_byte s T a))"
  using assms
proof (induction "length buf" arbitrary: va buf s rule: less_induct)
  case less
  show ?case
  proof (cases "buf = []")
    case True
    then show ?thesis using less.prems(1) by (auto simp: copyout.simps)
  next
    case False
    define n where "n = va div PGSIZE"
    define off where "off = va mod PGSIZE"
    define k where "k = (if PGSIZE - off > length buf then length buf else PGSIZE - off)"
    have va: "va = n * PGSIZE + off" "off < PGSIZE" by (simp_all add: n_def off_def PGSIZE_def)
    have ur: "va + length buf \<le> KERNBASE" "\<And>a. va \<le> a \<Longrightarrow> a < va + length buf \<Longrightarrow> present s T (a div PGSIZE) \<and> entry s T (a div PGSIZE) AND PTE_U \<noteq> 0"
      using less.prems(2) unfolding user_range_def by blast+
    have "0 < length buf" using False by simp
    then have vb: "va < KERNBASE" "0 < length buf" using ur(1) by linarith+
    have nu: "n < UPAGES" unfolding n_def by (rule user_va [OF vb(1)])
    have pr: "present s T n" "entry s T n AND PTE_U \<noteq> 0" using ur(2) [of va] vb(2) by (simp_all add: n_def)
    note fr = uva2ka_frame [OF less.prems(1) nu pr]
    have k: "0 < k" "k \<le> length buf" "off + k \<le> PGSIZE" "k = length buf \<or> off + k = PGSIZE"
      using va(2) vb(2) by (auto simp: k_def)
    define s1 where "s1 = s \<lparr> kbytes := put_bytes (kbytes s) (frame s T n + off) (take k buf) \<rparr>"
    have ln: "off + length (take k buf) \<le> PGSIZE" using k by simp
    note w = write_frame [OF less.prems(1) nu pr(1) ln s1_def]
    have e1: "entry s1 T m = entry s T m" for m by (rule w(2))
    have down: "PGROUNDDOWN va = n * PGSIZE" "va - n * PGSIZE = off" using va(1) by (simp_all add: PGROUNDDOWN_def n_def)
    have next': "(n * PGSIZE + PGSIZE) mod 2 ^ 32 = (n + 1) * PGSIZE" by (rule wrap_page [OF nu])
    have step: "copyout d va buf s = copyout d ((n + 1) * PGSIZE) (drop k buf) s1"
      using False fr next' by (simp add: copyout.simps [of d va] down s1_def k_def Let_def)
    have rest: "user_range s1 T ((n + 1) * PGSIZE) (length (drop k buf))"
    proof (cases "k = length buf")
      case True
      then show ?thesis using vpn_bound(2) [OF nu] by (simp add: user_range_def)
    next
      case False
      then have nx: "(n + 1) * PGSIZE = va + k" using k(4) va(1) by simp
      show ?thesis unfolding user_range_def nx e1 present_def
        using ur k unfolding present_def by simp
    qed
    have "length (drop k buf) < length buf" using k(1) vb(2) by simp
    from less.hyps [OF this w(1) rest] obtain t where t: "copyout d ((n + 1) * PGSIZE) (drop k buf) s1 = Inr (True, t)" "aspace t F R d T"
      "\<forall>m. entry t T m = entry s1 T m"
      "\<forall>a < KERNBASE. present s1 T (a div PGSIZE) \<longrightarrow> user_byte t T a =
        (if (n + 1) * PGSIZE \<le> a \<and> a < (n + 1) * PGSIZE + length (drop k buf) then drop k buf ! (a - (n + 1) * PGSIZE) else user_byte s1 T a)"
      by blast
    have "user_byte t T a = (if va \<le> a \<and> a < va + length buf then buf ! (a - va) else user_byte s T a)"
      if a: "a < KERNBASE" "present s T (a div PGSIZE)" for a
    proof -
      have b1: "user_byte s1 T a = (if va \<le> a \<and> a < va + k then buf ! (a - va) else user_byte s T a)"
        using w(4) [OF user_va [OF a(1)] a(2)] k(2) by (auto simp: va(1))
      have b2: "user_byte t T a = (if (n + 1) * PGSIZE \<le> a \<and> a < (n + 1) * PGSIZE + (length buf - k) then drop k buf ! (a - (n + 1) * PGSIZE) else user_byte s1 T a)"
        using t(4) a by (simp add: present_def e1)
      show ?thesis
      proof (cases "k = length buf")
        case True
        then show ?thesis using b1 b2 by auto
      next
        case False
        then have nx: "(n + 1) * PGSIZE = va + k" using k(4) va(1) by simp
        show ?thesis unfolding b2 b1 nx using k(2) by auto
      qed
    qed
    then show ?thesis using t(1-3) step e1 by (intro exI [of _ t]) simp
  qed
qed

text \<open>C19:
  \<open>copyout\<close> writes its bytes to the user addresses, across page boundaries, and nothing else: when the pages of the
  range are present and open to the user, the call succeeds, the bytes are found at these addresses, every other mapped user address
  keeps its byte, and the page tables do not change.
\<close>

theorem copyout_writes:
  assumes "aspace s F R d T" and "user_range s T va (length buf)"
  shows "\<exists>t. copyout d va buf s = Inr (True, t) \<and> aspace t F R d T \<and> (\<forall>m. entry t T m = entry s T m) \<and>
    (\<forall>a < KERNBASE. present s T (a div PGSIZE) \<longrightarrow>
      user_byte t T a = (if va \<le> a \<and> a < va + length buf then buf ! (a - va) else user_byte s T a))"
  by (rule copyout_range [OF assms])

theorem copyout_writes_witness:
  "\<exists>s d F T t. aspace s F {} d T \<and> copyout d 4000 [7, 8, 9] s = Inr (True, t) \<and> aspace t F {} d T \<and> user_byte t T 4001 = 8"
proof -
  obtain s d F T where a: "aspace s F {} d T" "present s T 0" "entry s T 0 AND PTE_U \<noteq> 0" using some_user_page by blast
  have "user_range s T 4000 (length [7 :: u8, 8, 9])" using a(2,3) by (simp add: user_range_def kernel_layout)
  from copyout_writes [OF a(1) this] obtain t where t: "copyout d 4000 [7, 8, 9] s = Inr (True, t)" "aspace t F {} d T"
    "\<forall>a < KERNBASE. present s T (a div PGSIZE) \<longrightarrow>
      user_byte t T a = (if 4000 \<le> a \<and> a < 4000 + length [7 :: u8, 8, 9] then [7, 8, 9] ! (a - 4000) else user_byte s T a)" by blast
  have "(4001 :: nat) < KERNBASE" "present s T (4001 div PGSIZE)" using a(2) by (simp_all add: kernel_layout)
  then have "user_byte t T 4001 = 8" using t(3) by (simp del: One_nat_def)
  then show ?thesis using a(1) t(1,2) by blast
qed

section \<open>Freeing a directory\<close>

definition tables :: "(nat \<Rightarrow> nat option) \<Rightarrow> nat \<Rightarrow> nat \<Rightarrow> nat set" where
  "tables T i k = {u. \<exists>j. i \<le> j \<and> j < i + k \<and> T j = Some u}"

lemma tables_Suc: "tables T i (Suc k) = (case T i of None \<Rightarrow> {} | Some u \<Rightarrow> {u}) \<union> tables T (i + 1) k"
proof -
  have r: "i \<le> j \<and> j < i + Suc k \<longleftrightarrow> j = i \<or> (i + 1 \<le> j \<and> j < i + 1 + k)" for j by auto
  have "tables T i (Suc k) = {u. \<exists>j. (i \<le> j \<and> j < i + Suc k) \<and> T j = Some u}" by (simp add: tables_def)
  also have "\<dots> = {u. T i = Some u} \<union> tables T (i + 1) k" unfolding r tables_def by blast
  finally show ?thesis by (auto split: option.split)
qed

lemma freevm_loop_ok:
  assumes "free_ok s F" and "page_ok s d" and "dir_ok s d T" and "d \<notin> set F" and "i + k \<le> 1024"
    and "\<And>j u. T j = Some u \<Longrightarrow> page_ok s u \<and> u \<noteq> d" and "\<And>j l u. T j = Some u \<Longrightarrow> T l = Some u \<Longrightarrow> j = l"
    and "\<And>j u. i \<le> j \<Longrightarrow> T j = Some u \<Longrightarrow> u \<notin> set F"
  shows "\<exists>t F'. freevm_loop d i k s = Inr t \<and> free_ok t F' \<and> set F' = set F \<union> tables T i k \<and> agree (tables T i k) s t"
  using assms
proof (induction k arbitrary: i s F)
  case 0
  then show ?case by (intro exI [of _ s] exI [of _ F]) (auto simp: tables_def)
next
  case (Suc k)
  have i: "i < 1024" using Suc.prems(5) by simp
  show ?case
  proof (cases "T i")
    case None
    have "freevm_loop d i (Suc k) s = freevm_loop d (i + 1) k s" using dir_okD(1) [OF Suc.prems(3) i None] by simp
    moreover have "\<exists>t F'. freevm_loop d (i + 1) k s = Inr t \<and> free_ok t F' \<and> set F' = set F \<union> tables T (i + 1) k \<and> agree (tables T (i + 1) k) s t"
    proof (rule Suc.IH [OF Suc.prems(1-4)])
      show "u \<notin> set F" if "i + 1 \<le> j" "T j = Some u" for j u using Suc.prems(8) [of j u] that by simp
    qed (use Suc.prems(5-7) in auto)
    ultimately show ?thesis using None by (simp add: tables_Suc)
  next
    case (Some u)
    have u: "page_ok s u" "u \<noteq> d" "u \<notin> set F" using Suc.prems(6) [OF Some] Suc.prems(8) [OF order_refl Some] by auto
    note de = dir_entry [OF u(1) dir_okD(2) [OF Suc.prems(3) i Some]]
    obtain m where m: "kfree u s = Inr (s \<lparr> kbytes := m, freelist := u \<rparr>)" "free_ok (s \<lparr> kbytes := m, freelist := u \<rparr>) (u # F)"
      "\<forall>q. q mod PGSIZE = 0 \<longrightarrow> q \<noteq> u \<longrightarrow> same_page q (kbytes s) m"
      using kfree_page [OF Suc.prems(1) u(1,3)] by blast
    define s1 where "s1 = s \<lparr> kbytes := m, freelist := u \<rparr>"
    have g: "agree {u} s s1" using m(3) by (simp add: agree_def s1_def)
    have pg: "page_ok s1 q = page_ok s q" for q by (rule agree_page_ok [OF g])
    have d1: "dir_ok s1 d T"
      using dir_ok_cong [of s1 d s T] load32_same [OF agree_page [OF g Suc.prems(2)]] u(2) Suc.prems(3) by auto
    have "\<exists>t F'. freevm_loop d (i + 1) k s1 = Inr t \<and> free_ok t F' \<and> set F' = set (u # F) \<union> tables T (i + 1) k \<and> agree (tables T (i + 1) k) s1 t"
    proof (rule Suc.IH)
      show "free_ok s1 (u # F)" using m(2) by (simp add: s1_def)
      show "v \<notin> set (u # F)" if "i + 1 \<le> j" "T j = Some v" for j v
        using that Suc.prems(7) [OF Some, of j] Suc.prems(8) [of j v] by auto
    qed (use Suc.prems u d1 in \<open>auto simp: pg\<close>)
    then obtain t F' where t: "freevm_loop d (i + 1) k s1 = Inr t" "free_ok t F'" "set F' = set (u # F) \<union> tables T (i + 1) k" "agree (tables T (i + 1) k) s1 t"
      by blast
    have "freevm_loop d i (Suc k) s = Inr t" using de m(1) t(1) by (simp add: s1_def)
    moreover have "agree (tables T i (Suc k)) s t" by (rule agree_trans [OF g t(4)]) (auto simp: tables_Suc Some)
    ultimately show ?thesis using t(2,3) by (auto simp: tables_Suc Some)
  qed
qed

lemma freevm_ok:
  assumes "aspace s F R d T"
  shows "\<exists>t F'. freevm d s = Inr t \<and> free_ok t F' \<and> set F' = set F \<union> frame s T ` {m. m < UPAGES \<and> present s T m} \<union> ran T \<union> {d} \<and>
    agree (ran T \<union> frame s T ` {m. m < UPAGES \<and> present s T m} \<union> {d}) s t"
proof -
  have K: "(0 :: nat) < KERNBASE" "npages 0 = 0" "npages KERNBASE = UPAGES" by (simp_all add: npages_def UPAGES_def kernel_layout)
  have mp: "mapped_pages s T 0 UPAGES = {m. m < UPAGES \<and> present s T m}" by (auto simp: mapped_pages_def)
  let ?U = "frame s T ` {m. m < UPAGES \<and> present s T m}"
  note tb = tables_okD [OF aspaceD(4) [OF assms]] and fr = frames_okD [OF aspaceD(5) [OF assms]]
  obtain s1 F1 where s1: "deallocuvm d KERNBASE 0 s = Inr (0, s1)" "aspace s1 F1 R d T" "agree (ran T \<union> ?U) s s1" "set F1 = set F \<union> ?U"
    using dealloc_ok [OF assms order_refl K(1)] unfolding K mp by blast
  note A = aspaceD [OF s1(2)] and tb1 = tables_okD [OF aspaceD(4) [OF s1(2)]]
  have rT: "tables T 0 NPDENTRIES = ran T" using tb(4) by (auto simp: tables_def ran_def NPDENTRIES_def)
  have "\<exists>t F'. freevm_loop d 0 NPDENTRIES s1 = Inr t \<and> free_ok t F' \<and> set F' = set F1 \<union> tables T 0 NPDENTRIES \<and> agree (tables T 0 NPDENTRIES) s1 t"
    by (rule freevm_loop_ok [OF A(1) tb1(1) A(3) tb1(2)]) (use tb1(4,5) in \<open>auto simp: NPDENTRIES_def\<close>)
  then obtain s2 F2 where s2: "freevm_loop d 0 NPDENTRIES s1 = Inr s2" "free_ok s2 F2" "set F2 = set F1 \<union> ran T" "agree (ran T) s1 s2"
    unfolding rT by blast
  have d2: "page_ok s2 d" "d \<notin> set F2" using tb1(1,2,4) agree_page_ok [OF s2(4)] s2(3) by (auto simp: ran_def)
  obtain m where m: "kfree d s2 = Inr (s2 \<lparr> kbytes := m, freelist := d \<rparr>)" "free_ok (s2 \<lparr> kbytes := m, freelist := d \<rparr>) (d # F2)"
    "\<forall>q. q mod PGSIZE = 0 \<longrightarrow> q \<noteq> d \<longrightarrow> same_page q (kbytes s2) m"
    using kfree_page [OF s2(2) d2] by blast
  define t where "t = s2 \<lparr> kbytes := m, freelist := d \<rparr>"
  have g: "agree {d} s2 t" using m(3) by (simp add: agree_def t_def)
  have "agree (ran T \<union> ?U \<union> {d}) s t"
    by (rule agree_trans [OF agree_trans [OF s1(3) s2(4) order_refl] g]) auto
  moreover have "freevm d s = Inr t" using s1(1) s2(1) m(1) page_okD(5) [OF tb(1)] by (simp add: freevm_def t_def)
  moreover have "free_ok t (d # F2)" using m(2) by (simp add: t_def)
  moreover have "set (d # F2) = set F \<union> ?U \<union> ran T \<union> {d}" using s2(3) s1(4) by auto
  ultimately show ?thesis by blast
qed

text \<open>C18:
  \<open>freevm\<close> loses no page: for any page directory in memory it ends without a panic, and the free pages afterwards are those
  before, the frames of the user pages, the page tables and the directory itself; the pages in use elsewhere keep their
  content.
\<close>

theorem freevm_frees_all:
  assumes "aspace s F R d T"
  shows "\<exists>t F'. freevm d s = Inr t \<and> free_ok t F' \<and>
    set F' = set F \<union> frame s T ` {m. m < UPAGES \<and> present s T m} \<union> ran T \<union> {d} \<and>
    (\<forall>p \<in> R. page_ok s p \<longrightarrow> same_page p (kbytes s) (kbytes t))"
proof -
  note tb = tables_okD [OF aspaceD(4) [OF assms]] and fr = frames_okD [OF aspaceD(5) [OF assms]]
  obtain t F' where t: "freevm d s = Inr t" "free_ok t F'" "set F' = set F \<union> frame s T ` {m. m < UPAGES \<and> present s T m} \<union> ran T \<union> {d}"
    "agree (ran T \<union> frame s T ` {m. m < UPAGES \<and> present s T m} \<union> {d}) s t"
    using freevm_ok [OF assms] by blast
  have "same_page p (kbytes s) (kbytes t)" if "p \<in> R" "page_ok s p" for p
    using that(1) tb(3,4) fr(4) by (intro agree_page [OF t(4) that(2)]) (auto simp: ran_def)
  then show ?thesis using t by blast
qed

theorem freevm_frees_all_witness:
  "\<exists>s d F T t F'. aspace s F {} d T \<and> present s T 0 \<and> freevm d s = Inr t \<and> free_ok t F' \<and> frame s T 0 \<in> set F' \<and> d \<in> set F'"
proof -
  obtain s d F T where a: "aspace s F {} d T" "present s T 0" using some_user_page by blast
  obtain t F' where t: "freevm d s = Inr t" "free_ok t F'" "set F' = set F \<union> frame s T ` {m. m < UPAGES \<and> present s T m} \<union> ran T \<union> {d}"
    using freevm_frees_all [OF a(1)] by blast
  have "0 < UPAGES" by (simp add: UPAGES_def kernel_layout)
  then have "frame s T 0 \<in> set F'" "d \<in> set F'" using t(3) a(2) by auto
  then show ?thesis using a t(1,2) by blast
qed

section \<open>The kernel's part of a directory\<close>

lemma store_kernel:
  assumes "aspace s F R d T" and "T (n div 1024) = Some u" and "UPAGES \<le> n" and "t = store32 (u + 4 * (n mod 1024)) w s"
  shows "aspace t F R d T"
proof -
  note A = aspaceD [OF assms(1)] and st = store_entry [OF assms(1,2,4)]
  have pg: "page_ok t q = page_ok s q" for q by (rule agree_page_ok [OF st(4)])
  have pf: "present t T m = present s T m" "frame t T m = frame s T m" if "m < UPAGES" for m
    using that assms(3) by (simp_all add: present_def frame_def st(5))
  have "frames_ok t F R d T"
    by (rule frames_okI) (use frames_okD [OF A(5)] in \<open>auto simp: pf pg\<close>)
  then show ?thesis using st A(2) unfolding aspace_def by blast
qed

text \<open>What mapping pages of the kernel does to the pages of the allocator.\<close>

definition kernel_post :: "kmem \<Rightarrow> nat list \<Rightarrow> nat set \<Rightarrow> nat \<Rightarrow> (nat \<Rightarrow> nat option) \<Rightarrow> nat \<Rightarrow> nat \<Rightarrow> kmem \<Rightarrow> bool" where
  "kernel_post s F R d T n k t \<longleftrightarrow> (\<exists>F' T'. aspace t F' R d T' \<and> (\<forall>m. m < n \<or> n + k \<le> m \<longrightarrow> entry t T' m = entry s T m) \<and>
     agree (insert d (set F \<union> ran T)) s t \<and> set F' \<union> ran T' = set F \<union> ran T)"

lemma map_kernel_page:
  assumes "aspace s F R d T" and "UPAGES \<le> n" and "n < 2 ^ 20" and "\<not> present s T n"
  shows "(walkpgdir d (n * PGSIZE) True s = (None, s)) \<or>
    (\<exists>a s1 F' T'. walkpgdir d (n * PGSIZE) True s = (Some a, s1) \<and> load32 s1 a AND PTE_P = 0 \<and> aspace (store32 a w s1) F' R d T' \<and>
      (\<forall>m. m \<noteq> n \<longrightarrow> entry (store32 a w s1) T' m = entry s T m) \<and> agree (insert d (set F \<union> ran T)) s (store32 a w s1) \<and>
      set F' \<union> ran T' = set F \<union> ran T)"
proof -
  let ?va = "n * PGSIZE"
  have "?va < 2 ^ 32" using assms(3) by (simp add: PGSIZE_def)
  then have va: "PDX ?va = n div 1024" "PTX ?va = n mod 1024" using PDX_PTX(1,2) [of ?va] by (simp_all add: vpn_simps)
  from walk_alloc [OF assms(1), of ?va] show ?thesis
  proof (elim disjE exE conjE)
    fix u s1 F' T'
    assume w: "walkpgdir d ?va True s = (Some (u + 4 * PTX ?va), s1)" and a: "aspace s1 F' R d T'" and u: "T' (PDX ?va) = Some u"
      and e: "\<forall>n. entry s1 T' n = entry s T n" and g: "agree (insert d (set F)) s s1" and sub: "set F' \<union> ran T' = set F \<union> ran T"
    have u': "T' (n div 1024) = Some u" using u va by simp
    define t where "t = store32 (u + 4 * (n mod 1024)) w s1"
    note st = store_entry [OF a u' t_def]
    have "u \<in> set F \<union> ran T" using ranI [of T', OF u] sub by blast
    then have "agree (insert d (set F \<union> ran T)) s t" by (intro agree_trans [OF g st(4)]) auto
    moreover have "load32 s1 (u + 4 * (n mod 1024)) AND PTE_P = 0" 
    proof -
      have "load32 s1 (u + 4 * (n mod 1024)) = entry s1 T' n" using u' by (simp add: entry_def)
      then show ?thesis using assms(4) e by (simp add: present_def)
    qed
    moreover have "\<forall>m. m \<noteq> n \<longrightarrow> entry t T' m = entry s T m" using e by (simp add: st(5))
    ultimately show ?thesis
      using w sub store_kernel [OF a u' assms(2) t_def] unfolding va t_def by blast
  qed blast
qed

lemma map_kernel:
  assumes "aspace s F R d T" and "UPAGES \<le> n" and "n + k < 2 ^ 20"
    and "\<And>m. n \<le> m \<Longrightarrow> m \<le> n + k \<Longrightarrow> \<not> present s T m"
  shows "\<exists>ok t. mappages_loop (Suc k) d (n * PGSIZE) ((n + k) * PGSIZE) pa perm s = Inr (ok, t) \<and> kernel_post s F R d T n (Suc k) t"
  using assms
proof (induction k arbitrary: n pa s F T)
  case (0 n pa s F T)
  have np: "\<not> present s T n" "n < 2 ^ 20" using "0.prems"(3,4) by simp_all
  from map_kernel_page [OF "0.prems"(1,2) np(2,1), of "of_nat pa OR perm OR PTE_P"] show ?case
  proof (elim disjE exE conjE)
    assume "walkpgdir d (n * PGSIZE) True s = (None, s)"
    then show ?thesis using "0.prems"(1) unfolding kernel_post_def by auto
  next
    fix a s1 F' T'
    assume "walkpgdir d (n * PGSIZE) True s = (Some a, s1)" "load32 s1 a AND PTE_P = 0"
      and p: "aspace (store32 a (of_nat pa OR perm OR PTE_P) s1) F' R d T'" "\<forall>m. m \<noteq> n \<longrightarrow> entry (store32 a (of_nat pa OR perm OR PTE_P) s1) T' m = entry s T m"
        "agree (insert d (set F \<union> ran T)) s (store32 a (of_nat pa OR perm OR PTE_P) s1)" "set F' \<union> ran T' = set F \<union> ran T"
    then have "mappages_loop (Suc 0) d (n * PGSIZE) ((n + 0) * PGSIZE) pa perm s = Inr (True, store32 a (of_nat pa OR perm OR PTE_P) s1)" by simp
    moreover have "kernel_post s F R d T n (Suc 0) (store32 a (of_nat pa OR perm OR PTE_P) s1)"
      unfolding kernel_post_def using p by (intro exI [of _ F'] exI [of _ T']) auto
    ultimately show ?thesis by blast
  qed
next
  case (Suc k)
  have np: "\<not> present s T n" "n < 2 ^ 20" using Suc.prems(3,4) by simp_all
  have ne: "n * PGSIZE \<noteq> (n + Suc k) * PGSIZE" by (simp add: PGSIZE_def)
  have nx: "(n * PGSIZE + PGSIZE) mod 2 ^ 32 = (n + 1) * PGSIZE" using Suc.prems(3) by (simp add: PGSIZE_def)
  from map_kernel_page [OF Suc.prems(1,2) np(2,1), of "of_nat pa OR perm OR PTE_P"] show ?case
  proof (elim disjE exE conjE)
    assume "walkpgdir d (n * PGSIZE) True s = (None, s)"
    then have "mappages_loop (Suc (Suc k)) d (n * PGSIZE) ((n + Suc k) * PGSIZE) pa perm s = Inr (False, s)" by simp
    moreover have "kernel_post s F R d T n (Suc (Suc k)) s"
      unfolding kernel_post_def using Suc.prems(1) by (intro exI [of _ F] exI [of _ T]) simp
    ultimately show ?thesis by blast
  next
    fix a s1 F' T'
    define s2 where "s2 = store32 a (of_nat pa OR perm OR PTE_P) s1"
    assume w: "walkpgdir d (n * PGSIZE) True s = (Some a, s1)" "load32 s1 a AND PTE_P = 0"
      and "aspace (store32 a (of_nat pa OR perm OR PTE_P) s1) F' R d T'" "\<forall>m. m \<noteq> n \<longrightarrow> entry (store32 a (of_nat pa OR perm OR PTE_P) s1) T' m = entry s T m"
        "agree (insert d (set F \<union> ran T)) s (store32 a (of_nat pa OR perm OR PTE_P) s1)" and sub: "set F' \<union> ran T' = set F \<union> ran T"
    then have p: "aspace s2 F' R d T'" "\<forall>m. m \<noteq> n \<longrightarrow> entry s2 T' m = entry s T m" "agree (insert d (set F \<union> ran T)) s s2" by (simp_all add: s2_def)
    have np2: "\<not> present s2 T' m" if "n + 1 \<le> m" "m \<le> n + 1 + k" for m using Suc.prems(4) [of m] p(2) that by (simp add: present_def)
    have b: "UPAGES \<le> n + 1" "n + 1 + k < 2 ^ 20" using Suc.prems(2,3) by simp_all
    obtain ok t where t: "mappages_loop (Suc k) d ((n + 1) * PGSIZE) ((n + 1 + k) * PGSIZE) ((pa + PGSIZE) mod 2 ^ 32) perm s2 = Inr (ok, t)"
      "kernel_post s2 F' R d T' (n + 1) (Suc k) t"
      using Suc.IH [OF p(1) b np2] by blast
    have "mappages_loop (Suc (Suc k)) d (n * PGSIZE) ((n + Suc k) * PGSIZE) pa perm s =
        mappages_loop (Suc k) d ((n * PGSIZE + PGSIZE) mod 2 ^ 32) ((n + Suc k) * PGSIZE) ((pa + PGSIZE) mod 2 ^ 32) perm s2"
      unfolding mappages_loop.simps(2) [of "Suc k"] w(1) using w(2) ne by (simp add: s2_def Let_def del: mappages_loop.simps)
    also have "\<dots> = Inr (ok, t)" unfolding nx using t(1) by simp
    finally have call: "mappages_loop (Suc (Suc k)) d (n * PGSIZE) ((n + Suc k) * PGSIZE) pa perm s = Inr (ok, t)" .
    obtain F2 T2 where q: "aspace t F2 R d T2" "\<forall>m. m < n + 1 \<or> n + 1 + Suc k \<le> m \<longrightarrow> entry t T2 m = entry s2 T' m"
      "agree (insert d (set F' \<union> ran T')) s2 t" "set F2 \<union> ran T2 = set F' \<union> ran T'"
      using t(2) unfolding kernel_post_def by blast
    have "agree (insert d (set F \<union> ran T)) s t" using agree_trans [OF p(3) q(3) order_refl] sub by simp
    moreover have "\<forall>m. m < n \<or> n + Suc (Suc k) \<le> m \<longrightarrow> entry t T2 m = entry s T m" using p(2) q(2) by simp
    ultimately have "kernel_post s F R d T n (Suc (Suc k)) t"
      unfolding kernel_post_def using q(1,4) sub by (intro exI [of _ F2] exI [of _ T2]) auto
    then show ?thesis using call by blast
  qed
qed

lemma mappages_range:
  assumes "n + k < 2 ^ 20"
  shows "mappages d (n * PGSIZE) ((k + 1) * PGSIZE) pa perm s = mappages_loop (Suc k) d (n * PGSIZE) ((n + k) * PGSIZE) pa perm s"
proof -
  have P: "0 < PGSIZE" by (simp add: PGSIZE_def)
  have lt: "(n + k) * PGSIZE + (PGSIZE - 1) < 2 ^ 32" using assms unfolding PGSIZE_def by simp
  have "n * PGSIZE + (k + 1) * PGSIZE + 2 ^ 32 - 1 = (n + k) * PGSIZE + (PGSIZE - 1) + 2 ^ 32" using P by (simp add: algebra_simps)
  then have "(n * PGSIZE + (k + 1) * PGSIZE + 2 ^ 32 - 1) mod 2 ^ 32 = (n + k) * PGSIZE + (PGSIZE - 1)"
    using lt by (simp only: mod_add_self2 mod_less)
  moreover have "((n + k) * PGSIZE + (PGSIZE - 1)) div PGSIZE = n + k" unfolding PGSIZE_def by simp
  ultimately have l: "PGROUNDDOWN ((n * PGSIZE + (k + 1) * PGSIZE + 2 ^ 32 - 1) mod 2 ^ 32) = (n + k) * PGSIZE" by (simp only: PGROUNDDOWN_def)
  have "(n + k) * PGSIZE + 2 ^ 32 - n * PGSIZE = k * PGSIZE + 2 ^ 32" by (simp add: algebra_simps)
  moreover have "k * PGSIZE < 2 ^ 32" using assms unfolding PGSIZE_def by simp
  ultimately have "((n + k) * PGSIZE + 2 ^ 32 - n * PGSIZE) mod 2 ^ 32 = k * PGSIZE" by (simp only: mod_add_self2 mod_less)
  then show ?thesis unfolding mappages_def l vpn_simps Let_def by (simp add: vpn_simps)
qed

text \<open>Ranges of whole pages, one above the other.\<close>

fun ranges_ok :: "nat \<Rightarrow> (nat \<times> nat \<times> nat \<times> u32) list \<Rightarrow> bool" where
  "ranges_ok b [] \<longleftrightarrow> True"
| "ranges_ok b ((virt, ps, pe, perm) # ks) \<longleftrightarrow> (\<exists>n k. virt = n * PGSIZE \<and> (pe + 2 ^ 32 - ps) mod 2 ^ 32 = (k + 1) * PGSIZE \<and>
     b \<le> n \<and> n + k < 2 ^ 20 \<and> ranges_ok (n + k + 1) ks)"

lemma setup_ranges:
  assumes "aspace s F R d T" and "UPAGES \<le> b" and "ranges_ok b ks" and "\<And>m. b \<le> m \<Longrightarrow> \<not> present s T m"
  shows "\<exists>ok t F' T'. setupkvm_loop d ks s = Inr (ok, t) \<and> aspace t F' R d T' \<and> (\<forall>m < b. entry t T' m = entry s T m) \<and>
    agree (insert d (set F \<union> ran T)) s t \<and> set F' \<union> ran T' = set F \<union> ran T"
  using assms
proof (induction ks arbitrary: b s F T)
  case Nil
  then show ?case by auto
next
  case (Cons r ks)
  obtain virt ps pe perm where r: "r = (virt, ps, pe, perm)" by (metis surj_pair)
  obtain n k where nk: "virt = n * PGSIZE" "(pe + 2 ^ 32 - ps) mod 2 ^ 32 = (k + 1) * PGSIZE" "b \<le> n" "n + k < 2 ^ 20" "ranges_ok (n + k + 1) ks"
    using Cons.prems(3) unfolding r by auto
  have un: "UPAGES \<le> n" using Cons.prems(2) nk(3) by simp
  have np: "\<not> present s T m" if "n \<le> m" "m \<le> n + k" for m using Cons.prems(4) [of m] that nk(3) by simp
  obtain ok t where t: "mappages_loop (Suc k) d (n * PGSIZE) ((n + k) * PGSIZE) ps perm s = Inr (ok, t)" "kernel_post s F R d T n (Suc k) t"
    using map_kernel [OF Cons.prems(1) un nk(4) np] by blast
  obtain F1 T1 where p: "aspace t F1 R d T1" "\<forall>m. m < n \<or> n + Suc k \<le> m \<longrightarrow> entry t T1 m = entry s T m"
    "agree (insert d (set F \<union> ran T)) s t" "set F1 \<union> ran T1 = set F \<union> ran T"
    using t(2) unfolding kernel_post_def by blast
  have call: "mappages d virt ((pe + 2 ^ 32 - ps) mod 2 ^ 32) ps perm s = Inr (ok, t)"
    unfolding nk(1,2) mappages_range [OF nk(4)] by (rule t(1))
  have low: "\<forall>m < b. entry t T1 m = entry s T m" using p(2) nk(3) by simp
  show ?case
  proof (cases ok)
    case False
    then have "setupkvm_loop d (r # ks) s = Inr (False, t)" using call by (simp add: r)
    then show ?thesis using p low by blast
  next
    case True
    have b1: "UPAGES \<le> n + k + 1" using un by simp
    have np1: "\<not> present t T1 m" if "n + k + 1 \<le> m" for m using Cons.prems(4) [of m] p(2) that nk(3) by (simp add: present_def)
    obtain ok' u F2 T2 where u: "setupkvm_loop d ks t = Inr (ok', u)" "aspace u F2 R d T2" "\<forall>m < n + k + 1. entry u T2 m = entry t T1 m"
      "agree (insert d (set F1 \<union> ran T1)) t u" "set F2 \<union> ran T2 = set F1 \<union> ran T1"
      using Cons.IH [OF p(1) b1 nk(5) np1] by blast
    have "setupkvm_loop d (r # ks) s = Inr (ok', u)" using call True u(1) by (simp add: r)
    moreover have "\<forall>m < b. entry u T2 m = entry s T m" using u(3) low nk(3) by simp
    moreover have "agree (insert d (set F \<union> ran T)) s u" using agree_trans [OF p(3) u(4) order_refl] p(4) by simp
    ultimately show ?thesis using u(2,5) p(4) by blast
  qed
qed

text \<open>The symbol \<open>data\<close> lies, on a page boundary, between the start of the kernel and the end of memory.\<close>

definition kdata_ok :: "kmem \<Rightarrow> bool" where
  "kdata_ok s \<longleftrightarrow> kdata s mod PGSIZE = 0 \<and> KERNLINK < kdata s \<and> kdata s < KERNBASE + PHYSTOP"

lemma kmap_ranges:
  assumes "kdata_ok s"
  shows "ranges_ok UPAGES (kmap s)"
proof -
  obtain q where q: "kdata s = q * PGSIZE" using assms unfolding kdata_ok_def by (metis div_mult_mod_eq add.right_neutral)
  have b: "0x80101 \<le> q" "q < 0x8E000" using assms unfolding kdata_ok_def q kernel_layout by simp_all
  have v: "V2P KERNLINK = EXTMEM" by (simp add: V2P_def kernel_layout)
  have "q * PGSIZE + 2 ^ 32 - KERNBASE = (q - 0x80000) * PGSIZE + 2 ^ 32" using b unfolding kernel_layout by simp
  moreover have "(q - 0x80000) * PGSIZE < 2 ^ 32" using b unfolding kernel_layout by simp
  ultimately have vd: "V2P (kdata s) = (q - 0x80000) * PGSIZE" unfolding V2P_def q by (simp only: mod_add_self2 mod_less)
  have r1: "(EXTMEM + 2 ^ 32 - 0) mod 2 ^ 32 = (0xFF + 1) * PGSIZE" by (simp add: kernel_layout)
  have "(q - 0x80000) * PGSIZE + 2 ^ 32 - EXTMEM = (q - 0x80101 + 1) * PGSIZE + 2 ^ 32" using b unfolding kernel_layout by simp
  moreover have "(q - 0x80101 + 1) * PGSIZE < 2 ^ 32" using b unfolding kernel_layout by simp
  ultimately have r2: "(V2P (kdata s) + 2 ^ 32 - V2P KERNLINK) mod 2 ^ 32 = (q - 0x80101 + 1) * PGSIZE" unfolding v vd by (simp only: mod_add_self2 mod_less)
  have "PHYSTOP + 2 ^ 32 - (q - 0x80000) * PGSIZE = (0x8DFFF - q + 1) * PGSIZE + 2 ^ 32" using b unfolding kernel_layout by simp
  moreover have "(0x8DFFF - q + 1) * PGSIZE < 2 ^ 32" using b unfolding kernel_layout by simp
  ultimately have r3: "(PHYSTOP + 2 ^ 32 - V2P (kdata s)) mod 2 ^ 32 = (0x8DFFF - q + 1) * PGSIZE" unfolding vd by (simp only: mod_add_self2 mod_less)
  have r4: "(0 + 2 ^ 32 - DEVSPACE) mod 2 ^ 32 = (0x1FFF + 1) * PGSIZE" by (simp add: kernel_layout)
  have k4: "ranges_ok 0x8E000 [(DEVSPACE, DEVSPACE, 0, PTE_W)]"
    unfolding ranges_ok.simps r4 by (intro exI [of _ "0xFE000"] exI [of _ "0x1FFF"]) (simp add: kernel_layout)
  have e3: "q + (0x8DFFF - q) + 1 = 0x8E000" using b by simp
  have k3: "ranges_ok q ((kdata s, V2P (kdata s), PHYSTOP, PTE_W) # [(DEVSPACE, DEVSPACE, 0, PTE_W)])"
    unfolding ranges_ok.simps(2) [of q] r3
    by (rule exI [of _ q], rule exI [of _ "0x8DFFF - q"], unfold e3) (use b k4 q in simp)
  have e2: "0x80100 + (q - 0x80101) + 1 = q" using b by simp
  have k2: "ranges_ok 0x80100 ((KERNLINK, V2P KERNLINK, V2P (kdata s), 0) # (kdata s, V2P (kdata s), PHYSTOP, PTE_W) # [(DEVSPACE, DEVSPACE, 0, PTE_W)])"
    unfolding ranges_ok.simps(2) [of "0x80100"] r2
    by (rule exI [of _ "0x80100"], rule exI [of _ "q - 0x80101"], unfold e2) (use b k3 in \<open>simp add: kernel_layout del: ranges_ok.simps\<close>)
  have U: "UPAGES = 0x80000" "KERNBASE = 0x80000 * PGSIZE" by (simp_all add: UPAGES_def kernel_layout)
  have e1: "0x80000 + 0xFF + 1 = (0x80100 :: nat)" by simp
  show ?thesis
    unfolding kmap_def ranges_ok.simps(2) [of UPAGES] r1
    by (rule exI [of _ "0x80000"], rule exI [of _ "0xFF"], unfold e1) (use k2 U in \<open>simp del: ranges_ok.simps\<close>)
qed

lemma setup_ok:
  assumes "free_ok s F" and "set F \<inter> R = {}" and "kdata_ok s"
  shows "\<exists>r t F'. setupkvm s = Inr (r, t) \<and> agree (set F) s t \<and>
    (r = 0 \<and> free_ok t F' \<and> set F' = set F \<or>
     (\<exists>T'. r \<noteq> 0 \<and> aspace t F' R r T' \<and> (\<forall>m < UPAGES. \<not> present t T' m) \<and> set F' \<union> ran T' \<union> {r} = set F))"
proof (cases F)
  case Nil
  then have "setupkvm s = Inr (0, s)" using kalloc_Nil assms(1) by (simp add: setupkvm_def)
  then show ?thesis using assms(1) by (intro exI [of _ 0] exI [of _ s] exI [of _ F]) simp
next
  case (Cons p F1)
  obtain u where u: "kalloc s = (p, u)" "aspace (set_page p 0 u) F1 R p Map.empty" "agree {p} s (set_page p 0 u)" "page_ok s p"
    using fresh_dir [of s p F1 R] assms(1,2) unfolding Cons by blast
  define s1 where "s1 = set_page p 0 u"
  have kd: "kdata u = kdata s" using u(3) by (simp add: agree_def set_page_def)
  have "kmap u = kmap s" by (simp add: kmap_def kd)
  then have ks: "ranges_ok UPAGES (kmap u)" using kmap_ranges [OF assms(3)] by simp
  have top: "\<not> P2V PHYSTOP > DEVSPACE" by (simp add: P2V_def kernel_layout)
  define E :: "nat \<Rightarrow> nat option" where "E = Map.empty"
  have np: "\<not> present s1 E m" for m by (rule not_present_None) (simp add: E_def)
  note u2 = u(2) [folded s1_def E_def]
  obtain ok t F2 T2 where t: "setupkvm_loop p (kmap u) s1 = Inr (ok, t)" "aspace t F2 R p T2" "\<forall>m < UPAGES. entry t T2 m = entry s1 E m"
    "agree (insert p (set F1 \<union> ran E)) s1 t" "set F2 \<union> ran T2 = set F1 \<union> ran E"
    using setup_ranges [OF u2 order_refl ks np] by blast
  have E: "ran E = {}" by (simp add: E_def)
  have g: "agree (set F) s t" by (rule agree_trans [OF u(3) [folded s1_def] t(4)]) (auto simp: Cons E)
  have np2: "\<forall>m < UPAGES. \<not> present t T2 m" using t(3) np by (simp add: present_def)
  have p0: "p \<noteq> 0" by (rule page_okD(5) [OF u(4)])
  show ?thesis
  proof (cases ok)
    case True
    then have "setupkvm s = Inr (p, t)" using u(1) t(1) p0 top by (simp add: setupkvm_def s1_def)
    moreover have "set F2 \<union> ran T2 \<union> {p} = set F" using t(5) by (simp add: Cons E)
    ultimately show ?thesis using g np2 p0 t(2) by blast
  next
    case False
    have nf: "frame t T2 ` {m. m < UPAGES \<and> present t T2 m} = {}" using np2 by auto
    obtain v F3 where v: "freevm p t = Inr v" "free_ok v F3" "set F3 = set F2 \<union> {} \<union> ran T2 \<union> {p}" "agree (ran T2 \<union> {} \<union> {p}) t v"
      using freevm_ok [OF t(2)] unfolding nf by blast
    have "setupkvm s = Inr (0, v)" using u(1) t(1) v(1) p0 top False by (simp add: setupkvm_def s1_def)
    moreover have eq: "set F3 = set F" using v(3) t(5) by (simp add: Cons E Un_assoc)
    moreover have "agree (set F) s v" by (rule agree_trans [OF g v(4)]) (use v(3) eq in auto)
    ultimately show ?thesis using v(2) by blast
  qed
qed

section \<open>The copy for a child\<close>

text \<open>The pages of the parent are among the pages \<open>R\<close>, and do not change.\<close>

definition parent_ok :: "kmem \<Rightarrow> nat set \<Rightarrow> nat \<Rightarrow> (nat \<Rightarrow> nat option) \<Rightarrow> nat \<Rightarrow> bool" where
  "parent_ok s R p T N \<longleftrightarrow> dir_ok s p T \<and> p \<in> R \<and> page_ok s p \<and> (\<forall>i u. T i = Some u \<longrightarrow> u \<in> R \<and> page_ok s u) \<and>
     (\<forall>m < N. present s T m \<and> frame s T m \<in> R \<and> page_ok s (frame s T m))"

lemma parent_okD:
  assumes "parent_ok s R p T N"
  shows "dir_ok s p T" "p \<in> R" "page_ok s p" "T i = Some u \<Longrightarrow> u \<in> R \<and> page_ok s u"
    "m < N \<Longrightarrow> present s T m \<and> frame s T m \<in> R \<and> page_ok s (frame s T m)"
  using assms unfolding parent_ok_def by blast+

lemma parent_agree:
  assumes "parent_ok s R p T N" and "agree X s t" and "X \<inter> R = {}"
  shows "parent_ok t R p T N" and "entry t T m = entry s T m" and "m < N \<Longrightarrow> same_page (frame s T m) (kbytes s) (kbytes t)"
proof -
  note P = parent_okD [OF assms(1)] and pg = agree_page_ok [OF assms(2)]
  have sp: "same_page q (kbytes s) (kbytes t)" if "q \<in> R" "page_ok s q" for q
    using agree_page [OF assms(2) that(2)] that(1) assms(3) by blast
  have e: "entry t T m = entry s T m" for m by (rule entry_same) (use P(4) sp in blast)
  show "entry t T m = entry s T m" by (rule e)
  show "m < N \<Longrightarrow> same_page (frame s T m) (kbytes s) (kbytes t)" using P(5) sp by blast
  have "dir_ok t p T" using P(1) dir_ok_cong [of t p s T] load32_same [OF sp [OF P(2,3)]] by blast
  then show "parent_ok t R p T N" using P(2-5) unfolding parent_ok_def present_def frame_def pg e by blast
qed

lemma aspace_R: "aspace s F R d T \<Longrightarrow> insert d (set F \<union> ran T) \<inter> R = {}"
  using aspaceD(2) [of s F R d T] tables_okD(3,4) [OF aspaceD(4), of s F R d T] by (auto simp: ran_def)

lemma flags_present: "e AND PTE_P \<noteq> 0 \<Longrightarrow> PTE_FLAGS e OR PTE_P = PTE_FLAGS e"
proof -
  assume "e AND PTE_P \<noteq> 0"
  then have "bit e 0" by (simp add: PTE_P_def and_one_eq bit_0 odd_iff_mod_2_eq_one)
  then show ?thesis
    by (intro bit_word_eqI) (auto simp: PTE_P_def PTE_FLAGS_def FFF_mask bit_simps)
qed

definition copied :: "kmem \<Rightarrow> (nat \<Rightarrow> nat option) \<Rightarrow> kmem \<Rightarrow> (nat \<Rightarrow> nat option) \<Rightarrow> nat \<Rightarrow> bool" where
  "copied s Tp t T m \<longleftrightarrow> present t T m \<and> PTE_FLAGS (entry t T m) = PTE_FLAGS (entry s Tp m) \<and>
     (\<forall>off < PGSIZE. kbytes t (frame t T m + off) = kbytes s (frame s Tp m + off))"

text \<open>One page of the parent.\<close>

lemma copy_page:
  assumes "aspace s F R d T" and "parent_ok s R p Tp N" and "i < N" and "N \<le> UPAGES" and "\<not> present s T i" and "kalloc s = (mem, s1)"
  shows "(mem = 0 \<and> s1 = s \<and> F = []) \<or>
    (mem \<noteq> 0 \<and>
      ((\<exists>s2 t. mappages d (i * PGSIZE) PGSIZE (V2P mem) (PTE_FLAGS (entry s Tp i)) (s1 \<lparr> kbytes := memmove (kbytes s1) mem (frame s Tp i) PGSIZE \<rparr>) = Inr (False, s2) \<and>
          kfree mem s2 = Inr t \<and> F = [mem] \<and> aspace t [mem] R d T \<and> (\<forall>m. entry t T m = entry s T m) \<and> agree {mem} s t) \<or>
       (\<exists>t F2 T2. mappages d (i * PGSIZE) PGSIZE (V2P mem) (PTE_FLAGS (entry s Tp i)) (s1 \<lparr> kbytes := memmove (kbytes s1) mem (frame s Tp i) PGSIZE \<rparr>) = Inr (True, t) \<and>
          aspace t F2 R d T2 \<and> copied s Tp t T2 i \<and> (\<forall>m. m \<noteq> i \<longrightarrow> entry t T2 m = entry s T m) \<and>
          agree (insert d (set F \<union> ran T)) s t \<and> insert (frame t T2 i) (set F2 \<union> ran T2) = set F \<union> ran T)))"
proof (cases F)
  case Nil
  then show ?thesis using assms(1,6) kalloc_Nil aspaceD(1) by auto
next
  case (Cons q F1)
  obtain u where "kalloc s = (q, u)" "aspace u F1 (insert q R) d T" "agree {} s u" "\<forall>n. entry u T n = entry s T n" "q \<notin> R" "page_ok s q"
    using aspace_kalloc [of s q F1 R d T] assms(1) Cons by blast
  then have Cm: "F = mem # F1" and u: "aspace s1 F1 (insert mem R) d T" "agree {} s s1" "\<forall>n. entry s1 T n = entry s T n" "mem \<notin> R" "page_ok s mem"
    using assms(6) Cons by auto
  note P = parent_okD(5) [OF assms(2,3)]
  have p1: "page_ok s1 mem" using u(5) agree_page_ok [OF u(2)] by simp
  define f where "f = frame s Tp i"
  have f: "present s Tp i" "f \<in> R" "page_ok s f" "f \<noteq> mem" using P u(4) by (auto simp: f_def)
  define s2 where "s2 = s1 \<lparr> kbytes := memmove (kbytes s1) mem f PGSIZE \<rparr>"
  have g2: "agree {mem} s1 s2"
    unfolding agree_def s2_def
  proof (intro conjI allI impI)
    fix r
    assume "r mod PGSIZE = 0" "r \<notin> {mem}"
    then have "r + PGSIZE \<le> mem \<or> mem + PGSIZE \<le> r" using pages_apart [of r mem] page_okD(1) [OF p1] by simp
    then show "same_page r (kbytes s1) (kbytes (s1 \<lparr> kbytes := memmove (kbytes s1) mem f PGSIZE \<rparr>))" by (auto simp: same_page_def memmove_eq)
  qed simp_all
  note A = aspaceD [OF u(1)] and tb = tables_okD [OF aspaceD(4) [OF u(1)]]
  have B: "aspace s2 F1 (insert mem R) d T" and e2: "\<And>n. entry s2 T n = entry s1 T n"
    by (rule aspace_agree [OF u(1) g2]; use A(2) tb in \<open>auto simp: s2_def\<close>)+
  have p2: "page_ok s2 mem" using p1 agree_page_ok [OF g2] by simp
  have np: "\<not> present s2 T i" using assms(5) e2 u(3) by (simp add: present_def)
  have gs: "agree {mem} s s2" by (rule agree_trans [OF u(2) g2]) auto
  have m0: "mem \<noteq> 0" using page_okD(5) [OF p1] .
  have iu: "i < UPAGES" using assms(3,4) by simp
  have cp: "kbytes s2 (mem + off) = kbytes s (f + off)" if "off < PGSIZE" for off
  proof -
    have "kbytes s2 (mem + off) = kbytes s1 (f + off)" using that by (simp add: s2_def memmove_eq)
    also have "\<dots> = kbytes s (f + off)" using agree_page [OF u(2) f(3)] that by (simp add: same_page_def)
    finally show ?thesis .
  qed
  from map_page [OF B iu np insertI1 p2 flags_small [of "entry s Tp i"]] show ?thesis
  proof (elim disjE exE conjE)
    assume m: "mappages d (i * PGSIZE) PGSIZE (V2P mem) (PTE_FLAGS (entry s Tp i)) s2 = Inr (False, s2)" "F1 = []"
    obtain t where t: "kfree mem s2 = Inr t" "aspace t (mem # F1) (insert mem R - {mem}) d T" "agree {mem} s2 t" "\<forall>n. entry t T n = entry s2 T n"
      using aspace_kfree [OF B insertI1 p2] by blast
    have "insert mem R - {mem} = R" using u(4) by simp
    moreover have "agree {mem} s t" by (rule agree_trans [OF gs t(3)]) auto
    ultimately show ?thesis using m t Cm m0 e2 u(3) unfolding s2_def f_def by auto
  next
    fix t F2 T2
    assume t: "mappages d (i * PGSIZE) PGSIZE (V2P mem) (PTE_FLAGS (entry s Tp i)) s2 = Inr (True, t)" "aspace t F2 (insert mem R - {mem}) d T2"
      "present t T2 i" "frame t T2 i = mem"
      "\<forall>m. entry t T2 m = (if m = i then of_nat (V2P mem) OR PTE_FLAGS (entry s Tp i) OR PTE_P else entry s2 T m)"
      "agree (insert d (set F1 \<union> ran T)) s2 t" "set F2 \<subseteq> set F1" "set F2 \<union> ran T2 = set F1 \<union> ran T"
    have nin: "mem \<noteq> d" "mem \<notin> set F1" "mem \<notin> ran T" using A(2) tb(3,4) by (auto simp: ran_def)
    have R: "insert mem R - {mem} = R" using u(4) by simp
    have "same_page mem (kbytes s2) (kbytes t)" by (rule agree_page [OF t(6) p2]) (use nin in simp)
    then have ct: "kbytes t (mem + off) = kbytes s (f + off)" if "off < PGSIZE" for off using cp that by (simp add: same_page_def)
    have "entry t T2 i = of_nat (V2P mem) OR PTE_FLAGS (entry s Tp i)"
      using t(5) flags_present f(1) by (simp add: present_def or.assoc)
    then have "PTE_FLAGS (entry t T2 i) = PTE_FLAGS (entry s Tp i)"
      using entry_flags [OF V2P_props(1) [OF p1] flags_small] by simp
    then have "copied s Tp t T2 i" using t(3,4) ct by (simp add: copied_def f_def)
    moreover have "agree (insert d (set F \<union> ran T)) s t" by (rule agree_trans [OF gs t(6)]) (use Cm in auto)
    moreover have "\<forall>m. m \<noteq> i \<longrightarrow> entry t T2 m = entry s T m" using t(5) e2 u(3) by simp
    moreover have "insert (frame t T2 i) (set F2 \<union> ran T2) = set F \<union> ran T" using t(4,8) Cm by auto
    ultimately have "\<exists>t F2 T2. mappages d (i * PGSIZE) PGSIZE (V2P mem) (PTE_FLAGS (entry s Tp i)) s2 = Inr (True, t) \<and>
        aspace t F2 R d T2 \<and> copied s Tp t T2 i \<and> (\<forall>m. m \<noteq> i \<longrightarrow> entry t T2 m = entry s T m) \<and>
        agree (insert d (set F \<union> ran T)) s t \<and> insert (frame t T2 i) (set F2 \<union> ran T2) = set F \<union> ran T"
      using t(1,2) unfolding R by blast
    then show ?thesis using m0 unfolding s2_def f_def by blast
  qed
qed

lemma copied_keep:
  assumes "copied s Tp t T m" and "aspace t F R d T" and "m < UPAGES" and "agree (insert d (set F \<union> ran T)) t u" and "entry u T' m = entry t T m"
  shows "copied s Tp u T' m"
proof -
  have c: "present t T m" "PTE_FLAGS (entry t T m) = PTE_FLAGS (entry s Tp m)" "\<And>off. off < PGSIZE \<Longrightarrow> kbytes t (frame t T m + off) = kbytes s (frame s Tp m + off)"
    using assms(1) unfolding copied_def by blast+
  note fr = frames_okD [OF aspaceD(5) [OF assms(2)] assms(3) c(1)]
  have "frame t T m \<notin> insert d (set F \<union> ran T)" using fr(2,3,5) by (auto simp: ran_def)
  then have "same_page (frame t T m) (kbytes t) (kbytes u)" by (rule agree_page [OF assms(4) fr(1)])
  moreover have "frame u T' m = frame t T m" "present u T' m" using assms(5) c(1) by (simp_all add: frame_def present_def)
  ultimately show ?thesis using c assms(5) by (simp add: copied_def same_page_def)
qed

lemma copied_parent:
  assumes "copied t Tp u T m" and "entry t Tp m = entry s Tp m" and "same_page (frame s Tp m) (kbytes s) (kbytes t)"
  shows "copied s Tp u T m"
proof -
  have "frame t Tp m = frame s Tp m" using assms(2) by (simp add: frame_def)
  then show ?thesis using assms by (simp add: copied_def same_page_def)
qed

definition copy_post :: "kmem \<Rightarrow> nat list \<Rightarrow> nat set \<Rightarrow> nat \<Rightarrow> (nat \<Rightarrow> nat option) \<Rightarrow> (nat \<Rightarrow> nat option) \<Rightarrow> nat \<Rightarrow> nat \<Rightarrow> bool \<Rightarrow> kmem \<Rightarrow> bool" where
  "copy_post s F R d T Tp i N ok t \<longleftrightarrow> (\<exists>F' T'. aspace t F' R d T' \<and> agree (insert d (set F \<union> ran T)) s t \<and>
     set F' \<union> ran T' \<union> user_frames t T' = set F \<union> ran T \<union> user_frames s T \<and>
     (\<forall>m. m < i \<or> N \<le> m \<longrightarrow> entry t T' m = entry s T m) \<and> (ok \<longrightarrow> (\<forall>m. i \<le> m \<longrightarrow> m < N \<longrightarrow> copied s Tp t T' m)))"

lemma copy_loop:
  assumes "aspace s F R d T" and "parent_ok s R p Tp (npages sz)" and "sz < KERNBASE" and "\<And>m. i \<le> m \<Longrightarrow> m < npages sz \<Longrightarrow> \<not> present s T m"
  shows "\<exists>ok t. copyuvm_loop p d (i * PGSIZE) sz s = Inr (ok, t) \<and> copy_post s F R d T Tp i (npages sz) ok t"
  using assms(1,2,4)
proof (induction "npages sz - i" arbitrary: i s F T)
  case 0
  then have "\<not> i < npages sz" by simp
  then have "copyuvm_loop p d (i * PGSIZE) sz s = Inr (True, s)" by (simp add: copyuvm_loop.simps [of p d "i * PGSIZE"] npages_less)
  moreover have "copy_post s F R d T Tp i (npages sz) True s"
    unfolding copy_post_def using 0 by (intro exI [of _ F] exI [of _ T]) auto
  ultimately show ?case by blast
next
  case (Suc k)
  let ?N = "npages sz"
  have iN: "i < ?N" using Suc.hyps(2) by simp
  have NU: "?N \<le> UPAGES" using npages_UPAGES [of sz] assms(3) by simp
  have iu: "i < UPAGES" using iN NU by simp
  have np: "\<not> present s T i" using Suc.prems(3) iN by simp
  note P = parent_okD [OF Suc.prems(2)]
  let ?va = "i * PGSIZE"
  have va: "PDX ?va = i div 1024" "PTX ?va = i mod 1024"
    using PDX_PTX(1,2) [of ?va] vpn_bound(1) [OF iu] by (simp_all add: vpn_simps)
  obtain w where w: "Tp (i div 1024) = Some w" using P(5) [OF iN] not_present_None by (cases "Tp (i div 1024)") auto
  have walk: "walkpgdir p ?va False s = (Some (w + 4 * (i mod 1024)), s)"
    using walk_hit [OF P(1), of ?va w False] P(4) [OF w] w by (simp add: va)
  have e: "load32 s (w + 4 * (i mod 1024)) = entry s Tp i" using w by (simp add: entry_def)
  have pr: "entry s Tp i AND PTE_P \<noteq> 0" using P(5) [OF iN] by (simp add: present_def)
  obtain mem s1 where al: "kalloc s = (mem, s1)" by fastforce
  have nx: "(i + 1) * PGSIZE = ?va + PGSIZE" by simp
  have step: "copyuvm_loop p d ?va sz s =
      (if mem = 0 then Inr (False, s1)
       else bindR (mappages d ?va PGSIZE (V2P mem) (PTE_FLAGS (entry s Tp i)) (s1 \<lparr> kbytes := memmove (kbytes s1) mem (frame s Tp i) PGSIZE \<rparr>)) (\<lambda>(ok, s).
          if \<not> ok then bindR (kfree mem s) (\<lambda>s. Inr (False, s)) else copyuvm_loop p d ((i + 1) * PGSIZE) sz s))"
    using iN pr unfolding nx by (simp add: copyuvm_loop.simps [of p d ?va] npages_less walk e al Let_def frame_def)
  from copy_page [OF Suc.prems(1,2) iN NU np al] show ?case
  proof (elim disjE exE conjE)
    assume m: "mem = 0" "s1 = s" "F = []"
    have "copy_post s F R d T Tp i ?N False s"
      unfolding copy_post_def using Suc.prems(1) by (intro exI [of _ F] exI [of _ T]) simp
    then show ?thesis using m step by auto
  next
    fix s2 t
    assume m: "mem \<noteq> 0" "mappages d ?va PGSIZE (V2P mem) (PTE_FLAGS (entry s Tp i)) (s1 \<lparr> kbytes := memmove (kbytes s1) mem (frame s Tp i) PGSIZE \<rparr>) = Inr (False, s2)"
      "kfree mem s2 = Inr t" "F = [mem]" "aspace t [mem] R d T" "\<forall>m. entry t T m = entry s T m" "agree {mem} s t"
    have "user_frames t T = user_frames s T" by (rule user_frames_same) (use m(6) in simp)
    moreover have "agree (insert d (set F \<union> ran T)) s t" by (rule agree_mono [OF m(7)]) (simp add: m(4))
    ultimately have "copy_post s F R d T Tp i ?N False t"
      unfolding copy_post_def using m(4-6) by (intro exI [of _ "[mem]"] exI [of _ T]) simp
    moreover have "copyuvm_loop p d ?va sz s = Inr (False, t)" using m(1-3) step by simp
    ultimately show ?thesis by blast
  next
    fix s2 F2 T2
    assume m: "mem \<noteq> 0" "mappages d ?va PGSIZE (V2P mem) (PTE_FLAGS (entry s Tp i)) (s1 \<lparr> kbytes := memmove (kbytes s1) mem (frame s Tp i) PGSIZE \<rparr>) = Inr (True, s2)"
      "aspace s2 F2 R d T2" "copied s Tp s2 T2 i" "\<forall>m. m \<noteq> i \<longrightarrow> entry s2 T2 m = entry s T m" "agree (insert d (set F \<union> ran T)) s s2"
      "insert (frame s2 T2 i) (set F2 \<union> ran T2) = set F \<union> ran T"
    note pa = parent_agree [OF Suc.prems(2) m(6) aspace_R [OF Suc.prems(1)]]
    have k': "k = ?N - (i + 1)" using Suc.hyps(2) by simp
    have np2: "\<not> present s2 T2 n" if "i + 1 \<le> n" "n < ?N" for n using that m(5) Suc.prems(3) [of n] by (simp add: present_def)
    obtain ok t where t: "copyuvm_loop p d ((i + 1) * PGSIZE) sz s2 = Inr (ok, t)" "copy_post s2 F2 R d T2 Tp (i + 1) ?N ok t"
      using Suc.hyps(1) [OF k' m(3) pa(1) np2] by blast
    obtain F' T' where q: "aspace t F' R d T'" "agree (insert d (set F2 \<union> ran T2)) s2 t"
      "set F' \<union> ran T' \<union> user_frames t T' = set F2 \<union> ran T2 \<union> user_frames s2 T2"
      "\<forall>m. m < i + 1 \<or> ?N \<le> m \<longrightarrow> entry t T' m = entry s2 T2 m" "ok \<longrightarrow> (\<forall>m. i + 1 \<le> m \<longrightarrow> m < ?N \<longrightarrow> copied s2 Tp t T' m)"
      using t(2) unfolding copy_post_def by blast
    have pi: "present s2 T2 i" using m(4) by (simp add: copied_def)
    have "user_frames s2 T2 = insert (frame s2 T2 i) (user_frames s T)"
      by (rule user_frames_insert [OF iu pi np]) (use m(5) in simp)
    then have cons: "set F' \<union> ran T' \<union> user_frames t T' = set F \<union> ran T \<union> user_frames s T" using q(3) m(7) by auto
    have sub: "insert d (set F2 \<union> ran T2) \<subseteq> insert d (set F \<union> ran T)" using m(7) by blast
    have "agree (insert d (set F \<union> ran T)) s t" by (rule agree_trans [OF m(6) q(2) order_refl sub])
    moreover have "\<forall>m. m < i \<or> ?N \<le> m \<longrightarrow> entry t T' m = entry s T m" using q(4) m(5) iN by auto
    moreover have "copied s Tp t T' n" if "ok" "i \<le> n" "n < ?N" for n
    proof (cases "n = i")
      case True
      then show ?thesis using copied_keep [OF m(4,3) iu q(2)] q(4) by simp
    next
      case False
      then have "copied s2 Tp t T' n" using q(5) that by simp
      then show ?thesis by (rule copied_parent [OF _ pa(2) pa(3) [OF that(3)]])
    qed
    ultimately have "copy_post s F R d T Tp i ?N ok t" unfolding copy_post_def using q(1) cons by blast
    then show ?thesis using m(1,2) t(1) step by simp
  qed
qed

text \<open>All pages of a directory: itself, its tables and the frames of its user pages.\<close>

definition own_pages :: "kmem \<Rightarrow> nat \<Rightarrow> (nat \<Rightarrow> nat option) \<Rightarrow> nat set" where
  "own_pages s d T = {d} \<union> ran T \<union> user_frames s T"

lemma aspace_own: "aspace s F R d T \<Longrightarrow> set F \<inter> own_pages s d T = {} \<and> R \<inter> own_pages s d T = {}"
proof -
  assume a: "aspace s F R d T"
  note tb = tables_okD [OF aspaceD(4) [OF a]] and fr = frames_okD [OF aspaceD(5) [OF a]]
  show ?thesis using tb(2-4) fr(3,4) by (auto simp: own_pages_def user_frames_def ran_def)
qed

lemma aspace_parent:
  assumes "aspace s F R p T" and "N \<le> UPAGES" and "\<forall>m < N. present s T m"
  shows "parent_ok s (R \<union> own_pages s p T) p T N"
proof -
  note A = aspaceD [OF assms(1)] and tb = tables_okD [OF aspaceD(4) [OF assms(1)]]
  have "present s T m \<and> frame s T m \<in> R \<union> own_pages s p T \<and> page_ok s (frame s T m)" if "m < N" for m
  proof -
    have "m < UPAGES" "present s T m" using that assms(2,3) by simp_all
    then show ?thesis using frames_okD(1) [OF A(5)] by (auto simp: own_pages_def user_frames_def)
  qed
  moreover have "u \<in> R \<union> own_pages s p T \<and> page_ok s u" if "T i = Some u" for i u
    using tb(4) [OF that] ranI [of T, OF that] by (simp add: own_pages_def)
  ultimately show ?thesis using A(3) tb(1) by (simp add: parent_ok_def own_pages_def)
qed



section \<open>Giving back all memory\<close>

text \<open>C21:
  a process that gives back all its memory with \<open>sbrk\<close> brings the kernel down at its next \<open>fork\<close>: \<open>deallocuvm\<close> frees every page and
  returns the new size 0, which \<open>growproc\<close> takes for a failure, so that the process keeps its old size. The next \<open>copyuvm\<close> then
  panics at the first page, unless there is no memory left for the directory of the child.
\<close>

theorem sbrk_all_breaks_fork:
  assumes "aspace s F R d T" and "0 < sz" and "sz < KERNBASE" and "\<forall>m < npages sz. present s T m" and "kdata_ok s"
    and "pr_sz (get_proc pt cur) = sz"
  shows "\<exists>t r u. deallocuvm d sz 0 s = Inr (0, t) \<and> (\<forall>m < npages sz. \<not> present t T m) \<and>
    growproc alloc (\<lambda>old new. case deallocuvm d old new s of Inr (r, _) \<Rightarrow> r | Inl _ \<Rightarrow> 0) cur (- int sz) pt = (-1, pt) \<and>
    setupkvm t = Inr (r, u) \<and> copyuvm d sz t = (if r = 0 then Inr (0, u) else Inl (Panic ''copyuvm: page not present''))"
proof -
  have n0: "npages 0 = 0" by (simp add: npages_def PGSIZE_def)
  have n: "0 < npages sz" using npages_less [of 0 sz] assms(2) by simp
  obtain t F' where t: "deallocuvm d sz 0 s = Inr (0, t)" "aspace t F' R d T"
    "\<forall>m. entry t T m = (if m \<in> mapped_pages s T 0 (npages sz) then 0 else entry s T m)" "kdata_ok t"
    using dealloc_ok [OF assms(1) _ assms(2)] assms(3,5) unfolding n0 by (auto simp: kdata_ok_def agree_def)
  have np: "\<not> present t T m" if "m < npages sz" for m using t(3) assms(4) that by (simp add: present_def mapped_pages_def)
  obtain a where a: "T 0 = Some a" using assms(4) n not_present_None [of T 0 s] by (cases "T 0") auto
  note par = aspace_parent [OF t(2), of 0]
  have dis: "set F' \<inter> (R \<union> own_pages t d T) = {}" using aspaceD(2) [OF t(2)] aspace_own [OF t(2)] by blast
  obtain r u where u: "setupkvm t = Inr (r, u)" "agree (set F') t u" using setup_ok [OF aspaceD(1) [OF t(2)] dis t(4)] by blast
  have pu: "parent_ok u (R \<union> own_pages t d T) d T 0" "\<forall>m. entry u T m = entry t T m"
    using parent_agree [OF _ u(2) dis] par by simp_all
  have "walkpgdir d 0 False u = (Some (a + 4 * PTX 0), u)"
    using walk_hit [OF parent_okD(1) [OF pu(1)], of 0 a False] a parent_okD(4) [OF pu(1) a] by (simp add: PDX_def)
  moreover have "load32 u (a + 4 * PTX 0) AND PTE_P = 0" using np [OF n] pu(2) [THEN spec, of 0] a by (simp add: present_def entry_def PTX_def)
  ultimately have "copyuvm_loop d r 0 sz u = Inl (Panic ''copyuvm: page not present'')"
    using assms(2) by (simp add: copyuvm_loop.simps)
  then have "copyuvm d sz t = (if r = 0 then Inr (0, u) else Inl (Panic ''copyuvm: page not present''))"
    using u(1) by (simp add: copyuvm_def)
  moreover have "growproc alloc (\<lambda>old new. case deallocuvm d old new s of Inr (r, _) \<Rightarrow> r | Inl _ \<Rightarrow> 0) cur (- int sz) pt = (-1, pt)"
    using assms(2,6) t(1) by (simp add: growproc_def)
  ultimately show ?thesis using t(1) np u(1) by blast
qed

theorem sbrk_all_breaks_fork_witness:
  "\<exists>s d F T t r u. aspace s F {} d T \<and> present s T 0 \<and> deallocuvm d 4096 0 s = Inr (0, t) \<and> setupkvm t = Inr (r, u) \<and>
    copyuvm d 4096 t = (if r = 0 then Inr (0, u) else Inl (Panic ''copyuvm: page not present''))"
proof -
  obtain s d F T where a: "aspace s F {} d T" "present s T 0" "kdata s = 0x80104000" using some_user_page by blast
  define pt where "pt = \<lparr> procs = [\<lparr> pr_state = RUNNING, pr_pid = 1, pr_parent = None, pr_chan = None, pr_killed = False,
    pr_kstack = True, pr_pgdir = True, pr_sz = 4096, pr_name = ''init'' \<rparr>], nextpid = 2, initproc = Some 0, cpus = [Some 0] \<rparr>"
  have "\<forall>m < npages 4096. present s T m" using a(2) by (simp add: npages_def PGSIZE_def)
  moreover have "kdata_ok s" using a(3) by (simp add: kdata_ok_def kernel_layout)
  moreover have "pr_sz (get_proc pt 0) = 4096" by (simp add: pt_def)
  moreover have "(0 :: nat) < 4096" "(4096 :: nat) < KERNBASE" by (simp_all add: kernel_layout)
  ultimately obtain t r u where "deallocuvm d 4096 0 s = Inr (0, t)" "setupkvm t = Inr (r, u)"
    "copyuvm d 4096 t = (if r = 0 then Inr (0, u) else Inl (Panic ''copyuvm: page not present''))"
    using sbrk_all_breaks_fork [OF a(1), of 4096 pt 0 "\<lambda>_ _. 0"] by blast
  then show ?thesis using a by blast
qed

end
