(* ===== verification/Spec2Isabelle.thy ===== *)
theory Spec2Isabelle
  imports CQueue Vect Msort Tmsort MyMalloc Mount Shell XvShell XvUtils XvInode XvFile XvTrap XvVmCopy
begin

text \<open>
  A verification library for the systems coursework under \<open>src/\<close>: C data structures, sequential and
  threaded merge sort, a memory allocator, a FUSE file system, a command shell, and an xv6 kernel
  extended with I/O statistics. Each C function is one definition; statements that can fail run in
  the error monad \<open>c_error + 'a\<close> of theory \<open>Prelude\<close>, whose errors are the ways a C program goes
  wrong: a failed assertion, a null or dangling pointer, an access out of bounds, signed overflow,
  exit, a kernel panic, and not returning. Machine integers are words where they wrap, and numbers
  where the code keeps them in range. What the C library, the operating system or the hardware
  answer (whether an allocation or the creation of a thread succeeds, what \<open>fork\<close> returns, what a
  device delivers) is an argument of the definitions. The exceptions, where the answer is taken to be
  success, are the nodes allocated for path components and directory listings in the file system
  (\<open>Directory\<close>; the list of components alone, with failing allocation, is in \<open>SList\<close>), the command nodes
  of the xv6 shell (\<open>XvShell\<close>), reads in \<open>grep\<close> and \<open>cat\<close> (\<open>XvUtils\<close>), and output, whose result no
  program looks at.

  \<^bold>\<open>Data structures\<close> (\<open>Data Structures C/\<close>). \<open>CQueue\<close> models the circular queue of \<open>queue.c\<close> as a
  record with its ring buffer. Theory \<open>Fifo\<close> states the contract of a bounded queue as the locale
  \<open>bounded_fifo\<close> and proves there, once, that any series of calls delivers the items in order; the
  queue and the kernel pipe below are its two interpretations. \<open>Vect\<close> models the growable vector of
  \<open>vect.c\<close>, with slots that record freed and unwritten pointers; \<open>Growable\<close> holds the locale
  \<open>appendable\<close> and its extension \<open>growable\<close>, interpreted by the vector and, for the token array of
  the shell, by \<open>Tokens\<close>. The lemmas show that both are lists up to their capacity, and what a failed
  allocation does to the vector.

  \<^bold>\<open>Sorting\<close> (\<open>Concurrent Sorting/\<close>). \<open>Msort\<close> models \<open>msort.c\<close> and shows that it sorts and stays in
  bounds. \<open>Conc\<close> is a small language of threads that fork, join and access shared arrays one access
  at a time, and that may fail; \<open>Tmsort\<close> expresses \<open>tmsort.c\<close> in it and shows that, when all threads can
  be created and the thread count does not overflow, every schedule ends in the result of the
  sequential sort, because threads own disjoint ranges, and that otherwise the program does not return.

  \<^bold>\<open>Allocator\<close> (\<open>Memory Allocator/\<close>). \<open>MyMalloc\<close> has the block list of \<open>mymalloc.c\<close> in memory: fresh
  blocks are disjoint from all others, and reused blocks stay marked free, so that they are handed
  out twice.

  \<^bold>\<open>File system\<close> (\<open>File System/\<close>). The state is the image, a list of bytes. \<open>Image\<close> reads and writes
  its structures, \<open>Bitmap\<close>, \<open>Blocks\<close>, \<open>Inode\<close>, \<open>SList\<close>, \<open>ListH\<close>, \<open>Directory\<close>, \<open>Storage\<close> and \<open>StorageDir\<close>
  model the files of the same names, \<open>Nufs\<close> the FUSE callbacks and \<open>Mount\<close> the mounted system. The
  lemmas show what growing and writing a file does, that reads return what was written, that lookup
  follows paths, that listing a directory ends, and where errors are not caught.

  \<^bold>\<open>Shell\<close> (\<open>Shell/\<close>). \<open>Tokens\<close> models the tokenizer with its growing array and its fixed buffers,
  \<open>Shell\<close> the evaluator; system calls go to a trace, and the kernel's answers are a function of the
  trace and the call. The lemmas give the calls made for sequences, the descriptors the programs of a
  pipe get, and the inputs on which the shell crashes or does not return. The fuel of \<open>get_tokens\<close> is the depth of its recursion: each
  level retrieves a previous command, one level suffices for every line that is not itself a request
  for the previous command, and the recursion is shown not to end for that one.

  \<^bold>\<open>xv6 user programs\<close> (\<open>xv6 Hacking/xv6/\<close>). \<open>XvShell\<close> models \<open>sh.c\<close>: the recursive-descent parser on
  the buffer and its in-place termination of words, and the evaluator. The fuel of the parser is four
  times the length of the line plus four; that this is enough for every line, and that no read of the
  line is out of bounds, is part of the theorem that the parser returns. \<open>XvUtils\<close> models \<open>grep\<close>, \<open>wc\<close> and \<open>cat\<close>; the matcher of \<open>grep\<close> decides the
  declared meaning of patterns. \<open>XvLib\<close> models \<open>string.c\<close>, \<open>ulib.c\<close> and \<open>printf.c\<close>.

  \<^bold>\<open>xv6 kernel\<close>. \<open>XvPipe\<close> models \<open>pipe.c\<close> as a step system of a writer and a reader: every schedule
  delivers the message, also when the 32-bit counters wrap, and none blocks for good. \<open>XvLog\<close> models
  the write-ahead log \<open>log.c\<close>: the disk writes are recorded in order, a crash is a point between two
  of them, and recovery, which may itself be interrupted, finds all of a transaction or nothing.
  \<open>XvFs\<close> models \<open>fs.c\<close> over that log: the free map, the inode cache, direct and indirect blocks,
  directories and path names. \<open>XvInode\<close> shows that a file is an array of bytes that \<open>readi\<close> and
  \<open>writei\<close> read and write, and that allocation touches nothing in use; the hypotheses on the log and
  on free blocks, six logged and two fresh blocks for each block written, are a generous bound on
  what the code needs. \<open>XvFile\<close> models \<open>file.c\<close>, the system calls of \<open>sysfile.c\<close> and the fetching of
  their arguments, with the descriptors of all processes: every reference count is right after any
  sequence of calls, forks, exits and switches. It also covers the added call \<open>getiostats\<close>, which
  counts requests instead of transfers and checks neither its descriptor nor its address.

  \<^bold>\<open>xv6 processes and memory\<close>. \<open>XvProc\<close> models the process table of \<open>proc.c\<close> with any number of processors
  as a step system whose steps are the functions under the table lock: numbers stay distinct, every
  process has a living parent, a running process is on one processor, and no parent sleeps in \<open>wait\<close>
  beside a child that has ended. A call that gives up the processor ends there, and what it does when
  it runs again is the next call or a definition of its own; \<open>fork\<close> is taken as one step. \<open>XvTrap\<close>
  models \<open>trap.c\<close> and \<open>sysproc.c\<close> over it: a killed process does not return to user mode. \<open>XvKalloc\<close>
  models \<open>kalloc.c\<close>, the free list threaded through the free pages of memory, and shows that no page
  is lost or given out twice. \<open>XvVm\<close> models the page directories and tables of \<open>vm.c\<close> as words of
  that memory, and \<open>XvVm\<close> and \<open>XvVmCopy\<close> show that growing, freeing, copying and writing an address
  space do what they promise for every directory and every amount of memory left. The fuel of
  \<open>mappages_loop\<close> is the number of pages from the first to the last and that of \<open>deallocuvm_loop\<close> the
  number of pages below the old size plus two; the theorems show that both suffice, since the calls
  return. The last theorem joins both parts: a process that gives back all of its memory makes its next
  \<open>fork\<close> panic, unless no memory is left for the directory of the child.

  \<^bold>\<open>Not modelled\<close>. Boot code and device drivers (\<open>bootmain.c\<close>, \<open>main.c\<close>, \<open>lapic.c\<close>, \<open>ioapic.c\<close>, \<open>mp.c\<close>,
  \<open>picirq.c\<close>, \<open>ide.c\<close>, \<open>memide.c\<close>, \<open>uart.c\<close>, \<open>kbd.c\<close>, \<open>console.c\<close>) and the assembly sources act on hardware
  registers, as do \<open>seginit\<close>, \<open>kvmalloc\<close>, \<open>switchkvm\<close> and \<open>switchuvm\<close> of \<open>vm.c\<close>, \<open>tvinit\<close> and \<open>idtinit\<close> of
  \<open>trap.c\<close> and \<open>sys_halt\<close>. Registers and saved contexts are not part of the processes. Program loading
  (\<open>exec.c\<close>) is not composed from the routines it calls. The locks (\<open>spinlock.c\<close>, \<open>sleeplock.c\<close>) are
  left to the assumption that a locked section is one step, and in the file system that one call runs
  at a time; the buffer cache \<open>bio.c\<close> appears as its clients see it. The allocator of user programs
  \<open>umalloc.c\<close> and the image builder \<open>mkfs.c\<close> are left out. Test programs and drivers (\<open>usertests.c\<close>, the
  \<open>test\<close> programs of every part), the vendored \<open>munit\<close>, tracing scripts, and small programs that only
  pass arguments to system calls have no behaviour of their own to verify. Output formatting, timing
  and prompts are left out of the programs that are modelled.
\<close>

end
